(* ===== verification/Prelude.thy ===== *)
theory Prelude
  imports Main "HOL-Library.Char_ord"
begin

text \<open>
  What every component shares: the fact collections of the development, JavaScript
  objects (property lists in insertion order) with the interface the components rely on,
  exceptions as values, and the string operations of the language that the scripts call.

  Strings are lists of code units. Isabelle's \<^typ>\<open>char\<close> has eight bits, so a string of the
  model is a JavaScript string whose code units are all below 256.
\<close>

named_theorems js_simps \<open>unfolding rules of the JavaScript primitives\<close>
named_theorems js_obj \<open>lookup rules of JavaScript objects\<close>

section \<open>Exceptions as values\<close>

datatype exn =
    TypeError
  | SyntaxError
  | URIError
  | ErrorMsg string

type_synonym 'a result = "exn + 'a"

definition bind_res :: "'a result \<Rightarrow> ('a \<Rightarrow> 'b result) \<Rightarrow> 'b result" where
  "bind_res m f = (case m of Inl e \<Rightarrow> Inl e | Inr a \<Rightarrow> f a)"

lemma bind_res_simps [simp]:
  "bind_res (Inl e) f = Inl e"
  "bind_res (Inr a) f = f a"
  by (simp_all add: bind_res_def)

lemma bind_res_eq_Inr:
  "bind_res m f = Inr b \<longleftrightarrow> (\<exists>a. m = Inr a \<and> f a = Inr b)"
  by (cases m) auto

section \<open>Objects\<close>

text \<open>
  An object is the list of its properties in insertion order, which is the order in which
  \<open>for in\<close> and \<open>$.each\<close> visit them (for keys that are not array indices). Writing an
  existing key keeps its place; deleting and writing again moves it to the end.
\<close>

type_synonym ('k, 'v) obj = "('k \<times> 'v) list"

definition oget :: "('k, 'v) obj \<Rightarrow> 'k \<Rightarrow> 'v option" where
  "oget m k = map_of m k"

fun oset :: "('k, 'v) obj \<Rightarrow> 'k \<Rightarrow> 'v \<Rightarrow> ('k, 'v) obj" where
  "oset [] k v = [(k, v)]"
| "oset ((k', v') # m) k v = (if k' = k then (k, v) # m else (k', v') # oset m k v)"

definition odel :: "('k, 'v) obj \<Rightarrow> 'k \<Rightarrow> ('k, 'v) obj" where
  "odel m k = filter (\<lambda>(k', v). k' \<noteq> k) m"

definition okeys :: "('k, 'v) obj \<Rightarrow> 'k list" where
  "okeys m = map fst m"

definition oextend :: "('k, 'v) obj \<Rightarrow> ('k, 'v) obj \<Rightarrow> ('k, 'v) obj" where
  "oextend m n = foldl (\<lambda>acc (k, v). oset acc k v) m n"

definition wf_obj :: "('k, 'v) obj \<Rightarrow> bool" where
  "wf_obj m \<longleftrightarrow> distinct (map fst m)"

text \<open>The interface: what a client of an object may rely on.\<close>

locale js_object =
  fixes get :: "'o \<Rightarrow> 'k \<Rightarrow> 'v option"
    and put :: "'o \<Rightarrow> 'k \<Rightarrow> 'v \<Rightarrow> 'o"
    and del :: "'o \<Rightarrow> 'k \<Rightarrow> 'o"
    and keys :: "'o \<Rightarrow> 'k list"
    and inv :: "'o \<Rightarrow> bool"
  assumes get_put: "get (put m k v) k' = (if k' = k then Some v else get m k')"
    and get_del: "get (del m k) k' = (if k' = k then None else get m k')"
    and keys_put: "keys (put m k v) = (if k \<in> set (keys m) then keys m else keys m @ [k])"
    and keys_del: "keys (del m k) = filter (\<lambda>x. x \<noteq> k) (keys m)"
    and keys_get: "k \<in> set (keys m) \<longleftrightarrow> get m k \<noteq> None"
    and inv_put: "inv m \<Longrightarrow> inv (put m k v)"
    and inv_del: "inv m \<Longrightarrow> inv (del m k)"
    and inv_keys: "inv m \<Longrightarrow> distinct (keys m)"
begin

lemma get_put_same: "get (put m k v) k = Some v"
  by (simp add: get_put)

lemma put_moves_to_end: "keys (put (del m k) k v) = filter (\<lambda>x. x \<noteq> k) (keys m) @ [k]"
  by (simp add: keys_put keys_del)

lemma get_fold_put:
  "get (foldl (\<lambda>acc (k, v). put acc k v) m ps) k =
     (case map_of (rev ps) k of None \<Rightarrow> get m k | Some v \<Rightarrow> Some v)"
  by (induction ps arbitrary: m) (auto simp: get_put map_add_def split: option.splits)

lemma inv_fold_put: "inv m \<Longrightarrow> inv (foldl (\<lambda>acc (k, v). put acc k v) m ps)"
  by (induction ps arbitrary: m) (auto simp: inv_put)

lemma keys_fold_put_prefix:
  "\<exists>ks. keys (foldl (\<lambda>acc (k, v). put acc k v) m ps) = keys m @ ks \<and> set ks \<subseteq> fst ` set ps"
proof (induction ps arbitrary: m)
  case Nil
  then show ?case by simp
next
  case (Cons p ps)
  obtain k v where p: "p = (k, v)" by (cases p)
  from Cons.IH [of "put m k v"] obtain ks where
    "keys (foldl (\<lambda>acc (k, v). put acc k v) (put m k v) ps) = keys (put m k v) @ ks"
    "set ks \<subseteq> fst ` set ps" by blast
  then show ?case by (auto simp: p keys_put)
qed

lemma distinct_put: "inv m \<Longrightarrow> distinct (keys (put m k v))"
  by (intro inv_keys inv_put)

lemma length_keys_put:
  "length (keys (put m k v)) = (if get m k = None then Suc (length (keys m)) else length (keys m))"
  by (simp add: keys_put keys_get)

lemma length_keys_del:
  assumes "inv m"
  shows "length (keys (del m k)) = (if get m k = None then length (keys m) else length (keys m) - 1)"
proof -
  have d: "distinct (keys m)" using assms by (rule inv_keys)
  have "length (keys (del m k)) = card (set (keys m) - {k})"
    using distinct_card [of "filter (\<lambda>x. x \<noteq> k) (keys m)"] d
    by (simp add: keys_del set_minus_filter_out)
  then show ?thesis
    using keys_get [of k m] d by (simp add: distinct_card)
qed

end

lemma map_fst_oset:
  "map fst (oset m k v) = (if k \<in> fst ` set m then map fst m else map fst m @ [k])"
proof (induction m)
  case (Cons p m)
  then show ?case by (cases p) auto
qed simp

lemma map_of_oset: "map_of (oset m k v) = (map_of m)(k \<mapsto> v)"
  by (induction m) auto

lemma map_of_odel: "map_of (odel m k) = (map_of m)(k := None)"
  unfolding odel_def by (induction m) auto

lemma wf_oset: "wf_obj m \<Longrightarrow> wf_obj (oset m k v)"
  by (auto simp: wf_obj_def map_fst_oset)

lemma wf_odel: "wf_obj m \<Longrightarrow> wf_obj (odel m k)"
  unfolding wf_obj_def odel_def by (induction m) (auto split: if_splits)

lemma okeys_odel: "okeys (odel m k) = filter (\<lambda>x. x \<noteq> k) (okeys m)"
  unfolding okeys_def odel_def by (induction m) auto

lemma keys_oset: "okeys (oset m k v) = (if k \<in> set (okeys m) then okeys m else okeys m @ [k])"
  by (simp add: okeys_def map_fst_oset)

lemma distinct_okeys: "wf_obj m \<Longrightarrow> distinct (okeys m)"
  by (simp add: wf_obj_def okeys_def)

interpretation obj: js_object oget oset odel okeys wf_obj
proof unfold_locales
  show "k \<in> set (okeys m) \<longleftrightarrow> oget m k \<noteq> None" for k and m :: "('k, 'v) obj"
    by (simp add: okeys_def oget_def map_of_eq_None_iff)
qed (auto simp: oget_def map_of_oset map_of_odel okeys_odel wf_oset wf_odel
      keys_oset distinct_okeys)

lemmas [js_obj] = obj.get_put obj.get_del obj.keys_put obj.keys_del

lemma oget_Nil [simp]: "oget [] k = None"
  by (simp add: oget_def)

lemma oget_Cons [simp]: "oget ((k', v) # m) k = (if k = k' then Some v else oget m k)"
  by (simp add: oget_def)

lemma okeys_simps [simp]: "okeys [] = []" "okeys ((k, v) # m) = k # okeys m"
  by (simp_all add: okeys_def)

lemma wf_obj_Nil [simp]: "wf_obj []"
  by (simp add: wf_obj_def)

lemma oget_oextend:
  "oget (oextend m n) k = (case map_of (rev n) k of None \<Rightarrow> oget m k | Some v \<Rightarrow> Some v)"
  unfolding oextend_def by (rule obj.get_fold_put)

lemma wf_oextend: "wf_obj m \<Longrightarrow> wf_obj (oextend m n)"
  unfolding oextend_def by (rule obj.inv_fold_put)

end
