(* ===== verification/JsString.thy ===== *)
theory JsString
  imports Prelude
begin

text \<open>
  The string and integer operations of the JavaScript library that the scripts call, on
  strings of code units below 256. Results that are NaN in JavaScript are \<^const>\<open>None\<close>; the
  integers are exact, which is what doubles give below \<open>2 ^ 53\<close>.
\<close>

section \<open>Characters\<close>

definition is_digit :: "char \<Rightarrow> bool" where
  "is_digit c \<longleftrightarrow> CHR ''0'' \<le> c \<and> c \<le> CHR ''9''"

definition digit_val :: "char \<Rightarrow> int" where
  "digit_val c = of_char c - 48"

definition digit_char :: "nat \<Rightarrow> char" where
  "digit_char d = char_of (48 + d)"

definition is_ws :: "char \<Rightarrow> bool" where
  "is_ws c \<longleftrightarrow> c \<in> {CHR 0x09, CHR 0x0A, CHR 0x0B, CHR 0x0C, CHR 0x0D, CHR 0x20, CHR 0xA0}"

text \<open>
  Upper-casing one code unit gives a string: only sharp s grows (to two letters). The upper
  cases of 0xB5 and 0xFF lie outside the modelled code units; they are left unchanged, as no
  script tests for them.
\<close>

definition up_char :: "char \<Rightarrow> string" where
  "up_char c =
     (if CHR ''a'' \<le> c \<and> c \<le> CHR ''z'' then [char_of (of_char c - 32 :: nat)]
      else if c = CHR 0xDF then ''SS''
      else if CHR 0xE0 \<le> c \<and> c \<le> CHR 0xFE \<and> c \<noteq> CHR 0xF7 then [char_of (of_char c - 32 :: nat)]
      else [c])"

definition low_char :: "char \<Rightarrow> char" where
  "low_char c =
     (if CHR ''A'' \<le> c \<and> c \<le> CHR ''Z'' then char_of (of_char c + 32 :: nat)
      else if CHR 0xC0 \<le> c \<and> c \<le> CHR 0xDE \<and> c \<noteq> CHR 0xD7 then char_of (of_char c + 32 :: nat)
      else c)"

definition to_upper :: "string \<Rightarrow> string" where
  "to_upper s = concat (map up_char s)"

definition to_lower :: "string \<Rightarrow> string" where
  "to_lower s = map low_char s"

section \<open>Substrings and searching\<close>

definition char_at :: "string \<Rightarrow> nat \<Rightarrow> string" where
  "char_at s i = (if i < length s then [s ! i] else [])"

definition substring :: "string \<Rightarrow> nat \<Rightarrow> nat \<Rightarrow> string" where
  "substring s a b = take (max a b - min a b) (drop (min a b) s)"

definition substr_from :: "string \<Rightarrow> nat \<Rightarrow> string" where
  "substr_from s i = drop i s"

definition substr :: "string \<Rightarrow> nat \<Rightarrow> nat \<Rightarrow> string" where
  "substr s i n = take n (drop i s)"

definition substr_last :: "string \<Rightarrow> nat \<Rightarrow> string" where
  \<comment> \<open>\<open>substr(-n)\<close>: the last \<open>n\<close> code units\<close>
  "substr_last s n = drop (length s - n) s"

fun starts_with :: "string \<Rightarrow> string \<Rightarrow> bool" where
  "starts_with s [] = True"
| "starts_with [] (p # ps) = False"
| "starts_with (c # s) (p # ps) = (c = p \<and> starts_with s ps)"

fun index_of :: "string \<Rightarrow> string \<Rightarrow> nat option" where
  "index_of [] p = (if p = [] then Some 0 else None)"
| "index_of (c # s) p = (if starts_with (c # s) p then Some 0 else map_option Suc (index_of s p))"

fun last_index_of :: "string \<Rightarrow> char \<Rightarrow> nat option" where
  "last_index_of [] p = None"
| "last_index_of (c # s) p =
     (case last_index_of s p of Some i \<Rightarrow> Some (Suc i) | None \<Rightarrow> if c = p then Some 0 else None)"

fun split_on :: "char \<Rightarrow> string \<Rightarrow> string list" where
  "split_on d [] = [[]]"
| "split_on d (c # s) =
     (if c = d then [] # split_on d s
      else (case split_on d s of [] \<Rightarrow> [[c]] | w # ws \<Rightarrow> (c # w) # ws))"

fun join :: "string \<Rightarrow> string list \<Rightarrow> string" where
  "join d [] = []"
| "join d [w] = w"
| "join d (w # v # ws) = w @ d @ join d (v # ws)"

section \<open>Integers and digit strings\<close>

fun digits_val :: "string \<Rightarrow> int" where
  "digits_val [] = 0"
| "digits_val (c # cs) = digit_val c * 10 ^ length cs + digits_val cs"

definition all_digits :: "string \<Rightarrow> bool" where
  "all_digits s \<longleftrightarrow> list_all is_digit s"

text \<open>\<open>parseInt(s, 10)\<close>: skip white space, read a sign, read the longest run of digits.\<close>

definition parse_int :: "string \<Rightarrow> int option" where
  "parse_int s =
     (let t = dropWhile is_ws s;
          neg = (t \<noteq> [] \<and> hd t = CHR ''-'');
          u = (if t \<noteq> [] \<and> (hd t = CHR ''-'' \<or> hd t = CHR ''+'') then tl t else t);
          ds = takeWhile is_digit u
      in if ds = [] then None else Some (if neg then - digits_val ds else digits_val ds))"

text \<open>
  \<open>+c\<close> for a string of at most one code unit: a digit is its value, the empty string and
  white space are zero, anything else is NaN.
\<close>

definition char_num :: "string \<Rightarrow> int option" where
  "char_num s = (if s = [] then Some 0
     else if is_ws (hd s) then Some 0
     else if is_digit (hd s) then Some (digit_val (hd s)) else None)"

fun nat_str :: "nat \<Rightarrow> string" where
  "nat_str n = (if n < 10 then [digit_char n] else nat_str (n div 10) @ [digit_char (n mod 10)])"

declare nat_str.simps [simp del]

definition int_str :: "int \<Rightarrow> string" where
  "int_str i = (if i < 0 then CHR ''-'' # nat_str (nat (- i)) else nat_str (nat i))"

text \<open>Arithmetic on numbers that may be NaN.\<close>

definition num2 :: "(int \<Rightarrow> int \<Rightarrow> int) \<Rightarrow> int option \<Rightarrow> int option \<Rightarrow> int option" where
  "num2 f a b = (case a of None \<Rightarrow> None | Some x \<Rightarrow> (case b of None \<Rightarrow> None | Some y \<Rightarrow> Some (f x y)))"

text \<open>\<open>===\<close> on two numbers: NaN differs from everything.\<close>

definition num_eq :: "int option \<Rightarrow> int option \<Rightarrow> bool" where
  "num_eq a b \<longleftrightarrow> a \<noteq> None \<and> a = b"

lemma num2_simps [simp]:
  "num2 f None b = None" "num2 f a None = None" "num2 f (Some x) (Some y) = Some (f x y)"
  by (auto simp: num2_def split: option.splits)

lemma num_eq_simps [simp]:
  "num_eq None b = False" "num_eq a None = False" "num_eq (Some x) (Some y) = (x = y)"
  by (auto simp: num_eq_def)

section \<open>Facts\<close>

lemma char_le_digit: "CHR ''0'' \<le> c \<longleftrightarrow> 48 \<le> (of_char c :: nat)"
  by (simp add: less_eq_char_def)

lemma is_digit_of_char: "is_digit c \<longleftrightarrow> 48 \<le> (of_char c :: nat) \<and> (of_char c :: nat) \<le> 57"
  by (simp add: is_digit_def less_eq_char_def)

lemma of_char_int: "(of_char c :: int) = int (of_char c)"
  by (rule of_nat_of_char [symmetric])

lemma digit_val_range: "is_digit c \<Longrightarrow> 0 \<le> digit_val c \<and> digit_val c \<le> 9"
  unfolding is_digit_of_char digit_val_def of_char_int by linarith

lemma digit_val_inj: "is_digit c \<Longrightarrow> is_digit d \<Longrightarrow> digit_val c = digit_val d \<Longrightarrow> c = d"
  by (simp add: digit_val_def of_char_int del: of_nat_of_char)

lemma is_digit_digit_char [simp]: "d < 10 \<Longrightarrow> is_digit (digit_char d)"
  by (simp add: is_digit_of_char digit_char_def)

lemma digit_val_digit_char [simp]: "d < 10 \<Longrightarrow> digit_val (digit_char d) = int d"
  by (simp add: digit_val_def digit_char_def of_char_int del: of_nat_of_char)

lemma is_digit_not_ws: "is_digit c \<Longrightarrow> \<not> is_ws c"
  by (auto simp: is_ws_def is_digit_of_char)

lemma is_digit_not_sign: "is_digit c \<Longrightarrow> c \<noteq> CHR ''-'' \<and> c \<noteq> CHR ''+''"
  by (auto simp: is_digit_of_char)

lemma parse_int_digits:
  assumes "all_digits s" "s \<noteq> []"
  shows "parse_int s = Some (digits_val s)"
proof -
  obtain c cs where s: "s = c # cs" using assms(2) by (cases s) auto
  have c: "is_digit c" using assms(1) by (simp add: s all_digits_def)
  have "dropWhile is_ws s = s" using is_digit_not_ws [OF c] by (simp add: s)
  moreover have "takeWhile is_digit s = s"
    using assms(1) by (simp add: all_digits_def takeWhile_eq_all_conv list_all_iff)
  ultimately show ?thesis using is_digit_not_sign [OF c] assms(2)
    by (simp add: parse_int_def Let_def s)
qed

lemma parse_int_digit: "is_digit c \<Longrightarrow> parse_int [c] = Some (digit_val c)"
  using parse_int_digits [of "[c]"] by (simp add: all_digits_def)

lemma char_num_digit: "is_digit c \<Longrightarrow> char_num [c] = Some (digit_val c)"
  by (simp add: char_num_def is_digit_not_ws)

lemma digits_val_append: "digits_val (a @ b) = digits_val a * 10 ^ length b + digits_val b"
  by (induction a) (auto simp: power_add algebra_simps)

lemma digits_val_nonneg: "all_digits s \<Longrightarrow> 0 \<le> digits_val s"
  by (induction s) (auto simp: all_digits_def digit_val_range)

lemma digits_val_bound: "all_digits s \<Longrightarrow> digits_val s < 10 ^ length s"
proof (induction s)
  case (Cons c s)
  then have "digit_val c \<le> 9" "digits_val s < 10 ^ length s"
    by (auto simp: all_digits_def digit_val_range)
  moreover from this have "digit_val c * 10 ^ length s \<le> 9 * 10 ^ length s"
    by (intro mult_right_mono) auto
  moreover have "(10::int) ^ length (c # s) = 9 * 10 ^ length s + 10 ^ length s" by simp
  ultimately show ?case unfolding digits_val.simps by linarith
qed simp

lemma length_nat_str: "0 < length (nat_str n)"
  by (subst nat_str.simps) simp

lemma all_digits_nat_str: "all_digits (nat_str n)"
proof (induction n rule: nat_str.induct)
  case (1 n)
  then show ?case
    by (subst nat_str.simps) (auto simp: all_digits_def)
qed

lemma digits_val_nat_str: "digits_val (nat_str n) = int n"
proof (induction n rule: nat_str.induct)
  case (1 n)
  show ?case
  proof (cases "n < 10")
    case True
    then show ?thesis by (subst nat_str.simps) simp
  next
    case False
    then have "digits_val (nat_str n) = int (n div 10) * 10 + int (n mod 10)"
      using 1 by (subst nat_str.simps) (simp add: digits_val_append)
    then show ?thesis by (simp add: zdiv_int zmod_int)
  qed
qed

lemma starts_with_iff: "starts_with s p \<longleftrightarrow> (\<exists>t. s = p @ t)"
  by (induction s p rule: starts_with.induct) auto

lemma last_index_of_None: "last_index_of s p = None \<longleftrightarrow> p \<notin> set s"
  by (induction s) (auto split: option.splits)

lemma last_index_of_Some:
  "last_index_of s p = Some i \<Longrightarrow> i < length s \<and> s ! i = p \<and> p \<notin> set (drop (Suc i) s)"
  by (induction s arbitrary: i)
    (auto split: option.splits if_splits simp: last_index_of_None)

lemma split_on_not_Nil [simp]: "split_on d s \<noteq> []"
  by (induction s) (auto split: list.splits)

lemma join_split_on: "join [d] (split_on d s) = s"
proof (induction s)
  case (Cons c s)
  obtain w ws where w: "split_on d s = w # ws"
    using split_on_not_Nil [of d s] by (cases "split_on d s") auto
  with Cons show ?case by (cases ws) auto
qed simp

lemma split_on_parts: "w \<in> set (split_on d s) \<Longrightarrow> d \<notin> set w"
  by (induction s arbitrary: w) (auto split: list.splits if_splits)

lemma split_on_append: "d \<notin> set a \<Longrightarrow> split_on d (a @ d # b) = a # split_on d b"
  by (induction a) auto

lemma split_on_absent: "d \<notin> set a \<Longrightarrow> split_on d a = [a]"
  by (induction a) auto

lemma split_on_join:
  "ws \<noteq> [] \<Longrightarrow> \<forall>w \<in> set ws. d \<notin> set w \<Longrightarrow> split_on d (join [d] ws) = ws"
proof (induction ws)
  case (Cons w ws)
  then show ?case by (cases ws) (simp_all add: split_on_append split_on_absent)
qed simp

lemma split_on_cut:
  assumes "split_on d v = q @ r" "q \<noteq> []" "r \<noteq> []"
  shows "\<exists>w u. v = w @ d # u \<and> split_on d u = r"
proof -
  have parts: "\<forall>x \<in> set r. d \<notin> set x" using split_on_parts [of _ d v] assms(1) by auto
  have "join [d] (q @ r) = join [d] q @ d # join [d] r"
    using assms(2,3)
  proof (induction q)
    case (Cons a q)
    then show ?case by (cases q; cases r) simp_all
  qed simp
  then have "v = join [d] q @ d # join [d] r" using join_split_on [of d v] assms(1) by simp
  then show ?thesis using split_on_join [OF assms(3) parts] by blast
qed

lemma split_on_at: "split_on d (w @ d # v) = split_on d w @ split_on d v"
  by (induction w) (auto split: list.split)

lemma digits_absent: "all_digits a \<Longrightarrow> \<not> is_digit d \<Longrightarrow> d \<notin> set a"
  by (auto simp: all_digits_def list_all_iff)

text \<open>Characters are compared by their codes.\<close>

lemma char_less_nat: "(c :: char) < d \<longleftrightarrow> (of_char c :: nat) < of_char d"
  by (simp add: less_char_def)

lemma char_le_nat: "(c :: char) \<le> d \<longleftrightarrow> (of_char c :: nat) \<le> of_char d"
  by (simp add: less_eq_char_def)

end
