(* ===== verification/Upload.thy ===== *)
theory Upload
  imports JsString
begin

text \<open>
  The chunked upload: \<open>wwwroot/js/upload.js\<close> on the client and the action
  \<open>HomeController.Upload\<close> that receives a chunk. The loop of \<open>uploadFileInChunks\<close> is a
  recursive function over the byte list; the asynchronous part (one reader and one request
  per chunk, all started at once, finishing in any order) is a step relation. A chunk is
  posted when its reader ends, the server answers, and the continuation after \<open>await\<close> counts
  the answer and shows the progress.
\<close>

section \<open>Cutting the file\<close>

definition CHUNK_SIZE :: nat where
  "CHUNK_SIZE = 10 * 1024 * 1024"

definition total_chunks :: "nat \<Rightarrow> nat" where
  \<comment> \<open>\<open>Math.ceil(file.size / CHUNK_SIZE)\<close>\<close>
  "total_chunks sz = (sz + CHUNK_SIZE - 1) div CHUNK_SIZE"

definition slice :: "'b list \<Rightarrow> nat \<Rightarrow> nat \<Rightarrow> 'b list" where
  "slice cont s e = take (e - s) (drop s cont)"

function chunk_loop :: "'b list \<Rightarrow> nat \<Rightarrow> (nat \<times> 'b list) list" where
  "chunk_loop cont start =
     (if start < length cont
      then (start div CHUNK_SIZE, slice cont start (min (start + CHUNK_SIZE) (length cont)))
             # chunk_loop cont (start + CHUNK_SIZE)
      else [])"
  by pat_completeness auto
termination
  by (relation "measure (\<lambda>(cont, start). length cont - start)") (auto simp: CHUNK_SIZE_def)

declare chunk_loop.simps [simp del]

section \<open>The server\<close>

text \<open>The temporary folder maps a file name, the chunk's index, to its bytes.\<close>

type_synonym 'b folder = "nat \<Rightarrow> 'b list option"

datatype answer = ChunkUploaded | InvalidChunk

definition upload_action :: "'b folder \<Rightarrow> 'b list option \<Rightarrow> nat \<Rightarrow> 'b folder \<times> answer" where
  "upload_action temp chunk index =
     (case chunk of
        None \<Rightarrow> (temp, InvalidChunk)
      | Some bytes \<Rightarrow>
          if 0 < length bytes then (temp(index \<mapsto> bytes), ChunkUploaded)
          else (temp, InvalidChunk))"

text \<open>What the files of the folder, read in the order of their indices, add up to.\<close>

definition reassemble :: "'b folder \<Rightarrow> nat \<Rightarrow> 'b list" where
  "reassemble temp n = concat (map (\<lambda>i. case temp i of None \<Rightarrow> [] | Some b \<Rightarrow> b) [0..<n])"

section \<open>Progress\<close>

text \<open>
  The page: the text of the progress bar and the number of times the completion alert was
  shown. The percentage has two decimals, rounded to the nearest (halves up).
\<close>

record page =
  bar :: string
  alerts :: nat

definition percent_text :: "nat \<Rightarrow> nat \<Rightarrow> string" where
  "percent_text cnt tot =
     (let h = (2 * 10000 * cnt + tot) div (2 * tot)
      in nat_str (h div 100) @ ''.'' @ [digit_char (h mod 100 div 10), digit_char (h mod 10)])"

definition update_progress :: "nat \<Rightarrow> nat \<Rightarrow> page \<Rightarrow> page" where
  "update_progress cnt tot p =
     (let p' = p\<lparr>bar := ''Upload Progress: '' @ percent_text cnt tot @ ''%''\<rparr>
      in if cnt = tot then p'\<lparr>alerts := Suc (alerts p')\<rparr> else p')"

section \<open>The concurrent uploads\<close>

text \<open>
  A chunk's task: its reader has not ended; its request is on the way; the server has
  answered; the answer is counted; the request was rejected.
\<close>

datatype phase = Reading | Posting | Answered | Counted | Rejected

record 'b upload =
  chunks :: "(nat \<times> 'b list) list"
  phases :: "nat \<Rightarrow> phase"  \<comment> \<open>by position in \<open>chunks\<close>\<close>
  total_ct :: nat
  upload_cnt :: nat
  view :: page
  temp :: "'b folder"
  refused :: "nat list"  \<comment> \<open>chunks the server answered with an HTTP error\<close>

definition start_upload :: "'b folder \<Rightarrow> 'b list \<Rightarrow> 'b upload" where
  "start_upload tmp cont =
     \<lparr>chunks = chunk_loop cont 0, phases = (\<lambda>_. Reading), total_ct = total_chunks (length cont),
      upload_cnt = 0, view = \<lparr>bar = [], alerts = 0\<rparr>, temp = tmp, refused = []\<rparr>"

text \<open>
  \<open>onloadend\<close> fires whether or not the read succeeded; \<open>fetch\<close> resolves for every HTTP
  answer, also an error, and \<open>resolve\<close> is called without looking at it.
\<close>

definition on_load_end :: "nat \<Rightarrow> 'b upload \<Rightarrow> 'b upload" where
  "on_load_end k u = u\<lparr>phases := (phases u)(k := Posting)\<rparr>"

definition server_saves :: "nat \<Rightarrow> 'b upload \<Rightarrow> 'b upload" where
  "server_saves k u =
     (let (i, bytes) = chunks u ! k; (tmp, ans) = upload_action (temp u) (Some bytes) i
      in u\<lparr>temp := tmp, phases := (phases u)(k := Answered)\<rparr>)"

definition server_refuses :: "nat \<Rightarrow> 'b upload \<Rightarrow> 'b upload" where
  "server_refuses k u = u\<lparr>refused := k # refused u, phases := (phases u)(k := Answered)\<rparr>"

definition request_rejected :: "nat \<Rightarrow> 'b upload \<Rightarrow> 'b upload" where
  "request_rejected k u = u\<lparr>phases := (phases u)(k := Rejected)\<rparr>"

definition after_await :: "nat \<Rightarrow> 'b upload \<Rightarrow> 'b upload" where
  "after_await k u =
     (let cnt = Suc (upload_cnt u)
      in u\<lparr>upload_cnt := cnt, view := update_progress cnt (total_ct u) (view u),
           phases := (phases u)(k := Counted)\<rparr>)"

inductive upload_step :: "'b upload \<Rightarrow> 'b upload \<Rightarrow> bool" where
  load_end: "k < length (chunks u) \<Longrightarrow> phases u k = Reading \<Longrightarrow> upload_step u (on_load_end k u)"
| saves: "k < length (chunks u) \<Longrightarrow> phases u k = Posting \<Longrightarrow> upload_step u (server_saves k u)"
| refuses: "k < length (chunks u) \<Longrightarrow> phases u k = Posting \<Longrightarrow> upload_step u (server_refuses k u)"
| rejected: "k < length (chunks u) \<Longrightarrow> phases u k = Posting \<Longrightarrow> upload_step u (request_rejected k u)"
| counted: "k < length (chunks u) \<Longrightarrow> phases u k = Answered \<Longrightarrow> upload_step u (after_await k u)"

inductive upload_reach :: "'b folder \<Rightarrow> 'b list \<Rightarrow> 'b upload \<Rightarrow> bool" for tmp cont where
  init: "upload_reach tmp cont (start_upload tmp cont)"
| step: "upload_reach tmp cont u \<Longrightarrow> upload_step u v \<Longrightarrow> upload_reach tmp cont v"

inductive_cases upload_stepE: "upload_step u v"

lemmas upload_defs =
  on_load_end_def server_saves_def server_refuses_def request_rejected_def after_await_def
  update_progress_def

section \<open>The loop cuts the file exactly\<close>

lemma CHUNK_SIZE_pos [simp]: "0 < CHUNK_SIZE"
  by (simp add: CHUNK_SIZE_def)

lemma slice_to_end: "slice cont s (min (s + n) (length cont)) = take n (drop s cont)"
  by (auto simp: slice_def min_def)

lemma chunk_loop_next:
  "start < length cont \<Longrightarrow>
   chunk_loop cont start =
     (start div CHUNK_SIZE, take CHUNK_SIZE (drop start cont)) # chunk_loop cont (start + CHUNK_SIZE)"
  by (subst chunk_loop.simps) (simp add: slice_to_end)

lemma chunk_loop_end: "\<not> start < length cont \<Longrightarrow> chunk_loop cont start = []"
  by (subst chunk_loop.simps) simp

lemma chunk_loop_concat: "concat (map snd (chunk_loop cont start)) = drop start cont"
proof (induction cont start rule: chunk_loop.induct)
  case (1 cont start)
  show ?case
  proof (cases "start < length cont")
    case True
    have "concat (map snd (chunk_loop cont start)) =
        take CHUNK_SIZE (drop start cont) @ drop CHUNK_SIZE (drop start cont)"
      using 1 True by (simp add: chunk_loop_next add.commute)
    then show ?thesis by (simp only: append_take_drop_id)
  next
    case False
    then show ?thesis by (simp add: chunk_loop_end)
  qed
qed

lemma total_chunks_step:
  "k * CHUNK_SIZE < n \<Longrightarrow> total_chunks n - k = Suc (total_chunks n - Suc k)"
proof -
  assume "k * CHUNK_SIZE < n"
  then have "Suc k * CHUNK_SIZE \<le> n + CHUNK_SIZE - 1" by simp
  then have "Suc k \<le> (n + CHUNK_SIZE - 1) div CHUNK_SIZE"
    by (simp add: less_eq_div_iff_mult_less_eq)
  then show ?thesis by (simp add: total_chunks_def)
qed

lemma total_chunks_done: "\<not> k * CHUNK_SIZE < n \<Longrightarrow> total_chunks n \<le> k"
proof -
  assume "\<not> k * CHUNK_SIZE < n"
  then have "n + CHUNK_SIZE - 1 < Suc k * CHUNK_SIZE"
    using CHUNK_SIZE_pos unfolding mult_Suc not_less by linarith
  then have "(n + CHUNK_SIZE - 1) div CHUNK_SIZE < Suc k"
    using CHUNK_SIZE_pos div_less_iff_less_mult by blast
  then show ?thesis by (simp add: total_chunks_def)
qed

lemma chunk_loop_indices:
  "map fst (chunk_loop cont (k * CHUNK_SIZE)) = [k..<k + (total_chunks (length cont) - k)]"
proof (induction "length cont - k * CHUNK_SIZE" arbitrary: k rule: less_induct)
  case less
  show ?case
  proof (cases "k * CHUNK_SIZE < length cont")
    case True
    have "length cont - Suc k * CHUNK_SIZE < length cont - k * CHUNK_SIZE"
      using True CHUNK_SIZE_pos by (simp add: diff_less_mono2)
    from less [OF this] True total_chunks_step [OF True] show ?thesis
      by (simp add: chunk_loop_next add.commute upt_rec)
  next
    case False
    then show ?thesis
      using total_chunks_done [OF False] by (simp add: chunk_loop_end)
  qed
qed

lemma chunk_loop_sizes:
  "(i, b) \<in> set (chunk_loop cont start) \<Longrightarrow> 0 < length b \<and> length b \<le> CHUNK_SIZE"
proof (induction cont start rule: chunk_loop.induct)
  case (1 cont start)
  show ?case
  proof (cases "start < length cont")
    case True
    from "1.prems" consider "b = take CHUNK_SIZE (drop start cont)"
      | "(i, b) \<in> set (chunk_loop cont (start + CHUNK_SIZE))"
      unfolding chunk_loop_next [OF True] by auto
    then show ?thesis using True "1.IH" by cases auto
  next
    case False
    with "1.prems" show ?thesis by (simp add: chunk_loop_end)
  qed
qed

text \<open>C5: the loop of \<open>uploadFileInChunks\<close> cuts the file into chunks that, in order, add up to
  the file; they are numbered 0, 1, 2, ... up to the announced total; none is empty and none
  exceeds the chunk size.\<close>

theorem chunks_partition_file:
  "concat (map snd (chunk_loop cont 0)) = cont \<and>
   map fst (chunk_loop cont 0) = [0..<total_chunks (length cont)] \<and>
   list_all (\<lambda>b. 0 < length b \<and> length b \<le> CHUNK_SIZE) (map snd (chunk_loop cont 0))"
  using chunk_loop_concat [of cont 0] chunk_loop_indices [of cont 0] chunk_loop_sizes [of _ _ cont 0]
  by (auto simp: list_all_iff)

section \<open>What every run keeps\<close>

definition chunks_in :: "phase set \<Rightarrow> 'b upload \<Rightarrow> nat set" where
  "chunks_in P u = {k. k < length (chunks u) \<and> phases u k \<in> P}"

definition upload_inv :: "'b list \<Rightarrow> 'b upload \<Rightarrow> bool" where
  "upload_inv cont u \<longleftrightarrow>
     chunks u = chunk_loop cont 0 \<and> total_ct u = total_chunks (length cont) \<and>
     upload_cnt u = card (chunks_in {Counted} u) \<and>
     alerts (view u) = (if 0 < total_ct u \<and> upload_cnt u = total_ct u then 1 else 0) \<and>
     (\<forall>k \<in> chunks_in {Answered, Counted} u.
        k \<in> set (refused u) \<or> temp u k = Some (snd (chunks u ! k)))"

lemma length_chunk_loop: "length (chunk_loop cont 0) = total_chunks (length cont)"
  using arg_cong [OF chunk_loop_indices [of cont 0], of length] by simp

lemma fst_chunk_loop: "k < length (chunk_loop cont 0) \<Longrightarrow> fst (chunk_loop cont 0 ! k) = k"
  using arg_cong [OF chunk_loop_indices [of cont 0], of "\<lambda>l. l ! k"] length_chunk_loop [of cont]
  by simp

lemma chunks_in_finite [simp]: "finite (chunks_in P u)"
  by (simp add: chunks_in_def)

lemma chunks_in_bound: "card (chunks_in P u) \<le> length (chunks u)"
  using card_mono [of "{..<length (chunks u)}" "chunks_in P u"] by (auto simp: chunks_in_def)

lemma chunks_in_less:
  assumes "k < length (chunks u)" "phases u k \<notin> P"
  shows "card (chunks_in P u) < length (chunks u)"
proof -
  have "chunks_in P u \<subset> {..<length (chunks u)}" using assms by (auto simp: chunks_in_def)
  from psubset_card_mono [OF _ this] show ?thesis by simp
qed

lemma chunks_in_move:
  "k < length (chunks u) \<Longrightarrow>
   chunks_in P (u\<lparr>phases := (phases u)(k := q)\<rparr>) =
     (if q \<in> P then insert k (chunks_in P u) else chunks_in P u - {k})"
  by (auto simp: chunks_in_def)

lemma chunks_in_fields [simp]:
  "chunks_in P (u\<lparr>upload_cnt := x\<rparr>) = chunks_in P u"
  "chunks_in P (u\<lparr>view := v\<rparr>) = chunks_in P u"
  "chunks_in P (u\<lparr>temp := t\<rparr>) = chunks_in P u"
  "chunks_in P (u\<lparr>refused := r\<rparr>) = chunks_in P u"
  by (simp_all add: chunks_in_def)

lemma upload_inv_start: "upload_inv cont (start_upload tmp cont)"
  by (auto simp: upload_inv_def start_upload_def chunks_in_def)

lemma chunks_in_phases:
  "chunks_in P (u\<lparr>upload_cnt := x, view := v, phases := f\<rparr>) = chunks_in P (u\<lparr>phases := f\<rparr>)"
  "chunks_in P (u\<lparr>temp := t, phases := f\<rparr>) = chunks_in P (u\<lparr>phases := f\<rparr>)"
  "chunks_in P (u\<lparr>refused := r, phases := f\<rparr>) = chunks_in P (u\<lparr>phases := f\<rparr>)"
  by (simp_all add: chunks_in_def)

lemma upload_inv_load_end:
  "upload_inv cont u \<Longrightarrow> k < length (chunks u) \<Longrightarrow> phases u k = Reading \<Longrightarrow>
   upload_inv cont (on_load_end k u)"
  by (auto simp: upload_inv_def on_load_end_def chunks_in_move) (auto simp: chunks_in_def)

lemma upload_inv_rejected:
  "upload_inv cont u \<Longrightarrow> k < length (chunks u) \<Longrightarrow> phases u k = Posting \<Longrightarrow>
   upload_inv cont (request_rejected k u)"
  by (auto simp: upload_inv_def request_rejected_def chunks_in_move) (auto simp: chunks_in_def)

lemma upload_inv_refuses:
  "upload_inv cont u \<Longrightarrow> k < length (chunks u) \<Longrightarrow> phases u k = Posting \<Longrightarrow>
   upload_inv cont (server_refuses k u)"
  by (auto simp: upload_inv_def server_refuses_def chunks_in_phases chunks_in_move)
    (auto simp: chunks_in_def)

lemma server_saves_eq:
  assumes "upload_inv cont u" "k < length (chunks u)"
  shows "server_saves k u = u\<lparr>temp := (temp u)(k \<mapsto> snd (chunks u ! k)), phases := (phases u)(k := Answered)\<rparr>"
proof -
  obtain i b where ib: "chunks u ! k = (i, b)" by (cases "chunks u ! k")
  have c: "chunks u = chunk_loop cont 0" using assms(1) by (simp add: upload_inv_def)
  have "i = k" using fst_chunk_loop [of k cont] assms(2) c ib by simp
  moreover have "0 < length b"
    using chunk_loop_sizes [of i b cont 0] nth_mem [OF assms(2)] c ib by simp
  ultimately show ?thesis by (simp add: server_saves_def upload_action_def ib)
qed

lemma upload_inv_saves:
  "upload_inv cont u \<Longrightarrow> k < length (chunks u) \<Longrightarrow> phases u k = Posting \<Longrightarrow>
   upload_inv cont (server_saves k u)"
  by (simp add: server_saves_eq) (auto simp: upload_inv_def chunks_in_phases chunks_in_move,
      auto simp: chunks_in_def)

lemma upload_inv_counted:
  assumes "upload_inv cont u" "k < length (chunks u)" "phases u k = Answered"
  shows "upload_inv cont (after_await k u)"
proof -
  have "card (chunks_in {Counted} u) < length (chunks u)"
    using chunks_in_less [of k u "{Counted}"] assms(2,3) by simp
  then have lt: "upload_cnt u < total_ct u"
    using assms(1) by (auto simp: upload_inv_def length_chunk_loop)
  have new: "k \<notin> chunks_in {Counted} u" using assms(3) by (simp add: chunks_in_def)
  from assms lt new show ?thesis
    by (simp add: upload_inv_def after_await_def update_progress_def Let_def chunks_in_phases
        chunks_in_move) (auto simp: chunks_in_def)
qed

lemma upload_inv_step: "upload_step u v \<Longrightarrow> upload_inv cont u \<Longrightarrow> upload_inv cont v"
  by (elim upload_stepE)
    (auto intro: upload_inv_load_end upload_inv_saves upload_inv_refuses upload_inv_rejected
      upload_inv_counted)

lemma upload_inv_reach: "upload_reach tmp cont u \<Longrightarrow> upload_inv cont u"
  by (induction rule: upload_reach.induct) (auto intro: upload_inv_start upload_inv_step)


text \<open>C6: in every state any interleaving of the readers, the server and the continuations
  can reach, the counter is the number of counted chunks and never exceeds the total, and
  the completion alert has been shown exactly once if every chunk was counted (and there is
  a chunk), and not at all before.\<close>

theorem upload_progress:
  assumes "upload_reach tmp cont u"
  shows "upload_cnt u = card (chunks_in {Counted} u) \<and> upload_cnt u \<le> total_ct u \<and>
    alerts (view u) = (if cont \<noteq> [] \<and> upload_cnt u = total_chunks (length cont) then 1 else 0)"
proof -
  have inv: "upload_inv cont u" using assms by (rule upload_inv_reach)
  moreover have "card (chunks_in {Counted} u) \<le> total_ct u"
    using chunks_in_bound [of "{Counted}" u] inv by (simp add: upload_inv_def length_chunk_loop)
  moreover have "0 < total_chunks (length cont) \<longleftrightarrow> cont \<noteq> []"
    using total_chunks_step [of 0 "length cont"] total_chunks_done [of 0 "length cont"] by auto
  ultimately show ?thesis by (simp add: upload_inv_def)
qed

theorem upload_progress_witness:
  "upload_cnt (start_upload Map.empty ''abc'') \<le> total_ct (start_upload Map.empty ''abc'')"
  using upload_progress [OF upload_reach.init [of "Map.empty" "''abc''"]] by blast

section \<open>The server ends with the file\<close>

lemma reassemble_eq:
  "(\<And>k. k < n \<Longrightarrow> tmp k = Some (f k)) \<Longrightarrow> reassemble tmp n = concat (map f [0..<n])"
  unfolding reassemble_def by (rule arg_cong [where f = concat]) (auto intro: map_cong)

lemma all_counted:
  assumes "card (chunks_in P u) = length (chunks u)" "k < length (chunks u)"
  shows "phases u k \<in> P"
  using chunks_in_less [of k u P] assms by (intro ccontr [of "phases u k \<in> P"]) simp

text \<open>C7: once the alert is shown and no chunk was refused by the server, the files of the
  temporary folder, read in the order of their indices, are the uploaded file, whatever the
  order in which the chunks arrived and whatever the folder held before.\<close>

theorem upload_delivers:
  assumes "upload_reach tmp cont u" "0 < alerts (view u)" "refused u = []"
  shows "reassemble (temp u) (total_chunks (length cont)) = cont"
proof -
  have inv: "upload_inv cont u" using assms(1) by (rule upload_inv_reach)
  then have ch: "chunks u = chunk_loop cont 0" and len: "length (chunks u) = total_chunks (length cont)"
    by (auto simp: upload_inv_def length_chunk_loop)
  have "card (chunks_in {Counted} u) = length (chunks u)"
    using inv assms(2) len by (auto simp: upload_inv_def split: if_splits)
  from all_counted [OF this] have "k \<in> chunks_in {Answered, Counted} u" if "k < length (chunks u)" for k
    using that by (auto simp: chunks_in_def)
  with inv assms(3) have "temp u k = Some (snd (chunks u ! k))" if "k < length (chunks u)" for k
    using that by (auto simp: upload_inv_def)
  then have "reassemble (temp u) (length (chunks u)) = concat (map (\<lambda>k. snd (chunks u ! k)) [0..<length (chunks u)])"
    by (rule reassemble_eq)
  also have "map (\<lambda>k. snd (chunks u ! k)) [0..<length (chunks u)] = map snd (chunks u)"
    by (rule nth_equalityI) auto
  finally show ?thesis using chunk_loop_concat [of cont 0] ch len by simp
qed

text \<open>A whole run on one chunk, for the examples.\<close>

lemma small_chunk: "cont \<noteq> [] \<Longrightarrow> length cont \<le> CHUNK_SIZE \<Longrightarrow> chunk_loop cont 0 = [(0, cont)]"
  using chunk_loop_next [of 0 cont] chunk_loop_end [of CHUNK_SIZE cont] by simp

lemma small_total: "cont \<noteq> [] \<Longrightarrow> length cont \<le> CHUNK_SIZE \<Longrightarrow> total_chunks (length cont) = 1"
  using length_chunk_loop [of cont] small_chunk [of cont] by simp

definition good_run :: "'b list \<Rightarrow> 'b upload" where
  "good_run cont = after_await 0 (server_saves 0 (on_load_end 0 (start_upload Map.empty cont)))"

definition bad_run :: "'b list \<Rightarrow> 'b upload" where
  "bad_run cont = after_await 0 (server_refuses 0 (on_load_end 0 (start_upload Map.empty cont)))"

lemma good_run_reach:
  assumes "cont \<noteq> []" "length cont \<le> CHUNK_SIZE"
  shows "upload_reach Map.empty cont (good_run cont)"
proof -
  let ?s = "start_upload Map.empty cont"
  have 1: "upload_step ?s (on_load_end 0 ?s)"
    by (rule upload_step.load_end) (simp_all add: start_upload_def small_chunk [OF assms])
  have 2: "upload_step (on_load_end 0 ?s) (server_saves 0 (on_load_end 0 ?s))"
    by (rule upload_step.saves) (simp_all add: start_upload_def small_chunk [OF assms] on_load_end_def)
  have 3: "upload_step (server_saves 0 (on_load_end 0 ?s)) (good_run cont)"
    unfolding good_run_def
    by (rule upload_step.counted)
      (simp_all add: start_upload_def small_chunk [OF assms] on_load_end_def server_saves_def upload_action_def)
  show ?thesis
    by (rule upload_reach.step [OF upload_reach.step [OF upload_reach.step [OF upload_reach.init 1] 2] 3])
qed

lemma bad_run_reach:
  assumes "cont \<noteq> []" "length cont \<le> CHUNK_SIZE"
  shows "upload_reach Map.empty cont (bad_run cont)"
proof -
  let ?s = "start_upload Map.empty cont"
  have 1: "upload_step ?s (on_load_end 0 ?s)"
    by (rule upload_step.load_end) (simp_all add: start_upload_def small_chunk [OF assms])
  have 2: "upload_step (on_load_end 0 ?s) (server_refuses 0 (on_load_end 0 ?s))"
    by (rule upload_step.refuses) (simp_all add: start_upload_def small_chunk [OF assms] on_load_end_def)
  have 3: "upload_step (server_refuses 0 (on_load_end 0 ?s)) (bad_run cont)"
    unfolding bad_run_def
    by (rule upload_step.counted)
      (simp_all add: start_upload_def small_chunk [OF assms] on_load_end_def server_refuses_def upload_action_def)
  show ?thesis
    by (rule upload_reach.step [OF upload_reach.step [OF upload_reach.step [OF upload_reach.init 1] 2] 3])
qed

lemma good_run_state:
  assumes "cont \<noteq> []" "length cont \<le> CHUNK_SIZE"
  shows "alerts (view (good_run cont)) = 1" "refused (good_run cont) = []"
  using small_chunk [OF assms] small_total [OF assms] assms(1)
  by (simp_all add: good_run_def start_upload_def upload_defs upload_action_def Let_def)

lemma good_run_final:
  assumes "cont \<noteq> []" "length cont \<le> CHUNK_SIZE"
  shows "chunks (good_run cont) = [(0, cont)]" "phases (good_run cont) 0 = Counted"
  using small_chunk [OF assms] assms(1)
  by (simp_all add: good_run_def start_upload_def upload_defs upload_action_def Let_def)

lemma bad_run_state:
  assumes "cont \<noteq> []" "length cont \<le> CHUNK_SIZE"
  shows "alerts (view (bad_run cont)) = 1" "temp (bad_run cont) = Map.empty"
  using small_chunk [OF assms] small_total [OF assms] assms(1)
  by (simp_all add: bad_run_def start_upload_def upload_defs Let_def)

theorem upload_delivers_witness:
  "reassemble (temp (good_run ''abc'')) (total_chunks (length ''abc'')) = ''abc''"
  using upload_delivers [OF good_run_reach [of "''abc''"]]
    good_run_state [of "''abc''"] by (simp add: CHUNK_SIZE_def)

text \<open>C14: the client takes every HTTP answer for a success: for every non-empty file of one
  chunk there is a run in which the server answers with an error and stores nothing, and the
  page still announces that the upload is complete.\<close>

theorem alert_without_delivery:
  assumes "cont \<noteq> []" "length cont \<le> CHUNK_SIZE"
  shows "\<exists>u. upload_reach Map.empty cont u \<and> alerts (view u) = 1 \<and> temp u = Map.empty"
  using bad_run_reach [OF assms] bad_run_state [OF assms] by blast

theorem alert_without_delivery_witness:
  "\<exists>u. upload_reach Map.empty [7 :: nat] u \<and> alerts (view u) = 1 \<and> temp u = Map.empty"
  by (rule alert_without_delivery) (simp_all add: CHUNK_SIZE_def)

section \<open>Every run ends\<close>

fun phase_rank :: "phase \<Rightarrow> nat" where
  "phase_rank Reading = 3"
| "phase_rank Posting = 2"
| "phase_rank Answered = 1"
| "phase_rank Counted = 0"
| "phase_rank Rejected = 0"

definition upload_rank :: "'b upload \<Rightarrow> nat" where
  "upload_rank u = (\<Sum>k<length (chunks u). phase_rank (phases u k))"

lemma upload_rank_move:
  assumes "k < length (chunks u)" "phase_rank q < phase_rank (phases u k)"
    "chunks v = chunks u" "phases v = (phases u)(k := q)"
  shows "upload_rank v < upload_rank u"
proof -
  have "(\<Sum>i<length (chunks u). phase_rank (((phases u)(k := q)) i)) < (\<Sum>i<length (chunks u). phase_rank (phases u i))"
    using assms by (intro sum_strict_mono_ex1) auto
  then show ?thesis using assms by (simp add: upload_rank_def)
qed

lemma upload_step_rank: "upload_step u v \<Longrightarrow> upload_rank v < upload_rank u"
proof (induction rule: upload_step.induct)
  case (load_end k u)
  then show ?case by (intro upload_rank_move [of k u Posting]) (auto simp: on_load_end_def)
next
  case (saves k u)
  then show ?case
    by (intro upload_rank_move [of k u Answered]) (auto simp: server_saves_def split: prod.splits)
next
  case (refuses k u)
  then show ?case by (intro upload_rank_move [of k u Answered]) (auto simp: server_refuses_def)
next
  case (rejected k u)
  then show ?case by (intro upload_rank_move [of k u Rejected]) (auto simp: request_rejected_def)
next
  case (counted k u)
  then show ?case by (intro upload_rank_move [of k u Counted]) (auto simp: after_await_def Let_def)
qed

lemma upload_path_rank: "(upload_step ^^ n) u v \<Longrightarrow> n + upload_rank v \<le> upload_rank u"
proof (induction n arbitrary: v)
  case (Suc n)
  then obtain w where "(upload_step ^^ n) u w" "upload_step w v" by auto
  with Suc.IH upload_step_rank [of w v] show ?case by fastforce
qed simp

lemma upload_stuck:
  "\<not> (\<exists>v. upload_step u v) \<Longrightarrow> k < length (chunks u) \<Longrightarrow> phases u k \<in> {Counted, Rejected}"
  by (cases "phases u k") (auto intro: upload_step.intros)

text \<open>C13: an upload of n chunks takes at most 3 n steps, and when no step is left and no
  request was rejected, the completion alert of a non-empty file has been shown.\<close>

theorem upload_terminates:
  "((upload_step ^^ n) (start_upload tmp cont) u \<longrightarrow> n \<le> 3 * total_chunks (length cont)) \<and>
   (upload_reach tmp cont u \<and> \<not> (\<exists>v. upload_step u v) \<and> chunks_in {Rejected} u = {} \<and> cont \<noteq> []
     \<longrightarrow> alerts (view u) = 1)"
proof (intro conjI impI)
  assume "(upload_step ^^ n) (start_upload tmp cont) u"
  then have "n \<le> upload_rank (start_upload tmp cont)" using upload_path_rank by fastforce
  then show "n \<le> 3 * total_chunks (length cont)"
    by (simp add: upload_rank_def start_upload_def length_chunk_loop)
next
  assume *: "upload_reach tmp cont u \<and> \<not> (\<exists>v. upload_step u v) \<and> chunks_in {Rejected} u = {} \<and> cont \<noteq> []"
  then have "chunks_in {Counted} u = {..<length (chunks u)}"
    using upload_stuck [of u] by (fastforce simp: chunks_in_def)
  moreover have "upload_inv cont u" using * upload_inv_reach by blast
  moreover have "0 < total_chunks (length cont)" using * total_chunks_step [of 0 "length cont"] by simp
  ultimately show "alerts (view u) = 1" by (simp add: upload_inv_def length_chunk_loop)
qed

theorem upload_terminates_witness:
  "alerts (view (good_run ''abc'')) = 1 \<and> \<not> (\<exists>v. upload_step (good_run ''abc'') v)"
proof -
  let ?u = "good_run ''abc''"
  have st: "chunks ?u = [(0, ''abc'')]" "phases ?u 0 = Counted"
    by (rule good_run_final, simp_all add: CHUNK_SIZE_def)+
  then have stuck: "\<not> (\<exists>v. upload_step ?u v)" by (auto elim!: upload_stepE)
  have "upload_reach Map.empty ''abc'' ?u"
    by (rule good_run_reach) (simp_all add: CHUNK_SIZE_def)
  moreover have "chunks_in {Rejected} ?u = {}" using st by (auto simp: chunks_in_def)
  ultimately show ?thesis
    using stuck upload_terminates [of 0 Map.empty "''abc''" ?u] by simp
qed

end
