(* ===== verification/JsDate.thy ===== *)
theory JsDate
  imports JsString
begin

text \<open>
  The part of JavaScript's Date the scripts use: \<open>Date.UTC\<close>, the UTC getters and
  \<open>toISOString\<close>, by the day-number functions of the language definition. A time value is an
  integer number of milliseconds.
\<close>

section \<open>Day numbers\<close>

definition leap :: "int \<Rightarrow> bool" where
  "leap y \<longleftrightarrow> 4 dvd y \<and> (\<not> 100 dvd y \<or> 400 dvd y)"

definition days_in_year :: "int \<Rightarrow> int" where
  "days_in_year y = (if leap y then 366 else 365)"

definition day_from_year :: "int \<Rightarrow> int" where
  "day_from_year y =
     365 * (y - 1970) + (y - 1969) div 4 - (y - 1901) div 100 + (y - 1601) div 400"

text \<open>Days of the year before month \<open>m\<close> (0 is January; 12 gives the length of the year).\<close>

definition month_start :: "int \<Rightarrow> nat \<Rightarrow> int" where
  "month_start y m =
     [0, 31, 59, 90, 120, 151, 181, 212, 243, 273, 304, 334, 365] ! m
       + (if leap y \<and> 2 \<le> m then 1 else 0)"

definition days_in_month :: "int \<Rightarrow> nat \<Rightarrow> int" where
  "days_in_month y m = month_start y (Suc m) - month_start y m"

definition make_day :: "int \<Rightarrow> int \<Rightarrow> int \<Rightarrow> int" where
  "make_day y m d =
     (let ym = y + m div 12 in day_from_year ym + month_start ym (nat (m mod 12)) + d - 1)"

text \<open>
  The year of a day is the last year that does not begin after it: searched upwards from a
  year that is early enough.
\<close>

function year_search :: "int \<Rightarrow> int \<Rightarrow> int" where
  "year_search day y = (if day_from_year (y + 1) \<le> day then year_search day (y + 1) else y)"
  by pat_completeness auto

lemma div_succ:
  fixes x k :: int
  assumes "0 < k"
  shows "(x + 1) div k = x div k + (if k dvd x + 1 then 1 else 0)"
proof (cases "x mod k + 1 = k")
  case True
  then have "x + 1 = x div k * k + k" using div_mult_mod_eq [of x k] by linarith
  then have "x + 1 = (x div k + 1) * k" by (simp add: distrib_right)
  then show ?thesis using assms by simp
next
  case False
  then have lt: "x mod k + 1 < k" using pos_mod_bound [OF assms, of x] by linarith
  have eq: "x + 1 = k * (x div k) + (x mod k + 1)" using mult_div_mod_eq [of k x] by linarith
  have q: "(x + 1) div k = x div k"
    using eq lt pos_mod_sign [OF assms, of x] by (intro int_div_pos_eq [of _ _ _ "x mod k + 1"]) linarith+
  have "(x + 1) mod k = x mod k + 1"
    using eq lt pos_mod_sign [OF assms, of x] by (intro int_mod_pos_eq [of _ _ "x div k"]) linarith+
  then have "\<not> k dvd x + 1" using pos_mod_sign [OF assms, of x] by (simp add: dvd_eq_mod_eq_0)
  with q show ?thesis by simp
qed

lemma dvd_shift: "(k::int) dvd y - k * n \<longleftrightarrow> k dvd y"
  by (simp add: dvd_diff_left_iff)

lemma leap_step: "day_from_year (y + 1) = day_from_year y + days_in_year y"
proof -
  have d: "(4::int) dvd (y - 1969) + 1 \<longleftrightarrow> 4 dvd y" "(100::int) dvd (y - 1901) + 1 \<longleftrightarrow> 100 dvd y"
    "(400::int) dvd (y - 1601) + 1 \<longleftrightarrow> 400 dvd y"
    using dvd_shift [of 4 y 492] dvd_shift [of 100 y 19] dvd_shift [of 400 y 4] by (simp_all add: algebra_simps)
  have "(100::int) dvd 400" "(4::int) dvd 100" by simp_all
  then have i: "(400::int) dvd y \<Longrightarrow> 100 dvd y" "(100::int) dvd y \<Longrightarrow> 4 dvd y" by (blast intro: dvd_trans)+
  have e: "y + 1 - 1969 = (y - 1969) + 1" "y + 1 - 1901 = (y - 1901) + 1" "y + 1 - 1601 = (y - 1601) + 1"
    by simp_all
  have s: "(y + 1 - 1969) div 4 = (y - 1969) div 4 + (if 4 dvd y then 1 else 0)"
    "(y + 1 - 1901) div 100 = (y - 1901) div 100 + (if 100 dvd y then 1 else 0)"
    "(y + 1 - 1601) div 400 = (y - 1601) div 400 + (if 400 dvd y then 1 else 0)"
    unfolding e d [symmetric] by (rule div_succ, simp)+
  show ?thesis
    unfolding day_from_year_def days_in_year_def leap_def s using i
    by (cases "4 dvd y"; cases "100 dvd y"; cases "400 dvd y") simp_all
qed

lemma days_in_year_pos: "365 \<le> days_in_year y" "days_in_year y \<le> 366"
  by (simp_all add: days_in_year_def)

termination year_search
  by (relation "measure (\<lambda>(day, y). nat (day - day_from_year y))")
    (auto simp: leap_step days_in_year_def split: if_splits)

declare year_search.simps [simp del]

definition year_of_day :: "int \<Rightarrow> int" where
  "year_of_day day = year_search day (1970 + (if 0 \<le> day then day div 366 else day div 365))"

definition day_in_year :: "int \<Rightarrow> int" where
  "day_in_year day = day - day_from_year (year_of_day day)"

definition month_of_day :: "int \<Rightarrow> nat" where
  "month_of_day day =
     length (takeWhile (\<lambda>m. month_start (year_of_day day) (Suc m) \<le> day_in_year day) [0..<11])"

definition date_of_day :: "int \<Rightarrow> int" where
  "date_of_day day = day_in_year day - month_start (year_of_day day) (month_of_day day) + 1"

definition ms_per_day :: int where
  "ms_per_day = 86400000"

text \<open>\<open>Date.UTC(y, m, d, h, 0, 0, 0)\<close>: a year from 0 to 99 means 1900 to 1999.\<close>

definition date_utc :: "int \<Rightarrow> int \<Rightarrow> int \<Rightarrow> int \<Rightarrow> int" where
  "date_utc y m d h =
     (let yr = (if 0 \<le> y \<and> y \<le> 99 then 1900 + y else y)
      in make_day yr m d * ms_per_day + h * 3600000)"

definition utc_full_year :: "int \<Rightarrow> int" where
  "utc_full_year t = year_of_day (t div ms_per_day)"

definition utc_month :: "int \<Rightarrow> int" where
  "utc_month t = int (month_of_day (t div ms_per_day))"

definition utc_date :: "int \<Rightarrow> int" where
  "utc_date t = date_of_day (t div ms_per_day)"

section \<open>ISO strings\<close>

fun pad_left :: "nat \<Rightarrow> string \<Rightarrow> string" where
  "pad_left n s = replicate (n - length s) (CHR ''0'') @ s"

definition iso_year :: "int \<Rightarrow> string" where
  "iso_year y =
     (if 0 \<le> y \<and> y \<le> 9999 then pad_left 4 (nat_str (nat y))
      else (if y < 0 then ''-'' else ''+'') @ pad_left 6 (nat_str (nat \<bar>y\<bar>)))"

text \<open>\<open>toISOString\<close>; a time value out of range makes it throw (\<^const>\<open>None\<close>).\<close>

definition to_iso_string :: "int \<Rightarrow> string option" where
  "to_iso_string t =
     (if \<bar>t\<bar> > 8640000000000000 then None
      else (let r = nat (t mod ms_per_day)
            in Some (iso_year (utc_full_year t) @ ''-'' @ pad_left 2 (nat_str (nat (utc_month t) + 1))
              @ ''-'' @ pad_left 2 (nat_str (nat (utc_date t))) @ ''T''
              @ pad_left 2 (nat_str (r div 3600000)) @ '':''
              @ pad_left 2 (nat_str (r div 60000 mod 60)) @ '':''
              @ pad_left 2 (nat_str (r div 1000 mod 60)) @ ''.''
              @ pad_left 3 (nat_str (r mod 1000)) @ ''Z'')))"

section \<open>The getters invert the constructor\<close>

lemma day_from_year_le_add: "day_from_year y + 365 * int k \<le> day_from_year (y + int k)"
proof (induction k)
  case (Suc k)
  have e: "y + int (Suc k) = (y + int k) + 1" by simp
  show ?case
    using Suc days_in_year_pos(1) [of "y + int k"] unfolding e leap_step by simp
qed simp

lemma day_from_year_add_le: "day_from_year (y + int k) \<le> day_from_year y + 366 * int k"
proof (induction k)
  case (Suc k)
  have e: "y + int (Suc k) = (y + int k) + 1" by simp
  show ?case
    using Suc days_in_year_pos(2) [of "y + int k"] unfolding e leap_step by simp
qed simp

lemma day_from_year_mono: "y \<le> z \<Longrightarrow> day_from_year y \<le> day_from_year z"
  using day_from_year_le_add [of y "nat (z - y)"] by simp

lemma year_search_spec:
  "day_from_year y \<le> day \<Longrightarrow>
   day_from_year (year_search day y) \<le> day \<and> day < day_from_year (year_search day y + 1)"
proof (induction day y rule: year_search.induct)
  case (1 day y)
  then show ?case
    by (cases "day_from_year (y + 1) \<le> day") (simp_all add: year_search.simps [of day y])
qed

lemma day_from_1970: "day_from_year 1970 = 0"
  by (simp add: day_from_year_def)

lemma year_start_early:
  "day_from_year (1970 + (if 0 \<le> day then day div 366 else day div 365)) \<le> day"
proof (cases "0 \<le> day")
  case True
  then have "0 \<le> day div 366" by simp
  with day_from_year_add_le [of 1970 "nat (day div 366)"] True day_from_1970
  have "day_from_year (1970 + day div 366) \<le> 366 * (day div 366)" by simp
  also have "366 * (day div 366) \<le> day" by simp
  finally show ?thesis using True by simp
next
  case False
  then have neg: "day div 365 < 0" by simp
  have "day_from_year (1970 + day div 365) + 365 * (- (day div 365)) \<le> day_from_year 1970"
    using day_from_year_le_add [of "1970 + day div 365" "nat (- (day div 365))"] neg by simp
  then have "day_from_year (1970 + day div 365) \<le> 365 * (day div 365)" by (simp add: day_from_1970)
  also have "\<dots> \<le> day" by simp
  finally show ?thesis using False by simp
qed

lemma year_of_day_spec:
  "day_from_year (year_of_day day) \<le> day \<and> day < day_from_year (year_of_day day + 1)"
  unfolding year_of_day_def by (rule year_search_spec [OF year_start_early])

lemma year_of_day_unique:
  assumes "day_from_year y \<le> day" "day < day_from_year (y + 1)"
  shows "year_of_day day = y"
proof (rule ccontr)
  assume "year_of_day day \<noteq> y"
  then consider "year_of_day day + 1 \<le> y" | "y + 1 \<le> year_of_day day" by linarith
  then show False
    using assms year_of_day_spec [of day] day_from_year_mono by cases (metis leD order_trans)+
qed

lemma less_12_cases: "m < 12 \<longleftrightarrow> m \<in> {0, 1, 2, 3, 4, 5, 6, 7, 8, 9, 10, 11 :: nat}"
  by (simp add: less_Suc_eq numeral_eq_Suc)

lemma month_start_12: "month_start y 12 = days_in_year y"
  by (simp add: month_start_def days_in_year_def numeral_eq_Suc)

lemma month_start_mono: "m < 12 \<Longrightarrow> 0 \<le> month_start y m \<and> month_start y (Suc m) \<le> days_in_year y"
  unfolding less_12_cases by (auto simp: month_start_def days_in_year_def numeral_eq_Suc)

lemma month_of_day_bounds:
  "month_of_day day < 12 \<and>
   month_start (year_of_day day) (month_of_day day) \<le> day_in_year day \<and>
   day_in_year day < month_start (year_of_day day) (Suc (month_of_day day))"
proof -
  let ?y = "year_of_day day" and ?P = "\<lambda>m. month_start (year_of_day day) (Suc m) \<le> day_in_year day"
  define n where "n = length (takeWhile ?P [0..<11])"
  have n: "month_of_day day = n" by (simp add: month_of_day_def n_def)
  have le: "n \<le> 11" using length_takeWhile_le [of ?P "[0..<11]"] by (simp add: n_def)
  have diy: "0 \<le> day_in_year day" "day_in_year day < days_in_year ?y"
    using year_of_day_spec [of day] leap_step [of ?y] by (auto simp: day_in_year_def)
  have lo: "month_start ?y n \<le> day_in_year day"
  proof (cases n)
    case 0
    then show ?thesis using diy by (simp add: month_start_def)
  next
    case (Suc k)
    then have "takeWhile ?P [0..<11] ! k \<in> set (takeWhile ?P [0..<11])" by (intro nth_mem) (simp add: n_def)
    then have "?P (takeWhile ?P [0..<11] ! k)" by (rule set_takeWhileD [THEN conjunct2])
    moreover have "takeWhile ?P [0..<11] ! k = [0..<11] ! k"
      using Suc by (intro takeWhile_nth) (simp add: n_def)
    ultimately show ?thesis using Suc le by simp
  qed
  have hi: "day_in_year day < month_start ?y (Suc n)"
  proof (cases "n = 11")
    case True
    then show ?thesis using diy month_start_12 [of ?y] by simp
  next
    case False
    then have "n < 11" using le by simp
    then have "\<not> ?P ([0..<11] ! n)"
      unfolding n_def by (intro nth_length_takeWhile) simp
    then show ?thesis using \<open>n < 11\<close> by simp
  qed
  show ?thesis using n le lo hi by simp
qed

lemma date_of_day_bounds:
  "1 \<le> date_of_day day \<and> date_of_day day \<le> days_in_month (year_of_day day) (month_of_day day)"
  using month_of_day_bounds [of day] by (simp add: date_of_day_def days_in_month_def)

lemma month_unique:
  assumes "m < 12" "n < 12" "month_start y m \<le> d" "d < month_start y (Suc m)"
    "month_start y n \<le> d" "d < month_start y (Suc n)"
  shows "m = n"
proof -
  have step: "month_start y b \<le> month_start y (Suc b)" if "b < 12" for b
    using that unfolding less_12_cases by (auto simp: month_start_def numeral_eq_Suc)
  have mono: "month_start y (Suc a) \<le> month_start y b" if "a < b" "b < 12" for a b
    using that
  proof (induction b)
    case (Suc b)
    then show ?case using step [of b] by (cases "a = b") (auto intro: order_trans)
  qed simp
  show ?thesis using assms mono [of m n] mono [of n m] by (cases m n rule: linorder_cases) auto
qed

lemma make_day_getters:
  assumes "m < 12" "1 \<le> d" "d \<le> days_in_month y m"
  shows "year_of_day (make_day y (int m) d) = y" "month_of_day (make_day y (int m) d) = m"
    "date_of_day (make_day y (int m) d) = d"
proof -
  let ?day = "make_day y (int m) d"
  have day: "?day = day_from_year y + month_start y m + d - 1"
    using assms(1) by (simp add: make_day_def)
  show yr: "year_of_day ?day = y"
    using assms month_start_mono [OF assms(1), of y]
    by (intro year_of_day_unique) (auto simp: day leap_step days_in_month_def)
  have diy: "day_in_year ?day = month_start y m + d - 1"
    unfolding day_in_year_def yr by (simp add: day)
  show mo: "month_of_day ?day = m"
    using month_of_day_bounds [of ?day] assms
    by (intro month_unique [of _ _ y "day_in_year ?day"]) (auto simp: diy yr days_in_month_def)
  show "date_of_day ?day = d" by (simp add: date_of_day_def yr mo diy)
qed

lemma utc_getters:
  assumes "0 \<le> h" "h < 24"
  shows "(date_utc y m d h) div ms_per_day = make_day (if 0 \<le> y \<and> y \<le> 99 then 1900 + y else y) m d"
  using assms by (auto simp: date_utc_def ms_per_day_def Let_def div_pos_pos_trivial)

end
