(* ===== verification/TokenServer.thy ===== *)
theory TokenServer
  imports JsDate
begin

text \<open>
  \<open>Nodejs/Azure-AAD-MI/app.js\<close>: a web server that gets an access token at start-up, listens
  once it has one, and fetches a fresh token for every request of the root page. What
  \<open>credential.getToken\<close> answers is an input of the model (the package is not in the
  repository); requests suspended at their \<open>await\<close> may finish in any order.
\<close>

section \<open>Data\<close>

record token =
  tok :: string
  expires :: int  \<comment> \<open>\<open>expiresOnTimestamp\<close>, milliseconds\<close>

text \<open>\<open>Inl e\<close>: the credential rejects with \<open>e\<close>.\<close>

type_synonym 'e token_answer = "'e + token"

datatype 'e failure = NoTokenObj | BadDate | Credential 'e

datatype 'e response = Page string | Failed500 "'e failure"

datatype server_phase = Booting | Listening nat | Crashed

record 'e server =
  token_obj :: "token option"
  sphase :: server_phase
  waiting :: "nat list"  \<comment> \<open>requests suspended at \<open>await\<close>\<close>
  answers :: "(nat \<times> 'e response) list"  \<comment> \<open>newest first\<close>

section \<open>The SQL configuration\<close>

record sql_config =
  auth_type :: string
  auth_token :: string
  server_name :: "string option"
  database :: "string option"
  encrypt :: bool
  arith_abort :: bool
  pool_max :: nat
  pool_min :: nat
  idle_timeout_ms :: nat

definition configure_sql :: "(string \<Rightarrow> string option) \<Rightarrow> string \<Rightarrow> sql_config" where
  "configure_sql env token =
     \<lparr>auth_type = ''azure-active-directory-access-token'', auth_token = token,
      server_name = env ''DB_SERVER'', database = env ''DB_NAME'',
      encrypt = True, arith_abort = True,
      pool_max = 10, pool_min = 0, idle_timeout_ms = 30000\<rparr>"

section \<open>Start-up and requests\<close>

definition app_init :: "'e server" where
  "app_init = \<lparr>token_obj = None, sphase = Booting, waiting = [], answers = []\<rparr>"

text \<open>The asynchronous main function: without a token it rejects before \<open>listen\<close>.\<close>

definition boot :: "'e token_answer \<Rightarrow> 'e server \<Rightarrow> 'e server" where
  "boot ans s =
     (case ans of
        Inl e \<Rightarrow> s\<lparr>sphase := Crashed\<rparr>
      | Inr t \<Rightarrow> s\<lparr>token_obj := Some t, sphase := Listening 8000\<rparr>)"

text \<open>
  The handler up to its \<open>await\<close>. Reading \<open>expiresOnTimestamp\<close> of a missing token object throws;
  the comparison with the clock has no effect, as the body of the \<open>if\<close> is empty.
\<close>

definition get_root_begin :: "nat \<Rightarrow> 'e server \<Rightarrow> 'e server" where
  "get_root_begin r s =
     (case token_obj s of
        None \<Rightarrow> s\<lparr>answers := (r, Failed500 NoTokenObj) # answers s\<rparr>
      | Some t \<Rightarrow> s\<lparr>waiting := r # waiting s\<rparr>)"

definition token_page :: "token \<Rightarrow> int \<Rightarrow> string option" where
  "token_page t now =
     (case (to_iso_string (expires t), to_iso_string now) of
        (Some e, Some n) \<Rightarrow>
          Some (tok t @ '' <br/>'' @ ''expiresOnTimestamp :'' @ e @ '' <br/>'' @ ''now : '' @ n)
      | _ \<Rightarrow> None)"

definition get_root_resume :: "nat \<Rightarrow> 'e token_answer \<Rightarrow> int \<Rightarrow> 'e server \<Rightarrow> 'e server" where
  "get_root_resume r ans now s =
     (let s' = s\<lparr>waiting := remove1 r (waiting s)\<rparr>
      in case ans of
           Inl e \<Rightarrow> s'\<lparr>answers := (r, Failed500 (Credential e)) # answers s\<rparr>
         | Inr t \<Rightarrow> s'\<lparr>token_obj := Some t,
                     answers := (r, case token_page t now of
                                      None \<Rightarrow> Failed500 BadDate | Some m \<Rightarrow> Page m) # answers s\<rparr>)"

text \<open>The events, each with what the outside world gives it.\<close>

datatype 'e event =
    Boot "'e token_answer"
  | Request nat
  | Resume nat "'e token_answer" int

inductive server_step :: "'e event \<Rightarrow> 'e server \<Rightarrow> 'e server \<Rightarrow> bool" where
  boots: "sphase s = Booting \<Longrightarrow> server_step (Boot ans) s (boot ans s)"
| request: "sphase s = Listening p \<Longrightarrow> server_step (Request r) s (get_root_begin r s)"
| resume: "sphase s = Listening p \<Longrightarrow> r \<in> set (waiting s) \<Longrightarrow>
    server_step (Resume r ans now) s (get_root_resume r ans now s)"

inductive server_run :: "'e event list \<Rightarrow> 'e server \<Rightarrow> bool" where
  start: "server_run [] app_init"
| more: "server_run es s \<Longrightarrow> server_step e s t \<Longrightarrow> server_run (es @ [e]) t"

inductive_cases server_stepE: "server_step e s t"

section \<open>Invariants\<close>

text \<open>The token an event brings, and the last one a history brought.\<close>

fun event_token :: "'e event \<Rightarrow> token option" where
  "event_token (Boot (Inr t)) = Some t"
| "event_token (Resume r (Inr t) now) = Some t"
| "event_token _ = None"

definition last_token :: "'e event list \<Rightarrow> token option" where
  "last_token es = (case rev (List.map_filter event_token es) of [] \<Rightarrow> None | t # _ \<Rightarrow> Some t)"

lemma last_token_snoc:
  "last_token (es @ [e]) = (case event_token e of None \<Rightarrow> last_token es | Some t \<Rightarrow> Some t)"
  by (simp add: last_token_def List.map_filter_def split: option.splits)

text \<open>No answer blames a missing token; a page shows the token its own request obtained.\<close>

definition answer_ok :: "'e event list \<Rightarrow> nat \<times> 'e response \<Rightarrow> bool" where
  "answer_ok es ra \<longleftrightarrow> snd ra \<noteq> Failed500 NoTokenObj \<and>
     (\<forall>m. snd ra = Page m \<longrightarrow>
        (\<exists>t now. Resume (fst ra) (Inr t) now \<in> set es \<and> token_page t now = Some m))"

definition server_inv :: "'e event list \<Rightarrow> 'e server \<Rightarrow> bool" where
  "server_inv es s \<longleftrightarrow>
     token_obj s = last_token es \<and>
     (case sphase s of Listening p \<Rightarrow> p = 8000 \<and> token_obj s \<noteq> None | _ \<Rightarrow> token_obj s = None) \<and>
     list_all (answer_ok es) (answers s)"

lemma answer_ok_mono: "answer_ok es ra \<Longrightarrow> answer_ok (es @ fs) ra"
  by (fastforce simp: answer_ok_def)

lemma answers_ok_mono: "list_all (answer_ok es) as \<Longrightarrow> list_all (answer_ok (es @ fs)) as"
  by (auto simp: list_all_iff intro: answer_ok_mono)

lemma server_inv_boot:
  "server_inv es s \<Longrightarrow> sphase s = Booting \<Longrightarrow> server_inv (es @ [Boot ans]) (boot ans s)"
  by (cases ans) (auto simp: server_inv_def boot_def last_token_snoc intro: answers_ok_mono)

lemma server_inv_request:
  "server_inv es s \<Longrightarrow> sphase s = Listening p \<Longrightarrow> server_inv (es @ [Request r]) (get_root_begin r s)"
  by (cases "last_token es") (auto simp: server_inv_def get_root_begin_def last_token_snoc intro: answers_ok_mono)

lemma answer_ok_resume:
  "answer_ok (es @ [Resume r (Inr t) now])
     (r, case token_page t now of None \<Rightarrow> Failed500 BadDate | Some m \<Rightarrow> Page m)"
  by (auto simp: answer_ok_def split: option.splits)

lemma server_inv_resume:
  "server_inv es s \<Longrightarrow> sphase s = Listening p \<Longrightarrow>
   server_inv (es @ [Resume r ans now]) (get_root_resume r ans now s)"
  by (cases ans; cases "last_token es")
    (auto simp: server_inv_def get_root_resume_def last_token_snoc Let_def answer_ok_resume
      answer_ok_def [of _ "(r, Failed500 (Credential _))"] intro: answers_ok_mono)

lemma server_inv_step: "server_step e s t \<Longrightarrow> server_inv es s \<Longrightarrow> server_inv (es @ [e]) t"
  by (erule server_stepE) (auto intro: server_inv_boot server_inv_request server_inv_resume)

lemma server_inv_run: "server_run es s \<Longrightarrow> server_inv es s"
proof (induction rule: server_run.induct)
  case start
  show ?case by (simp add: server_inv_def app_init_def last_token_def List.map_filter_def)
next
  case (more es s e t)
  then show ?case by (blast intro: server_inv_step)
qed

text \<open>C15: whatever the credential answers and however requests interleave, the shared token is
  the last one the credential granted; the server listens (on port 8000) only with a token;
  no request fails for want of a token object; and a page sent to a request shows the token
  which that very request obtained.\<close>

theorem server_answers:
  assumes "server_run es s"
  shows "token_obj s = last_token es \<and>
    (\<forall>p. sphase s = Listening p \<longrightarrow> p = 8000 \<and> token_obj s \<noteq> None) \<and>
    (\<forall>r a. (r, a) \<in> set (answers s) \<longrightarrow> a \<noteq> Failed500 NoTokenObj) \<and>
    (\<forall>r m. (r, Page m) \<in> set (answers s) \<longrightarrow>
       (\<exists>t now. Resume r (Inr t) now \<in> set es \<and> token_page t now = Some m))"
proof -
  have inv: "server_inv es s" using assms by (rule server_inv_run)
  then have "list_all (answer_ok es) (answers s)" by (simp add: server_inv_def)
  then have "snd ra \<noteq> Failed500 NoTokenObj \<and> (\<forall>m. snd ra = Page m \<longrightarrow>
      (\<exists>t now. Resume (fst ra) (Inr t) now \<in> set es \<and> token_page t now = Some m))"
    if "ra \<in> set (answers s)" for ra
    using that unfolding list_all_iff answer_ok_def by blast
  note ok = this [of "(_, _)", simplified]
  show ?thesis
  proof (intro conjI)
    show "\<forall>p. sphase s = Listening p \<longrightarrow> p = 8000 \<and> token_obj s \<noteq> None"
      using inv by (auto simp: server_inv_def)
    show "token_obj s = last_token es" using inv by (simp add: server_inv_def)
  qed (use ok in blast)+
qed

definition sample_token :: token where
  "sample_token = \<lparr>tok = ''abc'', expires = 1700000000000\<rparr>"

definition sample_history :: "nat event list" where
  "sample_history = [Boot (Inr sample_token), Request 1, Request 2, Resume 2 (Inr sample_token) 0, Resume 1 (Inl 5) 0]"

lemma sample_run:
  "server_run sample_history
     (get_root_resume 1 (Inl 5) 0 (get_root_resume 2 (Inr sample_token) 0
        (get_root_begin 2 (get_root_begin 1 (boot (Inr sample_token) app_init)))))"
proof -
  let ?a = "boot (Inr sample_token) app_init :: nat server"
  let ?b = "get_root_begin 1 ?a"
  let ?c = "get_root_begin 2 ?b"
  let ?d = "get_root_resume 2 (Inr sample_token) 0 ?c"
  note defs = boot_def app_init_def get_root_begin_def get_root_resume_def
  have "server_step (Boot (Inr sample_token)) app_init ?a" by (rule server_step.boots) (simp add: defs)
  from server_run.more [OF server_run.start this] have 1: "server_run [Boot (Inr sample_token)] ?a" by simp
  have "server_step (Request 1) ?a ?b" by (rule server_step.request [where p = 8000]) (simp add: defs)
  note 2 = server_run.more [OF 1 this]
  have "server_step (Request 2) ?b ?c" by (rule server_step.request [where p = 8000]) (simp add: defs)
  note 3 = server_run.more [OF 2 this]
  have "server_step (Resume 2 (Inr sample_token) 0) ?c ?d"
    by (rule server_step.resume [where p = 8000]) (simp_all add: defs)
  note 4 = server_run.more [OF 3 this]
  have "server_step (Resume 1 (Inl 5) 0) ?d (get_root_resume 1 (Inl 5) 0 ?d)"
    by (rule server_step.resume [where p = 8000]) (simp_all add: defs Let_def)
  from server_run.more [OF 4 this] show ?thesis by (simp add: sample_history_def)
qed

theorem server_answers_witness:
  "last_token sample_history = Some sample_token \<and>
   (\<exists>s. server_run sample_history s \<and> token_obj s = Some sample_token)"
proof -
  have "last_token sample_history = Some sample_token"
    by (simp add: last_token_def sample_history_def List.map_filter_def)
  with server_answers [OF sample_run] sample_run show ?thesis by metis
qed

end
