(* ===== verification/RegexLang.thy ===== *)
theory RegexLang
  imports Regex
begin

text \<open>
  The language of a pattern without assertions, and the theorem that the backtracking
  matcher finds exactly the words of that language; consequences for anchored patterns, for
  deleting a class, and a collection of membership rules (\<open>lang_simps\<close>) the components use.
\<close>

named_theorems lang_simps \<open>membership in the language of a pattern\<close>

primrec plain :: "rx \<Rightarrow> bool" where
  "plain Emp = True"
| "plain (Cls n i rs) = True"
| "plain (Seq r s) = (plain r \<and> plain s)"
| "plain (Alt r s) = (plain r \<and> plain s)"
| "plain (Rep lo hi g r) = plain r"
| "plain Bol = False"
| "plain Eol = False"
| "plain WordB = False"
| "plain (NotAhead r) = False"

definition in_bounds :: "nat \<Rightarrow> nat option \<Rightarrow> nat \<Rightarrow> bool" where
  "in_bounds lo hi n \<longleftrightarrow> lo \<le> n \<and> (case hi of None \<Rightarrow> True | Some h \<Rightarrow> n \<le> h)"

primrec lang :: "rx \<Rightarrow> string set" where
  "lang Emp = {[]}"
| "lang (Cls n i rs) = {[c] | c. in_cls n i rs c}"
| "lang (Seq r s) = {u @ v | u v. u \<in> lang r \<and> v \<in> lang s}"
| "lang (Alt r s) = lang r \<union> lang s"
| "lang (Rep lo hi g r) = {concat ws | ws. set ws \<subseteq> lang r \<and> in_bounds lo hi (length ws)}"
| "lang Bol = {}"
| "lang Eol = {}"
| "lang WordB = {}"
| "lang (NotAhead r) = {}"

section \<open>The matcher finds the words of the language\<close>

definition adv :: "char option \<Rightarrow> string \<Rightarrow> char option" where
  "adv p w = (if w = [] then p else Some (last w))"

lemma adv_simps [simp]: "adv p [] = p" "adv p (c # w) = adv (Some c) w"
  by (auto simp: adv_def)

lemma adv_append: "adv p (u @ v) = adv (adv p u) v"
  by (auto simp: adv_def)

text \<open>\<open>reads L x y\<close>: from position \<open>x\<close> a word of \<open>L\<close> leads to \<open>y\<close>.\<close>

definition reads :: "string set \<Rightarrow> pos \<Rightarrow> pos \<Rightarrow> bool" where
  "reads L x y \<longleftrightarrow> (\<exists>w\<in>L. snd x = w @ snd y \<and> fst y = adv (fst x) w)"

lemma readsI: "w \<in> L \<Longrightarrow> snd x = w @ snd y \<Longrightarrow> fst y = adv (fst x) w \<Longrightarrow> reads L x y"
  by (auto simp: reads_def)

lemma reads_length: "reads L x y \<Longrightarrow> length (snd y) \<le> length (snd x)"
  by (auto simp: reads_def)

lemma reads_Seq:
  "reads {u @ v | u v. u \<in> A \<and> v \<in> B} x z \<longleftrightarrow> (\<exists>y. reads A x y \<and> reads B y z)"
proof
  assume "reads {u @ v | u v. u \<in> A \<and> v \<in> B} x z"
  then obtain u v where uv: "u \<in> A" "v \<in> B" "snd x = u @ v @ snd z" "fst z = adv (fst x) (u @ v)"
    by (auto simp: reads_def)
  then have "reads A x (adv (fst x) u, v @ snd z)" "reads B (adv (fst x) u, v @ snd z) z"
    by (auto simp: reads_def adv_append)
  then show "\<exists>y. reads A x y \<and> reads B y z" by blast
next
  assume "\<exists>y. reads A x y \<and> reads B y z"
  then obtain y u v where "u \<in> A" "v \<in> B" "snd x = u @ snd y" "fst y = adv (fst x) u"
    "snd y = v @ snd z" "fst z = adv (fst y) v" by (auto simp: reads_def)
  then show "reads {u @ v | u v. u \<in> A \<and> v \<in> B} x z"
    by (intro readsI [of "u @ v"]) (auto simp: adv_append)
qed

definition power_lang :: "string set \<Rightarrow> nat \<Rightarrow> nat option \<Rightarrow> string set" where
  "power_lang L lo hi = {concat ws | ws. set ws \<subseteq> L \<and> in_bounds lo hi (length ws)}"

lemma reads_power_zero: "reads (power_lang L 0 hi) x x"
  by (intro readsI [of "[]"]) (auto simp: power_lang_def in_bounds_def intro!: exI [of _ "[]"] split: option.splits)

lemma in_bounds_pred:
  "hi \<noteq> Some 0 \<Longrightarrow> in_bounds (lo - 1) (map_option (\<lambda>h. h - 1) hi) n \<Longrightarrow> in_bounds lo hi (Suc n)"
  by (auto simp: in_bounds_def split: option.splits)

lemma in_bounds_Suc:
  "in_bounds lo hi (Suc n) \<Longrightarrow> in_bounds (lo - 1) (map_option (\<lambda>h. h - 1) hi) n"
  by (auto simp: in_bounds_def split: option.splits)

lemma reads_power_step:
  assumes "hi \<noteq> Some 0" "reads L x y"
    "reads (power_lang L (lo - 1) (map_option (\<lambda>h. h - 1) hi)) y z"
  shows "reads (power_lang L lo hi) x z"
proof -
  obtain w where w: "w \<in> L" "snd x = w @ snd y" "fst y = adv (fst x) w"
    using assms(2) by (auto simp: reads_def)
  obtain ws where ws: "set ws \<subseteq> L" "in_bounds (lo - 1) (map_option (\<lambda>h. h - 1) hi) (length ws)"
    "snd y = concat ws @ snd z" "fst z = adv (fst y) (concat ws)"
    using assms(3) by (auto simp: reads_def power_lang_def)
  have "concat (w # ws) \<in> power_lang L lo hi"
    unfolding power_lang_def using w ws in_bounds_pred [OF assms(1) ws(2)]
    by (intro CollectI exI [of _ "w # ws"]) auto
  then show ?thesis
    using w ws by (intro readsI [of "concat (w # ws)"]) (auto simp: adv_append)
qed

lemma rounds_zero: "rounds f lo (Some 0) g x = [x]"
  by (subst rounds.simps) simp

lemma rounds_must:
  "hi \<noteq> Some 0 \<Longrightarrow> 0 < lo \<Longrightarrow>
   set (rounds f lo hi g x) = (\<Union>y\<in>set (f x). set (rounds f (lo - 1) (map_option (\<lambda>h. h - 1) hi) g y))"
  by (subst rounds.simps) simp

lemma rounds_may:
  "hi \<noteq> Some 0 \<Longrightarrow>
   set (rounds f 0 hi g x) = insert x
     (\<Union>y\<in>{y \<in> set (f x). length (snd y) < length (snd x)}. set (rounds f 0 (map_option (\<lambda>h. h - 1) hi) g y))"
  by (subst rounds.simps) (auto simp: Let_def split: if_splits)

lemma rounds_sound:
  "(\<And>x y. y \<in> set (f x) \<Longrightarrow> reads L x y) \<Longrightarrow> z \<in> set (rounds f lo hi g x) \<Longrightarrow> in_bounds lo hi lo \<Longrightarrow> reads (power_lang L lo hi) x z"
proof (induction f lo hi g x rule: rounds.induct)
  case (1 f lo hi g x)
  consider "hi = Some 0" | "hi \<noteq> Some 0" "0 < lo" | "hi \<noteq> Some 0" "lo = 0" by auto
  then show ?case
  proof cases
    case 1
    with \<open>in_bounds lo hi lo\<close> have "lo = 0" by (simp add: in_bounds_def)
    with 1 "1.prems" show ?thesis by (simp add: rounds_zero reads_power_zero)
  next
    case 2
    with "1.prems"(2) obtain y where y: "y \<in> set (f x)"
      "z \<in> set (rounds f (lo - 1) (map_option (\<lambda>h. h - 1) hi) g y)"
      by (auto simp: rounds_must)
    have "in_bounds (lo - 1) (map_option (\<lambda>h. h - 1) hi) (lo - 1)"
      using \<open>in_bounds lo hi lo\<close> by (auto simp: in_bounds_def split: option.splits)
    with 2 y "1.IH"(1) "1.prems"(1) have "reads (power_lang L (lo - 1) (map_option (\<lambda>h. h - 1) hi)) y z" by blast
    with 2 y "1.prems"(1) show ?thesis by (blast intro: reads_power_step)
  next
    case 3
    with "1.prems"(2) consider "z = x"
      | y where "y \<in> set (f x)" "length (snd y) < length (snd x)"
        "z \<in> set (rounds f 0 (map_option (\<lambda>h. h - 1) hi) g y)"
      by (auto simp: rounds_may)
    then show ?thesis
    proof cases
      case 1
      with 3 show ?thesis by (simp add: reads_power_zero)
    next
      case 2
      have "in_bounds 0 (map_option (\<lambda>h. h - 1) hi) 0" by (simp add: in_bounds_def split: option.splits)
      with 3 2 "1.IH"(2) "1.prems"(1) have "reads (power_lang L 0 (map_option (\<lambda>h. h - 1) hi)) y z" by blast
      with 3 2 "1.prems"(1) reads_power_step [of hi L x y 0 z] show ?thesis by auto
    qed
  qed
qed

lemma concat_filter_nonempty: "concat (filter (\<lambda>w. w \<noteq> []) ws) = concat ws"
  by (induction ws) auto

lemma rounds_complete:
  "set ws \<subseteq> L \<Longrightarrow> in_bounds lo hi (length ws) \<Longrightarrow> snd x = concat ws @ snd z \<Longrightarrow>
    fst z = adv (fst x) (concat ws) \<Longrightarrow> (\<And>x y. reads L x y \<Longrightarrow> y \<in> set (f x)) \<Longrightarrow> z \<in> set (rounds f lo hi g x)"
proof (induction f lo hi g x arbitrary: ws rule: rounds.induct)
  case (1 f lo hi g x)
  have stop: "z = x" if "concat ws = []"
    using "1.prems"(3,4) that by (simp add: prod_eq_iff)
  consider "hi = Some 0" | "hi \<noteq> Some 0" "0 < lo" | "hi \<noteq> Some 0" "lo = 0" by auto
  then show ?case
  proof cases
    case 1
    with "1.prems"(2) have "ws = []" by (simp add: in_bounds_def)
    with 1 stop show ?thesis by (simp add: rounds_zero)
  next
    case 2
    then obtain w ws' where ws: "ws = w # ws'"
      using "1.prems"(2) by (cases ws) (auto simp: in_bounds_def)
    define y where "y = (adv (fst x) w, concat ws' @ snd z)"
    have y: "y \<in> set (f x)"
      using "1.prems" by (intro "1.prems"(5) readsI [of w]) (auto simp: y_def ws)
    have "z \<in> set (rounds f (lo - 1) (map_option (\<lambda>h. h - 1) hi) g y)"
      using "1.prems" in_bounds_Suc [of lo hi "length ws'"]
      by (intro "1.IH"(1) [of _ ws'] 2 y) (auto simp: ws y_def adv_append)
    with 2 y show ?thesis by (auto simp: rounds_must)
  next
    case 3
    define vs where "vs = filter (\<lambda>w. w \<noteq> []) ws"
    have vs: "concat vs = concat ws" "set vs \<subseteq> L" "[] \<notin> set vs" "length vs \<le> length ws"
      using "1.prems"(1) by (auto simp: vs_def concat_filter_nonempty)
    show ?thesis
    proof (cases vs)
      case Nil
      with vs(1) stop 3 show ?thesis by (simp add: rounds_may)
    next
      case (Cons w vs')
      define y where "y = (adv (fst x) w, concat vs' @ snd z)"
      have eq: "snd x = w @ snd y" "w \<noteq> []" "w \<in> L"
        using "1.prems"(3) vs Cons by (auto simp: y_def)
      then have y: "y \<in> set (f x)" "length (snd y) < length (snd x)"
        by (auto intro!: "1.prems"(5) readsI [of w] simp: y_def)
      have ad: "adv (fst x) (concat ws) = adv (adv (fst x) w) (concat vs')"
        using vs(1) Cons by (simp add: adv_append [symmetric])
      have "in_bounds 0 (map_option (\<lambda>h. h - 1) hi) (length vs')"
        using "1.prems"(2) vs(4) Cons by (auto simp: in_bounds_def split: option.splits)
      then have "z \<in> set (rounds f 0 (map_option (\<lambda>h. h - 1) hi) g y)"
        using "1.prems" vs Cons 3 ad by (intro "1.IH"(2) [of _ vs'] y) (auto simp: y_def)
      with 3 y show ?thesis unfolding rounds_may [OF 3(1)] 3(2) by blast
    qed
  qed
qed

text \<open>Bounds the scripts write are never empty: the least number of rounds is allowed.\<close>

primrec ok_bounds :: "rx \<Rightarrow> bool" where
  "ok_bounds Emp = True"
| "ok_bounds (Cls n i rs) = True"
| "ok_bounds (Seq r s) = (ok_bounds r \<and> ok_bounds s)"
| "ok_bounds (Alt r s) = (ok_bounds r \<and> ok_bounds s)"
| "ok_bounds (Rep lo hi g r) = (in_bounds lo hi lo \<and> ok_bounds r)"
| "ok_bounds Bol = True"
| "ok_bounds Eol = True"
| "ok_bounds WordB = True"
| "ok_bounds (NotAhead r) = ok_bounds r"

definition regular :: "rx \<Rightarrow> bool" where
  "regular r \<longleftrightarrow> plain r \<and> ok_bounds r"

lemma rounds_iff:
  assumes "\<And>x y. y \<in> set (f x) \<longleftrightarrow> reads L x y" "in_bounds lo hi lo"
  shows "z \<in> set (rounds f lo hi g x) \<longleftrightarrow> reads (power_lang L lo hi) x z"
proof
  assume "z \<in> set (rounds f lo hi g x)"
  then show "reads (power_lang L lo hi) x z" using assms by (intro rounds_sound) auto
next
  assume "reads (power_lang L lo hi) x z"
  then obtain ws where "set ws \<subseteq> L" "in_bounds lo hi (length ws)" "snd x = concat ws @ snd z"
    "fst z = adv (fst x) (concat ws)" by (auto simp: reads_def power_lang_def)
  then show "z \<in> set (rounds f lo hi g x)" using assms by (intro rounds_complete [of ws L]) auto
qed

theorem rxm_lang: "regular r \<Longrightarrow> y \<in> set (rxm r x) \<longleftrightarrow> reads (lang r) x y"
proof (induction r arbitrary: x y)
  case Emp
  show ?case by (auto simp: reads_def prod_eq_iff)
next
  case (Cls n i rs)
  show ?case by (cases x; cases y; cases "snd x") (auto simp: reads_def split: if_splits)
next
  case (Seq r s)
  then have r: "z \<in> set (rxm r x) \<longleftrightarrow> reads (lang r) x z"
    and s: "z \<in> set (rxm s x) \<longleftrightarrow> reads (lang s) x z" for x z
    by (simp_all only: regular_def plain.simps ok_bounds.simps)
  have "y \<in> set (rxm (Seq r s) x) \<longleftrightarrow> (\<exists>z. z \<in> set (rxm r x) \<and> y \<in> set (rxm s z))"
    by (simp only: rxm.simps set_concat set_map UN_iff bex_simps) blast
  then show ?case by (simp only: r s lang.simps reads_Seq)
next
  case (Alt r s)
  then show ?case by (auto simp: regular_def reads_def)
next
  case (Rep lo hi g r)
  then have "\<And>x y. y \<in> set (rxm r x) \<longleftrightarrow> reads (lang r) x y" "in_bounds lo hi lo"
    by (auto simp: regular_def)
  from rounds_iff [OF this] show ?case by (simp add: power_lang_def)
qed (simp_all add: regular_def)

lemma rxm_Nil_iff: "regular r \<Longrightarrow> rxm r x = [] \<longleftrightarrow> (\<forall>y. \<not> reads (lang r) x y)"
  using rxm_lang [of r] by (metis list.set_intros(1) neq_Nil_conv empty_iff empty_set)

section \<open>Testing\<close>

lemma rx_scan_Some_iff:
  "rx_scan r p s i \<noteq> None \<longleftrightarrow> (\<exists>u v. s = u @ v \<and> rxm r (adv p u, v) \<noteq> [])"
proof (induction s arbitrary: p i)
  case Nil
  show ?case by (simp add: rx_scan.simps split: list.splits)
next
  case (Cons c s)
  have "(\<exists>u v. c # s = u @ v \<and> rxm r (adv p u, v) \<noteq> []) \<longleftrightarrow>
      rxm r (p, c # s) \<noteq> [] \<or> (\<exists>u v. s = u @ v \<and> rxm r (adv (Some c) u, v) \<noteq> [])"
  proof
    assume "\<exists>u v. c # s = u @ v \<and> rxm r (adv p u, v) \<noteq> []"
    then obtain u v where "c # s = u @ v" "rxm r (adv p u, v) \<noteq> []" by blast
    then show "rxm r (p, c # s) \<noteq> [] \<or> (\<exists>u v. s = u @ v \<and> rxm r (adv (Some c) u, v) \<noteq> [])"
      by (cases u) auto
  next
    assume "rxm r (p, c # s) \<noteq> [] \<or> (\<exists>u v. s = u @ v \<and> rxm r (adv (Some c) u, v) \<noteq> [])"
    then show "\<exists>u v. c # s = u @ v \<and> rxm r (adv p u, v) \<noteq> []"
    proof
      assume "rxm r (p, c # s) \<noteq> []"
      then show ?thesis by (intro exI [of _ "[]"] exI [of _ "c # s"]) simp
    next
      assume "\<exists>u v. s = u @ v \<and> rxm r (adv (Some c) u, v) \<noteq> []"
      then obtain u v where "s = u @ v" "rxm r (adv (Some c) u, v) \<noteq> []" by blast
      then show ?thesis by (intro exI [of _ "c # u"] exI [of _ v]) simp
    qed
  qed
  then show ?case
    using Cons.IH by (simp add: rx_scan.simps [of r p "c # s"] split: list.splits)
qed

lemma rx_test_iff: "rx_test r s \<longleftrightarrow> (\<exists>u v. s = u @ v \<and> rxm r (adv None u, v) \<noteq> [])"
  unfolding rx_test_def rx_exec_def by (rule rx_scan_Some_iff)

lemma rx_test_Alt: "rx_test (Alt r s) w \<longleftrightarrow> rx_test r w \<or> rx_test s w"
  by (auto simp: rx_test_iff)

lemma adv_None_iff [simp]: "adv None u = None \<longleftrightarrow> u = []"
  by (simp add: adv_def)

lemma rx_test_Bol: "rx_test (Seq Bol r) s \<longleftrightarrow> rxm r (None, s) \<noteq> []"
  by (auto simp: rx_test_iff)

lemma rxm_Seq_Eol: "rxm (Seq r Eol) x = filter (\<lambda>y. snd y = []) (rxm r x)"
proof -
  have "concat (map (rxm Eol) ys) = filter (\<lambda>y. snd y = []) ys" for ys
    by (induction ys) auto
  then show ?thesis by simp
qed

lemma rxm_Seq_Eol_ne:
  assumes "regular r"
  shows "rxm (Seq r Eol) x \<noteq> [] \<longleftrightarrow> snd x \<in> lang r"
proof -
  have "rxm (Seq r Eol) x \<noteq> [] \<longleftrightarrow> (\<exists>y. reads (lang r) x y \<and> snd y = [])"
    unfolding rxm_Seq_Eol filter_empty_conv rxm_lang [OF assms, symmetric] by blast
  then show ?thesis by (auto simp: reads_def)
qed

theorem rx_test_anchored:
  assumes "regular r"
  shows "rx_test (anchored r) s \<longleftrightarrow> s \<in> lang r"
  unfolding anchored_def rx_test_Bol rxm_Seq_Eol_ne [OF assms] by simp

lemma rx_test_prefix:
  assumes "regular r"
  shows "rx_test (Seq Bol r) s \<longleftrightarrow> (\<exists>u v. s = u @ v \<and> u \<in> lang r)"
  unfolding rx_test_Bol rxm_Nil_iff [OF assms] by (auto simp: reads_def)

lemma rx_test_suffix:
  assumes "regular r"
  shows "rx_test (Seq r Eol) s \<longleftrightarrow> (\<exists>u v. s = u @ v \<and> v \<in> lang r)"
  unfolding rx_test_iff rxm_Seq_Eol_ne [OF assms] by simp

lemma rx_test_infix:
  assumes "regular r"
  shows "rx_test r s \<longleftrightarrow> (\<exists>u v w. s = u @ v @ w \<and> v \<in> lang r)"
proof -
  have "rxm r (adv None u, t) \<noteq> [] \<longleftrightarrow> (\<exists>v w. t = v @ w \<and> v \<in> lang r)" for u t
    unfolding rxm_Nil_iff [OF assms] by (auto simp: reads_def)
  then have "rx_test r s \<longleftrightarrow> (\<exists>u t. s = u @ t \<and> (\<exists>v w. t = v @ w \<and> v \<in> lang r))"
    unfolding rx_test_iff by simp
  then show ?thesis by auto
qed

section \<open>Membership rules\<close>

lemma mem_Seq: "w \<in> lang (Seq r s) \<longleftrightarrow> (\<exists>u v. w = u @ v \<and> u \<in> lang r \<and> v \<in> lang s)"
  by auto

lemma mem_Cls [lang_simps]: "w \<in> lang (Cls n i rs) \<longleftrightarrow> (\<exists>c. w = [c] \<and> in_cls n i rs c)"
  by auto

lemma mem_Alt [lang_simps]: "w \<in> lang (Alt r s) \<longleftrightarrow> w \<in> lang r \<or> w \<in> lang s"
  by simp

lemma mem_Emp [lang_simps]: "w \<in> lang Emp \<longleftrightarrow> w = []"
  by simp

lemma concat_singles: "set ws \<subseteq> {[c] | c. P c} \<Longrightarrow> length (concat ws) = length ws \<and> list_all P (concat ws)"
  by (induction ws) auto

lemma mem_Rep_Cls [lang_simps]:
  "w \<in> lang (Rep lo hi g (Cls n i rs)) \<longleftrightarrow> in_bounds lo hi (length w) \<and> list_all (in_cls n i rs) w"
proof
  assume "w \<in> lang (Rep lo hi g (Cls n i rs))"
  then obtain ws where "w = concat ws" "set ws \<subseteq> {[c] | c. in_cls n i rs c}" "in_bounds lo hi (length ws)"
    by auto
  with concat_singles [of ws "in_cls n i rs"]
  show "in_bounds lo hi (length w) \<and> list_all (in_cls n i rs) w" by simp
next
  assume *: "in_bounds lo hi (length w) \<and> list_all (in_cls n i rs) w"
  have "w = concat (map (\<lambda>c. [c]) w)" by (induction w) auto
  with * show "w \<in> lang (Rep lo hi g (Cls n i rs))"
    by (auto simp: list_all_iff intro!: exI [of _ "map (\<lambda>c. [c]) w"])
qed

lemma mem_Rep_opt [lang_simps]:
  "w \<in> lang (Rep 0 (Some (Suc 0)) g r) \<longleftrightarrow> w = [] \<or> w \<in> lang r"
proof
  assume "w \<in> lang (Rep 0 (Some (Suc 0)) g r)"
  then obtain ws where ws: "w = concat ws" "set ws \<subseteq> lang r" "length ws \<le> 1"
    by (auto simp: in_bounds_def)
  then show "w = [] \<or> w \<in> lang r" by (cases ws) auto
next
  assume "w = [] \<or> w \<in> lang r"
  then show "w \<in> lang (Rep 0 (Some (Suc 0)) g r)"
  proof
    assume "w = []"
    then show ?thesis by (auto simp: in_bounds_def intro!: exI [of _ "[]"])
  next
    assume "w \<in> lang r"
    then show ?thesis by (auto simp: in_bounds_def intro!: exI [of _ "[w]"])
  qed
qed

lemma mem_Rep_times_0 [lang_simps]: "w \<in> lang (Rep 0 (Some 0) g r) \<longleftrightarrow> w = []"
  by (auto simp: in_bounds_def)

lemma mem_Rep_times_Suc [lang_simps]:
  "w \<in> lang (Rep (Suc n) (Some (Suc n)) g r) \<longleftrightarrow>
   (\<exists>u v. w = u @ v \<and> u \<in> lang r \<and> v \<in> lang (Rep n (Some n) g r))"
proof
  assume "w \<in> lang (Rep (Suc n) (Some (Suc n)) g r)"
  then obtain ws where ws: "w = concat ws" "set ws \<subseteq> lang r" "length ws = Suc n"
    by (auto simp: in_bounds_def)
  then obtain u vs where "ws = u # vs" by (cases ws) auto
  with ws have "w = u @ concat vs" "u \<in> lang r" "concat vs \<in> lang (Rep n (Some n) g r)"
    by (auto simp: in_bounds_def)
  then show "\<exists>u v. w = u @ v \<and> u \<in> lang r \<and> v \<in> lang (Rep n (Some n) g r)" by blast
next
  assume "\<exists>u v. w = u @ v \<and> u \<in> lang r \<and> v \<in> lang (Rep n (Some n) g r)"
  then obtain u vs where "w = u @ concat vs" "u \<in> lang r" "set vs \<subseteq> lang r" "length vs = n"
    by (auto simp: in_bounds_def)
  then show "w \<in> lang (Rep (Suc n) (Some (Suc n)) g r)"
    by (auto simp: in_bounds_def intro!: exI [of _ "u # vs"])
qed

end
