(* ===== verification/RegexParse.thy ===== *)
theory RegexParse
  imports Regex
begin

text \<open>
  The RegExp constructor: from the text of a pattern to the pattern, for the methods that
  build a pattern from a parameter. A scanner cuts the text into tokens one code unit at a
  time; a shift-reduce pass over the tokens builds the pattern. The result is \<^const>\<open>None\<close> where the
  constructor throws a SyntaxError, and also for the forms that no script here writes
  (back references, named groups, lookbehind, control and Unicode escapes above 0xFF).
\<close>

section \<open>Tokens\<close>

datatype rx_group = Capture | NegAhead | PosAhead

datatype rx_token =
    TAtom rx
  | TOpen rx_group
  | TClose
  | TBar
  | TQuant nat "nat option"
  | TLazy

definition esc_class :: "char \<Rightarrow> (bool \<times> (char \<times> char) list) option" where
  "esc_class c =
     (if c = CHR ''d'' then Some (False, ranges ''09'')
      else if c = CHR ''D'' then Some (True, ranges ''09'')
      else if c = CHR ''w'' then Some (False, ranges ''azAZ09__'')
      else if c = CHR ''W'' then Some (True, ranges ''azAZ09__'')
      else if c = CHR ''s'' then Some (False, map (\<lambda>x. (x, x)) ws_chars)
      else if c = CHR ''S'' then Some (True, map (\<lambda>x. (x, x)) ws_chars)
      else None)"

definition esc_char :: "char \<Rightarrow> char option" where
  "esc_char c =
     (if c = CHR ''n'' then Some (CHR 0x0A) else if c = CHR ''r'' then Some (CHR 0x0D)
      else if c = CHR ''t'' then Some (CHR 0x09) else if c = CHR ''v'' then Some (CHR 0x0B)
      else if c = CHR ''f'' then Some (CHR 0x0C)
      else if is_digit c \<or> c \<in> set ''kcxuBpP'' then None
      else Some c)"

text \<open>All code units outside a list of ranges, as ranges: for a negated escape in a class.\<close>

definition complement_ranges :: "(char \<times> char) list \<Rightarrow> (char \<times> char) list" where
  "complement_ranges rs =
     map (\<lambda>n. (char_of n, char_of n)) (filter (\<lambda>n. \<not> in_ranges rs (char_of n)) [0..<256])"

text \<open>
  The scanner's modes: plain; after a backslash; just after an opening parenthesis; after
  \<open>(?\<close>; in a class (negated, ranges so far, last single code unit if it may begin a range,
  whether a range is open, after a backslash); in the braces of a quantifier.
\<close>

record class_state =
  cneg :: bool
  cranges :: "(char \<times> char) list"
  clast :: "char option"
  copen :: bool
  cesc :: bool
  cfirst :: bool

datatype scan_mode =
    Plain
  | Escape
  | AfterOpen
  | AfterQuestion
  | InClass class_state
  | InBraces string

definition class_single :: "class_state \<Rightarrow> char \<Rightarrow> class_state option" where
  "class_single k c =
     (if copen k then
        (case clast k of
           None \<Rightarrow> None
         | Some a \<Rightarrow> if a \<le> c then Some (k\<lparr>cranges := cranges k @ [(a, c)], clast := None, copen := False,
                                          cesc := False, cfirst := False\<rparr>) else None)
      else Some (k\<lparr>cranges := cranges k @ [(c, c)], clast := Some c, cesc := False, cfirst := False\<rparr>))"

definition class_escape :: "class_state \<Rightarrow> char \<Rightarrow> class_state option" where
  "class_escape k c =
     (case esc_class c of
        Some (n, rs) \<Rightarrow>
          (if copen k then None
           else Some (k\<lparr>cranges := cranges k @ (if n then complement_ranges rs else rs),
                        clast := None, cesc := False, cfirst := False\<rparr>))
      | None \<Rightarrow> (if c = CHR ''b'' then class_single k (CHR 0x08)
                 else case esc_char c of None \<Rightarrow> None | Some d \<Rightarrow> class_single k d))"

definition class_step :: "class_state \<Rightarrow> char \<Rightarrow> class_state option" where
  "class_step k c =
     (if cesc k then class_escape k c
      else if c = CHR 0x5C then Some (k\<lparr>cesc := True, cfirst := False\<rparr>)
      else if cfirst k \<and> c = CHR ''^'' then Some (k\<lparr>cneg := True, cfirst := False\<rparr>)
      else if c = CHR ''-'' \<and> clast k \<noteq> None \<and> \<not> copen k then Some (k\<lparr>copen := True, cfirst := False\<rparr>)
      else class_single k c)"

text \<open>A dash left open at the end of a class stands for itself.\<close>

definition class_rx :: "class_state \<Rightarrow> rx" where
  "class_rx k = Cls (cneg k) False (cranges k @ (if copen k then [(CHR ''-'', CHR ''-'')] else []))"

definition new_class :: class_state where
  "new_class = \<lparr>cneg = False, cranges = [], clast = None, copen = False, cesc = False, cfirst = True\<rparr>"

definition brace_quant :: "string \<Rightarrow> rx_token option" where
  "brace_quant s =
     (case split_on (CHR '','') s of
        [a] \<Rightarrow> if a \<noteq> [] \<and> all_digits a then Some (TQuant (nat (digits_val a)) (Some (nat (digits_val a)))) else None
      | [a, b] \<Rightarrow>
          if a \<noteq> [] \<and> all_digits a \<and> all_digits b then
            (if b = [] then Some (TQuant (nat (digits_val a)) None)
             else if digits_val a \<le> digits_val b then Some (TQuant (nat (digits_val a)) (Some (nat (digits_val b))))
             else None)
          else None
      | _ \<Rightarrow> None)"

definition plain_token :: "char \<Rightarrow> rx_token" where
  "plain_token c =
     (if c = CHR ''^'' then TAtom Bol else if c = CHR ''$'' then TAtom Eol
      else if c = CHR ''.'' then TAtom rany else if c = CHR ''|'' then TBar
      else if c = CHR '')'' then TClose else if c = CHR ''*'' then TQuant 0 None
      else if c = CHR ''+'' then TQuant 1 None else TAtom (cls [] [c]))"

fun is_quant :: "rx_token list \<Rightarrow> bool" where
  "is_quant (TQuant a b # _) = True"
| "is_quant _ = False"

text \<open>The tokens are collected in reverse; a question mark after a quantifier makes it lazy.\<close>

fun scan :: "scan_mode \<Rightarrow> string \<Rightarrow> rx_token list \<Rightarrow> rx_token list option" where
  "scan Plain [] ts = Some (rev ts)"
| "scan AfterOpen [] ts = None"
| "scan Escape [] ts = None"
| "scan AfterQuestion [] ts = None"
| "scan (InClass k) [] ts = None"
| "scan (InBraces b) [] ts = None"
| "scan Plain (c # cs) ts =
     (if c = CHR 0x5C then scan Escape cs ts
      else if c = CHR ''('' then scan AfterOpen cs ts
      else if c = CHR ''['' then scan (InClass new_class) cs ts
      else if c = CHR ''{'' then scan (InBraces []) cs ts
      else if c = CHR ''?'' then scan Plain cs ((if is_quant ts then TLazy else TQuant 0 (Some 1)) # ts)
      else scan Plain cs (plain_token c # ts))"
| "scan Escape (c # cs) ts =
     (case esc_class c of
        Some (n, rs) \<Rightarrow> scan Plain cs (TAtom (Cls n False rs) # ts)
      | None \<Rightarrow> if c = CHR ''b'' then scan Plain cs (TAtom WordB # ts)
               else case esc_char c of None \<Rightarrow> None | Some d \<Rightarrow> scan Plain cs (TAtom (cls [] [d]) # ts))"
| "scan AfterOpen (c # cs) ts =
     (if c = CHR ''?'' then scan AfterQuestion cs ts
      else if c = CHR 0x5C then scan Escape cs (TOpen Capture # ts)
      else if c = CHR ''('' then scan AfterOpen cs (TOpen Capture # ts)
      else if c = CHR ''['' then scan (InClass new_class) cs (TOpen Capture # ts)
      else if c = CHR ''{'' then None
      else scan Plain cs (plain_token c # TOpen Capture # ts))"
| "scan AfterQuestion (c # cs) ts =
     (if c = CHR '':'' then scan Plain cs (TOpen Capture # ts)
      else if c = CHR ''!'' then scan Plain cs (TOpen NegAhead # ts)
      else if c = CHR ''='' then scan Plain cs (TOpen PosAhead # ts)
      else None)"
| "scan (InClass k) (c # cs) ts =
     (if \<not> cesc k \<and> c = CHR '']'' then scan Plain cs (TAtom (class_rx k) # ts)
      else case class_step k c of None \<Rightarrow> None | Some k' \<Rightarrow> scan (InClass k') cs ts)"
| "scan (InBraces b) (c # cs) ts =
     (if c = CHR ''}'' then (case brace_quant b of None \<Rightarrow> None | Some q \<Rightarrow> scan Plain cs (q # ts))
      else scan (InBraces (b @ [c])) cs ts)"

section \<open>From tokens to the pattern\<close>

text \<open>
  A frame is an open group: its kind, the alternatives already complete, and the factors of
  the current one, both newest first.
\<close>

type_synonym rx_frame = "rx_group \<times> rx list \<times> rx list"

definition close_frame :: "rx list \<Rightarrow> rx list \<Rightarrow> rx" where
  "close_frame alts facs = ralt (rev (rseq (rev facs) # alts))"

fun quantifiable :: "rx \<Rightarrow> bool" where
  "quantifiable Bol = False"
| "quantifiable Eol = False"
| "quantifiable WordB = False"
| "quantifiable _ = True"

fun reduce :: "rx_token list \<Rightarrow> rx_frame list \<Rightarrow> rx option" where
  "reduce [] [(g, alts, facs)] = Some (close_frame alts facs)"
| "reduce [] _ = None"
| "reduce (TAtom r # ts) ((g, alts, facs) # fs) = reduce ts ((g, alts, r # facs) # fs)"
| "reduce (TOpen g # ts) fs = reduce ts ((g, [], []) # fs)"
| "reduce (TBar # ts) ((g, alts, facs) # fs) = reduce ts ((g, rseq (rev facs) # alts, []) # fs)"
| "reduce (TClose # ts) ((g, alts, facs) # (g', alts', facs') # fs) =
     (let r = close_frame alts facs
      in reduce ts ((g', alts', (case g of Capture \<Rightarrow> r | NegAhead \<Rightarrow> NotAhead r
                                  | PosAhead \<Rightarrow> NotAhead (NotAhead r)) # facs') # fs))"
| "reduce (TQuant a b # TLazy # ts) ((g, alts, r # facs) # fs) =
     (if quantifiable r then reduce ts ((g, alts, Rep a b False r # facs) # fs) else None)"
| "reduce (TQuant a b # TQuant c d # ts) fs = None"
| "reduce (TQuant a b # ts) ((g, alts, r # facs) # fs) =
     (if quantifiable r then reduce ts ((g, alts, Rep a b True r # facs) # fs) else None)"
| "reduce (t # ts) fs = None"

definition compile_rx :: "bool \<Rightarrow> string \<Rightarrow> rx option" where
  "compile_rx i s =
     (case scan Plain s [] of
        None \<Rightarrow> None
      | Some ts \<Rightarrow> map_option (if i then icase else (\<lambda>r. r)) (reduce ts [(Capture, [], [])]))"

text \<open>\<open>new RegExp(s)\<close>: a bad pattern throws.\<close>

definition new_regexp :: "bool \<Rightarrow> string \<Rightarrow> rx result" where
  "new_regexp i s = (case compile_rx i s of None \<Rightarrow> Inl SyntaxError | Some r \<Rightarrow> Inr r)"

lemma compile_example:
  "compile_rx True ''png|jpe?g'' =
     Some (icase (Alt (lit ''png'') (rseq [cls [] ''j'', cls [] ''p'', ropt (cls [] ''e''), cls [] ''g''])))"
  by code_simp

section \<open>Plain text in a pattern\<close>

text \<open>Word characters and dashes stand for themselves.\<close>

definition plain_char :: "char \<Rightarrow> bool" where
  "plain_char c \<longleftrightarrow> word_char c \<or> c = CHR ''-''"

abbreviation atoms :: "string \<Rightarrow> rx_token list" where
  "atoms w \<equiv> map (\<lambda>c. TAtom (cls [] [c])) w"

lemma plain_char_not_special:
  "plain_char c \<Longrightarrow> c \<notin> set ([CHR 0x5C] @ ''([{?^$.|)*+'')"
  by (auto simp: plain_char_def word_char_def is_digit_def)

lemma scan_plain_char:
  "plain_char c \<Longrightarrow> scan Plain (c # cs) ts = scan Plain cs (TAtom (cls [] [c]) # ts)"
  "plain_char c \<Longrightarrow> scan AfterOpen (c # cs) ts = scan Plain cs (TAtom (cls [] [c]) # TOpen Capture # ts)"
  using plain_char_not_special [of c] by (simp_all add: plain_token_def)

lemma scan_plain:
  "list_all plain_char w \<Longrightarrow> scan Plain (w @ cs) ts = scan Plain cs (rev (atoms w) @ ts)"
  by (induction w arbitrary: ts) (simp_all add: scan_plain_char del: scan.simps)

lemma reduce_atoms:
  "reduce (atoms w @ ts) ((g, alts, facs) # fs) = reduce ts ((g, alts, rev (map (\<lambda>c. cls [] [c]) w) @ facs) # fs)"
  by (induction w arbitrary: facs) simp_all

lemma scan_after_open:
  "plain_char c \<Longrightarrow> scan AfterOpen (c # cs) ts = scan Plain (c # cs) (TOpen Capture # ts)"
  by (simp only: scan_plain_char)

end
