(* ===== verification/JsNumber.thy ===== *)
theory JsNumber
  imports Complex_Main JsString
begin

text \<open>
  JavaScript numbers as far as the validation methods use them: NaN, the infinities and exact
  rationals (the rounding of doubles is not modelled), the conversion \<open>Number(s)\<close> of a string,
  the comparison operators, \<open>Math.round\<close> and the remainder.
\<close>

datatype jnum = NaN | Inf bool | Fin rat

definition trim_ws :: "string \<Rightarrow> string" where
  "trim_ws s = rev (dropWhile is_ws (rev (dropWhile is_ws s)))"

definition hex_val :: "char \<Rightarrow> int option" where
  "hex_val c =
     (if is_digit c then Some (digit_val c)
      else if CHR ''a'' \<le> c \<and> c \<le> CHR ''f'' then Some (of_char c - 87)
      else if CHR ''A'' \<le> c \<and> c \<le> CHR ''F'' then Some (of_char c - 55)
      else None)"

fun radix_val :: "int \<Rightarrow> string \<Rightarrow> int \<Rightarrow> int option" where
  "radix_val b [] acc = Some acc"
| "radix_val b (c # cs) acc =
     (case hex_val c of
        None \<Rightarrow> None
      | Some d \<Rightarrow> if d < b then radix_val b cs (acc * b + d) else None)"

text \<open>The exponent part of a decimal literal; nothing is exponent 0.\<close>

definition exponent_part :: "string \<Rightarrow> int option" where
  "exponent_part s =
     (case s of
        [] \<Rightarrow> Some 0
      | e # r \<Rightarrow>
          if e \<noteq> CHR ''e'' \<and> e \<noteq> CHR ''E'' then None
          else (let neg = (r \<noteq> [] \<and> hd r = CHR ''-'');
                    ds = (if r \<noteq> [] \<and> (hd r = CHR ''-'' \<or> hd r = CHR ''+'') then tl r else r)
                in if ds \<noteq> [] \<and> all_digits ds then Some (if neg then - digits_val ds else digits_val ds)
                   else None))"

definition unsigned_decimal :: "string \<Rightarrow> rat option" where
  "unsigned_decimal s =
     (let ip = takeWhile is_digit s; r = dropWhile is_digit s;
          dot = (r \<noteq> [] \<and> hd r = CHR ''.'');
          fp = (if dot then takeWhile is_digit (tl r) else []);
          r' = (if dot then dropWhile is_digit (tl r) else r)
      in if ip = [] \<and> fp = [] then None
         else case exponent_part r' of
                None \<Rightarrow> None
              | Some e \<Rightarrow>
                  Some (of_int (digits_val (ip @ fp)) / 10 ^ length fp
                    * (if e < 0 then 1 / 10 ^ nat (- e) else 10 ^ nat e)))"

definition unsigned_number :: "string \<Rightarrow> jnum" where
  "unsigned_number s =
     (if s = ''Infinity'' then Inf True
      else case unsigned_decimal s of None \<Rightarrow> NaN | Some q \<Rightarrow> Fin q)"

definition neg_num :: "jnum \<Rightarrow> jnum" where
  "neg_num x = (case x of NaN \<Rightarrow> NaN | Inf b \<Rightarrow> Inf (\<not> b) | Fin q \<Rightarrow> Fin (- q))"

definition to_number :: "string \<Rightarrow> jnum" where
  "to_number s =
     (let t = trim_ws s
      in if t = [] then Fin 0
         else if length t > 2 \<and> hd t = CHR ''0'' \<and> t ! 1 \<in> {CHR ''x'', CHR ''X'', CHR ''o'', CHR ''O'', CHR ''b'', CHR ''B''} then
           (let b = (if t ! 1 \<in> {CHR ''x'', CHR ''X''} then 16 else if t ! 1 \<in> {CHR ''o'', CHR ''O''} then 8 else 2)
            in case radix_val b (drop 2 t) 0 of None \<Rightarrow> NaN | Some i \<Rightarrow> Fin (of_int i))
         else if hd t = CHR ''-'' then neg_num (unsigned_number (tl t))
         else if hd t = CHR ''+'' then unsigned_number (tl t)
         else unsigned_number t)"

definition num_le :: "jnum \<Rightarrow> jnum \<Rightarrow> bool" where
  "num_le x y =
     (case (x, y) of
        (NaN, _) \<Rightarrow> False | (_, NaN) \<Rightarrow> False
      | (Inf False, _) \<Rightarrow> True | (_, Inf True) \<Rightarrow> True
      | (Inf True, _) \<Rightarrow> False | (_, Inf False) \<Rightarrow> False
      | (Fin p, Fin q) \<Rightarrow> p \<le> q)"

definition num_less :: "jnum \<Rightarrow> jnum \<Rightarrow> bool" where
  "num_less x y \<longleftrightarrow> x \<noteq> NaN \<and> y \<noteq> NaN \<and> \<not> num_le y x"

definition num_mult :: "jnum \<Rightarrow> rat \<Rightarrow> jnum" where
  \<comment> \<open>times a positive rational\<close>
  "num_mult x q = (case x of NaN \<Rightarrow> NaN | Inf b \<Rightarrow> Inf b | Fin p \<Rightarrow> Fin (p * q))"

definition math_round :: "jnum \<Rightarrow> jnum" where
  "math_round x = (case x of Fin p \<Rightarrow> Fin (of_int \<lfloor>p + 1 / 2\<rfloor>) | _ \<Rightarrow> x)"

text \<open>The remainder takes the sign of the dividend.\<close>

definition rat_rem :: "rat \<Rightarrow> rat \<Rightarrow> rat" where
  "rat_rem p q = (let a = \<bar>p\<bar>; b = \<bar>q\<bar>; r = a - b * of_int \<lfloor>a / b\<rfloor> in if p < 0 then - r else r)"

definition num_rem :: "jnum \<Rightarrow> jnum \<Rightarrow> jnum" where
  "num_rem x y =
     (case (x, y) of
        (Fin p, Fin q) \<Rightarrow> if q = 0 then NaN else Fin (rat_rem p q)
      | (Fin p, Inf _) \<Rightarrow> Fin p
      | _ \<Rightarrow> NaN)"

text \<open>\<open>==\<close> of strings in the order of code units, for \<open><\<close> and \<open><=\<close> on two strings.\<close>

fun str_le :: "string \<Rightarrow> string \<Rightarrow> bool" where
  "str_le [] t = True"
| "str_le (c # s) [] = False"
| "str_le (c # s) (d # t) = (c < d \<or> (c = d \<and> str_le s t))"

definition str_less :: "string \<Rightarrow> string \<Rightarrow> bool" where
  "str_less s t \<longleftrightarrow> str_le s t \<and> s \<noteq> t"

section \<open>Facts\<close>

lemma num_le_Fin [simp]: "num_le (Fin p) (Fin q) \<longleftrightarrow> p \<le> q"
  by (simp add: num_le_def)

lemma num_le_NaN [simp]: "num_le NaN y = False" "num_le x NaN = False"
  by (auto simp: num_le_def split: jnum.splits bool.splits)

lemma str_le_refl [simp]: "str_le s s"
  by (induction s) auto

lemma str_le_antisym: "str_le s t \<Longrightarrow> str_le t s \<Longrightarrow> s = t"
  by (induction s t rule: str_le.induct) (auto elim: str_le.elims)

lemma str_le_total: "str_le s t \<or> str_le t s"
  by (induction s t rule: str_le.induct) auto

lemma str_le_trans: "str_le s t \<Longrightarrow> str_le t u \<Longrightarrow> str_le s u"
proof (induction s t arbitrary: u rule: str_le.induct)
  case (3 c s d t)
  then show ?case by (cases u) auto
qed auto

lemma dropWhile_id: "s \<noteq> [] \<Longrightarrow> \<not> P (hd s) \<Longrightarrow> dropWhile P s = s"
  by (cases s) auto

lemma trim_ws_no_ws: "s \<noteq> [] \<Longrightarrow> \<not> is_ws (hd s) \<Longrightarrow> \<not> is_ws (last s) \<Longrightarrow> trim_ws s = s"
  by (simp add: trim_ws_def dropWhile_id hd_rev)

lemma to_number_digits:
  assumes "all_digits s" "s \<noteq> []"
  shows "to_number s = Fin (of_int (digits_val s))"
proof -
  have d: "is_digit c" if "c \<in> set s" for c
    using assms(1) that by (simp add: all_digits_def list_all_iff)
  have "is_digit (hd s)" "is_digit (last s)" using d assms(2) by simp_all
  then have t: "trim_ws s = s" using assms(2) by (simp add: trim_ws_no_ws is_digit_not_ws)
  have nox: "s ! 1 \<notin> {CHR ''x'', CHR ''X'', CHR ''o'', CHR ''O'', CHR ''b'', CHR ''B''}" if "length s > 2"
    using d [of "s ! 1"] that by (auto simp: is_digit_of_char)
  have sign: "hd s \<noteq> CHR ''-''" "hd s \<noteq> CHR ''+''" "s \<noteq> ''Infinity''"
    using \<open>is_digit (hd s)\<close> by (auto simp: is_digit_of_char)
  have "takeWhile is_digit s = s" "dropWhile is_digit s = []"
    using d by (auto simp: takeWhile_eq_all_conv dropWhile_eq_Nil_conv)
  note eqs = this
  have "unsigned_decimal s = Some (of_int (digits_val s))"
    unfolding unsigned_decimal_def eqs using assms(2) by (simp add: exponent_part_def)
  then show ?thesis using t nox sign assms(2) by (auto simp: to_number_def unsigned_number_def Let_def)
qed

end
