(* ===== verification/MethodBase.thy ===== *)
theory MethodBase
  imports RegexLang RegexParse JsNumber JsDate
begin

text \<open>
  What validation methods return, and the arithmetic their check-digit loops share. A method
  is called with the field's value and, in the model, with whether
  \<open>this.optional(element)\<close> is truthy (the field may stay empty and is empty).
\<close>

section \<open>Results\<close>

text \<open>
  The truth value of what a method returns, apart from the two strings \<open>check\<close> looks for.
  \<open>this.optional\<close> itself returns \<open>"dependency-mismatch"\<close> or \<open>false\<close>.
\<close>

datatype mres = Res bool | Mismatch | Pending

fun truthy :: "mres \<Rightarrow> bool" where
  "truthy (Res b) = b"
| "truthy Mismatch = True"
| "truthy Pending = True"

definition or_optional :: "bool \<Rightarrow> bool \<Rightarrow> mres" where
  \<comment> \<open>\<open>this.optional( element ) || b\<close>\<close>
  "or_optional opt b = (if opt then Mismatch else Res b)"

lemma or_optional_simps [simp]:
  "or_optional True b = Mismatch" "or_optional False b = Res b"
  by (simp_all add: or_optional_def)

section \<open>Sums of products with digits\<close>

definition nan_sum :: "int option list \<Rightarrow> int option" where
  "nan_sum xs = foldl (num2 (+)) (Some 0) xs"

definition nan_mod :: "int option \<Rightarrow> int \<Rightarrow> int option" where
  "nan_mod x m = map_option (\<lambda>i. i mod m) x"

lemma foldl_num2_None [simp]: "foldl (num2 (+)) None xs = None"
  by (induction xs) auto

lemma foldl_num2_Some: "foldl (num2 (+)) (Some a) (map (\<lambda>i. Some (f i)) is) = Some (a + sum_list (map f is))"
  by (induction "is" arbitrary: a) auto

lemma nan_sum_Some: "nan_sum (map (\<lambda>i. Some (f i)) is) = Some (sum_list (map f is))"
  by (simp add: nan_sum_def foldl_num2_Some)

lemma nan_sum_cong:
  "(\<And>i. i \<in> set is \<Longrightarrow> g i = Some (f i)) \<Longrightarrow> nan_sum (map g is) = Some (sum_list (map f is))"
  by (simp add: nan_sum_Some [symmetric] cong: map_cong)

lemma sum_list_upt: "sum_list (map f [0..<n]) = (\<Sum>i<n. f i :: int)"
  by (simp add: interv_sum_list_conv_sum_set_nat atLeast0LessThan)

text \<open>The digit at a position, as an integer.\<close>

abbreviation dig :: "string \<Rightarrow> nat \<Rightarrow> int" where
  "dig v i \<equiv> digit_val (v ! i)"

lemma all_digits_nth: "all_digits v \<Longrightarrow> i < length v \<Longrightarrow> is_digit (v ! i)"
  by (simp add: all_digits_def list_all_length)

lemma char_num_at: "all_digits v \<Longrightarrow> i < length v \<Longrightarrow> char_num (char_at v i) = Some (dig v i)"
  by (simp add: char_at_def char_num_digit all_digits_nth)

lemma parse_int_at: "all_digits v \<Longrightarrow> i < length v \<Longrightarrow> parse_int (char_at v i) = Some (dig v i)"
  by (simp add: char_at_def parse_int_digit all_digits_nth)

lemma substring_one: "i < length v \<Longrightarrow> substring v i (Suc i) = char_at v i"
  by (simp add: substring_def char_at_def take_Suc_conv_app_nth flip: hd_drop_conv_nth)

lemma digit_mod_10: "is_digit c \<Longrightarrow> digit_val c mod 10 = digit_val c"
  using digit_val_range [of c] by simp

section \<open>Deleting the code units of a class\<close>

lemma rxm_cls_Cons:
  "rxm (Cls n i rs) (p, c # cs) = (if in_cls n i rs c then [(Some c, cs)] else [])"
  by simp

lemma rx_subst_cls: "rx_subst (Cls n i rs) (\<lambda>_. []) (p, s) = filter (\<lambda>c. \<not> in_cls n i rs c) s"
proof (induction s arbitrary: p)
  case Nil
  show ?case by (simp add: rx_subst.simps)
next
  case (Cons c s)
  then show ?case by (simp add: rx_subst.simps [of _ _ "(p, c # s)"])
qed

lemma rx_delete_cls: "rx_delete (Cls n i rs) s = filter (\<lambda>c. \<not> in_cls n i rs c) s"
  by (simp add: rx_delete_def rx_replace_all_def rx_subst_cls)

text \<open>Greedy repetition of a class: the first match is the longest run.\<close>

lemma rounds_cls_hd:
  "\<exists>rest. rounds (rxm (Cls n i rs)) 0 None True (p, s) =
     (adv p (takeWhile (in_cls n i rs) s), dropWhile (in_cls n i rs) s) # rest"
proof (induction s arbitrary: p)
  case Nil
  show ?case by (subst rounds.simps) simp
next
  case (Cons c s)
  show ?case
  proof (cases "in_cls n i rs c")
    case True
    from Cons [of "Some c"] obtain rest where
      "rounds (rxm (Cls n i rs)) 0 None True (Some c, s) =
        (adv (Some c) (takeWhile (in_cls n i rs) s), dropWhile (in_cls n i rs) s) # rest" by blast
    with True show ?thesis by (subst rounds.simps) simp
  next
    case False
    then show ?thesis by (subst rounds.simps) simp
  qed
qed

lemma rounds_one:
  "rounds f (Suc 0) None g x = concat (map (rounds f 0 None g) (f x))"
  by (subst rounds.simps) simp

lemma rplus_cls_hd:
  "in_cls n i rs c \<Longrightarrow> \<exists>rest. rxm (rplus (Cls n i rs)) (p, c # s) =
     (adv (Some c) (takeWhile (in_cls n i rs) s), dropWhile (in_cls n i rs) s) # rest"
  using rounds_cls_hd [of n i rs "Some c" s] by (simp add: rplus_def rounds_one)

lemma rplus_cls_none: "\<not> in_cls n i rs c \<Longrightarrow> rxm (rplus (Cls n i rs)) (p, c # s) = []"
  by (simp add: rplus_def rounds_one)

lemma rplus_cls_Nil: "rxm (rplus (Cls n i rs)) (p, []) = []"
  by (simp add: rplus_def rounds_one)

lemma filter_dropWhile: "filter (\<lambda>c. \<not> P c) (dropWhile P s) = filter (\<lambda>c. \<not> P c) s"
  by (induction s) auto

lemma rx_subst_rplus_cls: "rx_subst (rplus (Cls n i rs)) (\<lambda>_. []) (p, s) = filter (\<lambda>c. \<not> in_cls n i rs c) s"
proof (induction "length s" arbitrary: p s rule: less_induct)
  case less
  show ?case
  proof (cases s)
    case Nil
    then show ?thesis by (simp add: rx_subst.simps rplus_cls_Nil)
  next
    case (Cons c cs)
    show ?thesis
    proof (cases "in_cls n i rs c")
      case True
      let ?P = "in_cls n i rs"
      obtain rest where m: "rxm (rplus (Cls n i rs)) (p, c # cs) =
        (adv (Some c) (takeWhile ?P cs), dropWhile ?P cs) # rest"
        using rplus_cls_hd [OF True] by blast
      have "length (dropWhile ?P cs) < length s" by (simp add: Cons le_imp_less_Suc length_dropWhile_le)
      from less [OF this] True m Cons length_dropWhile_le [of ?P cs] show ?thesis
        by (simp add: rx_subst.simps [of _ _ "(p, c # cs)"] filter_dropWhile le_imp_less_Suc)
    next
      case False
      with less Cons show ?thesis
        by (simp add: rx_subst.simps [of _ _ "(p, c # cs)"] rplus_cls_none)
    qed
  qed
qed

lemma rx_delete_rplus_cls: "rx_delete (rplus (Cls n i rs)) s = filter (\<lambda>c. \<not> in_cls n i rs c) s"
  by (simp add: rx_delete_def rx_replace_all_def rx_subst_rplus_cls)

section \<open>Classes the methods use\<close>

lemma in_ranges_Cons [simp]: "in_ranges ((a, b) # rs) c \<longleftrightarrow> a \<le> c \<and> c \<le> b \<or> in_ranges rs c"
  by (simp add: in_ranges_def)

lemma in_ranges_Nil [simp]: "in_ranges [] c \<longleftrightarrow> False"
  by (simp add: in_ranges_def)

lemma in_ranges_append [simp]: "in_ranges (rs @ ss) c \<longleftrightarrow> in_ranges rs c \<or> in_ranges ss c"
  by (simp add: in_ranges_def)

lemma in_ranges_singles [simp]: "in_ranges (map (\<lambda>c. (c, c)) cs) c \<longleftrightarrow> c \<in> set cs"
  by (auto simp: in_ranges_def list_ex_iff)

lemma in_cls_case [simp]: "in_cls n False rs c \<longleftrightarrow> n \<noteq> in_ranges rs c"
  by (simp add: in_cls_def)

lemma digit_cls: "rdigit = Cls False False [(CHR ''0'', CHR ''9'')]"
  by (simp add: rdigit_def cls_def)

lemma nondigit_cls: "rnondigit = Cls True False [(CHR ''0'', CHR ''9'')]"
  by (simp add: rnondigit_def ncls_def)

lemma in_digit_cls: "in_cls False False [(CHR ''0'', CHR ''9'')] = is_digit"
  by (rule ext) (simp add: is_digit_def)

lemma delete_nondigits: "rx_delete rnondigit s = filter is_digit s"
  by (simp add: nondigit_cls rx_delete_cls is_digit_def [abs_def])

lemma delete_nondigits_plus: "rx_delete (rplus rnondigit) s = filter is_digit s"
  by (simp add: nondigit_cls rx_delete_rplus_cls is_digit_def [abs_def])

lemma all_digits_filter [simp]: "all_digits (filter is_digit s)"
  by (simp add: all_digits_def list_all_iff)

lemma filter_all_digits: "all_digits s \<Longrightarrow> filter is_digit s = s"
  by (simp add: all_digits_def list_all_iff)

lemma mem_rdigit_times [lang_simps]:
  "w \<in> lang (rtimes n rdigit) \<longleftrightarrow> length w = n \<and> all_digits w"
  by (auto simp: rtimes_def digit_cls mem_Rep_Cls in_bounds_def all_digits_def in_digit_cls
      simp del: lang.simps)

lemma regular_simps [simp]:
  "regular (Cls n i rs)" "regular Emp"
  "regular (Seq r s) \<longleftrightarrow> regular r \<and> regular s"
  "regular (Alt r s) \<longleftrightarrow> regular r \<and> regular s"
  "regular (Rep lo hi g r) \<longleftrightarrow> in_bounds lo hi lo \<and> regular r"
  by (auto simp: regular_def)

lemma regular_combinators [simp]:
  "regular (cls xs ys)" "regular (ncls xs ys)" "regular rdigit" "regular rnondigit" "regular rword" "regular rspace"
  "regular rnonspace" "regular rany"
  "regular (ropt r) \<longleftrightarrow> regular r" "regular (rstar r) \<longleftrightarrow> regular r" "regular (rplus r) \<longleftrightarrow> regular r"
  "regular (rtimes n r) \<longleftrightarrow> regular r" "regular (ratleast n r) \<longleftrightarrow> regular r"
  "a \<le> b \<Longrightarrow> regular (rbetween a b r) \<longleftrightarrow> regular r"
  by (auto simp: cls_def ncls_def rdigit_def rnondigit_def rword_def rspace_def rnonspace_def rany_def ropt_def
      rstar_def rplus_def rtimes_def ratleast_def rbetween_def in_bounds_def)

lemma regular_rseq [simp]: "regular (rseq rs) \<longleftrightarrow> list_all regular rs"
  by (induction rs) (auto simp: rseq_def)

lemma regular_ralt [simp]: "regular (ralt rs) \<longleftrightarrow> list_all regular rs"
  by (induction rs rule: ralt.induct) auto

lemma regular_lit [simp]: "regular (lit s)"
  by (simp add: lit_def list_all_iff)

lemma regular_icase [simp]: "regular (icase r) \<longleftrightarrow> regular r"
  by (induction r) (auto simp: regular_def)

lemma mem_rseq_Nil [lang_simps]: "w \<in> lang (rseq []) \<longleftrightarrow> w = []"
  by (simp add: rseq_def)

lemma mem_rseq_Cons [lang_simps]:
  "w \<in> lang (rseq (r # rs)) \<longleftrightarrow> (\<exists>u v. w = u @ v \<and> u \<in> lang r \<and> v \<in> lang (rseq rs))"
  by (auto simp: rseq_def)

lemma mem_lit [lang_simps]: "w \<in> lang (lit s) \<longleftrightarrow> w = s"
proof (induction s arbitrary: w)
  case Nil
  show ?case by (simp add: lit_def rseq_def)
next
  case (Cons c s)
  have "lit (c # s) = Seq (cls [] [c]) (lit s)" by (simp add: lit_def rseq_def)
  with Cons show ?case by (auto simp: cls_def)
qed

lemma mem_ralt_Cons [lang_simps]:
  "w \<in> lang (ralt (r # s # rs)) \<longleftrightarrow> w \<in> lang r \<or> w \<in> lang (ralt (s # rs))"
  "w \<in> lang (ralt [r]) \<longleftrightarrow> w \<in> lang r"
  by simp_all

lemma mem_cls [lang_simps]:
  "w \<in> lang (cls rs cs) \<longleftrightarrow> (\<exists>c. w = [c] \<and> (in_ranges (ranges rs) c \<or> c \<in> set cs))"
  by (auto simp: cls_def)

lemma mem_ropt [lang_simps]: "w \<in> lang (ropt r) \<longleftrightarrow> w = [] \<or> w \<in> lang r"
  using mem_Rep_opt [of w True r] by (simp add: ropt_def del: lang.simps)

lemma mem_rdigit [lang_simps]: "w \<in> lang rdigit \<longleftrightarrow> (\<exists>c. w = [c] \<and> is_digit c)"
  by (simp add: digit_cls is_digit_def)

lemma mem_rplus_rdigit [lang_simps]: "w \<in> lang (rplus rdigit) \<longleftrightarrow> w \<noteq> [] \<and> all_digits w"
  by (cases w) (auto simp: rplus_def digit_cls mem_Rep_Cls in_bounds_def all_digits_def in_digit_cls
      simp del: lang.simps)

lemma mem_rbetween_rdigit [lang_simps]:
  "w \<in> lang (rbetween a b rdigit) \<longleftrightarrow> a \<le> length w \<and> length w \<le> b \<and> all_digits w"
  by (auto simp: rbetween_def digit_cls mem_Rep_Cls in_bounds_def all_digits_def in_digit_cls
      simp del: lang.simps)

section \<open>Membership computed code unit by code unit\<close>

named_theorems deriv_simps \<open>membership of a word of known shape\<close>

lemma deriv_rseq [deriv_simps]:
  "w \<in> lang (rseq (r # rs)) \<longleftrightarrow> w \<in> lang (Seq r (rseq rs))" "rseq [] = Emp"
  by (simp_all add: rseq_def)

lemma deriv_Emp [deriv_simps]:
  "w \<in> lang Emp \<longleftrightarrow> w = []" "w \<in> lang (Seq Emp s) \<longleftrightarrow> w \<in> lang s"
  by auto

lemma deriv_Cls [deriv_simps]:
  "c # w \<in> lang (Seq (Cls n i rs) s) \<longleftrightarrow> in_cls n i rs c \<and> w \<in> lang s"
  "[] \<in> lang (Seq (Cls n i rs) s) \<longleftrightarrow> False"
  "c # w \<in> lang (Cls n i rs) \<longleftrightarrow> in_cls n i rs c \<and> w = []"
  "[] \<in> lang (Cls n i rs) \<longleftrightarrow> False"
  by (simp_all add: Cons_eq_append_conv conj_commute) fastforce

lemma deriv_Seq [deriv_simps]:
  "w \<in> lang (Seq (Seq a b) s) \<longleftrightarrow> w \<in> lang (Seq a (Seq b s))"
proof
  assume "w \<in> lang (Seq (Seq a b) s)"
  then obtain u v x where "w = u @ v @ x" "u \<in> lang a" "v \<in> lang b" "x \<in> lang s" by auto
  then show "w \<in> lang (Seq a (Seq b s))" by auto
next
  assume "w \<in> lang (Seq a (Seq b s))"
  then obtain u v x where "w = (u @ v) @ x" "u \<in> lang a" "v \<in> lang b" "x \<in> lang s" by auto
  then show "w \<in> lang (Seq (Seq a b) s)" by (simp del: append_assoc) blast
qed

lemma deriv_Alt [deriv_simps]:
  "w \<in> lang (Alt a b) \<longleftrightarrow> w \<in> lang a \<or> w \<in> lang b"
  "w \<in> lang (Seq (Alt a b) s) \<longleftrightarrow> w \<in> lang (Seq a s) \<or> w \<in> lang (Seq b s)"
  by auto

lemma deriv_end: "w \<in> lang r \<longleftrightarrow> w \<in> lang (Seq r Emp)"
  by simp

lemma deriv_lit [deriv_simps]: "lit (c # cs) = Seq (cls [] [c]) (lit cs)" "lit [] = Emp"
  by (simp_all add: lit_def rseq_def)

lemma deriv_classes [deriv_simps]:
  "c # w \<in> lang (Seq (cls rs cs) s) \<longleftrightarrow> (in_ranges (ranges rs) c \<or> c \<in> set cs) \<and> w \<in> lang s"
  "[] \<in> lang (Seq (cls rs cs) s) \<longleftrightarrow> False"
  "c # w \<in> lang (cls rs cs) \<longleftrightarrow> (in_ranges (ranges rs) c \<or> c \<in> set cs) \<and> w = []"
  "[] \<in> lang (cls rs cs) \<longleftrightarrow> False"
  "c # w \<in> lang (Seq rdigit s) \<longleftrightarrow> is_digit c \<and> w \<in> lang s"
  "[] \<in> lang (Seq rdigit s) \<longleftrightarrow> False"
  "c # w \<in> lang rdigit \<longleftrightarrow> is_digit c \<and> w = []"
  "[] \<in> lang rdigit \<longleftrightarrow> False"
  unfolding cls_def rdigit_def is_digit_def deriv_Cls by auto

lemma power_lang_unfold:
  "power_lang L lo hi =
     (if hi = Some 0 then (if lo = 0 then {[]} else {})
      else (if lo = 0 then {[]} else {}) \<union>
        {u @ v | u v. u \<in> L \<and> v \<in> power_lang L (lo - 1) (map_option (\<lambda>h. h - 1) hi)})"
  (is "?l = ?r")
proof (rule set_eqI)
  fix w
  have "w \<in> ?l \<longleftrightarrow> (w = [] \<and> in_bounds lo hi 0) \<or>
      (\<exists>u us. w = u @ concat us \<and> u \<in> L \<and> set us \<subseteq> L \<and> in_bounds lo hi (Suc (length us)))"
  proof
    assume "w \<in> ?l"
    then obtain ws where ws: "w = concat ws" "set ws \<subseteq> L" "in_bounds lo hi (length ws)"
      by (auto simp: power_lang_def)
    show "w = [] \<and> in_bounds lo hi 0 \<or>
      (\<exists>u us. w = u @ concat us \<and> u \<in> L \<and> set us \<subseteq> L \<and> in_bounds lo hi (Suc (length us)))"
    proof (cases ws)
      case (Cons u us)
      with ws show ?thesis by (intro disjI2 exI [of _ u] exI [of _ us]) simp
    qed (use ws in simp)
  next
    assume "w = [] \<and> in_bounds lo hi 0 \<or>
      (\<exists>u us. w = u @ concat us \<and> u \<in> L \<and> set us \<subseteq> L \<and> in_bounds lo hi (Suc (length us)))"
    then have "\<exists>ws. w = concat ws \<and> set ws \<subseteq> L \<and> in_bounds lo hi (length ws)"
    proof (elim disjE exE conjE)
      fix u us assume "w = u @ concat us" "u \<in> L" "set us \<subseteq> L" "in_bounds lo hi (Suc (length us))"
      then show ?thesis by (intro exI [of _ "u # us"]) simp
    qed (intro exI [of _ "[]"], simp)
    then show "w \<in> ?l" by (auto simp: power_lang_def)
  qed
  moreover have "in_bounds lo hi 0 \<longleftrightarrow> lo = 0" by (simp add: in_bounds_def split: option.splits)
  moreover have "in_bounds lo hi (Suc n) \<longleftrightarrow> hi \<noteq> Some 0 \<and> in_bounds (lo - 1) (map_option (\<lambda>h. h - 1) hi) n" for n
    by (auto simp: in_bounds_def split: option.splits)
  ultimately show "w \<in> ?l \<longleftrightarrow> w \<in> ?r" by (auto simp: power_lang_def)
qed

lemma lang_Rep_power: "lang (Rep lo hi g r) = power_lang (lang r) lo hi"
  by (simp add: power_lang_def)

lemma deriv_rtimes [deriv_simps]:
  "0 < n \<Longrightarrow> w \<in> lang (Seq (rtimes n r) s) \<longleftrightarrow> w \<in> lang (Seq r (Seq (rtimes (n - 1) r) s))"
  "w \<in> lang (Seq (rtimes 0 r) s) \<longleftrightarrow> w \<in> lang s"
proof -
  assume n: "0 < n"
  have "lang (rtimes n r) = lang (Seq r (rtimes (n - 1) r))"
    unfolding rtimes_def lang_Rep_power lang.simps(3)
    by (subst power_lang_unfold) (use n in simp)
  then have "w \<in> lang (Seq (rtimes n r) s) \<longleftrightarrow> w \<in> lang (Seq (Seq r (rtimes (n - 1) r)) s)"
    unfolding lang.simps(3) [of _ s] by (simp only:)
  then show "w \<in> lang (Seq (rtimes n r) s) \<longleftrightarrow> w \<in> lang (Seq r (Seq (rtimes (n - 1) r) s))"
    by (simp only: deriv_Seq)
next
  have "lang (rtimes 0 r) = lang Emp"
    unfolding rtimes_def lang_Rep_power by (subst power_lang_unfold) simp
  then show "w \<in> lang (Seq (rtimes 0 r) s) \<longleftrightarrow> w \<in> lang s"
    unfolding lang.simps(3) by simp
qed

lemma deriv_rbetween [deriv_simps]:
  "0 < a \<Longrightarrow> 0 < b \<Longrightarrow> w \<in> lang (Seq (rbetween a b r) s) \<longleftrightarrow> w \<in> lang (Seq r (Seq (rbetween (a - 1) (b - 1) r) s))"
  "0 < b \<Longrightarrow> w \<in> lang (Seq (rbetween 0 b r) s) \<longleftrightarrow> w \<in> lang s \<or> w \<in> lang (Seq r (Seq (rbetween 0 (b - 1) r) s))"
  "w \<in> lang (Seq (rbetween 0 0 r) s) \<longleftrightarrow> w \<in> lang s"
proof -
  assume "0 < a" "0 < b"
  then have "lang (rbetween a b r) = lang (Seq r (rbetween (a - 1) (b - 1) r))"
    unfolding rbetween_def lang_Rep_power lang.simps(3) by (subst power_lang_unfold) simp
  then show "w \<in> lang (Seq (rbetween a b r) s) \<longleftrightarrow> w \<in> lang (Seq r (Seq (rbetween (a - 1) (b - 1) r) s))"
    unfolding deriv_Seq [symmetric] by simp
next
  assume "0 < b"
  then have "lang (rbetween 0 b r) = lang (Alt Emp (Seq r (rbetween 0 (b - 1) r)))"
    unfolding rbetween_def lang_Rep_power lang.simps(1,3,4) by (subst power_lang_unfold) simp
  then have "w \<in> lang (Seq (rbetween 0 b r) s) \<longleftrightarrow> w \<in> lang (Seq (Alt Emp (Seq r (rbetween 0 (b - 1) r))) s)"
    unfolding lang.simps(3) [of _ s] by (simp only:)
  then show "w \<in> lang (Seq (rbetween 0 b r) s) \<longleftrightarrow> w \<in> lang s \<or> w \<in> lang (Seq r (Seq (rbetween 0 (b - 1) r) s))"
    by (simp only: deriv_Alt deriv_Seq deriv_Emp)
next
  have "lang (rbetween 0 0 r) = lang Emp"
    unfolding rbetween_def lang_Rep_power by (subst power_lang_unfold) simp
  then show "w \<in> lang (Seq (rbetween 0 0 r) s) \<longleftrightarrow> w \<in> lang s"
    unfolding lang.simps(3) by simp
qed

lemma deriv_ropt [deriv_simps]:
  "w \<in> lang (Seq (ropt r) s) \<longleftrightarrow> w \<in> lang s \<or> w \<in> lang (Seq r s)"
  unfolding lang.simps(3) by (auto simp: mem_ropt simp del: lang.simps)

end
