(* ===== verification/CheckDigits.thy ===== *)
theory CheckDigits
  imports MethodBase "HOL-Library.Word"
begin

text \<open>
  The methods of \<open>additional-methods.js\<close> that compute check digits: bank routing and account
  numbers, tax numbers and payment cards. Each is a function of the field's value (and of
  \<open>this.optional(element)\<close> where the method asks); sums are NaN-aware where the value may hold
  code units that are not digits.
\<close>

unbundle bit_operations_syntax

section \<open>abaRoutingNumber\<close>

fun aba_loop :: "string \<Rightarrow> int option \<Rightarrow> int option" where
  "aba_loop (a # b # c # tokens) checksum =
     aba_loop tokens
       (num2 (+) checksum
         (num2 (+) (num2 (+) (num2 (*) (parse_int [a]) (Some 3)) (num2 (*) (parse_int [b]) (Some 7)))
           (parse_int [c])))"
| "aba_loop tokens checksum = checksum"

definition aba_routing_number :: "string \<Rightarrow> mres" where
  "aba_routing_number v =
     (if length v \<noteq> 9 then Res False
      else case aba_loop v (Some 0) of
             None \<Rightarrow> Res False
           | Some checksum \<Rightarrow> Res (checksum \<noteq> 0 \<and> checksum mod 10 = 0))"

section \<open>bankaccountNL, giroaccountNL, bankorgiroaccountNL\<close>

definition bankaccount_rx :: rx where
  "bankaccount_rx =
     Alt (Seq Bol (rtimes 9 rdigit))
         (rseq [rtimes 3 (rseq [rtimes 2 rdigit, lit '' '']), rtimes 3 rdigit, Eol])"

definition bankaccount_nl :: "bool \<Rightarrow> string \<Rightarrow> mres" where
  "bankaccount_nl opt v =
     (if opt then Res True
      else if \<not> rx_test bankaccount_rx v then Res False
      else (let account = rx_delete (lit '' '') v; len = length account;
                tot = nan_sum (map (\<lambda>pos. num2 (*) (Some (int (len - pos)))
                                            (char_num (substring account pos (Suc pos)))) [0..<len])
            in Res (nan_mod tot 11 = Some 0)))"

definition giroaccount_nl :: "bool \<Rightarrow> string \<Rightarrow> mres" where
  "giroaccount_nl opt v = or_optional opt (rx_test (anchored (rbetween 1 7 rdigit)) v)"

definition bankorgiroaccount_nl :: "bool \<Rightarrow> string \<Rightarrow> mres" where
  "bankorgiroaccount_nl opt v =
     (if opt then Mismatch
      else if truthy (bankaccount_nl opt v) then bankaccount_nl opt v
      else giroaccount_nl opt v)"

section \<open>cifES\<close>

definition cif_rx :: rx where
  "cif_rx = icase (anchored (rseq [cls [] ''ABCDEFGHJKLMNPQRSUVW'', rtimes 7 rdigit, cls ''09AJ'' []]))"

fun cif_sums :: "nat \<Rightarrow> string \<Rightarrow> int \<times> int \<Rightarrow> int \<times> int" where
  "cif_sums i [] (odd_sum, even_sum) = (odd_sum, even_sum)"
| "cif_sums i (c # cs) (odd_sum, even_sum) =
     (let n = digit_val c
      in if i mod 2 = 0
         then cif_sums (Suc i) cs (odd_sum + (if 2 * n < 10 then 2 * n else 2 * n - 9), even_sum)
         else cif_sums (Suc i) cs (odd_sum, even_sum + n))"

definition cif_control_digit :: "string \<Rightarrow> string" where
  "cif_control_digit number =
     (let (odd_sum, even_sum) = cif_sums 0 number (0, 0);
          d = int_str (10 - (even_sum + odd_sum) mod 10)
      in if digits_val d > 9 then ''0'' else d)"

definition cif_es :: "bool \<Rightarrow> string \<Rightarrow> mres" where
  "cif_es opt v =
     (if opt then Res True
      else if length v \<noteq> 9 \<or> \<not> rx_test cif_rx v then Res False
      else (let letter = substring v 0 1; number = substring v 1 8; control = substring v 8 9;
                control_digit = cif_control_digit number;
                control_letter = substr ''JABCDEFGHI'' (nat (digits_val control_digit)) 1
            in if rx_test (cls [] ''ABEH'') letter then Res (control = control_digit)
               else if rx_test (cls [] ''KPQS'') letter then Res (control = control_letter)
               else Res (control = control_digit \<or> control = control_letter)))"

section \<open>cnhBR, cnpjBR, cpfBR, nisBR\<close>

definition special_chars :: string where
  "special_chars = ''~!@#$%^&*()_+=`{}[]-|'' @ [CHR 0x5C] @ '':;'' @ [CHR 0x27] @ ''<>,./? ''"

definition strip_special :: "string \<Rightarrow> string" where
  "strip_special v = rx_delete (rplus (cls [] special_chars)) v"

definition num_text :: "int option \<Rightarrow> string" where
  \<comment> \<open>\<open>String(x)\<close>\<close>
  "num_text x = (case x of None \<Rightarrow> ''NaN'' | Some i \<Rightarrow> int_str i)"

definition ge10 :: "int option \<Rightarrow> bool" where
  "ge10 x = (case x of None \<Rightarrow> False | Some i \<Rightarrow> 10 \<le> i)"

definition cnh_br :: "string \<Rightarrow> mres" where
  "cnh_br value =
     (let v = strip_special value
      in if length v \<noteq> 11 then Res False
         else if concat (replicate 11 (char_at v 0)) = v then Res False
         else (let sum1 = nan_sum (map (\<lambda>i. num2 (*) (char_num (char_at v i)) (Some (9 - int i))) [0..<9]);
                   r1 = nan_mod sum1 11;
                   firstCN = (if ge10 r1 then Some 0 else r1);
                   dsc = (if ge10 r1 then 2 else 0);
                   sum2 = nan_sum (map (\<lambda>i. num2 (*) (char_num (char_at v i)) (Some (int i + 1))) [0..<9]);
                   r2 = nan_mod sum2 11;
                   secondCN = (if ge10 r2 then Some 0 else num2 (-) r2 (Some dsc))
               in Res (num_text firstCN @ num_text secondCN = substr_last v 2)))"

text \<open>The loop of \<open>cnpjBR\<close>: \<open>pos\<close> counts down from its start and jumps from 2 to 9.\<close>

fun cnpj_loop :: "string \<Rightarrow> int \<Rightarrow> int option \<Rightarrow> int option" where
  "cnpj_loop [] pos soma = soma"
| "cnpj_loop (c # cs) pos soma =
     cnpj_loop cs (if pos - 1 < 2 then 9 else pos - 1) (num2 (+) soma (num2 (*) (char_num [c]) (Some pos)))"

definition cnpj_resultado :: "int option \<Rightarrow> int option" where
  "cnpj_resultado soma =
     (case nan_mod soma 11 of None \<Rightarrow> None | Some r \<Rightarrow> Some (if r < 2 then 0 else 11 - r))"

definition cnpj_br :: "bool \<Rightarrow> string \<Rightarrow> mres" where
  "cnpj_br opt value =
     (if opt then Res True
      else (let v = rx_delete (rplus rnondigit) value
            in if length v \<noteq> 14 then Res False
               else if v \<in> set (map (replicate 14) ''0123456789'') then Res False
               else (let tamanho = length v - 2;
                         digitos = drop tamanho v;
                         res1 = cnpj_resultado (cnpj_loop (substring v 0 tamanho) (int tamanho - 7) (Some 0));
                         res2 = cnpj_resultado (cnpj_loop (substring v 0 (tamanho + 1)) (int (tamanho + 1) - 7) (Some 0))
                     in if \<not> num_eq res1 (parse_int (char_at digitos 0)) then Res False
                        else Res (num_eq res2 (parse_int (char_at digitos 1))))))"

definition cpf_check_result :: "int option \<Rightarrow> int option \<Rightarrow> bool" where
  "cpf_check_result tot cn =
     (let result = nan_mod (num2 (*) tot (Some 10)) 11;
          result' = (if result = Some 10 \<or> result = Some 11 then Some 0 else result)
      in num_eq result' cn)"

definition cpf_br :: "bool \<Rightarrow> string \<Rightarrow> mres" where
  "cpf_br opt value =
     (if opt then Res True
      else (let v = strip_special value
            in if length v \<noteq> 11 then Res False
               else (let firstCN = parse_int (substring v 9 10);
                         secondCN = parse_int (substring v 10 11)
                     in if v = [] \<or> v \<in> set (map (replicate 11) ''0123456789'') then Res False
                        else if cpf_check_result
                                  (nan_sum (map (\<lambda>i. num2 (*) (parse_int (substring v (i - 1) i)) (Some (11 - int i))) [1..<10]))
                                  firstCN
                             then Res (cpf_check_result
                                  (nan_sum (map (\<lambda>i. num2 (*) (parse_int (substring v (i - 1) i)) (Some (12 - int i))) [1..<11]))
                                  secondCN)
                             else Res False)))"

text \<open>
  \<open>nisBR\<close> reads the first ten code units with \<open>parseInt\<close>, which stops at the first one that is
  not a digit, and takes the digits off the end of that number.
\<close>

fun nis_loop :: "nat list \<Rightarrow> int option \<Rightarrow> int option \<Rightarrow> int option" where
  "nis_loop [] number tot = tot"
| "nis_loop (count # counts) number tot =
     (let multiplier = (if count = 10 then 2 else if count = 11 then 3 else int count)
      in nis_loop counts (map_option (\<lambda>n. n div 10) number)
           (num2 (+) tot (num2 (*) (nan_mod number 10) (Some multiplier))))"

definition nis_br :: "string \<Rightarrow> mres" where
  "nis_br value =
     (let v = strip_special value
      in if length v \<noteq> 11 then Res False
         else (let cn = parse_int (substring v 10 11);
                   number = parse_int (substring v 0 10);
                   dv0 = nan_mod (nis_loop [2..<12] number (Some 0)) 11;
                   dv = (case dv0 of None \<Rightarrow> Some 0 | Some d \<Rightarrow> Some (if d > 1 then 11 - d else 0))
               in Res (num_eq cn dv)))"

section \<open>creditcard, creditcardtypes\<close>

text \<open>The loop runs from the last digit to the first; the text is given reversed.\<close>

fun luhn_loop :: "string \<Rightarrow> bool \<Rightarrow> int \<Rightarrow> int" where
  "luhn_loop [] bEven nCheck = nCheck"
| "luhn_loop (c # cs) bEven nCheck =
     (let nDigit = digit_val c;
          d = (if bEven then (if 2 * nDigit > 9 then 2 * nDigit - 9 else 2 * nDigit) else nDigit)
      in luhn_loop cs (\<not> bEven) (nCheck + d))"

definition creditcard :: "bool \<Rightarrow> string \<Rightarrow> mres" where
  "creditcard opt value =
     (if opt then Mismatch
      else if rx_test (rplus (ncls ''09'' '' -'')) value then Res False
      else (let v = rx_delete rnondigit value
            in if length v < 13 \<or> length v > 19 then Res False
               else Res (luhn_loop (rev v) False 0 mod 10 = 0)))"

record card_types =
  mastercard :: bool
  visa :: bool
  amex :: bool
  dinersclub :: bool
  enroute :: bool
  discover :: bool
  jcb :: bool
  unknown :: bool
  all_cards :: bool

definition set_bit_if :: "bool \<Rightarrow> 32 word \<Rightarrow> 32 word \<Rightarrow> 32 word" where
  "set_bit_if b m w = (if b then w OR m else w)"

definition valid_types :: "card_types \<Rightarrow> 32 word" where
  "valid_types param =
     (let t = set_bit_if (unknown param) 0x80 (set_bit_if (jcb param) 0x40
                (set_bit_if (discover param) 0x20 (set_bit_if (enroute param) 0x10
                (set_bit_if (dinersclub param) 0x08 (set_bit_if (amex param) 0x04
                (set_bit_if (visa param) 0x02 (set_bit_if (mastercard param) 0x01 0)))))))
      in if all_cards param
         then 0x01 OR 0x02 OR 0x04 OR 0x08 OR 0x10 OR 0x20 OR 0x40 OR 0x80 else t)"

definition has_bit :: "32 word \<Rightarrow> 32 word \<Rightarrow> bool" where
  "has_bit w m \<longleftrightarrow> w AND m \<noteq> 0"

definition begins :: "rx \<Rightarrow> string \<Rightarrow> bool" where
  "begins r v \<longleftrightarrow> rx_test (Seq Bol r) v"

definition creditcardtypes :: "string \<Rightarrow> card_types \<Rightarrow> mres" where
  "creditcardtypes value param =
     (if rx_test (rplus (ncls ''09'' ''-'')) value then Res False
      else (let v = rx_delete rnondigit value; t = valid_types param
            in if has_bit t 0x01 \<and> (begins (rseq [lit ''5'', cls [] ''12345'']) v
                                   \<or> begins (rseq [lit ''2'', cls [] ''234567'']) v)
               then Res (length v = 16)
               else if has_bit t 0x02 \<and> begins (lit ''4'') v then Res (length v = 16)
               else if has_bit t 0x04 \<and> begins (rseq [lit ''3'', cls [] ''47'']) v then Res (length v = 15)
               else if has_bit t 0x08
                    \<and> begins (rseq [lit ''3'', ralt [rseq [lit ''0'', cls [] ''012345''], cls [] ''68'']]) v
               then Res (length v = 14)
               else if has_bit t 0x10 \<and> begins (rseq [lit ''2'', ralt [lit ''014'', lit ''149'']]) v
               then Res (length v = 15)
               else if has_bit t 0x20 \<and> begins (lit ''6011'') v then Res (length v = 16)
               else if has_bit t 0x40 \<and> begins (lit ''3'') v then Res (length v = 16)
               else if has_bit t 0x40 \<and> begins (ralt [lit ''2131'', lit ''1800'']) v then Res (length v = 15)
               else if has_bit t 0x80 then Res True
               else Res False))"

section \<open>nieES, nifES, nipPL\<close>

definition nie_rx :: rx where
  "nie_rx = icase (anchored (rseq [rtimes 1 (cls [] ''MXYZ''), rbetween 7 8 (cls ''09'' []),
                                   rtimes 1 (cls [] ''TRWAGMYFPDXBNJZSQVHLCKET'')]))"

text \<open>\<open>charAt\<close> of NaN reads position 0.\<close>

definition char_at_num :: "string \<Rightarrow> int option \<Rightarrow> string" where
  "char_at_num s x = (case x of None \<Rightarrow> char_at s 0 | Some i \<Rightarrow> if i < 0 then [] else char_at s (nat i))"

definition nie_es :: "bool \<Rightarrow> string \<Rightarrow> mres" where
  "nie_es opt value =
     (if opt then Res True
      else (let letter = to_upper (substr_from value (length value - 1)); v = to_upper value
            in if length v > 10 \<or> length v < 9 \<or> \<not> rx_test nie_rx v then Res False
               else (let v1 = rx_replace (Seq Bol (cls [] ''X'')) ''0'' v;
                         v2 = rx_replace (Seq Bol (cls [] ''Y'')) ''1'' v1;
                         v3 = rx_replace (Seq Bol (cls [] ''Z'')) ''2'' v2;
                         number = (if length v3 = 9 then substr v3 0 8 else substr v3 0 9)
                     in Res (char_at_num ''TRWAGMYFPDXBNJZSQVHLCKET'' (nan_mod (parse_int number) 23) = letter))))"

definition nif_letters :: string where
  "nif_letters = ''TRWAGMYFPDXBNJZSQVHLCKE''"

definition nif_general_rx :: rx where
  "nif_general_rx = anchored (rseq [rtimes 8 rdigit, rtimes 1 (cls ''AZ'' [])])"

definition nif_format_rx :: rx where
  "nif_format_rx =
     Alt (Alt (anchored (rseq [rtimes 1 (cls ''AZ'' []), rtimes 7 rdigit, rtimes 1 (cls ''AZ09'' [])]))
              (anchored (rseq [rtimes 1 (cls [] ''T''), rtimes 8 (cls ''AZ09'' [])])))
         nif_general_rx"

definition nif_es :: "bool \<Rightarrow> string \<Rightarrow> mres" where
  "nif_es opt value =
     (if opt then Res True
      else (let v = to_upper value
            in if \<not> rx_test nif_format_rx v then Res False
               else if rx_test nif_general_rx v
               then Res (char_at_num nif_letters (nan_mod (Some (digits_val (substring v 8 0))) 23) = char_at v 8)
               else if rx_test (Seq Bol (rtimes 1 (cls [] ''KLM''))) v
               then Res (char_at v 8 = char_at_num nif_letters (nan_mod (Some (digits_val (substring v 8 1))) 23))
               else Res False))"

definition nip_pl :: "string \<Rightarrow> mres" where
  "nip_pl value =
     (let v = rx_delete rnondigit value
      in if length v \<noteq> 10 then Res False
         else (let arrSteps = [6, 5, 7, 2, 3, 4, 5, 6, 7];
                   intSum = sum_list (map (\<lambda>i. arrSteps ! i * digit_val (v ! i)) [0..<9]);
                   int2 = intSum mod 11;
                   intControlNr = (if int2 = 10 then 0 else int2)
               in Res (intControlNr = digit_val (v ! 9))))"

end
