(* ===== verification/CheckDigitProps.thy ===== *)
theory CheckDigitProps
  imports CheckDigits
begin

text \<open>
  What the check-digit methods accept, stated with the weights of the published checks, and
  the errors they catch or let through.
\<close>

section \<open>Bank routing numbers\<close>

lemma parse_int_single: "parse_int [c] = (if is_digit c then Some (digit_val c) else None)"
proof (cases "is_digit c")
  case True
  then show ?thesis by (simp add: parse_int_digit)
next
  case False
  then show ?thesis by (simp add: parse_int_def Let_def)
qed

definition aba_weighted :: "string \<Rightarrow> int" where
  "aba_weighted v =
     3 * (dig v 0 + dig v 3 + dig v 6) + 7 * (dig v 1 + dig v 4 + dig v 7) + (dig v 2 + dig v 5 + dig v 8)"

lemma length_9: "length v = 9 \<longleftrightarrow> (\<exists>a b c d e f g h i. v = [a, b, c, d, e, f, g, h, i])"
  by (auto simp: length_Suc_conv numeral_eq_Suc)

lemma aba_loop_9:
  "length v = 9 \<Longrightarrow> aba_loop v (Some 0) = (if all_digits v then Some (aba_weighted v) else None)"
  by (auto simp: length_9 parse_int_single aba_weighted_def all_digits_def num2_def)

lemma aba_iff:
  "aba_routing_number v = Res True \<longleftrightarrow>
   length v = 9 \<and> all_digits v \<and> aba_weighted v \<noteq> 0 \<and> aba_weighted v mod 10 = 0"
  by (auto simp: aba_routing_number_def aba_loop_9)

text \<open>A changed digit changes a weighted sum by the weight times the difference.\<close>

lemma digit_diff: "is_digit c \<Longrightarrow> is_digit d \<Longrightarrow> c \<noteq> d \<Longrightarrow>
  digit_val c - digit_val d \<noteq> 0 \<and> \<bar>digit_val c - digit_val d\<bar> \<le> 9"
  using digit_val_range [of c] digit_val_range [of d] digit_val_inj [of c d] by auto

lemma all_digits_update: "all_digits v \<Longrightarrow> is_digit c \<Longrightarrow> all_digits (v[i := c])"
  using set_update_subset_insert [of v i c] by (auto simp: all_digits_def list_all_iff)

lemma not_dvd_10:
  "k \<in> {1, 3, 7} \<Longrightarrow> (x :: int) \<noteq> 0 \<Longrightarrow> \<bar>x\<bar> \<le> 9 \<Longrightarrow> \<not> 10 dvd k * x"
  by auto presburger+

lemma aba_weighted_update:
  assumes "length v = 9" "i < 9"
  shows "\<exists>k \<in> {1, 3, 7}. aba_weighted (v[i := c]) - aba_weighted v = k * (digit_val c - dig v i)"
proof -
  have "i \<in> {0, 1, 2, 3, 4, 5, 6, 7, 8}" using assms(2) by auto
  then show ?thesis using assms(1) by (auto simp: aba_weighted_def nth_list_update)
qed

text \<open>a routing number is accepted exactly when it is nine digits whose weighted sum with
  weights 3, 7, 1 is a positive multiple of ten; an accepted number with one digit mistyped
  is rejected.\<close>

theorem aba_detects_single_errors:
  "(aba_routing_number v = Res True \<longleftrightarrow>
      length v = 9 \<and> all_digits v \<and> aba_weighted v \<noteq> 0 \<and> aba_weighted v mod 10 = 0) \<and>
   (aba_routing_number v = Res True \<longrightarrow> i < 9 \<longrightarrow> is_digit c \<longrightarrow> c \<noteq> v ! i \<longrightarrow>
      aba_routing_number (v[i := c]) \<noteq> Res True)"
proof (intro conjI impI notI)
  show "aba_routing_number v = Res True \<longleftrightarrow>
      length v = 9 \<and> all_digits v \<and> aba_weighted v \<noteq> 0 \<and> aba_weighted v mod 10 = 0"
    by (rule aba_iff)
next
  assume a: "aba_routing_number v = Res True" "i < 9" "is_digit c" "c \<noteq> v ! i"
    and b: "aba_routing_number (v[i := c]) = Res True"
  from a(1) have v: "length v = 9" "all_digits v" "aba_weighted v mod 10 = 0" by (auto simp: aba_iff)
  then have "is_digit (v ! i)" using a(2) by (simp add: all_digits_nth)
  obtain k where k: "k \<in> {1, 3, 7}" "aba_weighted (v[i := c]) - aba_weighted v = k * (digit_val c - dig v i)"
    using aba_weighted_update [OF v(1) a(2)] by blast
  have "10 dvd aba_weighted (v[i := c]) - aba_weighted v"
    using v(3) b by (simp add: aba_iff dvd_diff mod_0_imp_dvd)
  with k digit_diff [OF a(3) \<open>is_digit (v ! i)\<close> a(4)] not_dvd_10 [OF k(1)] show False by metis
qed

theorem aba_detects_single_errors_witness:
  "aba_routing_number ''021000021'' = Res True \<and> aba_routing_number ''021000071'' \<noteq> Res True"
proof -
  have ok: "aba_routing_number ''021000021'' = Res True" by code_simp
  have d: "is_digit (CHR ''7'')" by (simp add: is_digit_def)
  show ?thesis using aba_detects_single_errors [of "''021000021''" 7 "CHR ''7''"] ok d
    by (simp add: numeral_eq_Suc)
qed

section \<open>Payment cards\<close>

definition luhn_weight :: "bool \<Rightarrow> int \<Rightarrow> int" where
  "luhn_weight b d = (if b then (if 2 * d > 9 then 2 * d - 9 else 2 * d) else d)"

fun luhn_sum :: "string \<Rightarrow> bool \<Rightarrow> int" where
  "luhn_sum [] b = 0"
| "luhn_sum (c # cs) b = luhn_weight b (digit_val c) + luhn_sum cs (\<not> b)"

lemma luhn_loop_sum: "luhn_loop s b acc = acc + luhn_sum s b"
  by (induction s b acc rule: luhn_loop.induct) (simp_all add: luhn_weight_def Let_def)

lemma luhn_weight_diff:
  assumes "0 \<le> d" "d \<le> 9" "0 \<le> e" "e \<le> 9" "d \<noteq> (e::int)"
  shows "luhn_weight b d \<noteq> luhn_weight b e \<and> \<bar>luhn_weight b d - luhn_weight b e\<bar> \<le> 9"
  using assms by (auto simp: luhn_weight_def) presburger+

lemma luhn_sum_update:
  "i < length s \<Longrightarrow>
   \<exists>b'. luhn_sum (s[i := c]) b - luhn_sum s b = luhn_weight b' (digit_val c) - luhn_weight b' (dig s i)"
proof (induction s b arbitrary: i rule: luhn_sum.induct)
  case (2 x xs b)
  then show ?case by (cases i) auto
qed simp

lemma creditcard_digits:
  assumes "all_digits v" "13 \<le> length v" "length v \<le> 19"
  shows "creditcard False v = Res (luhn_sum (rev v) False mod 10 = 0)"
proof -
  have "\<not> rx_test (rplus (ncls ''09'' '' -'')) v"
  proof
    assume "rx_test (rplus (ncls ''09'' '' -'')) v"
    then obtain x y z where *: "v = x @ y @ z" "y \<in> lang (rplus (ncls ''09'' '' -''))"
      by (auto simp: rx_test_infix)
    then have "y \<noteq> []" "list_all (\<lambda>c. \<not> is_digit c) y"
      by (auto simp: rplus_def ncls_def mem_Rep_Cls in_bounds_def list_all_iff is_digit_def simp del: lang.simps)
    with * assms(1) show False by (cases y) (auto simp: all_digits_def)
  qed
  with assms show ?thesis
    by (simp add: creditcard_def delete_nondigits filter_all_digits luhn_loop_sum)
qed

text \<open>C39: on 13 to 19 digits the card check is the Luhn sum modulo ten (every second digit from
  the right doubled, nine subtracted from two-digit results), and it rejects every number
  that differs from an accepted one in a single digit.\<close>

theorem luhn_detects_single_errors:
  assumes "all_digits v" "13 \<le> length v" "length v \<le> 19" "i < length v" "is_digit c" "c \<noteq> v ! i"
  shows "creditcard False v = Res (luhn_sum (rev v) False mod 10 = 0) \<and>
    (creditcard False v = Res True \<longrightarrow> creditcard False (v[i := c]) = Res False)"
proof (intro conjI impI)
  show "creditcard False v = Res (luhn_sum (rev v) False mod 10 = 0)"
    by (rule creditcard_digits [OF assms(1-3)])
  assume "creditcard False v = Res True"
  then have z: "luhn_sum (rev v) False mod 10 = 0" by (simp add: creditcard_digits [OF assms(1-3)])
  let ?j = "length v - Suc i"
  have j: "?j < length (rev v)" "rev v ! ?j = v ! i" using assms(4) by (auto simp: rev_nth)
  have up: "rev (v[i := c]) = (rev v)[?j := c]" using assms(4) by (simp add: rev_update)
  obtain b where b: "luhn_sum ((rev v)[?j := c]) False - luhn_sum (rev v) False =
      luhn_weight b (digit_val c) - luhn_weight b (dig v i)"
    using luhn_sum_update [OF j(1), of c False] j(2) by auto
  have vi: "is_digit (v ! i)" using assms(1,4) by (simp add: all_digits_nth)
  have "luhn_weight b (digit_val c) \<noteq> luhn_weight b (dig v i) \<and>
      \<bar>luhn_weight b (digit_val c) - luhn_weight b (dig v i)\<bar> \<le> 9"
    using luhn_weight_diff digit_val_range [OF vi] digit_val_range [OF assms(5)] digit_val_inj [OF assms(5) vi] assms(6)
    by blast
  with b z have "luhn_sum ((rev v)[?j := c]) False mod 10 \<noteq> 0" by presburger
  then show "creditcard False (v[i := c]) = Res False"
    using assms by (simp add: creditcard_digits all_digits_update up)
qed

theorem luhn_detects_single_errors_witness:
  "creditcard False ''4111111111111111'' = Res True \<and>
   creditcard False (''4111111111111111''[0 := CHR ''5'']) = Res False"
proof -
  have ok: "creditcard False ''4111111111111111'' = Res True" by code_simp
  have "all_digits ''4111111111111111''" "is_digit (CHR ''5'')" by (simp_all add: all_digits_def is_digit_def)
  with luhn_detects_single_errors [of "''4111111111111111''" 0 "CHR ''5''"] ok show ?thesis by simp
qed

section \<open>Brazilian tax numbers\<close>

lemma strip_special_filter: "strip_special v = filter (\<lambda>c. c \<notin> set special_chars) v"
  by (simp add: strip_special_def cls_def rx_delete_rplus_cls)

lemma digit_not_special: "is_digit c \<Longrightarrow> c \<notin> set special_chars"
  by (auto simp: special_chars_def is_digit_of_char)

lemma strip_special_digits: "all_digits v \<Longrightarrow> strip_special v = v"
  by (simp add: strip_special_filter filter_id_conv digit_not_special all_digits_def list_all_iff)

definition repdigit :: "string \<Rightarrow> bool" where
  "repdigit v \<longleftrightarrow> v \<in> set (map (replicate (length v)) ''0123456789'')"

text \<open>The published check digit: the weighted sum times ten, modulo eleven, ten counting as zero.\<close>

definition cpf_digit :: "int \<Rightarrow> nat \<Rightarrow> string \<Rightarrow> int" where
  "cpf_digit w n v = (10 * (\<Sum>i<n. (w - int i) * dig v i)) mod 11 mod 10"

lemma sum_list_shift: "sum_list (map f [Suc 0..<Suc n]) = (\<Sum>i<n. f (Suc i) :: int)"
  by (simp add: map_Suc_upt [symmetric] comp_def sum_list_upt del: upt_Suc)

lemma cpf_sum:
  assumes "all_digits v" "n \<le> length v"
  shows "nan_sum (map (\<lambda>i. num2 (*) (parse_int (substring v (i - 1) i)) (Some (w - int i))) [1..<Suc n]) =
    Some (\<Sum>i<n. (w - 1 - int i) * dig v i)"
proof -
  have "nan_sum (map (\<lambda>i. num2 (*) (parse_int (substring v (i - 1) i)) (Some (w - int i))) [1..<Suc n]) =
      Some (sum_list (map (\<lambda>i. dig v (i - 1) * (w - int i)) [1..<Suc n]))"
  proof (rule nan_sum_cong)
    fix i assume "i \<in> set [1..<Suc n]"
    then have i: "i - 1 < length v" "Suc (i - 1) = i" using assms(2) by auto
    from substring_one [OF i(1)] i(2) parse_int_at [OF assms(1) i(1)]
    show "num2 (*) (parse_int (substring v (i - 1) i)) (Some (w - int i)) = Some (dig v (i - 1) * (w - int i))"
      by simp
  qed
  then show ?thesis
    using sum_list_shift [of "\<lambda>i. dig v (i - 1) * (w - int i)" n] by (simp add: algebra_simps)
qed

lemma cpf_check_result_iff:
  assumes "is_digit c"
  shows "cpf_check_result (Some s) (Some (digit_val c)) \<longleftrightarrow> digit_val c = (10 * s) mod 11 mod 10"
proof -
  have "0 \<le> (10 * s) mod 11" "(10 * s) mod 11 < 11" by simp_all
  then consider "(10 * s) mod 11 < 10" | "(10 * s) mod 11 = 10" by linarith
  then show ?thesis
    using digit_val_range [OF assms] by cases (auto simp: cpf_check_result_def nan_mod_def mult.commute)
qed

text \<open>eleven digits are a CPF number exactly when they are not eleven equal digits and the
  last two are the published check digits of what precedes them.\<close>

theorem cpf_accepts:
  assumes "all_digits v" "length v = 11"
  shows "cpf_br False v = Res (\<not> repdigit v \<and> dig v 9 = cpf_digit 10 9 v \<and> dig v 10 = cpf_digit 11 10 v)"
proof -
  have sub: "substring v 9 10 = char_at v 9" "substring v 10 11 = char_at v 10"
    using substring_one [of 9 v] substring_one [of 10 v] assms(2) by simp_all
  have num: "[1..<10] = [1..<Suc 9]" "[1..<11] = [1..<Suc 10]" by simp_all
  have digs: "is_digit (v ! 9)" "is_digit (v ! 10)" using assms by (simp_all add: all_digits_nth)
  have s1: "nan_sum (map (\<lambda>i. num2 (*) (parse_int (substring v (i - 1) i)) (Some (11 - int i))) [1..<10])
      = Some (\<Sum>i<9. (10 - int i) * dig v i)"
    unfolding num using cpf_sum [OF assms(1), of 9 11] assms(2) by simp
  have s2: "nan_sum (map (\<lambda>i. num2 (*) (parse_int (substring v (i - 1) i)) (Some (12 - int i))) [1..<11])
      = Some (\<Sum>i<10. (11 - int i) * dig v i)"
    unfolding num using cpf_sum [OF assms(1), of 10 12] assms(2) by simp
  have ne: "v \<noteq> []" using assms(2) by auto
  show ?thesis
    unfolding cpf_br_def Let_def strip_special_digits [OF assms(1)] sub s1 s2 repdigit_def
    using assms ne by (simp add: parse_int_at cpf_check_result_iff digs cpf_digit_def)
qed

theorem cpf_accepts_witness:
  "cpf_br False ''11144477735'' =
     Res (\<not> repdigit ''11144477735'' \<and> dig ''11144477735'' 9 = cpf_digit 10 9 ''11144477735'' \<and>
          dig ''11144477735'' 10 = cpf_digit 11 10 ''11144477735'')"
  by (rule cpf_accepts) (simp_all add: all_digits_def is_digit_def)

text \<open>The weights of \<open>cnpjBR\<close> written out.\<close>

definition cnpj_weights :: "int list" where
  "cnpj_weights = [6, 5, 4, 3, 2, 9, 8, 7, 6, 5, 4, 3, 2]"

definition cnpj_digit :: "int list \<Rightarrow> string \<Rightarrow> int" where
  "cnpj_digit ws v =
     (let r = (\<Sum>i<length ws. ws ! i * dig v i) mod 11 in if r < 2 then 0 else 11 - r)"

lemma length_14: "length v = 14 \<longleftrightarrow>
  (\<exists>a b c d e f g h i j k l m n. v = [a, b, c, d, e, f, g, h, i, j, k, l, m, n])"
  by (auto simp: length_Suc_conv numeral_eq_Suc)

lemma sum_upto_12: "(\<Sum>i<(12::nat). f i :: int) =
  f 0 + f 1 + f 2 + f 3 + f 4 + f 5 + f 6 + f 7 + f 8 + f 9 + f 10 + f 11"
  by (simp add: numeral_eq_Suc lessThan_Suc)

lemma sum_upto_13: "(\<Sum>i<(13::nat). f i :: int) =
  f 0 + f 1 + f 2 + f 3 + f 4 + f 5 + f 6 + f 7 + f 8 + f 9 + f 10 + f 11 + f 12"
  by (simp add: numeral_eq_Suc lessThan_Suc)

lemma cnpj_loop_12:
  assumes "all_digits v" "length v = 14"
  shows "cnpj_loop (substring v 0 12) 5 (Some 0) = Some (\<Sum>i<12. tl cnpj_weights ! i * dig v i)"
proof -
  obtain a b c d e f g h i j k l m n where v: "v = [a, b, c, d, e, f, g, h, i, j, k, l, m, n]"
    using assms(2) by (auto simp: length_14)
  show ?thesis using assms(1)
    by (simp add: v all_digits_def substring_def char_num_digit cnpj_weights_def sum_upto_12)
qed

lemma cnpj_loop_13:
  assumes "all_digits v" "length v = 14"
  shows "cnpj_loop (substring v 0 13) 6 (Some 0) = Some (\<Sum>i<13. cnpj_weights ! i * dig v i)"
proof -
  obtain a b c d e f g h i j k l m n where v: "v = [a, b, c, d, e, f, g, h, i, j, k, l, m, n]"
    using assms(2) by (auto simp: length_14)
  show ?thesis using assms(1)
    by (simp add: v all_digits_def substring_def char_num_digit cnpj_weights_def sum_upto_13)
qed

lemma cnpj_res_digit:
  "cnpj_resultado (Some (\<Sum>i<length ws. ws ! i * dig v i)) = Some (cnpj_digit ws v)"
  by (simp add: cnpj_resultado_def nan_mod_def cnpj_digit_def Let_def)

lemma cnpj_weights_length: "length cnpj_weights = 13" "length (tl cnpj_weights) = 12"
  by (simp_all add: cnpj_weights_def)

text \<open>fourteen digits are a CNPJ number exactly when they are not fourteen equal digits and
  the last two are the check digits with weights 5 4 3 2 9 8 7 6 5 4 3 2 and
  6 5 4 3 2 9 8 7 6 5 4 3 2 (remainders 0 and 1 giving 0).\<close>

theorem cnpj_accepts:
  assumes "all_digits v" "length v = 14"
  shows "cnpj_br False v =
    Res (\<not> repdigit v \<and> dig v 12 = cnpj_digit (tl cnpj_weights) v \<and> dig v 13 = cnpj_digit cnpj_weights v)"
proof -
  have d: "parse_int (char_at (drop 12 v) 0) = Some (dig v 12)" "parse_int (char_at (drop 12 v) 1) = Some (dig v 13)"
    using parse_int_at [OF assms(1), of 12] parse_int_at [OF assms(1), of 13] assms(2) by (simp_all add: char_at_def)
  have r: "cnpj_resultado (Some (\<Sum>i<12. tl cnpj_weights ! i * dig v i)) = Some (cnpj_digit (tl cnpj_weights) v)"
    "cnpj_resultado (Some (\<Sum>i<13. cnpj_weights ! i * dig v i)) = Some (cnpj_digit cnpj_weights v)"
    using cnpj_res_digit [of "tl cnpj_weights" v] cnpj_res_digit [of cnpj_weights v]
    by (simp_all only: cnpj_weights_length)
  show ?thesis
    using assms by (auto simp: cnpj_br_def delete_nondigits_plus filter_all_digits repdigit_def d [simplified] r
        cnpj_loop_12 [OF assms, simplified] cnpj_loop_13 [OF assms, simplified] Let_def num_eq_def)
qed

theorem cnpj_accepts_witness:
  "cnpj_br False ''11222333000181'' =
     Res (\<not> repdigit ''11222333000181'' \<and> dig ''11222333000181'' 12 = cnpj_digit (tl cnpj_weights) ''11222333000181''
          \<and> dig ''11222333000181'' 13 = cnpj_digit cnpj_weights ''11222333000181'')"
  by (rule cnpj_accepts) (simp_all add: all_digits_def is_digit_def)

section \<open>Dutch account numbers\<close>

lemma delete_space_digits: "all_digits v \<Longrightarrow> rx_delete (lit '' '') v = v"
proof -
  assume v: "all_digits v"
  have "lit '' '' = Seq (cls [] '' '') Emp" by (simp add: lit_def rseq_def)
  moreover have "rx_subst (Seq (cls [] '' '') Emp) (\<lambda>_. []) (p, s) = filter (\<lambda>c. c \<noteq> CHR '' '') s" for p s
    by (induction s arbitrary: p) (simp_all add: rx_subst.simps cls_def)
  moreover have "filter (\<lambda>c. c \<noteq> CHR '' '') v = v"
    using v by (auto simp: filter_id_conv all_digits_def list_all_iff is_digit_def)
  ultimately show ?thesis by (simp add: rx_delete_def rx_replace_all_def)
qed

lemma bankaccount_rx_digits:
  assumes "all_digits v" "9 \<le> length v"
  shows "rx_test bankaccount_rx v"
proof -
  have "all_digits (take 9 v)" using assms(1) by (metis all_digits_def append_take_drop_id list_all_append)
  then have "v = take 9 v @ drop 9 v" "take 9 v \<in> lang (rtimes 9 rdigit)"
    using assms(2) unfolding mem_rdigit_times by simp_all
  then have "rx_test (Seq Bol (rtimes 9 rdigit)) v" by (subst rx_test_prefix, simp) blast
  then show ?thesis by (simp add: bankaccount_rx_def rx_test_Alt)
qed

text \<open>of the texts of digits, \<open>bankaccountNL\<close> accepts not only those of nine digits: as the
  pattern's first alternative is not anchored at the end, every number of nine or more digits
  whose sum, weighted with the position from the right, is a multiple of eleven passes.\<close>

theorem bankaccount_accepts_long:
  assumes "all_digits v" "9 \<le> length v"
  shows "bankaccount_nl False v = Res ((\<Sum>i<length v. int (length v - i) * dig v i) mod 11 = 0)"
proof -
  have "nan_sum (map (\<lambda>pos. num2 (*) (Some (int (length v - pos))) (char_num (substring v pos (Suc pos)))) [0..<length v])
      = Some (\<Sum>i<length v. int (length v - i) * dig v i)"
    using assms(1)
    by (subst nan_sum_cong [where f = "\<lambda>i. int (length v - i) * dig v i"])
      (simp_all add: substring_one char_num_at sum_list_upt)
  then show ?thesis
    by (simp add: bankaccount_nl_def bankaccount_rx_digits [OF assms] delete_space_digits [OF assms(1)] nan_mod_def Let_def)
qed

theorem bankaccount_accepts_long_witness:
  "bankaccount_nl False ''123456789'' = Res True \<and> bankaccount_nl False ''00000000000000000000'' = Res True"
proof -
  have a: "all_digits ''123456789''" "9 \<le> length ''123456789''"
    "all_digits ''00000000000000000000''" "9 \<le> length ''00000000000000000000''"
    by (simp_all add: all_digits_def is_digit_def)
  have "(\<Sum>i<length ''123456789''. int (length ''123456789'' - i) * dig ''123456789'' i) mod 11 = 0"
    "(\<Sum>i<length ''00000000000000000000''. int (length ''00000000000000000000'' - i) * dig ''00000000000000000000'' i) mod 11 = 0"
    by code_simp+
  then show ?thesis using bankaccount_accepts_long [OF a(1,2)] bankaccount_accepts_long [OF a(3,4)] by simp
qed

section \<open>Brazilian social numbers\<close>

text \<open>a text of eleven code units that does not begin with a digit is accepted by \<open>nisBR\<close> as
  soon as it ends in 0: \<open>parseInt\<close> gives NaN, the sum is NaN, and NaN counts as check digit 0.\<close>

theorem nis_accepts_unreadable:
  assumes "length v = 11" "set v \<inter> set special_chars = {}" "\<not> is_digit (v ! 0)" "\<not> is_ws (v ! 0)"
  shows "nis_br v = Res (v ! 10 = CHR ''0'')"
proof -
  have strip: "strip_special v = v"
    using assms(2) by (auto simp: strip_special_filter filter_id_conv)
  have "v ! 0 \<in> set v" using assms(1) by (intro nth_mem) simp
  then have "v ! 0 \<notin> set special_chars" using assms(2) by blast
  then have sign: "v ! 0 \<noteq> CHR ''-''" "v ! 0 \<noteq> CHR ''+''" by (auto simp: special_chars_def)
  obtain c cs where c: "take 10 v = c # cs" "c = v ! 0"
    using assms(1) by (cases v) auto
  have num: "parse_int (substring v 0 10) = None"
    using sign assms(3,4) by (simp add: substring_def c parse_int_def)
  have nan: "nis_loop ns None (Some t) = (if ns = [] then Some t else None)" for ns t
  proof -
    have "nis_loop ms None None = None" for ms by (induction ms) (simp_all add: nan_mod_def Let_def)
    then show ?thesis by (cases ns) (simp_all add: nan_mod_def Let_def)
  qed
  have "substring v 10 11 = [v ! 10]"
    using assms(1) substring_one [of 10 v] by (simp add: char_at_def)
  then have cn: "parse_int (substring v 10 11) = (if is_digit (v ! 10) then Some (dig v 10) else None)"
    by (simp add: parse_int_single)
  have z: "is_digit (v ! 10) \<and> dig v 10 = 0 \<longleftrightarrow> v ! 10 = CHR ''0''"
    using digit_val_inj [of "v ! 10" "CHR ''0''"] by (auto simp: is_digit_def digit_val_def)
  show ?thesis
    unfolding z [symmetric] using assms(1)
    by (simp add: nis_br_def strip num nan cn nan_mod_def num_eq_def Let_def)
qed

theorem nis_accepts_unreadable_witness: "nis_br ''not a nis 0'' \<noteq> Res True \<and> nis_br ''abcdefghij0'' = Res True"
  using nis_accepts_unreadable [of "''abcdefghij0''"]
  by (simp add: special_chars_def is_digit_def is_ws_def) code_simp

section \<open>Spanish identity numbers of foreigners\<close>

primrec positive :: "rx \<Rightarrow> bool" where
  "positive Emp = True"
| "positive (Cls n i rs) = (\<not> n \<and> \<not> i)"
| "positive (Seq r s) = (positive r \<and> positive s)"
| "positive (Alt r s) = (positive r \<and> positive s)"
| "positive (Rep lo hi g r) = positive r"
| "positive Bol = True"
| "positive Eol = True"
| "positive WordB = True"
| "positive (NotAhead r) = False"

lemma lang_icase_mono: "positive r \<Longrightarrow> lang r \<subseteq> lang (icase r)"
proof (induction r)
  case (Rep lo hi g r)
  then show ?case by simp blast
qed (auto simp: in_cls_def)

lemma icase_anchored: "icase (anchored r) = anchored (icase r)"
  by (simp add: anchored_def)

definition nie_prefix_digit :: "char \<Rightarrow> string" where
  "nie_prefix_digit p = (if p = CHR ''X'' then ''0'' else if p = CHR ''Y'' then ''1'' else ''2'')"

lemma to_upper_id: "list_all (\<lambda>c. up_char c = [c]) v \<Longrightarrow> to_upper v = v"
  by (induction v) (simp_all add: to_upper_def)

lemma up_char_digit: "is_digit c \<Longrightarrow> up_char c = [c]"
  by (auto simp: up_char_def is_digit_of_char less_eq_char_def)

definition nie_letters :: string where
  "nie_letters = ''TRWAGMYFPDXBNJZSQVHLCKET''"

lemma nie_format:
  assumes "p \<in> set ''MXYZ''" "all_digits ds" "length ds = 7" "l \<in> set nie_letters"
  shows "rx_test nie_rx (p # ds @ [l])"
proof -
  let ?r = "rseq [rtimes 1 (cls [] ''MXYZ''), rbetween 7 8 (cls ''09'' []), rtimes 1 (cls [] ''TRWAGMYFPDXBNJZSQVHLCKET'')]"
  have one: "[c] \<in> lang (rtimes 1 (cls [] cs))" if "c \<in> set cs" for c cs
    using that by (simp add: rtimes_def cls_def mem_Rep_Cls in_bounds_def del: lang.simps)
  have step: "u @ v \<in> lang (rseq (r # rs))" if "u \<in> lang r" "v \<in> lang (rseq rs)" for u v r rs
    using that by (simp add: rseq_def) blast
  have "ds \<in> lang (rbetween 7 8 (cls ''09'' []))"
    using assms(2,3) by (simp add: mem_rbetween_rdigit flip: rdigit_def)
  then have "[p] @ ds @ [l] @ [] \<in> lang ?r"
    using assms(4) unfolding nie_letters_def by (intro step one assms(1)) (simp_all add: rseq_def)
  then have "p # ds @ [l] \<in> lang ?r" by simp
  moreover have "positive ?r"
    by (simp add: rseq_def rtimes_def rbetween_def cls_def)
  ultimately have "p # ds @ [l] \<in> lang (icase ?r)" using lang_icase_mono by blast
  then show ?thesis by (simp add: nie_rx_def icase_anchored rx_test_anchored)
qed

lemma rx_scan_Bol_Some: "rx_scan (Seq Bol r) (Some p) s i = None"
  by (induction s arbitrary: p i) (simp_all add: rx_scan.simps)

lemma replace_first:
  "rx_replace (Seq Bol (cls [] [c])) t (x # s) = (if x = c then t @ s else x # s)"
  by (simp add: rx_replace_def rx_exec_def cls_def rx_scan.simps [of _ None] rx_scan_Bol_Some)

lemma char_at_num_Some: "0 \<le> i \<Longrightarrow> nat i < length s \<Longrightarrow> char_at_num s (Some i) = [s ! nat i]"
  by (simp add: char_at_num_def char_at_def)

text \<open>a number of a letter, seven digits and a control letter: with X, Y or Z in front the
  control letter must be the one at the remainder modulo 23 of the number with 0, 1 or 2 in
  place of the letter; with M, whose number \<open>parseInt\<close> cannot read, the control letter must be
  T whatever the digits are.\<close>

theorem nie_accepts:
  assumes "p \<in> set ''MXYZ''" "all_digits ds" "length ds = 7" "l \<in> set nie_letters"
  shows "nie_es False (p # ds @ [l]) =
    Res (l = (if p = CHR ''M'' then CHR ''T''
              else nie_letters ! nat (digits_val (nie_prefix_digit p @ ds) mod 23)))"
proof -
  let ?v = "p # ds @ [l]"
  have upl: "list_all (\<lambda>c. up_char c = [c]) nie_letters" "list_all (\<lambda>c. up_char c = [c]) ''MXYZ''" by code_simp+
  have up: "up_char p = [p]" "up_char l = [l]" "list_all (\<lambda>c. up_char c = [c]) ds"
    using upl assms(1,4) assms(2) by (auto simp: list_all_iff all_digits_def up_char_digit)
  then have upv: "to_upper ?v = ?v" "to_upper [l] = [l]" by (simp_all add: to_upper_id)
  have last: "substr_from ?v (length ?v - 1) = [l]" by (simp add: substr_from_def)
  define d where "d = (if p = CHR ''M'' then p else hd (nie_prefix_digit p))"
  have rep: "rx_replace (Seq Bol (cls [] ''Z'')) ''2'' (rx_replace (Seq Bol (cls [] ''Y'')) ''1''
      (rx_replace (Seq Bol (cls [] ''X'')) ''0'' ?v)) = d # ds @ [l]"
    using assms(1) by (auto simp: replace_first d_def nie_prefix_digit_def)
  have num: "substr (d # ds @ [l]) 0 8 = d # ds" using assms(3) by (simp add: substr_def)
  have fmt: "rx_test nie_rx ?v" by (rule nie_format [OF assms])
  have res: "nie_es False ?v =
      Res (char_at_num nie_letters (nan_mod (parse_int (d # ds)) 23) = [l])"
    using assms(3) fmt unfolding nie_es_def Let_def last upv rep num nie_letters_def [symmetric] by simp
  show ?thesis
  proof (cases "p = CHR ''M''")
    case True
    then have "parse_int (d # ds) = None"
      by (simp add: d_def parse_int_def is_ws_def is_digit_def)
    moreover have "char_at nie_letters 0 = ''T''" by (simp add: nie_letters_def char_at_def)
    ultimately show ?thesis using True res by (auto simp: nan_mod_def char_at_num_def)
  next
    case False
    have dd: "[d] = nie_prefix_digit p" "is_digit d" using False by (auto simp: d_def nie_prefix_digit_def is_digit_def)
    then have "parse_int (d # ds) = Some (digits_val (nie_prefix_digit p @ ds))"
      using assms(2) parse_int_digits [of "d # ds"] by (simp add: all_digits_def flip: dd(1))
    moreover have "nat (digits_val (nie_prefix_digit p @ ds) mod 23) < length nie_letters"
      using pos_mod_bound [of 23 "digits_val (nie_prefix_digit p @ ds)"] by (simp add: nie_letters_def)
    ultimately show ?thesis using False res by (auto simp: nan_mod_def char_at_num_Some)
  qed
qed

theorem nie_accepts_witness:
  "nie_es False ''X1234567L'' = Res True \<and> nie_es False ''M9999999T'' = Res True"
proof -
  have a: "CHR ''X'' \<in> set ''MXYZ''" "all_digits ''1234567''" "length ''1234567'' = 7" "CHR ''L'' \<in> set nie_letters"
    "CHR ''M'' \<in> set ''MXYZ''" "all_digits ''9999999''" "length ''9999999'' = 7" "CHR ''T'' \<in> set nie_letters"
    by (simp_all add: all_digits_def is_digit_def nie_letters_def)
  have "nie_letters ! nat (digits_val (nie_prefix_digit (CHR ''X'') @ ''1234567'') mod 23) = CHR ''L''" by code_simp
  then show ?thesis using nie_accepts [OF a(1-4)] nie_accepts [OF a(5-8)] by simp
qed

section \<open>Card types\<close>

text \<open>each bit of the mask built from the parameters is set exactly when its flag or the flag
  \<open>all\<close> is, so the cascade of tests asks for the flags themselves.\<close>

theorem card_mask_flags:
  "has_bit (valid_types p) 0x01 = (mastercard p \<or> all_cards p) \<and>
   has_bit (valid_types p) 0x02 = (visa p \<or> all_cards p) \<and>
   has_bit (valid_types p) 0x04 = (amex p \<or> all_cards p) \<and>
   has_bit (valid_types p) 0x08 = (dinersclub p \<or> all_cards p) \<and>
   has_bit (valid_types p) 0x10 = (enroute p \<or> all_cards p) \<and>
   has_bit (valid_types p) 0x20 = (discover p \<or> all_cards p) \<and>
   has_bit (valid_types p) 0x40 = (jcb p \<or> all_cards p) \<and>
   has_bit (valid_types p) 0x80 = (unknown p \<or> all_cards p)"
proof -
  have "has_bit (set_bit_if b m w) k = (b \<and> has_bit m k \<or> has_bit w k)" for b m w k
    by (auto simp: has_bit_def set_bit_if_def bit_eq_iff bit_simps)
  then show ?thesis
    by (cases "all_cards p") (simp_all add: valid_types_def Let_def, simp_all add: has_bit_def)
qed

end
