(* ===== verification/Identifiers.thy ===== *)
theory Identifiers
  imports MethodBase
begin

text \<open>
  The methods \<open>iban\<close>, \<open>vinUS\<close> and \<open>dateITA\<close> of \<open>additional-methods.js\<close>: an account number
  with a checksum modulo 97 computed piecewise, a vehicle number with a weighted sum, and a
  calendar date.
\<close>

section \<open>iban\<close>

definition upper_cls :: rx where "upper_cls = cls ''AZ'' []"
definition alnum_cls :: rx where "alnum_cls = cls ''09AZ'' []"

definition bban_country_patterns :: "(string \<times> rx list) list" where
  "bban_country_patterns =
    [(''AL'', [rtimes 8 rdigit, rtimes 16 alnum_cls]),
     (''AD'', [rtimes 8 rdigit, rtimes 12 alnum_cls]),
     (''AT'', [rtimes 16 rdigit]),
     (''AZ'', [rtimes 4 alnum_cls, rtimes 20 rdigit]),
     (''BE'', [rtimes 12 rdigit]),
     (''BH'', [rtimes 4 upper_cls, rtimes 14 alnum_cls]),
     (''BA'', [rtimes 16 rdigit]),
     (''BR'', [rtimes 23 rdigit, upper_cls, alnum_cls]),
     (''BG'', [rtimes 4 upper_cls, rtimes 6 rdigit, rtimes 8 alnum_cls]),
     (''CR'', [rtimes 17 rdigit]),
     (''HR'', [rtimes 17 rdigit]),
     (''CY'', [rtimes 8 rdigit, rtimes 16 alnum_cls]),
     (''CZ'', [rtimes 20 rdigit]),
     (''DK'', [rtimes 14 rdigit]),
     (''DO'', [rtimes 4 upper_cls, rtimes 20 rdigit]),
     (''EE'', [rtimes 16 rdigit]),
     (''FO'', [rtimes 14 rdigit]),
     (''FI'', [rtimes 14 rdigit]),
     (''FR'', [rtimes 10 rdigit, rtimes 11 alnum_cls, rtimes 2 rdigit]),
     (''GE'', [rtimes 2 alnum_cls, rtimes 16 rdigit]),
     (''DE'', [rtimes 18 rdigit]),
     (''GI'', [rtimes 4 upper_cls, rtimes 15 alnum_cls]),
     (''GR'', [rtimes 7 rdigit, rtimes 16 alnum_cls]),
     (''GL'', [rtimes 14 rdigit]),
     (''GT'', [rtimes 4 alnum_cls, rtimes 20 alnum_cls]),
     (''HU'', [rtimes 24 rdigit]),
     (''IS'', [rtimes 22 rdigit]),
     (''IE'', [rtimes 4 alnum_cls, rtimes 14 rdigit]),
     (''IL'', [rtimes 19 rdigit]),
     (''IT'', [upper_cls, rtimes 10 rdigit, rtimes 12 alnum_cls]),
     (''KZ'', [rtimes 3 rdigit, rtimes 13 alnum_cls]),
     (''KW'', [rtimes 4 upper_cls, rtimes 22 alnum_cls]),
     (''LV'', [rtimes 4 upper_cls, rtimes 13 alnum_cls]),
     (''LB'', [rtimes 4 rdigit, rtimes 20 alnum_cls]),
     (''LI'', [rtimes 5 rdigit, rtimes 12 alnum_cls]),
     (''LT'', [rtimes 16 rdigit]),
     (''LU'', [rtimes 3 rdigit, rtimes 13 alnum_cls]),
     (''MK'', [rtimes 3 rdigit, rtimes 10 alnum_cls, rtimes 2 rdigit]),
     (''MT'', [rtimes 4 upper_cls, rtimes 5 rdigit, rtimes 18 alnum_cls]),
     (''MR'', [rtimes 23 rdigit]),
     (''MU'', [rtimes 4 upper_cls, rtimes 19 rdigit, rtimes 3 upper_cls]),
     (''MC'', [rtimes 10 rdigit, rtimes 11 alnum_cls, rtimes 2 rdigit]),
     (''MD'', [rtimes 2 alnum_cls, rtimes 18 rdigit]),
     (''ME'', [rtimes 18 rdigit]),
     (''NL'', [rtimes 4 upper_cls, rtimes 10 rdigit]),
     (''NO'', [rtimes 11 rdigit]),
     (''PK'', [rtimes 4 alnum_cls, rtimes 16 rdigit]),
     (''PS'', [rtimes 4 alnum_cls, rtimes 21 rdigit]),
     (''PL'', [rtimes 24 rdigit]),
     (''PT'', [rtimes 21 rdigit]),
     (''RO'', [rtimes 4 upper_cls, rtimes 16 alnum_cls]),
     (''SM'', [upper_cls, rtimes 10 rdigit, rtimes 12 alnum_cls]),
     (''SA'', [rtimes 2 rdigit, rtimes 18 alnum_cls]),
     (''RS'', [rtimes 18 rdigit]),
     (''SK'', [rtimes 20 rdigit]),
     (''SI'', [rtimes 15 rdigit]),
     (''ES'', [rtimes 20 rdigit]),
     (''SE'', [rtimes 20 rdigit]),
     (''CH'', [rtimes 5 rdigit, rtimes 12 alnum_cls]),
     (''TN'', [rtimes 20 rdigit]),
     (''TR'', [rtimes 5 rdigit, rtimes 17 alnum_cls]),
     (''AE'', [rtimes 3 rdigit, rtimes 16 rdigit]),
     (''GB'', [rtimes 4 upper_cls, rtimes 14 rdigit]),
     (''VG'', [rtimes 4 alnum_cls, rtimes 16 rdigit])]"

definition iban_regexp :: "rx list \<Rightarrow> rx" where
  "iban_regexp bban = anchored (rseq ([rtimes 2 upper_cls, rtimes 2 rdigit] @ bban))"

definition base36 :: string where
  "base36 = ''0123456789ABCDEFGHIJKLMNOPQRSTUVWXYZ''"

text \<open>\<open>indexOf\<close> of a code unit, as text; \<open>-1\<close> when it is not there.\<close>

definition index_text :: "char \<Rightarrow> string" where
  "index_text c = (case index_of base36 [c] of None \<Rightarrow> ''-1'' | Some i \<Rightarrow> nat_str i)"

fun iban_digits :: "bool \<Rightarrow> string \<Rightarrow> string" where
  "iban_digits leadingZeroes [] = []"
| "iban_digits leadingZeroes (c # cs) =
     (let lz = leadingZeroes \<and> c = CHR ''0''
      in (if lz then [] else index_text c) @ iban_digits lz cs)"

text \<open>
  The remainder so far is text: empty at first, afterwards what a number prints as (here an
  integer below 97, or NaN).
\<close>

definition num_print :: "jnum \<Rightarrow> string" where
  "num_print x = (case x of NaN \<Rightarrow> ''NaN'' | Inf b \<Rightarrow> (if b then ''Infinity'' else ''-Infinity'')
                          | Fin q \<Rightarrow> int_str \<lfloor>q\<rfloor>)"

fun iban_rest :: "string \<Rightarrow> jnum option \<Rightarrow> jnum option" where
  "iban_rest [] cRest = cRest"
| "iban_rest (c # cs) cRest =
     (let cOperator = (case cRest of None \<Rightarrow> [] | Some r \<Rightarrow> num_print r) @ [c]
      in iban_rest cs (Some (num_rem (to_number cOperator) (Fin 97))))"

definition iban :: "bool \<Rightarrow> string \<Rightarrow> mres" where
  "iban opt value =
     (if opt then Res True
      else (let iban = to_upper (rx_delete (lit '' '') value)
            in if length iban < 5 then Res False
               else if (case map_of bban_country_patterns (substring iban 0 2) of
                          None \<Rightarrow> False
                        | Some bban \<Rightarrow> \<not> rx_test (iban_regexp bban) iban)
               then Res False
               else (let ibancheck = substring iban 4 (length iban) @ substring iban 0 4
                     in Res (iban_rest (iban_digits True ibancheck) None = Some (Fin 1)))))"

section \<open>vinUS\<close>

definition vin_letters :: string where
  "vin_letters = ''ABCDEFGHJKLMNPRSTUVWXYZ''"

definition vin_values :: "int list" where
  "vin_values = [1, 2, 3, 4, 5, 6, 7, 8, 1, 2, 3, 4, 5, 7, 9, 2, 3, 4, 5, 6, 7, 8, 9]"

definition vin_factors :: "int list" where
  "vin_factors = [8, 7, 6, 5, 4, 3, 2, 10, 0, 9, 8, 7, 6, 5, 4, 3, 2]"

text \<open>
  The running sum is a number until a code unit that is neither numeric nor in the table is
  added to it, which makes it a string. \<open>cdv\<close> is undefined until position 8.
\<close>

datatype vin_sum = VNum int | VText string

definition vin_add :: "vin_sum \<Rightarrow> int + char \<Rightarrow> vin_sum" where
  "vin_add rs d =
     (case (rs, d) of
        (VNum n, Inl k) \<Rightarrow> VNum (n + k)
      | (VNum n, Inr c) \<Rightarrow> VText (int_str n @ [c])
      | (VText s, Inl k) \<Rightarrow> VText (s @ int_str k)
      | (VText s, Inr c) \<Rightarrow> VText (s @ [c]))"

fun vin_scan :: "char \<Rightarrow> string \<Rightarrow> nat \<Rightarrow> nat option" where
  \<comment> \<open>the inner loop over the table\<close>
  "vin_scan c [] n = None"
| "vin_scan c (l # ls) n = (if to_upper [c] = [l] then Some n else vin_scan c ls (Suc n))"

definition vin_step :: "nat \<Rightarrow> char \<Rightarrow> vin_sum \<times> char option \<Rightarrow> vin_sum \<times> char option" where
  "vin_step i c = (\<lambda>(rs, cdv).
     (let f = vin_factors ! i;
          cdv = (if i = 8 then Some c else cdv)
      in case char_num [c] of
           Some d \<Rightarrow> (vin_add rs (Inl (d * f)), cdv)
         | None \<Rightarrow>
             (case vin_scan c vin_letters 0 of
                None \<Rightarrow> (vin_add rs (Inr c), cdv)
              | Some n \<Rightarrow>
                  (vin_add rs (Inl (vin_values ! n * f)),
                   if (case cdv of None \<Rightarrow> True | Some x \<Rightarrow> char_num [x] = None) \<and> n = 8
                   then Some (vin_letters ! n) else cdv))))"

fun vin_loop :: "nat \<Rightarrow> string \<Rightarrow> vin_sum \<times> char option \<Rightarrow> vin_sum \<times> char option" where
  "vin_loop i [] st = st"
| "vin_loop i (c # cs) st = vin_loop (Suc i) cs (vin_step i c st)"

text \<open>The remainder is a number, which \<open>===\<close> never finds equal to the text \<open>cdv\<close>.\<close>

definition vin_us :: "string \<Rightarrow> mres" where
  "vin_us v =
     (if length v \<noteq> 17 then Res False
      else (let (rs, cdv) = vin_loop 0 v (VNum 0, None);
                cd = num_rem (case rs of VNum n \<Rightarrow> Fin (of_int n) | VText s \<Rightarrow> to_number s) (Fin 11)
            in Res (cd = Fin 10 \<and> cdv = Some (CHR ''X''))))"

section \<open>dateITA\<close>

definition date_ita_rx :: rx where
  "date_ita_rx =
     anchored (rseq [rbetween 1 2 rdigit, lit ''/'', rbetween 1 2 rdigit, lit ''/'', rtimes 4 rdigit])"

definition date_ita :: "bool \<Rightarrow> string \<Rightarrow> mres" where
  "date_ita opt value =
     or_optional opt
       (if rx_test date_ita_rx value
        then (let adata = split_on (CHR ''/'') value
              in case (parse_int (adata ! 0), parse_int (adata ! 1), parse_int (adata ! 2)) of
                   (Some gg, Some mm, Some aaaa) \<Rightarrow>
                     (let xdata = date_utc aaaa (mm - 1) gg 12
                      in utc_full_year xdata = aaaa \<and> utc_month xdata = mm - 1 \<and> utc_date xdata = gg)
                 | _ \<Rightarrow> False)
        else False)"

end
