(* ===== verification/IdentifierProps.thy ===== *)
theory IdentifierProps
  imports Identifiers
begin

text \<open>
  The account-number checksum computed piecewise is the remainder of the whole number; what
  the vehicle-number check accepts; the dates \<open>dateITA\<close> accepts are those of the calendar.
\<close>

section \<open>The remainder of a long number\<close>

definition base36_char :: "char \<Rightarrow> bool" where
  "base36_char c \<longleftrightarrow> c \<in> set base36"

text \<open>The number a code unit stands for: a digit itself, A to Z the numbers 10 to 35.\<close>

definition char36 :: "char \<Rightarrow> int" where
  "char36 c = (if is_digit c then digit_val c else of_char c - 55)"

fun iban_len :: "string \<Rightarrow> nat" where
  "iban_len [] = 0"
| "iban_len (c # cs) = (if is_digit c then 1 else 2) + iban_len cs"

fun iban_value :: "string \<Rightarrow> int" where
  "iban_value [] = 0"
| "iban_value (c # cs) = char36 c * 10 ^ iban_len cs + iban_value cs"

lemma index_text_base36:
  "base36_char c \<Longrightarrow> all_digits (index_text c) \<and> digits_val (index_text c) = char36 c \<and>
     length (index_text c) = (if is_digit c then 1 else 2)"
proof -
  have "list_all (\<lambda>c. all_digits (index_text c) \<and> digits_val (index_text c) = char36 c \<and>
     length (index_text c) = (if is_digit c then 1 else 2)) base36" by code_simp
  then show "base36_char c \<Longrightarrow> ?thesis" by (auto simp: list_all_iff base36_char_def)
qed

lemma index_of_single: "c \<notin> set s \<Longrightarrow> index_of s [c] = None"
  by (induction s) auto

lemma index_text_other: "\<not> base36_char c \<Longrightarrow> index_text c = ''-1''"
  by (simp add: index_text_def base36_char_def index_of_single)

definition index_digits :: "string \<Rightarrow> string" where
  "index_digits s = concat (map index_text s)"

lemma index_digits_value:
  "list_all base36_char s \<Longrightarrow>
   all_digits (index_digits s) \<and> length (index_digits s) = iban_len s \<and> digits_val (index_digits s) = iban_value s"
proof (induction s)
  case (Cons c s)
  then show ?case using index_text_base36 [of c]
    by (auto simp: index_digits_def all_digits_def digits_val_append)
qed (simp add: index_digits_def all_digits_def)

lemma iban_digits_eq:
  "iban_digits lz s = index_digits (if lz then dropWhile (\<lambda>c. c = CHR ''0'') s else s)"
  by (induction s arbitrary: lz) (simp_all add: index_digits_def Let_def)

lemma iban_value_dropWhile: "iban_value (dropWhile (\<lambda>c. c = CHR ''0'') s) = iban_value s"
  by (induction s) (simp_all add: char36_def digit_val_def is_digit_def)

lemma list_all_dropWhile_zero:
  "list_all base36_char (dropWhile (\<lambda>c. c = CHR ''0'') s) \<longleftrightarrow> list_all base36_char s"
  by (induction s) (auto simp: base36_char_def base36_def)

lemma num_rem_int: "0 \<le> n \<Longrightarrow> 0 < m \<Longrightarrow> num_rem (Fin (of_int n)) (Fin (of_int m)) = Fin (of_int (n mod m))"
  by (simp add: num_rem_def rat_rem_def Let_def floor_divide_of_int_eq minus_mult_div_eq_mod [symmetric])

lemma int_str_digits: "0 \<le> r \<Longrightarrow> all_digits (int_str r) \<and> digits_val (int_str r) = r \<and> int_str r \<noteq> []"
  using all_digits_nat_str [of "nat r"] digits_val_nat_str [of "nat r"] length_nat_str [of "nat r"]
  by (simp add: int_str_def)

lemma iban_rest_step:
  assumes "0 \<le> r" "is_digit c"
  shows "num_rem (to_number (int_str r @ [c])) (Fin 97) = Fin (of_int ((10 * r + digit_val c) mod 97))"
proof -
  have "all_digits (int_str r @ [c])" using int_str_digits [OF assms(1)] assms(2) by (simp add: all_digits_def)
  then have "to_number (int_str r @ [c]) = Fin (of_int (10 * r + digit_val c))"
    using int_str_digits [OF assms(1)] by (simp add: to_number_digits digits_val_append)
  then show ?thesis using assms digit_val_range [of c] num_rem_int [of "10 * r + digit_val c" 97] by simp
qed

lemma iban_rest_Some:
  "all_digits ds \<Longrightarrow> 0 \<le> r \<Longrightarrow> r < 97 \<Longrightarrow>
   iban_rest ds (Some (Fin (of_int r))) = Some (Fin (of_int ((r * 10 ^ length ds + digits_val ds) mod 97)))"
proof (induction ds arbitrary: r)
  case (Cons c ds)
  have c: "is_digit c" "all_digits ds" using Cons.prems(1) by (simp_all add: all_digits_def)
  have m: "((10 * r + digit_val c) mod 97 * 10 ^ length ds + digits_val ds) mod 97 =
      (r * 10 ^ length (c # ds) + digits_val (c # ds)) mod 97"
    by (subst mod_add_left_eq [symmetric], subst mod_mult_left_eq) (simp add: mod_simps algebra_simps)
  show ?case
    using Cons.IH [OF c(2), of "(10 * r + digit_val c) mod 97"] iban_rest_step [OF Cons.prems(2) c(1)]
    by (simp add: num_print_def m del: digits_val.simps)
qed simp

lemma iban_rest_None:
  assumes "all_digits ds" "ds \<noteq> []"
  shows "iban_rest ds None = Some (Fin (of_int (digits_val ds mod 97)))"
proof -
  obtain c cs where ds: "ds = c # cs" using assms(2) by (cases ds) auto
  have c: "is_digit c" "all_digits cs" using assms(1) by (simp_all add: ds all_digits_def)
  have "to_number [c] = Fin (of_int (digit_val c))"
    using to_number_digits [of "[c]"] c(1) by (simp add: all_digits_def)
  then have "num_rem (to_number [c]) (Fin 97) = Fin (of_int (digit_val c))"
    using num_rem_int [of "digit_val c" 97] digit_val_range [OF c(1)] by simp
  then show ?thesis
    using iban_rest_Some [OF c(2), of "digit_val c"] digit_val_range [OF c(1)] by (simp add: ds)
qed

text \<open>A code unit that is no letter and no digit puts a minus sign among the digits.\<close>

definition dash_digit :: "char \<Rightarrow> bool" where
  "dash_digit c \<longleftrightarrow> is_digit c \<or> c = CHR ''-''"

lemma to_number_NaN_text: "dash_digit c \<Longrightarrow> to_number (''NaN'' @ [c]) = NaN"
proof -
  assume "dash_digit c"
  then have "\<not> is_ws c" by (auto simp: dash_digit_def dest: is_digit_not_ws) (simp add: is_ws_def)
  then have "trim_ws (''NaN'' @ [c]) = ''NaN'' @ [c]" by (intro trim_ws_no_ws) (simp_all add: is_ws_def)
  then show ?thesis
    by (simp add: to_number_def unsigned_number_def unsigned_decimal_def is_digit_def Let_def)
qed

lemma iban_rest_NaN: "list_all dash_digit ds \<Longrightarrow> iban_rest ds (Some NaN) = Some NaN"
  by (induction ds) (use to_number_NaN_text in \<open>simp_all add: num_print_def num_rem_def\<close>)

lemma to_number_dash:
  assumes "all_digits ds"
  shows "to_number (ds @ ''-'') = NaN"
proof (cases ds)
  case Nil
  show ?thesis unfolding Nil by code_simp
next
  case (Cons c cs)
  have c: "is_digit c" using assms by (simp add: Cons all_digits_def)
  have t: "trim_ws (ds @ ''-'') = ds @ ''-''"
    using c by (intro trim_ws_no_ws) (simp_all add: Cons is_digit_not_ws, simp add: is_ws_def)
  have x: "(ds @ ''-'') ! 1 \<notin> {CHR ''x'', CHR ''X'', CHR ''o'', CHR ''O'', CHR ''b'', CHR ''B''}"
    using assms by (cases cs) (auto simp: Cons all_digits_def is_digit_of_char)
  have "takeWhile is_digit (ds @ ''-'') = ds" "dropWhile is_digit (ds @ ''-'') = ''-''"
    using assms by (auto simp: takeWhile_append dropWhile_append all_digits_def list_all_iff is_digit_def)
  then have "unsigned_number (ds @ ''-'') = NaN"
    using c by (simp add: unsigned_number_def unsigned_decimal_def exponent_part_def Let_def Cons)
  then show ?thesis using t x c is_digit_not_sign [OF c] by (simp add: to_number_def Let_def Cons)
qed

lemma iban_rest_dash:
  "list_all dash_digit ds \<Longrightarrow> CHR ''-'' \<in> set ds \<Longrightarrow> 0 \<le> r \<Longrightarrow> iban_rest ds (Some (Fin (of_int r))) = Some NaN"
proof (induction ds arbitrary: r)
  case (Cons c ds)
  show ?case
  proof (cases "c = CHR ''-''")
    case True
    then show ?thesis
      using Cons.prems iban_rest_NaN [of ds] to_number_dash [of "int_str r"] int_str_digits [of r]
      by (simp add: num_print_def num_rem_def)
  next
    case False
    then show ?thesis
      using Cons iban_rest_step [of r c] by (simp add: num_print_def dash_digit_def)
  qed
qed simp

lemma iban_rest_dash_None:
  assumes "list_all dash_digit ds" "CHR ''-'' \<in> set ds"
  shows "iban_rest ds None = Some NaN"
proof -
  obtain c cs where ds: "ds = c # cs" using assms(2) by (cases ds) auto
  show ?thesis
  proof (cases "c = CHR ''-''")
    case True
    then show ?thesis
      using assms to_number_dash [of "[]"] iban_rest_NaN [of cs] by (simp add: ds num_rem_def all_digits_def)
  next
    case False
    then have c: "is_digit c" using assms by (simp add: ds dash_digit_def)
    then have "to_number [c] = Fin (of_int (digit_val c))" "0 \<le> digit_val c" "digit_val c < 97"
      using to_number_digits [of "[c]"] digit_val_range [of c] by (simp_all add: all_digits_def)
    then show ?thesis
      using assms False iban_rest_dash [of cs "digit_val c"] num_rem_int [of "digit_val c" 97] by (simp add: ds)
  qed
qed

lemma index_digits_dash: "list_all dash_digit (index_digits s)"
proof (induction s)
  case (Cons c s)
  have "list_all dash_digit (index_text c)"
  proof (cases "base36_char c")
    case True
    then show ?thesis using index_text_base36 [of c] by (auto simp: all_digits_def dash_digit_def list_all_iff)
  qed (simp add: index_text_other dash_digit_def is_digit_def)
  with Cons show ?case by (simp add: index_digits_def)
qed (simp add: index_digits_def)

lemma index_digits_other: "\<not> list_all base36_char s \<Longrightarrow> CHR ''-'' \<in> set (index_digits s)"
  by (induction s) (auto simp: index_digits_def index_text_other)

lemma iban_rest_iff:
  "iban_rest (iban_digits True s) None = Some (Fin 1) \<longleftrightarrow> list_all base36_char s \<and> iban_value s mod 97 = 1"
proof -
  let ?t = "dropWhile (\<lambda>c. c = CHR ''0'') s"
  show ?thesis
  proof (cases "list_all base36_char ?t")
    case False
    then have "iban_rest (index_digits ?t) None = Some NaN"
      by (intro iban_rest_dash_None index_digits_dash index_digits_other)
    with False show ?thesis by (simp add: iban_digits_eq list_all_dropWhile_zero)
  next
    case True
    note v = index_digits_value [OF True]
    show ?thesis
    proof (cases "?t = []")
      case True
      then have "iban_value s = 0" by (metis True iban_value.simps(1) iban_value_dropWhile)
      moreover have "iban_digits True s = []"
        unfolding iban_digits_eq if_True True by (simp add: index_digits_def)
      ultimately show ?thesis by simp
    next
      case False
      then have "index_digits ?t \<noteq> []"
        using v by (cases ?t) (auto split: if_splits)
      from iban_rest_None [OF _ this] v True show ?thesis
        by (simp add: iban_digits_eq list_all_dropWhile_zero iban_value_dropWhile)
    qed
  qed
qed

text \<open>The country formats as languages.\<close>

definition country_format :: "string \<Rightarrow> bool" where
  "country_format w =
     (case map_of bban_country_patterns (take 2 w) of
        None \<Rightarrow> True
      | Some bban \<Rightarrow> w \<in> lang (rseq ([rtimes 2 upper_cls, rtimes 2 rdigit] @ bban)))"

lemma iban_regexp_lang:
  assumes "map_of bban_country_patterns k = Some bban"
  shows "rx_test (iban_regexp bban) w \<longleftrightarrow> w \<in> lang (rseq ([rtimes 2 upper_cls, rtimes 2 rdigit] @ bban))"
proof -
  have "list_all (\<lambda>(k, b). list_all regular b) bban_country_patterns"
    by (simp add: bban_country_patterns_def upper_cls_def alnum_cls_def)
  then have "list_all regular bban"
    using map_of_SomeD [OF assms] by (auto simp: list_all_iff)
  then have "regular (rseq ([rtimes 2 upper_cls, rtimes 2 rdigit] @ bban))"
    by (simp add: upper_cls_def)
  then show ?thesis by (simp add: iban_regexp_def rx_test_anchored)
qed

text \<open>an account number is accepted exactly when, without spaces and in upper case, it has at
  least five code units, the format of its country if that is known, nothing but digits and
  letters, and the whole number got by moving the first four to the end and replacing letters
  by 10 to 35 leaves 1 modulo 97: the piecewise remainder of the code is that of the whole.\<close>

theorem iban_whole_number:
  "iban False value =
     (let w = to_upper (rx_delete (lit '' '') value); n = drop 4 w @ take 4 w
      in Res (5 \<le> length w \<and> country_format w \<and> list_all base36_char n \<and> iban_value n mod 97 = 1))"
proof -
  define w where "w = to_upper (rx_delete (lit '' '') value)"
  have sub: "substring w 0 2 = take 2 w" "substring w 4 (length w) @ substring w 0 4 = drop 4 w @ take 4 w"
    if "5 \<le> length w" using that by (simp_all add: substring_def)
  have fmt: "(case map_of bban_country_patterns (take 2 w) of
      None \<Rightarrow> False | Some bban \<Rightarrow> \<not> rx_test (iban_regexp bban) w) \<longleftrightarrow> \<not> country_format w"
    by (simp add: country_format_def iban_regexp_lang split: option.split)
  show ?thesis
    unfolding iban_def Let_def w_def [symmetric] iban_rest_iff
    by (cases "5 \<le> length w") (simp_all add: sub fmt)
qed

section \<open>Substitution errors\<close>

lemma iban_value_append: "iban_value (a @ b) = iban_value a * 10 ^ iban_len b + iban_value b"
  and iban_len_append: "iban_len (a @ b) = iban_len a + iban_len b"
proof -
  show l: "iban_len (a @ b) = iban_len a + iban_len b" for a by (induction a) auto
  show "iban_value (a @ b) = iban_value a * 10 ^ iban_len b + iban_value b"
    by (induction a) (simp_all add: l algebra_simps power_add)
qed

lemma iban_value_update:
  assumes "i < length s" "is_digit c \<longleftrightarrow> is_digit (s ! i)"
  shows "\<exists>k. iban_value (s[i := c]) - iban_value s = (char36 c - char36 (s ! i)) * 10 ^ k"
  using assms
proof (induction s arbitrary: i)
  case (Cons x s)
  show ?case
  proof (cases i)
    case 0
    then show ?thesis by (intro exI [of _ "iban_len s"]) (simp add: algebra_simps)
  next
    case (Suc j)
    have len: "iban_len (s[j := c]) = iban_len s" if "is_digit c \<longleftrightarrow> is_digit (s ! j)" "j < length s" for s j
      using that by (induction s arbitrary: j) (auto split: nat.split)
    from Suc Cons show ?thesis by (simp add: len)
  qed
qed simp

lemma char36_range: "base36_char c \<Longrightarrow> 0 \<le> char36 c \<and> char36 c \<le> 35"
proof -
  have "list_all (\<lambda>c. 0 \<le> char36 c \<and> char36 c \<le> 35) base36" by code_simp
  then show "base36_char c \<Longrightarrow> ?thesis" by (auto simp: list_all_iff base36_char_def)
qed

lemma char36_inj: "base36_char c \<Longrightarrow> base36_char d \<Longrightarrow> char36 c = char36 d \<Longrightarrow> c = d"
proof -
  have "list_all (\<lambda>c. list_all (\<lambda>d. char36 c = char36 d \<longrightarrow> c = d) base36) base36" by code_simp
  then show "base36_char c \<Longrightarrow> base36_char d \<Longrightarrow> char36 c = char36 d \<Longrightarrow> ?thesis"
    by (simp add: list_all_iff base36_char_def)
qed

lemma not_97_dvd: "(x :: int) \<noteq> 0 \<Longrightarrow> \<bar>x\<bar> \<le> 35 \<Longrightarrow> \<not> 97 dvd x * 10 ^ k"
proof
  assume x: "x \<noteq> 0" "\<bar>x\<bar> \<le> 35" "97 dvd x * 10 ^ k"
  have "is_unit d" if "d dvd 97" "d dvd 10" for d :: int
  proof -
    have "d dvd 10 * 10 - 97" using that by (intro dvd_diff dvd_mult)
    then have "d dvd 3" by simp
    then have "d dvd 10 - 3 * 3" using that(2) by (intro dvd_diff dvd_mult)
    then show ?thesis by simp
  qed
  then have "coprime (97 :: int) 10" by (rule coprimeI)
  then have "coprime (97 :: int) (10 ^ k)" by simp
  with x(3) have "97 dvd x" by (simp add: coprime_dvd_mult_left_iff)
  with x(1) have "97 \<le> \<bar>x\<bar>" using dvd_imp_le_int [of x 97] by simp
  with x(2) show False by simp
qed

text \<open>What is looked at: the text without its spaces, in upper case.\<close>

definition iban_clean :: "string \<Rightarrow> string" where
  "iban_clean v = concat (map up_char (filter (\<lambda>c. c \<noteq> CHR '' '') v))"

lemma iban_clean_code: "to_upper (rx_delete (lit '' '') v) = iban_clean v"
proof -
  have "lit '' '' = Seq (cls [] '' '') Emp" by (simp add: lit_def rseq_def)
  moreover have "rx_subst (Seq (cls [] '' '') Emp) (\<lambda>_. []) (p, s) = filter (\<lambda>c. c \<noteq> CHR '' '') s" for p s
    by (induction s arbitrary: p) (simp_all add: rx_subst.simps cls_def)
  ultimately show ?thesis by (simp add: rx_delete_def rx_replace_all_def to_upper_def iban_clean_def)
qed

definition iban_letters :: string where
  "iban_letters = ''ABCDEFGHIJKLMNOPQRSTUVWXYZabcdefghijklmnopqrstuvwxyz''"

lemma is_digit_elem:
  assumes "is_digit c"
  shows "c \<in> set ''0123456789''"
proof -
  have "list_all (\<lambda>n. char_of n \<in> set ''0123456789'') [48..<(58::nat)]" by code_simp
  then have "char_of n \<in> set ''0123456789''" if "n \<in> set [48..<(58::nat)]" for n using that unfolding list_all_iff by blast
  moreover have "of_char c \<in> set [48..<(58::nat)]"
    using assms unfolding set_upt is_digit_of_char atLeastLessThan_iff by linarith
  ultimately have "char_of (of_char c :: nat) \<in> set ''0123456789''" by blast
  then show ?thesis unfolding char_of_char .
qed

lemma not_digit_letter: "\<not> (is_digit c \<and> c \<in> set iban_letters)"
proof -
  have "list_all (\<lambda>c. \<not> is_digit c) iban_letters" by code_simp
  then show ?thesis by (auto simp: list_all_iff)
qed

lemma iban_clean_char:
  assumes "is_digit c \<or> c \<in> set iban_letters"
  obtains x where "up_char c = [x]" "c \<noteq> CHR '' ''" "base36_char x" "is_digit x \<longleftrightarrow> is_digit c"
proof -
  have "list_all (\<lambda>c. c \<noteq> CHR '' '' \<and> (case up_char c of [x] \<Rightarrow> x \<in> set base36 \<and> (is_digit x \<longleftrightarrow> is_digit c) | _ \<Rightarrow> False))
     (''0123456789'' @ iban_letters)" by code_simp
  moreover have "is_digit c \<Longrightarrow> c \<in> set ''0123456789''" by (rule is_digit_elem)
  ultimately have "c \<noteq> CHR '' '' \<and> (case up_char c of [x] \<Rightarrow> x \<in> set base36 \<and> (is_digit x \<longleftrightarrow> is_digit c) | _ \<Rightarrow> False)"
    using assms unfolding list_all_iff set_append by blast
  then show thesis using that by (auto simp: base36_char_def split: list.splits)
qed

lemma iban_clean_append: "iban_clean (a @ b) = iban_clean a @ iban_clean b"
  and iban_clean_cons: "c \<noteq> CHR '' '' \<Longrightarrow> up_char c = [x] \<Longrightarrow> iban_clean (c # b) = x # iban_clean b"
  by (simp_all add: iban_clean_def)

lemma iban_clean_update:
  assumes "i < length v" "up_char c = [x]" "c \<noteq> CHR '' ''" "up_char (v ! i) = [y]" "v ! i \<noteq> CHR '' ''"
  obtains k where "k < length (iban_clean v)" "iban_clean v ! k = y" "iban_clean (v[i := c]) = (iban_clean v)[k := x]"
proof
  have "v = take i v @ v ! i # drop (Suc i) v" using assms(1) by (rule id_take_nth_drop)
  then have v: "iban_clean v = iban_clean (take i v) @ y # iban_clean (drop (Suc i) v)"
    using assms(4,5) by (metis (no_types, lifting) iban_clean_cons iban_clean_append)
  show "length (iban_clean (take i v)) < length (iban_clean v)" "iban_clean v ! length (iban_clean (take i v)) = y"
    unfolding v by simp_all
  show "iban_clean (v[i := c]) = (iban_clean v)[length (iban_clean (take i v)) := x]"
    using assms(1-3) unfolding v by (simp add: upd_conv_take_nth_drop iban_clean_append iban_clean_cons)
qed

lemma iban_value_replaced:
  assumes "list_all base36_char n" "iban_value n mod 97 = 1" "j < length n" "base36_char x" "x \<noteq> n ! j"
    "is_digit x \<longleftrightarrow> is_digit (n ! j)"
  shows "iban_value (n[j := x]) mod 97 \<noteq> 1"
proof
  assume "iban_value (n[j := x]) mod 97 = 1"
  then have d: "97 dvd iban_value (n[j := x]) - iban_value n" using assms(2) by (simp flip: mod_eq_dvd_iff)
  obtain k where k: "iban_value (n[j := x]) - iban_value n = (char36 x - char36 (n ! j)) * 10 ^ k"
    using iban_value_update [of j n x] assms(3,6) by auto
  have "base36_char (n ! j)" using assms(1,3) by (simp add: list_all_length)
  then have "char36 x - char36 (n ! j) \<noteq> 0" "\<bar>char36 x - char36 (n ! j)\<bar> \<le> 35"
    using char36_range [OF assms(4)] char36_range [of "n ! j"] char36_inj [OF assms(4), of "n ! j"] assms(5) by auto
  then show False using not_97_dvd d k by metis
qed

text \<open>C38: in an accepted account number, with spaces and small letters or without, one digit is replaced by
  another digit, or one letter of \<open>A\<close> to \<open>Z\<close> and \<open>a\<close> to \<open>z\<close> by one that differs from it also when case is ignored:
  the number is then rejected.\<close>

theorem iban_detects_substitution:
  assumes "iban False v = Res True" "i < length v"
    "is_digit (v ! i) \<and> is_digit c \<or> v ! i \<in> set iban_letters \<and> c \<in> set iban_letters" "to_upper [c] \<noteq> to_upper [v ! i]"
  shows "iban False (v[i := c]) = Res False"
proof -
  obtain x where x: "up_char c = [x]" "c \<noteq> CHR '' ''" "base36_char x" "is_digit x \<longleftrightarrow> is_digit c"
    using assms(3) by (elim iban_clean_char [of c, rotated]) auto
  obtain y where y: "up_char (v ! i) = [y]" "v ! i \<noteq> CHR '' ''" "base36_char y" "is_digit y \<longleftrightarrow> is_digit (v ! i)"
    using assms(3) by (elim iban_clean_char [of "v ! i", rotated]) auto
  obtain k where k: "k < length (iban_clean v)" "iban_clean v ! k = y" "iban_clean (v[i := c]) = (iban_clean v)[k := x]"
    by (rule iban_clean_update [OF assms(2) x(1,2) y(1,2)])
  let ?w = "iban_clean v" and ?n = "drop 4 (iban_clean v) @ take 4 (iban_clean v)"
  have a: "5 \<le> length ?w" "list_all base36_char ?n" "iban_value ?n mod 97 = 1"
    using assms(1) by (simp_all add: iban_whole_number iban_clean_code Let_def)
  define j where "j = (if k < 4 then k + (length ?w - 4) else k - 4)"
  have j: "drop 4 (?w[k := x]) @ take 4 (?w[k := x]) = ?n[j := x]" "j < length ?n" "?n ! j = y"
    using k(1,2) a(1) by (auto simp: j_def list_update_append drop_update_swap take_update_swap nth_append list_update_beyond)
  have "\<not> (is_digit c \<and> c \<in> set iban_letters)" for c by (rule not_digit_letter)
  then have "is_digit x \<longleftrightarrow> is_digit y" using assms(3) x(4) y(4) by blast
  then have "iban_value (?n[j := x]) mod 97 \<noteq> 1"
    using assms(4) x(1,3) y(1) by (intro iban_value_replaced [OF a(2,3) j(2)]) (simp_all add: j(3) to_upper_def)
  then show ?thesis by (simp add: iban_whole_number iban_clean_code k(3) Let_def j(1))
qed

theorem iban_detects_substitution_witness:
  "iban False ''gb82 WEST 1234 5698 7654 32'' = Res True \<and>
   iban False (''gb82 WEST 1234 5698 7654 32''[0 := CHR ''F'']) = Res False"
proof -
  have ok: "iban False ''gb82 WEST 1234 5698 7654 32'' = Res True" by code_simp
  have d: "CHR ''g'' \<in> set iban_letters" "CHR ''F'' \<in> set iban_letters" "to_upper [CHR ''F''] \<noteq> to_upper [CHR ''g'']"
    by code_simp+
  show ?thesis
    using iban_detects_substitution [OF ok, of 0 "CHR ''F''"] d ok by simp
qed

section \<open>Vehicle numbers\<close>

definition vin_char :: "char \<Rightarrow> bool" where
  "vin_char c \<longleftrightarrow> is_digit c \<or> c \<in> set vin_letters"

text \<open>The published transliteration of letters.\<close>

definition vin_value :: "char \<Rightarrow> int" where
  "vin_value c = (if is_digit c then digit_val c else the (map_of (zip vin_letters vin_values) c))"

definition vin_weighted :: "string \<Rightarrow> int" where
  "vin_weighted v = (\<Sum>i<17. vin_value (v ! i) * vin_factors ! i)"

lemma vin_scan_upper:
  "to_upper [c] = [c] \<Longrightarrow> vin_scan c (l # ls) n = (if c = l then Some n else vin_scan c ls (Suc n))"
  by simp

lemma vin_letter_facts:
  assumes "c \<in> set vin_letters"
  shows "char_num [c] = None \<and> \<not> is_digit c \<and>
    (\<exists>n. vin_scan c vin_letters 0 = Some n \<and> vin_values ! n = vin_value c \<and> (n = 8 \<longleftrightarrow> c = CHR ''J''))"
proof -
  have "list_all (\<lambda>c. to_upper [c] = [c] \<and> char_num [c] = None \<and> \<not> is_digit c) vin_letters" by code_simp
  then have up: "to_upper [c] = [c]" "char_num [c] = None" "\<not> is_digit c" using assms by (simp_all add: list_all_iff)
  have "\<exists>n. vin_scan c vin_letters 0 = Some n \<and> vin_values ! n = vin_value c \<and> (n = 8 \<longleftrightarrow> c = CHR ''J'')"
  proof -
    note simps = vin_letters_def vin_values_def vin_value_def vin_scan_upper
    from assms have "c \<in> set ''ABCDEFGHJKLMNPRSTUVWXYZ''" by (simp add: vin_letters_def)
    then show ?thesis using up
      by (simp only: list.set insert_iff empty_iff simp_thms)
        (elim disjE; simp add: simps del: vin_scan.simps(2))
  qed
  with up show ?thesis by blast
qed

definition vin_cdv :: "nat \<Rightarrow> char \<Rightarrow> char option \<Rightarrow> char option" where
  "vin_cdv i c cdv =
     (let x = (if i = 8 then Some c else cdv)
      in if c = CHR ''J'' \<and> (case x of None \<Rightarrow> True | Some y \<Rightarrow> char_num [y] = None) then Some (CHR ''J'') else x)"

lemma vin_step_char:
  assumes "vin_char c"
  shows "vin_step i c (VNum n, cdv) = (VNum (n + vin_value c * vin_factors ! i), vin_cdv i c cdv)"
proof (cases "is_digit c")
  case True
  then have "c \<noteq> CHR ''J''" by (auto simp: is_digit_def)
  with True show ?thesis by (simp add: vin_step_def vin_add_def vin_value_def vin_cdv_def char_num_digit Let_def)
next
  case False
  then have "c \<in> set vin_letters" using assms by (simp add: vin_char_def)
  then obtain n where n: "char_num [c] = None" "vin_scan c vin_letters 0 = Some n" "vin_values ! n = vin_value c"
    "n = 8 \<longleftrightarrow> c = CHR ''J''" using vin_letter_facts by blast
  have "vin_letters ! 8 = CHR ''J''" by (simp add: vin_letters_def)
  with n show ?thesis
    by (cases "n = 8") (simp_all add: vin_step_def vin_add_def vin_cdv_def Let_def)
qed

fun vin_cdvs :: "nat \<Rightarrow> string \<Rightarrow> char option \<Rightarrow> char option" where
  "vin_cdvs i [] cdv = cdv"
| "vin_cdvs i (c # cs) cdv = vin_cdvs (Suc i) cs (vin_cdv i c cdv)"

lemma vin_loop_char:
  "list_all vin_char cs \<Longrightarrow>
   vin_loop i cs (VNum n, cdv) =
     (VNum (n + (\<Sum>k<length cs. vin_value (cs ! k) * vin_factors ! (i + k))), vin_cdvs i cs cdv)"
  by (induction cs arbitrary: i n cdv)
    (simp_all add: vin_step_char sum.lessThan_Suc_shift del: sum.lessThan_Suc)

lemma vin_cdvs_after:
  "8 < i \<Longrightarrow> vin_cdvs i cs (Some x) =
     Some (if char_num [x] = None \<and> CHR ''J'' \<in> set cs then CHR ''J'' else x)"
proof (induction cs arbitrary: i x)
  case (Cons c cs)
  have "char_num ''J'' = None" by code_simp
  with Cons show ?case by (auto simp: vin_cdv_def)
qed simp

lemma vin_cdvs_append: "vin_cdvs i (a @ b) cdv = vin_cdvs (i + length a) b (vin_cdvs i a cdv)"
  by (induction a arbitrary: i cdv) simp_all

lemma vin_cdvs_17:
  assumes "length v = 17"
  shows "vin_cdvs 0 v None = Some (CHR ''X'') \<longleftrightarrow> v ! 8 = CHR ''X'' \<and> CHR ''J'' \<notin> set (drop 9 v)"
proof -
  have v: "v = take 8 v @ v ! 8 # drop 9 v"
    using assms id_take_nth_drop [of 8 v] by simp
  have "char_num ''X'' = None" "char_num ''J'' = None" by code_simp+
  then have "vin_cdvs 0 (take 8 v @ v ! 8 # drop 9 v) None = Some (CHR ''X'') \<longleftrightarrow>
      v ! 8 = CHR ''X'' \<and> CHR ''J'' \<notin> set (drop 9 v)"
    using assms by (auto simp: vin_cdvs_append vin_cdv_def vin_cdvs_after)
  then show ?thesis using v by simp
qed

text \<open>of the numbers over the VIN alphabet, \<open>vinUS\<close> accepts only those whose check position
  holds the letter X, whose weighted sum leaves 10 modulo 11, and which have no J behind the
  check position: a number whose check digit is 0 to 9 is always rejected, as a number is
  compared with a text.\<close>

theorem vin_accepts_only_x:
  assumes "length v = 17" "list_all vin_char v"
  shows "vin_us v =
    Res (vin_weighted v mod 11 = 10 \<and> v ! 8 = CHR ''X'' \<and> CHR ''J'' \<notin> set (drop 9 v))"
proof -
  have l: "vin_loop 0 v (VNum 0, None) = (VNum (vin_weighted v), vin_cdvs 0 v None)"
    using vin_loop_char [OF assms(2), of 0 0 None] assms(1) by (simp add: vin_weighted_def)
  have "0 \<le> vin_value c" if "vin_char c" for c
  proof -
    have "list_all (\<lambda>c. 0 \<le> vin_value c) vin_letters" by code_simp
    then show ?thesis using that digit_val_range [of c] by (auto simp: vin_char_def list_all_iff vin_value_def)
  qed
  moreover have "0 \<le> vin_factors ! i" if "i < 17" for i
    using that by (auto simp: vin_factors_def less_Suc_eq numeral_eq_Suc)
  ultimately have "0 \<le> vin_weighted v"
    unfolding vin_weighted_def using assms by (intro sum_nonneg mult_nonneg_nonneg) (auto simp: list_all_length)
  then have "num_rem (Fin (of_int (vin_weighted v))) (Fin 11) = Fin (of_int (vin_weighted v mod 11))"
    using num_rem_int [of "vin_weighted v" 11] by simp
  moreover have "rat_of_int x = 10 \<longleftrightarrow> x = 10" for x
    by (metis of_int_eq_iff of_int_numeral)
  ultimately show ?thesis
    using assms(1) by (simp add: vin_us_def l vin_cdvs_17)
qed

theorem vin_accepts_only_x_witness:
  "vin_us ''1M8GDM9AXKP042788'' = Res True \<and>
   vin_us ''11111111111111111'' = Res False \<and> vin_weighted ''11111111111111111'' mod 11 = 1"
proof -
  have a: "length ''1M8GDM9AXKP042788'' = 17" "list_all vin_char ''1M8GDM9AXKP042788''"
    "length ''11111111111111111'' = 17" "list_all vin_char ''11111111111111111''"
    by (simp_all add: vin_char_def vin_letters_def is_digit_def)
  have "vin_weighted ''1M8GDM9AXKP042788'' mod 11 = 10" "CHR ''J'' \<notin> set (drop 9 ''1M8GDM9AXKP042788'')"
    "vin_weighted ''11111111111111111'' mod 11 = 1"
    by code_simp+
  then show ?thesis
    using vin_accepts_only_x [OF a(1,2)] vin_accepts_only_x [OF a(3,4)] by simp
qed

section \<open>Dates\<close>

definition calendar_date :: "int \<Rightarrow> int \<Rightarrow> int \<Rightarrow> bool" where
  "calendar_date y m d \<longleftrightarrow> 1 \<le> m \<and> m \<le> 12 \<and> 1 \<le> d \<and> d \<le> days_in_month y (nat (m - 1))"

lemma date_utc_reads_back:
  "utc_full_year (date_utc y (m - 1) d 12) = y \<and> utc_month (date_utc y (m - 1) d 12) = m - 1 \<and>
     utc_date (date_utc y (m - 1) d 12) = d \<longleftrightarrow>
   calendar_date y m d \<and> \<not> (0 \<le> y \<and> y \<le> 99)"
proof -
  define yr where "yr = (if 0 \<le> y \<and> y \<le> 99 then 1900 + y else y)"
  have q: "date_utc y (m - 1) d 12 div ms_per_day = make_day yr (m - 1) d"
    unfolding yr_def by (rule utc_getters) simp_all
  show ?thesis
  proof
    assume a: "utc_full_year (date_utc y (m - 1) d 12) = y \<and> utc_month (date_utc y (m - 1) d 12) = m - 1 \<and>
      utc_date (date_utc y (m - 1) d 12) = d"
    let ?day = "make_day yr (m - 1) d"
    have r: "year_of_day ?day = y" "int (month_of_day ?day) = m - 1" "date_of_day ?day = d"
      using a by (simp_all add: utc_full_year_def utc_month_def utc_date_def q)
    have mo: "month_of_day ?day = nat (m - 1)" "month_of_day ?day < 12"
      using r(2) month_of_day_bounds [of ?day] by auto
    have "1 \<le> m" "m \<le> 12" using r(2) month_of_day_bounds [of ?day] by linarith+
    then have c: "calendar_date y m d"
      unfolding calendar_date_def mo(1) [symmetric] using date_of_day_bounds [of ?day] unfolding r by blast
    have "\<not> (0 \<le> y \<and> y \<le> 99)"
    proof
      assume "0 \<le> y \<and> y \<le> 99"
      then have yr: "yr = 1900 + y" by (simp add: yr_def)
      have m: "0 \<le> m - 1" "m - 1 < 12" using c by (simp_all add: calendar_date_def)
      have "nat (m - 1) < 12" using m by simp
      then have "day_from_year yr \<le> ?day"
        using c m month_start_mono [of "nat (m - 1)" yr]
        by (simp add: make_day_def calendar_date_def div_pos_pos_trivial mod_pos_pos_trivial)
      moreover have "day_from_year (y + 1) \<le> day_from_year yr" unfolding yr by (rule day_from_year_mono) simp
      moreover have "?day < day_from_year (y + 1)" using year_of_day_spec [of ?day] r(1) by simp
      ultimately show False by simp
    qed
    with c show "calendar_date y m d \<and> \<not> (0 \<le> y \<and> y \<le> 99)" by blast
  next
    assume a: "calendar_date y m d \<and> \<not> (0 \<le> y \<and> y \<le> 99)"
    then have c: "1 \<le> m" "m \<le> 12" "1 \<le> d" "d \<le> days_in_month y (nat (m - 1))" by (simp_all add: calendar_date_def)
    then have md: "nat (m - 1) < 12" "1 \<le> d" "d \<le> days_in_month y (nat (m - 1))" "int (nat (m - 1)) = m - 1"
      by linarith+
    have "yr = y" using a by (auto simp: yr_def)
    with make_day_getters [OF md(1-3)] show "utc_full_year (date_utc y (m - 1) d 12) = y \<and>
      utc_month (date_utc y (m - 1) d 12) = m - 1 \<and> utc_date (date_utc y (m - 1) d 12) = d"
      unfolding utc_full_year_def utc_month_def utc_date_def q md(4) by (simp only: md(4) simp_thms)
  qed
qed

lemma digits_no_slash: "all_digits a \<Longrightarrow> CHR ''/'' \<notin> set a"
  by (rule digits_absent) (simp_all add: is_digit_def)

text \<open>\<open>dateITA\<close> accepts exactly one or two digits, a slash, one or two digits, a slash and four
  digits that name a day of the Gregorian calendar in the year 100 or later (the years up to
  99 mean 1900 to 1999 to \<open>Date.UTC\<close> and never read back).\<close>

theorem date_ita_calendar:
  "date_ita False v = Res True \<longleftrightarrow>
   (\<exists>d m y. v = d @ ''/'' @ m @ ''/'' @ y \<and> all_digits (d @ m @ y) \<and> length d \<in> {1, 2} \<and> length m \<in> {1, 2} \<and>
      length y = 4 \<and> 100 \<le> digits_val y \<and> calendar_date (digits_val y) (digits_val m) (digits_val d))"
proof -
  have lang: "rx_test date_ita_rx v \<longleftrightarrow>
      (\<exists>d m y. v = d @ ''/'' @ m @ ''/'' @ y \<and> all_digits (d @ m @ y) \<and> length d \<in> {1, 2} \<and> length m \<in> {1, 2} \<and> length y = 4)"
  proof -
    have l: "n \<in> {1, 2} \<longleftrightarrow> 1 \<le> n \<and> n \<le> 2" for n :: nat by auto
    have "rx_test date_ita_rx v \<longleftrightarrow> v \<in> lang (rseq [rbetween 1 2 rdigit, lit ''/'', rbetween 1 2 rdigit, lit ''/'', rtimes 4 rdigit])"
      unfolding date_ita_rx_def by (rule rx_test_anchored) simp
    then show ?thesis unfolding l by (simp add: lang_simps all_digits_def del: lang.simps) blast
  qed
  show ?thesis
  proof (cases "rx_test date_ita_rx v")
    case False
    with lang show ?thesis by (auto simp: date_ita_def)
  next
    case True
    with lang obtain d m y where v: "v = d @ ''/'' @ m @ ''/'' @ y" and digs: "all_digits d" "all_digits m" "all_digits y"
      and len: "length d \<in> {1, 2}" "length m \<in> {1, 2}" "length y = 4"
      by (auto simp: all_digits_def)
    have sp: "split_on (CHR ''/'') v = [d, m, y]"
      using digits_no_slash digs by (simp add: v split_on_append split_on_absent)
    have pi: "parse_int d = Some (digits_val d)" "parse_int m = Some (digits_val m)" "parse_int y = Some (digits_val y)"
      using digs len by (auto intro!: parse_int_digits)
    have "date_ita False v = Res (calendar_date (digits_val y) (digits_val m) (digits_val d) \<and>
        \<not> (0 \<le> digits_val y \<and> digits_val y \<le> 99))"
      using True by (simp add: date_ita_def sp pi Let_def date_utc_reads_back)
    moreover have "0 \<le> digits_val y" using digs(3) by (rule digits_val_nonneg)
    moreover have "d' = d \<and> m' = m \<and> y' = y" if "v = d' @ ''/'' @ m' @ ''/'' @ y'" "all_digits (d' @ m' @ y')" for d' m' y'
    proof -
      have "all_digits d'" "all_digits m'" "all_digits y'" using that(2) by (simp_all add: all_digits_def)
      then have "split_on (CHR ''/'') v = [d', m', y']"
        using digits_no_slash by (simp add: that(1) split_on_append split_on_absent)
      with sp show ?thesis by simp
    qed
    ultimately have iff: "date_ita False v = Res True \<longleftrightarrow>
        100 \<le> digits_val y \<and> calendar_date (digits_val y) (digits_val m) (digits_val d)"
      and uniq: "\<And>d' m' y'. v = d' @ ''/'' @ m' @ ''/'' @ y' \<Longrightarrow> all_digits (d' @ m' @ y') \<Longrightarrow> d' = d \<and> m' = m \<and> y' = y"
      by auto
    show ?thesis
      unfolding iff
      by (rule iffI) (use v digs len in \<open>force simp: all_digits_def\<close>, use uniq in blast)
  qed
qed

end
