(* ===== verification/PatternMethods.thy ===== *)
theory PatternMethods
  imports MethodBase
begin

text \<open>
  The methods of \<open>additional-methods.js\<close> that match the value against a pattern: each pattern is
  written with the combinators of \<open>Regex\<close> in the order of the source, or built at run time
  with \<open>new_regexp\<close> where the source calls \<open>new RegExp\<close>. Methods on files and on words are here
  as well.
\<close>

section \<open>Words\<close>

text \<open>The typographic quotes of the punctuation class lie above the modelled code units.\<close>

definition punctuation_cls :: rx where
  "punctuation_cls = cls [] (''.(),;:!?%#$'' @ [CHR 0x27, CHR 0x22] @ ''_+=/-'')"

definition strip_html :: "string \<Rightarrow> string" where
  "strip_html value =
     (let tags = rseq [lit ''<'', rany, Rep 0 None False (ncls [] ''<>''), lit ''>''];
          spaces = icase (Alt (lit ''&nbsp;'') (lit ''&#160;''));
          s1 = rx_replace_all tags (\<lambda>_. '' '') value;
          s2 = rx_replace_all spaces (\<lambda>_. '' '') s1
      in rx_delete (rstar punctuation_cls) s2)"

definition word_rx :: rx where
  "word_rx = rseq [WordB, rplus rword, WordB]"

text \<open>\<open>match\<close> gives null when there is no word, and reading its length throws.\<close>

definition count_words :: "string \<Rightarrow> jnum result" where
  "count_words s =
     (case rx_match_all word_rx s of None \<Rightarrow> Inl TypeError | Some ws \<Rightarrow> Inr (Fin (of_nat (length ws))))"

definition max_words :: "bool \<Rightarrow> string \<Rightarrow> jnum \<Rightarrow> mres result" where
  "max_words opt value params =
     (if opt then Inr Mismatch
      else bind_res (count_words (strip_html value)) (\<lambda>n. Inr (Res (num_le n params))))"

definition min_words :: "bool \<Rightarrow> string \<Rightarrow> jnum \<Rightarrow> mres result" where
  "min_words opt value params =
     (if opt then Inr Mismatch
      else bind_res (count_words (strip_html value)) (\<lambda>n. Inr (Res (num_le params n))))"

definition range_words :: "bool \<Rightarrow> string \<Rightarrow> jnum \<Rightarrow> jnum \<Rightarrow> mres result" where
  "range_words opt value p0 p1 =
     (if opt then Inr Mismatch
      else bind_res (count_words (strip_html value)) (\<lambda>n. Inr (Res (num_le p0 n \<and> num_le n p1))))"

section \<open>Files\<close>

record file_item =
  ftype :: string
  fsize :: nat

text \<open>A file input: whether the attribute \<open>type\<close> is \<open>file\<close>, and its list of files if it has one.\<close>

record file_input =
  is_file :: bool
  files :: "file_item list option"

definition type_special :: rx where
  "type_special = cls [] (''-[]/{}()+?.'' @ [CHR 0x5C] @ ''^$|'')"

definition type_pattern :: "string \<Rightarrow> string" where
  "type_pattern s =
     (let e1 = rx_replace_all type_special (\<lambda>m. CHR 0x5C # m) s;
          e2 = rx_replace_all (lit '','') (\<lambda>_. ''|'') e1
      in rx_replace_all (lit ''/*'') (\<lambda>_. ''/.*'') e2)"

text \<open>\<open>None\<close> as parameter: not a string.\<close>

definition accept :: "bool \<Rightarrow> file_input \<Rightarrow> string option \<Rightarrow> mres result" where
  "accept opt el param =
     (let typeParam = (case param of Some p \<Rightarrow> rx_delete rspace p | None \<Rightarrow> ''image/*'')
      in if opt then Inr Mismatch
         else if is_file el then
           (case files el of
              Some (f # fs) \<Rightarrow>
                bind_res (new_regexp True (''.?('' @ type_pattern typeParam @ '')$''))
                  (\<lambda>regex. Inr (Res (list_all (\<lambda>f. rx_test regex (ftype f)) (f # fs))))
            | _ \<Rightarrow> Inr (Res True))
         else Inr (Res True))"

definition extension :: "bool \<Rightarrow> string \<Rightarrow> string option \<Rightarrow> mres result" where
  "extension opt value param =
     (let p = (case param of Some s \<Rightarrow> rx_replace_all (lit '','') (\<lambda>_. ''|'') s | None \<Rightarrow> ''png|jpe?g|gif'')
      in if opt then Inr Mismatch
         else bind_res (new_regexp True ([CHR 0x5C] @ ''.('' @ p @ '')$'')) (\<lambda>r. Inr (Res (rx_test r value))))"

definition maxfiles :: "bool \<Rightarrow> file_input \<Rightarrow> jnum \<Rightarrow> mres" where
  "maxfiles opt el param =
     (if opt then Res True
      else if is_file el \<and> (case files el of Some fs \<Rightarrow> num_less param (Fin (of_nat (length fs))) | None \<Rightarrow> False)
      then Res False else Res True)"

fun size_loop :: "jnum \<Rightarrow> file_item list \<Rightarrow> bool" where
  "size_loop param [] = True"
| "size_loop param (f # fs) = (if num_less param (Fin (of_nat (fsize f))) then False else size_loop param fs)"

definition maxsize :: "bool \<Rightarrow> file_input \<Rightarrow> jnum \<Rightarrow> mres" where
  "maxsize opt el param =
     (if opt then Res True
      else if is_file el then (case files el of Some fs \<Rightarrow> Res (size_loop param fs) | None \<Rightarrow> Res True)
      else Res True)"

fun total_loop :: "jnum \<Rightarrow> nat \<Rightarrow> file_item list \<Rightarrow> bool" where
  "total_loop param totalSize [] = True"
| "total_loop param totalSize (f # fs) =
     (let t = totalSize + fsize f
      in if num_less param (Fin (of_nat t)) then False else total_loop param t fs)"

definition maxsizetotal :: "bool \<Rightarrow> file_input \<Rightarrow> jnum \<Rightarrow> mres" where
  "maxsizetotal opt el param =
     (if opt then Res True
      else if is_file el then (case files el of Some fs \<Rightarrow> Res (total_loop param 0 fs) | None \<Rightarrow> Res True)
      else Res True)"

section \<open>Letters, numbers and codes\<close>

definition alphanumeric :: "bool \<Rightarrow> string \<Rightarrow> mres" where
  "alphanumeric opt value = or_optional opt (rx_test (icase (anchored (rplus rword))) value)"

definition bic_rx :: rx where
  "bic_rx = anchored (rseq [
     rseq [rtimes 6 (cls ''AZ'' []), cls ''AZ29'' [], cls ''ANPZ19'' []],
     ropt (Alt (rtimes 3 (lit ''X'')) (rseq [cls ''AWYZ09'' [], rtimes 2 (cls ''AZ09'' [])]))])"

definition bic :: "bool \<Rightarrow> string \<Rightarrow> mres" where
  "bic opt value = or_optional opt (rx_test bic_rx (to_upper value))"

text \<open>\<open>param\<close> is a string, or a pair of a string and whether the symbol is required.\<close>

definition currency_tail :: string where
  "currency_tail =
     ''([1-9]{1}[0-9]{0,2}('' @ [CHR 0x5C] @ '',[0-9]{3})*('' @ [CHR 0x5C] @ ''.[0-9]{0,2})?|[1-9]{1}[0-9]{0,}('' @ [CHR 0x5C] @
     ''.[0-9]{0,2})?|0('' @ [CHR 0x5C] @ ''.[0-9]{0,2})?|('' @ [CHR 0x5C] @ ''.[0-9]{1,2})?)$''"

definition currency :: "bool \<Rightarrow> string \<Rightarrow> string + string \<times> bool \<Rightarrow> mres result" where
  "currency opt value param =
     (let (symbol, soft) = (case param of Inl s \<Rightarrow> (s, True) | Inr (s, b) \<Rightarrow> (s, b));
          symbol = rx_delete (lit '','') symbol;
          symbol = (if soft then symbol @ '']'' else symbol @ '']?'')
      in bind_res (new_regexp False (''^['' @ symbol @ currency_tail))
           (\<lambda>regex. Inr (or_optional opt (rx_test regex value))))"

definition date_fa_rx :: rx where
  "date_fa_rx = anchored (rseq [cls ''14'' [], rtimes 3 rdigit, lit ''/'',
     Alt (rseq [ropt (lit ''0''), cls ''16'' [], lit ''/'',
            ralt [rseq [lit ''3'', cls ''01'' []], rseq [cls ''12'' [], cls ''09'' []], rseq [ropt (lit ''0''), cls ''19'' []]]])
         (rseq [ralt [rseq [lit ''1'', cls ''02'' []], rseq [ropt (lit ''0''), cls ''79'' []]], lit ''/'',
            ralt [lit ''30'', rseq [cls ''12'' [], cls ''09'' []], rseq [ropt (lit ''0''), cls ''19'' []]]])])"

definition date_fa :: "bool \<Rightarrow> string \<Rightarrow> mres" where
  "date_fa opt value = or_optional opt (rx_test date_fa_rx value)"

definition date_nl_rx :: rx where
  "date_nl_rx = anchored (rseq [
     ralt [rseq [ropt (lit ''0''), cls ''19'' []], rseq [cls [] ''12'', rdigit], rseq [lit ''3'', cls [] ''01'']],
     cls [] ''./-'', ralt [rseq [ropt (lit ''0''), cls ''19'' []], rseq [lit ''1'', cls [] ''012'']],
     cls [] ''./-'', ropt (rseq [cls [] ''12'', rdigit]), rseq [rdigit, rdigit]])"

definition date_nl :: "bool \<Rightarrow> string \<Rightarrow> mres" where
  "date_nl opt value = or_optional opt (rx_test date_nl_rx value)"

definition integer :: "bool \<Rightarrow> string \<Rightarrow> mres" where
  "integer opt value = or_optional opt (rx_test (anchored (rseq [ropt (lit ''-''), rplus rdigit])) value)"

definition octet_rx :: rx where
  "octet_rx = ralt [rseq [lit ''25'', cls ''05'' []], rseq [lit ''2'', cls ''04'' [], rdigit],
                    rseq [ropt (cls [] ''01''), rdigit, ropt rdigit]]"

definition ipv4_rx :: rx where
  "ipv4_rx = anchored (rseq [octet_rx, lit ''.'', octet_rx, lit ''.'', octet_rx, lit ''.'', octet_rx])"

definition ipv4 :: "bool \<Rightarrow> string \<Rightarrow> mres" where
  "ipv4 opt value = or_optional opt (rx_test (icase ipv4_rx) value)"

definition hex4 :: rx where "hex4 = rbetween 1 4 (cls ''09AFaf'' [])"
definition hex4c :: rx where "hex4c = rseq [hex4, lit '':'']"

definition octet6 :: rx where
  "octet6 = rseq [WordB, ralt [rseq [lit ''25'', cls ''05'' []], rseq [lit ''1'', rtimes 2 rdigit],
                               rseq [lit ''2'', cls ''04'' [], rdigit], rbetween 1 2 rdigit], WordB]"

definition dotted6 :: rx where
  "dotted6 = rseq [rtimes 3 (rseq [octet6, lit ''.'']), octet6]"

definition ipv6_rx :: rx where
  "ipv6_rx = anchored (ralt [
     rseq [rtimes 7 hex4c, hex4],
     rseq [rtimes 6 hex4c, lit '':'', hex4],
     rseq [rtimes 5 hex4c, lit '':'', ropt hex4c, hex4],
     rseq [rtimes 4 hex4c, lit '':'', rbetween 0 2 hex4c, hex4],
     rseq [rtimes 3 hex4c, lit '':'', rbetween 0 3 hex4c, hex4],
     rseq [rtimes 2 hex4c, lit '':'', rbetween 0 4 hex4c, hex4],
     rseq [rtimes 6 hex4c, dotted6],
     rseq [rbetween 0 5 hex4c, lit '':'', dotted6],
     rseq [lit ''::'', rbetween 0 5 hex4c, dotted6],
     rseq [hex4, lit ''::'', rbetween 0 5 hex4c, hex4],
     rseq [lit ''::'', rbetween 0 6 hex4c, hex4],
     rseq [rbetween 1 7 hex4c, lit '':'']])"

definition ipv6 :: "bool \<Rightarrow> string \<Rightarrow> mres" where
  "ipv6 opt value = or_optional opt (rx_test (icase ipv6_rx) value)"

definition lettersonly :: "bool \<Rightarrow> string \<Rightarrow> mres" where
  "lettersonly opt value = or_optional opt (rx_test (icase (anchored (rplus (cls ''az'' [])))) value)"

definition letterswithbasicpunc :: "bool \<Rightarrow> string \<Rightarrow> mres" where
  "letterswithbasicpunc opt value =
     or_optional opt (rx_test (icase (anchored (rplus (cls ''az'' (''-.,()'' @ [CHR 0x27, CHR 0x22] @ ws_chars))))) value)"

definition mask_octet :: "string list \<Rightarrow> rx" where
  "mask_octet xs = ralt (map lit ([''254'', ''252'', ''248'', ''240'', ''224'', ''192'', ''128''] @ xs))"

definition netmask_rx :: rx where
  "netmask_rx = ralt [
     rseq [Bol, mask_octet [], lit ''.0.0.0''],
     rseq [lit ''255.'', mask_octet [''0''], lit ''.0.0''],
     rseq [lit ''255.255.'', mask_octet [''0''], lit ''.0''],
     rseq [lit ''255.255.255.'', mask_octet [''0'']]]"

definition netmask :: "bool \<Rightarrow> string \<Rightarrow> mres" where
  "netmask opt value = or_optional opt (rx_test (icase netmask_rx) value)"

definition nowhitespace :: "bool \<Rightarrow> string \<Rightarrow> mres" where
  "nowhitespace opt value = or_optional opt (rx_test (icase (anchored (rplus rnonspace))) value)"

datatype pattern_param = PText string | PRegExp rx

definition pattern_method :: "bool \<Rightarrow> string \<Rightarrow> pattern_param \<Rightarrow> mres result" where
  "pattern_method opt value param =
     (if opt then Inr (Res True)
      else bind_res (case param of PText s \<Rightarrow> new_regexp False (''^(?:'' @ s @ '')$'') | PRegExp r \<Rightarrow> Inr r)
             (\<lambda>r. Inr (Res (rx_test r value))))"

section \<open>Telephones\<close>

text \<open>A gap: white space, or a dash with white space around it.\<close>

definition nl_gap :: rx where
  "nl_gap = Alt rspace (rseq [ropt rspace, lit ''-'', ropt rspace])"

definition nl_prefix :: rx where
  "nl_prefix = Alt (rseq [Alt (lit ''+'') (rseq [lit ''00'', ropt nl_gap]), lit ''31'', ropt nl_gap,
                          ropt (rseq [lit ''(0)'', ropt (cls [] (''-'' @ ws_chars))])])
                   (lit ''0'')"

definition nl_digits :: rx where
  "nl_digits = rtimes 8 (rseq [ropt nl_gap, cls ''09'' []])"

definition mobile_nl :: "bool \<Rightarrow> string \<Rightarrow> mres" where
  "mobile_nl opt value = or_optional opt (rx_test (anchored (rseq [nl_prefix, lit ''6'', nl_digits])) value)"

definition phone_nl :: "bool \<Rightarrow> string \<Rightarrow> mres" where
  "phone_nl opt value = or_optional opt (rx_test (anchored (rseq [nl_prefix, cls ''19'' [], nl_digits])) value)"

definition strip_phone :: "string \<Rightarrow> string" where
  "strip_phone s = rx_delete (ralt [lit ''('', lit '')'', rplus rspace, lit ''-'']) s"

definition mobile_ru :: "bool \<Rightarrow> string \<Rightarrow> mres" where
  "mobile_ru opt phone_number =
     (let n = strip_phone phone_number
      in or_optional opt (length n > 9 \<and>
           rx_test (anchored (rseq [rplus (ralt [lit ''+7'', lit ''7'', lit ''8'']), rtimes 10 (cls ''09'' [])])) n))"

definition uk_prefix :: rx where
  "uk_prefix = Alt (rseq [Alt (rseq [lit ''00'', ropt rspace]) (lit ''+''), lit ''44'', ropt rspace]) (lit ''0'')"

definition mobile_uk :: "bool \<Rightarrow> string \<Rightarrow> mres" where
  "mobile_uk opt phone_number =
     (let n = strip_phone phone_number
      in or_optional opt (length n > 9 \<and>
           rx_test (anchored (rseq [uk_prefix, lit ''7'', Alt (rseq [cls [] ''1345789'', rtimes 2 rdigit]) (lit ''624''),
                                    ropt rspace, rtimes 3 rdigit, ropt rspace, rtimes 3 rdigit])) n))"

definition phone_pl :: "bool \<Rightarrow> string \<Rightarrow> mres" where
  "phone_pl opt phone_number =
     (let n = rx_delete (rplus rspace) phone_number
      in or_optional opt (rx_test (anchored (rseq [
           ropt (Alt (rseq [ropt (Alt (lit ''+'') (lit ''00'')), lit ''48'']) (rseq [lit ''('', ropt (lit ''+''), lit ''48)''])),
           ralt [rseq [lit ''1'', cls ''28'' []], rseq [lit ''2'', cls ''26'' ''9''], rseq [lit ''3'', cls ''24'' ''9''],
                 rseq [lit ''4'', cls ''16'' ''8''], rseq [lit ''5'', cls ''09'' []], rseq [lit ''6'', cls ''0359'' []],
                 rseq [cls ''78'' [], cls ''19'' []], rseq [lit ''9'', cls [] ''145'']],
           rtimes 7 rdigit])) n))"

definition phones_uk :: "bool \<Rightarrow> string \<Rightarrow> mres" where
  "phones_uk opt phone_number =
     (let n = strip_phone phone_number
      in or_optional opt (length n > 9 \<and>
           rx_test (anchored (rseq [uk_prefix,
             ralt [rseq [lit ''1'', rbetween 8 9 rdigit], rseq [cls [] ''23'', rtimes 9 rdigit],
                   rseq [lit ''7'', Alt (rseq [cls [] ''1345789'', rtimes 8 rdigit]) (rseq [lit ''624'', rtimes 6 rdigit])]]])) n))"

definition phone_uk :: "bool \<Rightarrow> string \<Rightarrow> mres" where
  "phone_uk opt phone_number =
     (let n = strip_phone phone_number; gap = ropt rspace; par = ropt (lit '')'')
      in or_optional opt (length n > 9 \<and>
           rx_test (anchored (rseq [
             Alt (rseq [Alt (rseq [lit ''00'', gap]) (lit ''+''), lit ''44'', gap]) (rseq [ropt (lit ''(''), lit ''0'']),
             ralt [rseq [rtimes 2 rdigit, par, gap, rtimes 4 rdigit, gap, rtimes 4 rdigit],
                   rseq [rtimes 3 rdigit, par, gap, rtimes 3 rdigit, gap, rbetween 3 4 rdigit],
                   rseq [rtimes 4 rdigit, par, gap, Alt (rtimes 5 rdigit) (rseq [rtimes 3 rdigit, gap, rtimes 3 rdigit])],
                   rseq [rtimes 5 rdigit, par, gap, rbetween 4 5 rdigit]]])) n))"

definition us_area :: rx where
  "us_area = rseq [cls ''29'' [], Alt (rseq [cls ''29'' ''0'', rdigit]) (rseq [lit ''1'', cls ''29'' ''0''])]"

definition phone_us :: "bool \<Rightarrow> string \<Rightarrow> mres" where
  "phone_us opt phone_number =
     (let n = rx_delete (rplus rspace) phone_number; dash = ropt (lit ''-'')
      in or_optional opt (length n > 9 \<and>
           rx_test (anchored (rseq [ropt (rseq [ropt (lit ''+''), lit ''1'', dash]),
             Alt (rseq [lit ''('', us_area, lit '')'']) us_area, dash, cls ''29'' [], rtimes 2 rdigit, dash, rtimes 4 rdigit])) n))"

section \<open>Postal codes, states and times\<close>

text \<open>The question marks after \<open>\d{3}\<close> make the counts lazy, not optional.\<close>

definition postalcode_br :: "bool \<Rightarrow> string \<Rightarrow> mres" where
  "postalcode_br opt v =
     or_optional opt (rx_test
       (Alt (anchored (rseq [rtimes 2 rdigit, rany, rtimes 3 rdigit, lit ''-'', Rep 3 (Some 3) False rdigit]))
            (anchored (rseq [rtimes 5 rdigit, ropt (lit ''-''), Rep 3 (Some 3) False rdigit]))) v)"

definition postal_code_ca :: "bool \<Rightarrow> string \<Rightarrow> mres" where
  "postal_code_ca opt value =
     or_optional opt (rx_test (icase (anchored (rseq [
       cls [] ''ABCEGHJKLMNPRSTVXY'', rdigit, cls [] ''ABCEGHJKLMNPRSTVWXYZ'', rstar (lit '' ''),
       rdigit, cls [] ''ABCEGHJKLMNPRSTVWXYZ'', rdigit]))) value)"

definition postalcode_it :: "bool \<Rightarrow> string \<Rightarrow> mres" where
  "postalcode_it opt value = or_optional opt (rx_test (anchored (rtimes 5 rdigit)) value)"

definition postalcode_nl :: "bool \<Rightarrow> string \<Rightarrow> mres" where
  "postalcode_nl opt value =
     or_optional opt (rx_test (anchored (rseq [cls ''19'' [], rtimes 3 (cls ''09'' []), ropt rspace, rtimes 2 (cls ''azAZ'' [])])) value)"

definition postcode_uk_rx :: rx where
  "postcode_uk_rx =
     (let a = cls ''APRU'' ''WYZ''; b = cls ''AHKY'' []; d = cls ''09'' []
      in anchored (Alt
           (rseq [ralt [rseq [a, d], rseq [a, d, d], rseq [a, b, d], rseq [a, b, d, d],
                        rseq [a, d, cls ''AH'' ''JKSTUW''], rseq [a, b, d, cls [] ''ABEHMNPRVWXY'']],
                  ropt rspace, rseq [d, rtimes 2 (cls ''DHPUWZ'' ''ABJLN'')]])
           (rseq [lit ''GIR'', ropt rspace, lit ''0AA''])))"

definition postcode_uk :: "bool \<Rightarrow> string \<Rightarrow> mres" where
  "postcode_uk opt value = or_optional opt (rx_test (icase postcode_uk_rx) value)"

record state_options =
  case_sensitive :: bool
  include_territories :: bool
  include_military :: bool

definition state_regex :: "bool \<Rightarrow> bool \<Rightarrow> string" where
  "state_regex territories military =
     (if \<not> territories \<and> \<not> military then
        ''^(A[KLRZ]|C[AOT]|D[CE]|FL|GA|HI|I[ADLN]|K[SY]|LA|M[ADEINOST]|N[CDEHJMVY]|O[HKR]|PA|RI|S[CD]|T[NX]|UT|V[AT]|W[AIVY])$''
      else if territories \<and> military then
        ''^(A[AEKLPRSZ]|C[AOT]|D[CE]|FL|G[AU]|HI|I[ADLN]|K[SY]|LA|M[ADEINOPST]|N[CDEHJMVY]|O[HKR]|P[AR]|RI|S[CD]|T[NX]|UT|V[AIT]|W[AIVY])$''
      else if territories then
        ''^(A[KLRSZ]|C[AOT]|D[CE]|FL|G[AU]|HI|I[ADLN]|K[SY]|LA|M[ADEINOPST]|N[CDEHJMVY]|O[HKR]|P[AR]|RI|S[CD]|T[NX]|UT|V[AIT]|W[AIVY])$''
      else
        ''^(A[AEKLPRZ]|C[AOT]|D[CE]|FL|GA|HI|I[ADLN]|K[SY]|LA|M[ADEINOST]|N[CDEHJMVY]|O[HKR]|PA|RI|S[CD]|T[NX]|UT|V[AT]|W[AIVY])$'')"

text \<open>Missing options count as false.\<close>

definition state_us :: "bool \<Rightarrow> string \<Rightarrow> state_options option \<Rightarrow> mres result" where
  "state_us opt value options =
     (let (cs, t, m) = (case options of None \<Rightarrow> (False, False, False)
                                      | Some k \<Rightarrow> (case_sensitive k, include_territories k, include_military k))
      in bind_res (new_regexp (\<not> cs) (state_regex t m)) (\<lambda>r. Inr (or_optional opt (rx_test r value))))"

text \<open>\<open>$(value).text()\<close> is jQuery's reading of the value as a fragment of a page.\<close>

definition strippedminlength :: "(string \<Rightarrow> string) \<Rightarrow> string \<Rightarrow> jnum \<Rightarrow> mres" where
  "strippedminlength text_of value param = Res (num_le param (Fin (of_nat (length (text_of value)))))"

definition time_rx :: rx where
  "time_rx = anchored (rseq [ralt [rseq [cls [] ''01'', rdigit], rseq [lit ''2'', cls ''03'' []], cls ''09'' []],
                             rbetween 1 2 (rseq [lit '':'', cls ''05'' [], rdigit])])"

definition time_method :: "bool \<Rightarrow> string \<Rightarrow> mres" where
  "time_method opt value = or_optional opt (rx_test time_rx value)"

definition time12h_rx :: rx where
  "time12h_rx = anchored (rseq [Alt (rseq [ropt (lit ''0''), cls ''19'' []]) (rseq [lit ''1'', cls [] ''012'']),
                                rbetween 1 2 (rseq [lit '':'', cls ''05'' [], rdigit]),
                                rseq [ropt (lit '' ''), cls [] ''AP'', lit ''M'']])"

definition time12h :: "bool \<Rightarrow> string \<Rightarrow> mres" where
  "time12h opt value = or_optional opt (rx_test (icase time12h_rx) value)"

definition zipcode_us :: "bool \<Rightarrow> string \<Rightarrow> mres" where
  "zipcode_us opt value = or_optional opt (rx_test (anchored (rseq [rtimes 5 rdigit, ropt (rseq [lit ''-'', rtimes 4 rdigit])])) value)"

text \<open>The braces are escaped in the source, so they stand for themselves.\<close>

definition ziprange_rx :: rx where
  "ziprange_rx = anchored (rseq [lit ''90'', cls ''25'' [], rdigit, lit ''{2}-'', rtimes 4 rdigit])"

definition ziprange :: "bool \<Rightarrow> string \<Rightarrow> mres" where
  "ziprange opt value = or_optional opt (rx_test ziprange_rx value)"

section \<open>Comparisons with another field\<close>

text \<open>
  \<open>$( param )\<close> is the other field, if there is one: its value and whether it carries the class
  that marks the blur handler. The handler is bound at the first call when the form validates
  on focus-out. Two strings compare by code units; a missing value compares as false.
\<close>

record target =
  target_val :: string
  blur_bound :: bool

definition compare_method ::
  "(string \<Rightarrow> string \<Rightarrow> bool) \<Rightarrow> bool \<Rightarrow> string \<Rightarrow> target option \<Rightarrow> target option \<times> mres" where
  "compare_method rel onfocusout value tgt =
     (case tgt of
        None \<Rightarrow> (None, Res False)
      | Some t \<Rightarrow> (Some (if onfocusout \<and> \<not> blur_bound t then t\<lparr>blur_bound := True\<rparr> else t),
                   Res (rel value (target_val t))))"

definition greater_than :: "bool \<Rightarrow> string \<Rightarrow> target option \<Rightarrow> target option \<times> mres" where
  "greater_than = compare_method (\<lambda>v t. str_less t v)"

definition greater_than_equal :: "bool \<Rightarrow> string \<Rightarrow> target option \<Rightarrow> target option \<times> mres" where
  "greater_than_equal = compare_method (\<lambda>v t. str_le t v)"

definition less_than :: "bool \<Rightarrow> string \<Rightarrow> target option \<Rightarrow> target option \<times> mres" where
  "less_than = compare_method str_less"

definition less_than_equal :: "bool \<Rightarrow> string \<Rightarrow> target option \<Rightarrow> target option \<times> mres" where
  "less_than_equal = compare_method str_le"

section \<open>Web addresses\<close>

text \<open>
  The patterns of \<open>url\<close> (in \<open>jquery.validate.js\<close>) and \<open>url2\<close>: the same up to the alternatives for
  the host. The letters from 0xA1 stop at 0xFF here, as all code units do.
\<close>

definition url_user_char :: rx where
  "url_user_char =
     Alt (ncls [] (''][?/<~#`!@$^&*()+=}|:'' @ [CHR 0x22] @ '';'' @ [CHR 0x27] @ '',>{ ''))
         (rseq [lit ''%'', rtimes 2 (cls ''09AFaf'' [])])"

definition high_range :: string where "high_range = [CHR 0xA1, CHR 0xFF]"
definition url_alnum :: rx where "url_alnum = cls (''az09'' @ high_range) []"
definition url_inner :: rx where "url_inner = cls (''az09'' @ high_range) ''_-''"
definition url_dots :: "nat \<Rightarrow> rx" where "url_dots n = rtimes n (rseq [lit ''.'', rbetween 1 3 rdigit])"

definition url_ip :: rx where
  "url_ip = rseq [
     NotAhead (rseq [Alt (lit ''10'') (lit ''127''), url_dots 3]),
     NotAhead (rseq [Alt (lit ''169.254'') (lit ''192.168''), url_dots 2]),
     NotAhead (rseq [lit ''172.'', ralt [rseq [lit ''1'', cls ''69'' []], rseq [lit ''2'', rdigit], rseq [lit ''3'', cls ''01'' []]], url_dots 2]),
     ralt [rseq [cls ''19'' [], ropt rdigit], rseq [lit ''1'', rdigit, rdigit], rseq [lit ''2'', cls [] ''01'', rdigit], rseq [lit ''22'', cls ''03'' []]],
     rtimes 2 (rseq [lit ''.'', ralt [rseq [ropt (lit ''1''), rbetween 1 2 rdigit], rseq [lit ''2'', cls ''04'' [], rdigit], rseq [lit ''25'', cls ''05'' []]]]),
     rseq [lit ''.'', ralt [rseq [cls ''19'' [], ropt rdigit], rseq [lit ''1'', rdigit, rdigit], rseq [lit ''2'', cls ''04'' [], rdigit], rseq [lit ''25'', cls ''04'' []]]]]"

definition url_label :: rx where
  "url_label = rseq [ropt (rseq [url_alnum, rbetween 0 62 url_inner]), url_alnum]"

definition url_domain :: rx where
  "url_domain = rseq [rplus (rseq [url_label, lit ''.'']), ratleast 2 (cls (''az'' @ high_range) []), ropt (lit ''.'')]"

definition url_frame :: "rx list \<Rightarrow> rx" where
  "url_frame hosts = icase (anchored (rseq [
     ropt (rseq [Alt (rseq [lit ''http'', ropt (lit ''s'')]) (lit ''ftp''), lit '':'']), lit ''//'',
     ropt (rseq [rplus url_user_char, ropt (rseq [lit '':'', rstar url_user_char]), lit ''@'']),
     ralt hosts,
     ropt (rseq [lit '':'', rbetween 2 5 rdigit]),
     ropt (rseq [cls [] ''/?#'', rstar rnonspace])]))"

definition url2_rx :: rx where
  "url2_rx = url_frame [url_ip, url_domain, url_label, rseq [url_alnum, rbetween 0 62 url_inner, lit ''.'']]"

definition url2 :: "bool \<Rightarrow> string \<Rightarrow> mres" where
  "url2 opt value = or_optional opt (rx_test url2_rx value)"

end
