(* ===== verification/PatternProps.thy ===== *)
theory PatternProps
  imports PatternMethods
begin

text \<open>
  What the pattern methods accept, in terms of the parts of the value; and the values that
  unanchored or misspelt patterns let through or keep out.
\<close>

section \<open>Patterns without letters ignore case for free\<close>

primrec caseless :: "rx \<Rightarrow> bool" where
  "caseless Emp = True"
| "caseless (Cls n i rs) = list_all (\<lambda>(a, b). b < CHR ''A'') rs"
| "caseless (Seq r s) = (caseless r \<and> caseless s)"
| "caseless (Alt r s) = (caseless r \<and> caseless s)"
| "caseless (Rep lo hi g r) = caseless r"
| "caseless Bol = True"
| "caseless Eol = True"
| "caseless WordB = True"
| "caseless (NotAhead r) = caseless r"

lemma of_char_of_nat: "n < 256 \<Longrightarrow> (of_char (char_of n) :: nat) = n"
  by simp

lemma of_char_less: "(of_char c :: nat) < 256"
  by (cases c) simp

lemma swap_case_low: "swap_case c < CHR ''A'' \<Longrightarrow> swap_case c = c"
  using of_char_less [of c]
  by (auto simp: swap_case_def low_char_def up_char_def char_less_nat char_le_nat split: if_splits)

lemma in_cls_caseless:
  "list_all (\<lambda>(a, b). b < CHR ''A'') rs \<Longrightarrow> in_cls n i rs c = in_cls n False rs c"
  using swap_case_low [of c] by (fastforce simp: in_cls_def in_ranges_def list_all_iff list_ex_iff)

lemma rxm_icase_caseless: "caseless r \<Longrightarrow> rxm (icase r) = rxm r"
proof (induction r)
  case (Cls n i rs)
  then have "in_cls n True rs c = in_cls n i rs c" for c
    using in_cls_caseless [of rs n True c] in_cls_caseless [of rs n i c] by simp
  then show ?case by (simp add: fun_eq_iff split: list.split)
qed (rule ext, simp)+

lemma rx_test_icase_caseless: "caseless r \<Longrightarrow> rx_test (icase r) = rx_test r"
  unfolding rx_test_def [abs_def] rx_exec_def
proof -
  assume "caseless r"
  then have m: "rxm (icase r) = rxm r" by (rule rxm_icase_caseless)
  have "rx_scan (icase r) p s i = rx_scan r p s i" for p s i
    by (induction s arbitrary: p i; subst (1 2) rx_scan.simps) (simp_all add: m split: list.split)
  then show "(\<lambda>s. rx_scan (icase r) None s 0 \<noteq> None) = (\<lambda>s. rx_scan r None s 0 \<noteq> None)" by simp
qed

section \<open>Addresses of four octets\<close>

definition octet :: "string \<Rightarrow> bool" where
  "octet w \<longleftrightarrow> 1 \<le> length w \<and> length w \<le> 3 \<and> all_digits w \<and> digits_val w \<le> 255"

lemma digit_upto:
  assumes "k \<le> 9"
  shows "digit_char 0 \<le> c \<and> c \<le> digit_char k \<longleftrightarrow> is_digit c \<and> digit_val c \<le> int k"
proof -
  have "(of_char (digit_char k) :: nat) = 48 + k" "(of_char (digit_char 0) :: nat) = 48"
    using assms by (simp_all add: digit_char_def)
  moreover have "digit_val c = int (of_char c) - 48" by (simp add: digit_val_def of_char_int)
  ultimately show ?thesis using assms by (auto simp: is_digit_of_char char_le_nat)
qed

lemma digit_exactly: "k \<le> 9 \<Longrightarrow> c = digit_char k \<longleftrightarrow> is_digit c \<and> digit_val c = int k"
  using digit_val_inj [of c "digit_char k"] by auto

lemma digit_chars:
  "CHR ''0'' = digit_char 0" "CHR ''1'' = digit_char 1" "CHR ''2'' = digit_char 2" "CHR ''3'' = digit_char 3"
  "CHR ''4'' = digit_char 4" "CHR ''5'' = digit_char 5" "CHR ''9'' = digit_char 9"
  by code_simp+

lemma octet_cases:
  "octet w \<longleftrightarrow> (\<exists>a. w = [a] \<and> is_digit a) \<or> (\<exists>a b. w = [a, b] \<and> is_digit a \<and> is_digit b) \<or>
    (\<exists>a b c. w = [a, b, c] \<and> is_digit a \<and> is_digit b \<and> is_digit c \<and>
       100 * digit_val a + 10 * digit_val b + digit_val c \<le> 255)"
proof -
  have one: "w = [] \<or> (\<exists>a. w = [a]) \<or> (\<exists>a b. w = [a, b]) \<or> (\<exists>a b c. w = [a, b, c])" if "length w \<le> 3"
    using that by (auto simp: le_Suc_eq numeral_eq_Suc length_Suc_conv)
  have "octet [a] \<longleftrightarrow> is_digit a" "octet [a, b] \<longleftrightarrow> is_digit a \<and> is_digit b"
    "octet [a, b, c] \<longleftrightarrow> is_digit a \<and> is_digit b \<and> is_digit c \<and> 100 * digit_val a + 10 * digit_val b + digit_val c \<le> 255"
    for a b c
    using digit_val_range [of a] digit_val_range [of b] by (auto simp: octet_def all_digits_def)
  then show ?thesis using one by (auto simp: octet_def) (fastforce simp: octet_def)+
qed

lemma digit_classes:
  "CHR ''0'' \<le> c \<and> c \<le> CHR ''5'' \<longleftrightarrow> is_digit c \<and> digit_val c \<le> 5"
  "CHR ''0'' \<le> c \<and> c \<le> CHR ''4'' \<longleftrightarrow> is_digit c \<and> digit_val c \<le> 4"
  "CHR ''0'' \<le> c \<and> c \<le> CHR ''3'' \<longleftrightarrow> is_digit c \<and> digit_val c \<le> 3"
  "c = CHR ''0'' \<longleftrightarrow> is_digit c \<and> digit_val c = 0" "c = CHR ''1'' \<longleftrightarrow> is_digit c \<and> digit_val c = 1"
  "c = CHR ''2'' \<longleftrightarrow> is_digit c \<and> digit_val c = 2" "c = CHR ''5'' \<longleftrightarrow> is_digit c \<and> digit_val c = 5"
  unfolding digit_chars by (simp_all add: digit_upto digit_exactly)

lemma octet_value:
  fixes x y z :: int
  assumes "0 \<le> x" "0 \<le> y" "y \<le> 9" "0 \<le> z" "z \<le> 9"
  shows "x = 2 \<and> y = 5 \<and> z \<le> 5 \<or> x = 2 \<and> y \<le> 4 \<or> (x = 0 \<or> x = 1) \<longleftrightarrow> 100 * x + 10 * y + z \<le> 255"
proof -
  consider "x = 0" | "x = 1" | "x = 2" | "3 \<le> x" using assms(1) by linarith
  then show ?thesis
  proof cases
    case 3
    consider "y \<le> 4" | "y = 5" | "6 \<le> y" by linarith
    then show ?thesis using 3 assms by cases auto
  qed (use assms in auto)
qed

lemma octet_lang: "w \<in> lang octet_rx \<longleftrightarrow> octet w"
proof -
  have e: "w \<in> lang octet_rx \<longleftrightarrow> w \<in> lang (Seq octet_rx Emp)" by (rule deriv_end)
  consider "w = []" | a where "w = [a]" | a b where "w = [a, b]" | a b c where "w = [a, b, c]"
    | a b c d x where "w = a # b # c # d # x"
    by (metis list.exhaust)
  then show ?thesis
  proof cases
    case (4 a b c)
    have "w \<in> lang octet_rx \<longleftrightarrow>
        a = CHR ''2'' \<and> b = CHR ''5'' \<and> (CHR ''0'' \<le> c \<and> c \<le> CHR ''5'') \<or>
        a = CHR ''2'' \<and> (CHR ''0'' \<le> b \<and> b \<le> CHR ''4'') \<and> is_digit c \<or>
        (a = CHR ''0'' \<or> a = CHR ''1'') \<and> is_digit b \<and> is_digit c"
      unfolding e 4 octet_rx_def by (simp add: deriv_simps del: lang.simps)
    also have "\<dots> \<longleftrightarrow> is_digit a \<and> is_digit b \<and> is_digit c \<and> 100 * digit_val a + 10 * digit_val b + digit_val c \<le> 255"
      unfolding digit_classes
      by (cases "is_digit a \<and> is_digit b \<and> is_digit c") (use octet_value digit_val_range in simp, blast)
    finally show ?thesis unfolding octet_cases 4 by simp
  qed (auto simp: e octet_cases octet_rx_def deriv_simps is_digit_def simp del: lang.simps)
qed

lemma mem_rseq_ConsI: "u \<in> lang r \<Longrightarrow> v \<in> lang (rseq rs) \<Longrightarrow> u @ v \<in> lang (rseq (r # rs))"
  by (auto simp: rseq_def)

text \<open>\<open>ipv4\<close> accepts exactly four parts separated by dots, each of one to three digits with
  value at most 255 (leading zeros included).\<close>

theorem ipv4_octets:
  "ipv4 False v = Res (length (split_on (CHR ''.'') v) = 4 \<and> list_all octet (split_on (CHR ''.'') v))"
proof -
  let ?d = "CHR ''.''"
  have nodot: "?d \<notin> set w" if "octet w" for w
    using that digits_absent [of w ?d] by (auto simp: octet_def is_digit_def)
  let ?rs = "[octet_rx, lit ''.'', octet_rx, lit ''.'', octet_rx, lit ''.'', octet_rx]"
  have parts: "v \<in> lang (rseq ?rs) \<longleftrightarrow>
      (\<exists>a b c d. v = a @ ?d # b @ ?d # c @ ?d # d \<and> octet a \<and> octet b \<and> octet c \<and> octet d)"
  proof
    assume "v \<in> lang (rseq ?rs)"
    then show "\<exists>a b c d. v = a @ ?d # b @ ?d # c @ ?d # d \<and> octet a \<and> octet b \<and> octet c \<and> octet d"
      by (clarsimp simp: lang_simps octet_lang simp del: lang.simps) blast
  next
    assume "\<exists>a b c d. v = a @ ?d # b @ ?d # c @ ?d # d \<and> octet a \<and> octet b \<and> octet c \<and> octet d"
    then obtain a b c d where v: "v = a @ ?d # b @ ?d # c @ ?d # d" and o: "octet a" "octet b" "octet c" "octet d" by blast
    have "a @ ''.'' @ b @ ''.'' @ c @ ''.'' @ d @ [] \<in> lang (rseq ?rs)"
      using o by (intro mem_rseq_ConsI) (simp_all add: octet_lang mem_lit mem_rseq_Nil del: lang.simps)
    then show "v \<in> lang (rseq ?rs)" by (simp add: v)
  qed
  have "caseless ipv4_rx"
    by (simp add: ipv4_rx_def anchored_def octet_rx_def rseq_def lit_def cls_def rdigit_def ropt_def char_less_nat)
  moreover have "rx_test ipv4_rx v \<longleftrightarrow> v \<in> lang (rseq ?rs)"
    unfolding ipv4_rx_def by (rule rx_test_anchored) (simp add: octet_rx_def)
  ultimately have "ipv4 False v = Res (\<exists>a b c d. v = a @ ?d # b @ ?d # c @ ?d # d \<and> octet a \<and> octet b \<and> octet c \<and> octet d)"
    by (simp only: ipv4_def rx_test_icase_caseless parts or_optional_simps)
  also have "(\<exists>a b c d. v = a @ ?d # b @ ?d # c @ ?d # d \<and> octet a \<and> octet b \<and> octet c \<and> octet d) \<longleftrightarrow>
      length (split_on ?d v) = 4 \<and> list_all octet (split_on ?d v)"
  proof
    assume "\<exists>a b c d. v = a @ ?d # b @ ?d # c @ ?d # d \<and> octet a \<and> octet b \<and> octet c \<and> octet d"
    then obtain a b c d where "v = a @ ?d # b @ ?d # c @ ?d # d" "octet a" "octet b" "octet c" "octet d" by blast
    then show "length (split_on ?d v) = 4 \<and> list_all octet (split_on ?d v)"
      by (simp add: split_on_append split_on_absent nodot)
  next
    assume l: "length (split_on ?d v) = 4 \<and> list_all octet (split_on ?d v)"
    then obtain a b c d where s: "split_on ?d v = [a, b, c, d]"
      by (auto simp: numeral_eq_Suc length_Suc_conv)
    with join_split_on [of ?d v] have "v = a @ ?d # b @ ?d # c @ ?d # d" by simp
    with l s show "\<exists>a b c d. v = a @ ?d # b @ ?d # c @ ?d # d \<and> octet a \<and> octet b \<and> octet c \<and> octet d" by auto
  qed
  finally show ?thesis .
qed

section \<open>Net masks\<close>

text \<open>the alternatives of \<open>netmask\<close> but the first are not anchored at the start, and none at the
  end: any text that contains a mask such as 255.255.255.0 is accepted.\<close>

theorem netmask_accepts_any_context:
  "netmask False (u @ ''255.255.255.0'' @ w) = Res True"
proof -
  let ?r = "rseq [lit ''255.255.255.'', mask_octet [''0'']]"
  have "caseless netmask_rx"
    by (simp add: netmask_rx_def mask_octet_def rseq_def lit_def cls_def char_less_nat)
  then have "netmask False v = Res (rx_test netmask_rx v)" for v
    by (simp add: netmask_def rx_test_icase_caseless)
  moreover have "rx_test ?r v \<Longrightarrow> rx_test netmask_rx v" for v
    by (simp add: netmask_rx_def rx_test_Alt)
  moreover have "''255.255.255.0'' \<in> lang ?r"
    by (simp add: deriv_simps mask_octet_def del: lang.simps)
  then have "rx_test ?r (u @ ''255.255.255.0'' @ w)"
    by (subst rx_test_infix) (simp add: mask_octet_def, blast)
  ultimately show ?thesis by simp
qed

section \<open>Zip codes\<close>

text \<open>\<open>ziprange\<close> rejects every text of digits and dashes, so every ZIP code: the braces of its
  pattern are escaped and only literal braces match them.\<close>

theorem ziprange_rejects_zip_codes:
  assumes "list_all (\<lambda>c. is_digit c \<or> c = CHR ''-'') v"
  shows "ziprange False v = Res False"
proof -
  have "rx_test ziprange_rx v \<longleftrightarrow>
      v \<in> lang (rseq [lit ''90'', cls ''25'' [], rdigit, lit ''{2}-'', rtimes 4 rdigit])"
    unfolding ziprange_rx_def by (rule rx_test_anchored) simp
  moreover have "v \<notin> lang (rseq [lit ''90'', cls ''25'' [], rdigit, lit ''{2}-'', rtimes 4 rdigit])"
    using assms by (auto simp: lang_simps is_digit_def simp del: lang.simps)
  ultimately show ?thesis by (simp add: ziprange_def)
qed

theorem ziprange_rejects_zip_codes_witness:
  "ziprange False ''90210-1234'' = Res False \<and> ziprange False ''9021{2}-1234'' = Res True"
  using ziprange_rejects_zip_codes [of "''90210-1234''"] by (simp add: is_digit_def) code_simp

section \<open>Times of day\<close>

definition two_digits_below_60 :: "string \<Rightarrow> bool" where
  "two_digits_below_60 w \<longleftrightarrow> length w = 2 \<and> all_digits w \<and> digits_val w < 60"

definition hour :: "string \<Rightarrow> bool" where
  "hour w \<longleftrightarrow> 1 \<le> length w \<and> length w \<le> 2 \<and> all_digits w \<and> digits_val w < 24"

definition hour_rx :: rx where
  "hour_rx = ralt [rseq [cls [] ''01'', rdigit], rseq [lit ''2'', cls ''03'' []], cls ''09'' []]"

definition sixty_rx :: rx where
  "sixty_rx = rseq [lit '':'', cls ''05'' [], rdigit]"

lemma hour_lang: "w \<in> lang hour_rx \<longleftrightarrow> hour w"
proof -
  have e: "w \<in> lang hour_rx \<longleftrightarrow> w \<in> lang (Seq hour_rx Emp)" by (rule deriv_end)
  consider "w = []" | a where "w = [a]" | a b where "w = [a, b]" | a b c x where "w = a # b # c # x"
    by (metis list.exhaust)
  then show ?thesis
  proof cases
    case (2 a)
    show ?thesis unfolding e 2
      using digit_val_range [of a] by (auto simp: hour_rx_def deriv_simps hour_def all_digits_def is_digit_def simp del: lang.simps)
  next
    case (3 a b)
    have "w \<in> lang hour_rx \<longleftrightarrow>
        (a = CHR ''0'' \<or> a = CHR ''1'') \<and> is_digit b \<or> a = CHR ''2'' \<and> (CHR ''0'' \<le> b \<and> b \<le> CHR ''3'')"
      unfolding e 3 hour_rx_def by (simp add: deriv_simps del: lang.simps)
    also have "\<dots> \<longleftrightarrow> is_digit a \<and> is_digit b \<and> 10 * digit_val a + digit_val b < 24"
      unfolding digit_classes using digit_val_range [of a] digit_val_range [of b] by auto
    finally show ?thesis by (auto simp: 3 hour_def all_digits_def)
  qed (auto simp: e hour_rx_def hour_def deriv_simps simp del: lang.simps)
qed

lemma sixty_lang: "w \<in> lang sixty_rx \<longleftrightarrow> (\<exists>m. w = CHR '':'' # m \<and> two_digits_below_60 m)"
proof -
  have e: "w \<in> lang sixty_rx \<longleftrightarrow> w \<in> lang (Seq sixty_rx Emp)" by (rule deriv_end)
  consider "w = []" | a where "w = [a]" | a b where "w = [a, b]" | a b c where "w = [a, b, c]"
    | a b c d x where "w = a # b # c # d # x"
    by (metis list.exhaust)
  then show ?thesis
  proof cases
    case (4 a b c)
    have "w \<in> lang sixty_rx \<longleftrightarrow> a = CHR '':'' \<and> (CHR ''0'' \<le> b \<and> b \<le> CHR ''5'') \<and> is_digit c"
      unfolding e 4 sixty_rx_def by (simp add: deriv_simps del: lang.simps)
    also have "\<dots> \<longleftrightarrow> a = CHR '':'' \<and> is_digit b \<and> is_digit c \<and> 10 * digit_val b + digit_val c < 60"
      unfolding digit_classes using digit_val_range [of b] digit_val_range [of c] by auto
    finally show ?thesis by (auto simp: 4 two_digits_below_60_def all_digits_def)
  qed (auto simp: e sixty_rx_def two_digits_below_60_def deriv_simps simp del: lang.simps)
qed

lemma lang_one_or_two:
  "w \<in> lang (rbetween (Suc 0) 2 r) \<longleftrightarrow> w \<in> lang r \<or> (\<exists>u v. w = u @ v \<and> u \<in> lang r \<and> v \<in> lang r)"
proof -
  have z: "power_lang L 0 (Some 0) = {[]}" for L by (subst power_lang_unfold) simp
  have o: "power_lang L 0 (Some (Suc 0)) = {[]} \<union> L" for L by (subst power_lang_unfold) (simp add: z)
  have "power_lang L (Suc 0) (Some 2) = {u @ v | u v. u \<in> L \<and> (v = [] \<or> v \<in> L)}" for L
    by (subst power_lang_unfold) (simp add: o)
  then show ?thesis unfolding rbetween_def lang_Rep_power by auto
qed

text \<open>\<open>time\<close> accepts exactly hours and minutes, or hours, minutes and seconds, separated by
  colons: hours of one or two digits below 24, the others of two digits below 60.\<close>

theorem time_parts:
  "time_method False v =
     (let ps = split_on (CHR '':'') v
      in Res ((length ps = 2 \<or> length ps = 3) \<and> hour (hd ps) \<and> list_all two_digits_below_60 (tl ps)))"
proof -
  let ?d = "CHR '':''"
  have nocolon: "hour w \<Longrightarrow> ?d \<notin> set w" "two_digits_below_60 w \<Longrightarrow> ?d \<notin> set w" for w
    using digits_absent [of w ?d] by (auto simp: hour_def two_digits_below_60_def is_digit_def)
  have "rx_test time_rx v \<longleftrightarrow> v \<in> lang (rseq [hour_rx, rbetween 1 2 sixty_rx])"
    unfolding time_rx_def hour_rx_def [symmetric] sixty_rx_def [symmetric]
    by (rule rx_test_anchored) (simp add: hour_rx_def sixty_rx_def)
  also have "\<dots> \<longleftrightarrow> (\<exists>h m. v = h @ ?d # m \<and> hour h \<and> two_digits_below_60 m) \<or>
      (\<exists>h m s. v = h @ ?d # m @ ?d # s \<and> hour h \<and> two_digits_below_60 m \<and> two_digits_below_60 s)"
    (is "_ \<longleftrightarrow> ?A \<or> ?B")
  proof
    assume "v \<in> lang (rseq [hour_rx, rbetween 1 2 sixty_rx])"
    then show "?A \<or> ?B"
      by (auto simp: mem_rseq_Cons mem_rseq_Nil lang_one_or_two hour_lang sixty_lang simp del: lang.simps)
  next
    assume "?A \<or> ?B"
    then show "v \<in> lang (rseq [hour_rx, rbetween 1 2 sixty_rx])"
    proof (elim disjE exE conjE)
      fix h m assume "v = h @ ?d # m" "hour h" "two_digits_below_60 m"
      then have "h @ (?d # m) @ [] \<in> lang (rseq [hour_rx, rbetween 1 2 sixty_rx])"
        by (intro mem_rseq_ConsI) (simp_all add: hour_lang lang_one_or_two sixty_lang mem_rseq_Nil del: lang.simps)
      then show ?thesis by (simp add: \<open>v = h @ ?d # m\<close>)
    next
      fix h m s assume v: "v = h @ ?d # m @ ?d # s" "hour h" "two_digits_below_60 m" "two_digits_below_60 s"
      then have "?d # m @ ?d # s \<in> lang (rbetween 1 2 sixty_rx)"
        unfolding One_nat_def lang_one_or_two sixty_lang by (intro disjI2 exI [of _ "?d # m"] exI [of _ "?d # s"]) auto
      then have "h @ (?d # m @ ?d # s) @ [] \<in> lang (rseq [hour_rx, rbetween 1 2 sixty_rx])"
        using v by (intro mem_rseq_ConsI) (simp_all add: hour_lang mem_rseq_Nil del: lang.simps)
      then show ?thesis by (simp add: v)
    qed
  qed
  also have "\<dots> \<longleftrightarrow> (length (split_on ?d v) = 2 \<or> length (split_on ?d v) = 3) \<and> hour (hd (split_on ?d v)) \<and>
      list_all two_digits_below_60 (tl (split_on ?d v))" (is "_ \<longleftrightarrow> ?C")
  proof
    assume "?A \<or> ?B"
    then show ?C by (auto simp: split_on_append split_on_absent nocolon)
  next
    assume c: ?C
    then have "(\<exists>h m. split_on ?d v = [h, m]) \<or> (\<exists>h m s. split_on ?d v = [h, m, s])"
      by (auto simp: numeral_eq_Suc length_Suc_conv)
    then show "?A \<or> ?B"
    proof (elim disjE exE)
      fix h m assume "split_on ?d v = [h, m]"
      with c join_split_on [of ?d v] show ?thesis by auto
    next
      fix h m s assume "split_on ?d v = [h, m, s]"
      with c join_split_on [of ?d v] show ?thesis by auto
    qed
  qed
  finally show ?thesis by (simp add: time_method_def Let_def)
qed

section \<open>Values without words\<close>

lemma rounds_suffix:
  "(\<And>x y. y \<in> set (f x) \<Longrightarrow> \<exists>w. snd x = w @ snd y) \<Longrightarrow> z \<in> set (rounds f lo hi g x) \<Longrightarrow> \<exists>w. snd x = w @ snd z"
proof (induction f lo hi g x rule: rounds.induct)
  case (1 f lo hi g x)
  consider "hi = Some 0" | "hi \<noteq> Some 0" "0 < lo" | "hi \<noteq> Some 0" "lo = 0" by auto
  then show ?case
  proof cases
    case 1
    with "1.prems"(2) show ?thesis by (simp add: rounds_zero)
  next
    case 2
    with "1.prems"(2) obtain y where y: "y \<in> set (f x)"
      "z \<in> set (rounds f (lo - 1) (map_option (\<lambda>h. h - 1) hi) g y)" by (auto simp: rounds_must)
    from "1.IH"(1) [OF 2] y "1.prems"(1) have "\<exists>w. snd y = w @ snd z" by blast
    with "1.prems"(1) [OF y(1)] show ?thesis by auto
  next
    case 3
    with "1.prems"(2) consider "z = x" | y where "y \<in> set (f x)" "length (snd y) < length (snd x)"
        "z \<in> set (rounds f 0 (map_option (\<lambda>h. h - 1) hi) g y)"
      by (auto simp: rounds_may)
    then show ?thesis
    proof cases
      case 2
      from "1.IH"(2) 3 2 "1.prems"(1) have "\<exists>w. snd y = w @ snd z" by auto
      with "1.prems"(1) [OF 2(1)] show ?thesis by auto
    qed simp
  qed
qed

lemma rxm_suffix: "y \<in> set (rxm r x) \<Longrightarrow> \<exists>w. snd x = w @ snd y"
proof (induction r arbitrary: x y)
  case (Seq r s)
  then obtain z where "z \<in> set (rxm r x)" "y \<in> set (rxm s z)" by auto
  with Seq.IH(1) [of z x] Seq.IH(2) [of y z] show ?case by auto
next
  case (Rep lo hi g r)
  then show ?case using rounds_suffix [of "rxm r" y lo hi g x] by simp
qed (auto split: list.splits if_splits)

lemma set_rx_subst: "(\<And>m. set (f m) \<subseteq> A) \<Longrightarrow> set (rx_subst r f x) \<subseteq> A \<union> set (snd x)"
proof (induction "length (snd x)" arbitrary: x rule: less_induct)
  case less
  have rec: "set (rx_subst r f y) \<subseteq> A \<union> set (snd y)" if "length (snd y) < length (snd x)" for y
    by (rule less.hyps [OF that less.prems])
  have step: "set (case snd x of [] \<Rightarrow> [] | c # cs \<Rightarrow> c # rx_subst r f (Some c, cs)) \<subseteq> A \<union> set (snd x)"
    using rec by (cases "snd x") fastforce+
  show ?case
  proof (cases "rxm r x")
    case Nil
    then show ?thesis using step by (subst rx_subst.simps) simp
  next
    case (Cons y ys)
    then obtain w where w: "snd x = w @ snd y" using rxm_suffix [of y r x] by auto
    show ?thesis
    proof (cases "length (snd y) < length (snd x)")
      case True
      from rec [OF True] Cons True w less.prems show ?thesis by (subst rx_subst.simps) auto
    next
      case False
      with step Cons less.prems [of "[]"] show ?thesis by (subst rx_subst.simps) auto
    qed
  qed
qed

lemma set_rx_replace_all: "(\<And>m. set (f m) \<subseteq> A) \<Longrightarrow> set (rx_replace_all r f s) \<subseteq> A \<union> set s"
  using set_rx_subst [of f A r "(None, s)"] by (simp add: rx_replace_all_def)

lemma set_strip_html: "set (strip_html s) \<subseteq> insert (CHR '' '') (set s)"
proof -
  have d: "set (rx_delete r t) \<subseteq> set t" for r t
    using set_rx_replace_all [of "\<lambda>_. []" "{}" r t] by (simp add: rx_delete_def)
  have r: "set (rx_replace_all r (\<lambda>_. '' '') t) \<subseteq> insert (CHR '' '') (set t)" for r t
    using set_rx_replace_all [of "\<lambda>_. '' ''" "{CHR '' ''}" r t] by simp
  show ?thesis unfolding strip_html_def Let_def using d r by (meson dual_order.trans insert_subsetI insertI1 subset_insertI2 r d)
qed

lemma word_cls: "rword = Cls False False (ranges ''azAZ09'' @ map (\<lambda>c. (c, c)) ''_'')"
  by (simp add: rword_def cls_def)

lemma in_word_cls: "in_cls False False (ranges ''azAZ09'' @ map (\<lambda>c. (c, c)) ''_'') c \<longleftrightarrow> word_char c"
  by (auto simp: word_char_def is_digit_def)

lemma no_word_matches: "list_all (\<lambda>c. \<not> word_char c) s \<Longrightarrow> rx_matches word_rx (p, s) = []"
proof (induction s arbitrary: p)
  case Nil
  then show ?case
    by (simp add: rx_matches.simps word_rx_def rseq_def word_cls rplus_cls_Nil del: rxm.simps(5))
next
  case (Cons c s)
  then have "rxm (rplus rword) (q, c # s) = []" for q
    unfolding word_cls by (intro rplus_cls_none) (simp only: in_word_cls list_all_iff, simp)
  then have "rxm word_rx (p, c # s) = []" by (simp add: word_rx_def rseq_def)
  with Cons show ?case by (subst rx_matches.simps) simp
qed

text \<open>on a value without letters, digits and underscores (dashes or dots, say) the word-counting
  methods do not report an invalid field but throw: \<open>match\<close> gives null, whose length is read.\<close>

theorem word_count_throws:
  assumes "list_all (\<lambda>c. \<not> word_char c) v"
  shows "max_words False v n = Inl TypeError \<and> min_words False v n = Inl TypeError \<and>
    range_words False v n k = Inl TypeError"
proof -
  have "\<not> word_char (CHR '' '')" by (simp add: word_char_def is_digit_def)
  then have "list_all (\<lambda>c. \<not> word_char c) (strip_html v)"
    using assms set_strip_html [of v] by (auto simp: list_all_iff)
  then have "count_words (strip_html v) = Inl TypeError"
    by (simp add: count_words_def rx_match_all_def no_word_matches)
  then show ?thesis by (simp add: max_words_def min_words_def range_words_def)
qed

theorem word_count_throws_witness: "max_words False ''-- ?'' (Fin 3) = Inl TypeError"
  using word_count_throws [of "''-- ?''" "Fin 3" "Fin 3"] by (simp add: word_char_def is_digit_def)

section \<open>File names\<close>

text \<open>Letters that differ in case only.\<close>

definition same_letter :: "char \<Rightarrow> char \<Rightarrow> bool" where
  "same_letter c d \<longleftrightarrow> d = c \<or> swap_case d = c"

lemma scan_alternatives:
  "list_all (list_all plain_char) ws \<Longrightarrow> ws \<noteq> [] \<Longrightarrow>
   scan Plain (join ''|'' ws @ cs) ts =
     scan Plain cs (rev (concat (map (\<lambda>w. atoms w @ [TBar]) (butlast ws)) @ atoms (last ws)) @ ts)"
proof (induction ws arbitrary: ts)
  case (Cons w ws)
  then have w: "list_all plain_char w" by simp
  have bar: "scan Plain (CHR ''|'' # s) ts = scan Plain s (TBar # ts)" for s ts
    by (simp add: plain_token_def)
  show ?case
  proof (cases ws)
    case Nil
    then show ?thesis using scan_plain [OF w] by simp
  next
    case (Cons v vs)
    have "scan Plain (join ''|'' (w # ws) @ cs) ts =
        scan Plain (join ''|'' ws @ cs) (TBar # rev (atoms w) @ ts)"
      using scan_plain [OF w] bar by (simp add: Cons del: scan.simps)
    also have "\<dots> = scan Plain cs (rev (concat (map (\<lambda>w. atoms w @ [TBar]) (butlast ws)) @ atoms (last ws)) @
        TBar # rev (atoms w) @ ts)"
      using Cons.IH [of "TBar # rev (atoms w) @ ts"] Cons.prems Cons by (simp del: scan.simps)
    finally show ?thesis by (simp add: Cons del: scan.simps)
  qed
qed simp

lemma reduce_alternatives:
  "reduce (concat (map (\<lambda>w. atoms w @ [TBar]) ws) @ ts) ((g, alts, []) # fs) =
   reduce ts ((g, rev (map lit ws) @ alts, []) # fs)"
  by (induction ws arbitrary: alts) (simp_all add: reduce_atoms lit_def)

lemma compile_extension:
  assumes "list_all (list_all plain_char) ws" "ws \<noteq> []" "hd ws \<noteq> []"
  shows "compile_rx i ([CHR 0x5C] @ ''.('' @ join ''|'' ws @ '')$'') =
    Some ((if i then icase else (\<lambda>r. r)) (rseq [cls [] ''.'', ralt (map lit ws), Eol]))"
proof -
  obtain c cs where c: "join ''|'' ws = c # cs" "plain_char c"
  proof -
    obtain w vs where "ws = w # vs" using assms(2) by (cases ws) auto
    moreover obtain c w' where "w = c # w'" using assms(3) calculation by (cases w) auto
    ultimately show ?thesis using that [of c] assms(1) by (cases vs) auto
  qed
  have "scan Plain ([CHR 0x5C] @ ''.('' @ join ''|'' ws @ '')$'') [] =
      scan AfterOpen (join ''|'' ws @ '')$'') [TAtom (cls [] ''.'')]"
    by (simp add: esc_class_def esc_char_def is_digit_def)
  also have "\<dots> = scan Plain (join ''|'' ws @ '')$'') [TOpen Capture, TAtom (cls [] ''.'')]"
    unfolding c(1) append_Cons by (rule scan_after_open [OF c(2)])
  also have "\<dots> = scan Plain '')$'' (rev (concat (map (\<lambda>w. atoms w @ [TBar]) (butlast ws)) @ atoms (last ws)) @
      [TOpen Capture, TAtom (cls [] ''.'')])"
    by (rule scan_alternatives [OF assms(1,2)])
  also have "\<dots> = Some ([TAtom (cls [] ''.''), TOpen Capture] @ concat (map (\<lambda>w. atoms w @ [TBar]) (butlast ws)) @
      atoms (last ws) @ [TClose, TAtom Eol])"
    by (simp add: plain_token_def)
  finally have s: "scan Plain ([CHR 0x5C] @ ''.('' @ join ''|'' ws @ '')$'') [] = \<dots>" .
  have alts: "map lit (butlast ws) @ [lit (last ws)] = map lit ws"
    using assms(2) by (metis append_butlast_last_id list.simps(8,9) map_append)
  have "reduce ([TAtom (cls [] ''.''), TOpen Capture] @ concat (map (\<lambda>w. atoms w @ [TBar]) (butlast ws)) @
      atoms (last ws) @ [TClose, TAtom Eol]) [(Capture, [], [])] = Some (rseq [cls [] ''.'', ralt (map lit ws), Eol])"
    using alts by (simp add: reduce_alternatives reduce_atoms close_frame_def flip: lit_def)
  with s show ?thesis by (simp add: compile_rx_def)
qed

lemma rx_test_cong: "(\<And>x. rxm r x = rxm s x) \<Longrightarrow> rx_test r = rx_test s"
proof (rule ext)
  fix w assume m: "\<And>x. rxm r x = rxm s x"
  have "rx_scan r p v i = rx_scan s p v i" for p v i
    by (induction v arbitrary: p i; subst (1 2) rx_scan.simps) (simp_all add: m split: list.split)
  then show "rx_test r w = rx_test s w" by (simp add: rx_test_def rx_exec_def)
qed

lemma rxm_assoc_Eol: "rxm (Seq a (Seq b (Seq Eol Emp))) x = rxm (Seq (Seq a b) Eol) x"
proof -
  have "concat (map (\<lambda>z. concat (map g (f z))) xs) = concat (map g (concat (map f xs)))" for f g and xs :: "pos list"
    by (induction xs) simp_all
  moreover have "rxm (Seq Eol Emp) = rxm Eol" by (rule ext) simp
  then have "rxm (Seq b (Seq Eol Emp)) = (\<lambda>z. concat (map (rxm Eol) (rxm b z)))"
    by (intro ext) (simp only: rxm.simps(3))
  ultimately show ?thesis by (simp only: rxm.simps(3))
qed

lemma lang_icase_lit: "w \<in> lang (icase (lit s)) \<longleftrightarrow> list_all2 same_letter s w"
proof (induction s arbitrary: w)
  case Nil
  then show ?case by (simp add: deriv_simps)
next
  case (Cons c s)
  have "icase (lit (c # s)) = Seq (Cls False True [(c, c)]) (icase (lit s))"
    by (simp add: lit_def rseq_def cls_def)
  with Cons show ?case
    by (cases w) (auto simp: deriv_simps in_cls_def same_letter_def simp del: lang.simps)
qed

lemma lang_icase_ralt: "rs \<noteq> [] \<Longrightarrow> w \<in> lang (icase (ralt rs)) \<longleftrightarrow> (\<exists>r\<in>set rs. w \<in> lang (icase r))"
  by (induction rs rule: ralt.induct) auto

lemma replace_commas: "rx_replace_all (lit '','') (\<lambda>_. ''|'') s = map (\<lambda>c. if c = CHR '','' then CHR ''|'' else c) s"
proof -
  have "rx_subst (Seq (Cls False False [(CHR '','', CHR '','')]) Emp) (\<lambda>_. ''|'') (p, s) =
      map (\<lambda>c. if c = CHR '','' then CHR ''|'' else c) s" for p
    by (induction s arbitrary: p) (simp_all add: rx_subst.simps)
  then show ?thesis by (simp add: rx_replace_all_def lit_def rseq_def cls_def)
qed

lemma replace_commas_join:
  assumes "list_all (list_all plain_char) ws"
  shows "rx_replace_all (lit '','') (\<lambda>_. ''|'') (join '','' ws) = join ''|'' ws"
proof -
  have id: "map (\<lambda>c. if c = CHR '','' then CHR ''|'' else c) w = w" if "list_all plain_char w" for w
    using that by (induction w) (auto simp: plain_char_def word_char_def is_digit_def)
  show ?thesis
    unfolding replace_commas using assms by (induction "'',''" ws rule: join.induct) (simp_all add: id)
qed

text \<open>for a comma-separated list of extensions made of letters, digits, underscores and dashes, the
  pattern \<open>extension\<close> builds at run time accepts exactly the names that end in a dot and one of
  the extensions, ignoring case.\<close>

theorem extension_suffix:
  assumes "list_all (list_all plain_char) exts" "exts \<noteq> []" "hd exts \<noteq> []"
  shows "extension False v (Some (join '','' exts)) =
    Inr (Res (\<exists>e\<in>set exts. \<exists>u t. v = u @ ''.'' @ t \<and> list_all2 same_letter e t))"
proof -
  let ?dot = "Cls False True [(CHR ''.'', CHR ''.'')]" and ?alts = "icase (ralt (map lit exts))"
  let ?r = "icase (rseq [cls [] ''.'', ralt (map lit exts), Eol])"
  have comp: "new_regexp True ([CHR 0x5C] @ ''.('' @ join ''|'' exts @ '')$'') = Inr ?r"
    unfolding new_regexp_def compile_extension [OF assms] by simp
  have "rxm ?r x = rxm (Seq (Seq ?dot ?alts) Eol) x" for x
    using rxm_assoc_Eol [of ?dot ?alts x] by (simp add: rseq_def cls_def del: rxm.simps)
  then have "rx_test ?r v \<longleftrightarrow> rx_test (Seq (Seq ?dot ?alts) Eol) v"
    by (intro fun_cong [OF rx_test_cong])
  also have "\<dots> \<longleftrightarrow> (\<exists>u w. v = u @ w \<and> w \<in> lang (Seq ?dot ?alts))"
    by (rule rx_test_suffix) (simp add: list_all_iff)
  also have "\<dots> \<longleftrightarrow> (\<exists>u t. v = u @ ''.'' @ t \<and> t \<in> lang ?alts)"
    using in_cls_caseless [of "[(CHR ''.'', CHR ''.'')]" False True] by (auto simp: char_less_nat)
  also have "\<dots> \<longleftrightarrow> (\<exists>e\<in>set exts. \<exists>u t. v = u @ ''.'' @ t \<and> list_all2 same_letter e t)"
    using assms(2) by (auto simp: lang_icase_ralt lang_icase_lit simp del: lang.simps)
  finally show ?thesis
    by (simp add: extension_def replace_commas_join [OF assms(1)] comp [simplified])
qed

theorem extension_suffix_witness:
  "extension False ''photo.JPG'' (Some (join '','' [''png'', ''jpg''])) =
    Inr (Res (\<exists>e\<in>set [''png'', ''jpg'']. \<exists>u t. ''photo.JPG'' = u @ ''.'' @ t \<and> list_all2 same_letter e t))"
  by (rule extension_suffix) (simp_all add: plain_char_def word_char_def)

end
