(* ===== verification/Dom.thy ===== *)
theory Dom
  imports JsNumber Regex
begin

text \<open>
  What the validation scripts see of a page: JavaScript values as far as rules, parameters and
  field values use them, the form's elements, and the environment (jQuery's selector engine
  and the functions a page's author passes in), which is a parameter of the model.
\<close>

section \<open>Values\<close>

text \<open>Functions of the page's author are known by a number; the environment says what they do.\<close>

datatype jsv =
    JUndef
  | JNull
  | JBool bool
  | JNum jnum
  | JStr string
  | JArr "jsv list"
  | JObj "(string \<times> jsv) list"
  | JFun nat
  | JRegExp rx
  | JElem nat  \<comment> \<open>a field of the page\<close>
  | JReader string  \<comment> \<open>a function that reads the field of this name (made by the unobtrusive adapters)\<close>

fun js_truthy :: "jsv \<Rightarrow> bool" where
  "js_truthy JUndef = False"
| "js_truthy JNull = False"
| "js_truthy (JBool b) = b"
| "js_truthy (JNum x) = (x \<noteq> NaN \<and> x \<noteq> Fin 0)"
| "js_truthy (JStr s) = (s \<noteq> [])"
| "js_truthy _ = True"

text \<open>
  The text of a number: integers exactly, other rationals with their decimals, seventeen at
  most (the shortest text that reads back, as the language has it, when there are no more).
\<close>

fun decimals :: "nat \<Rightarrow> rat \<Rightarrow> string" where
  "decimals 0 q = []"
| "decimals (Suc n) q =
     (if q = 0 then [] else digit_char (nat \<lfloor>10 * q\<rfloor>) # decimals n (10 * q - of_int \<lfloor>10 * q\<rfloor>))"

definition rat_text :: "rat \<Rightarrow> string" where
  "rat_text q =
     (let a = \<bar>q\<bar>; f = a - of_int \<lfloor>a\<rfloor>
      in (if q < 0 then ''-'' else []) @ nat_str (nat \<lfloor>a\<rfloor>) @ (if f = 0 then [] else ''.'' @ decimals 17 f))"

definition number_text :: "jnum \<Rightarrow> string" where
  "number_text x = (case x of NaN \<Rightarrow> ''NaN'' | Inf b \<Rightarrow> (if b then ''Infinity'' else ''-Infinity'') | Fin q \<Rightarrow> rat_text q)"

fun js_text :: "jsv \<Rightarrow> string" where
  "js_text JUndef = ''undefined''"
| "js_text JNull = ''null''"
| "js_text (JBool b) = (if b then ''true'' else ''false'')"
| "js_text (JNum x) = number_text x"
| "js_text (JStr s) = s"
| "js_text (JArr vs) = join '','' (map (\<lambda>v. if v = JUndef \<or> v = JNull then [] else js_text v) vs)"
| "js_text _ = ''[object Object]''"

text \<open>\<open>Number(v)\<close>: an array by its text.\<close>

definition js_number :: "jsv \<Rightarrow> jnum" where
  "js_number v =
     (case v of
        JUndef \<Rightarrow> NaN | JNull \<Rightarrow> Fin 0 | JBool b \<Rightarrow> Fin (if b then 1 else 0) | JNum x \<Rightarrow> x
      | JStr s \<Rightarrow> to_number s | JArr vs \<Rightarrow> to_number (js_text (JArr vs)) | _ \<Rightarrow> NaN)"

text \<open>\<open>a >= b\<close> and \<open>a <= b\<close>: two strings by code units, otherwise numbers.\<close>

definition js_ge :: "jsv \<Rightarrow> jsv \<Rightarrow> bool" where
  "js_ge a b = (case (a, b) of (JStr s, JStr t) \<Rightarrow> str_le t s | _ \<Rightarrow> num_le (js_number b) (js_number a))"

definition js_le :: "jsv \<Rightarrow> jsv \<Rightarrow> bool" where
  "js_le a b = js_ge b a"

text \<open>\<open>v.length\<close>: the number of elements or code units, nothing for other values; null throws.\<close>

definition js_length :: "jsv \<Rightarrow> nat option result" where
  "js_length v =
     (case v of
        JUndef \<Rightarrow> Inl TypeError | JNull \<Rightarrow> Inl TypeError
      | JStr s \<Rightarrow> Inr (Some (length s)) | JArr vs \<Rightarrow> Inr (Some (length vs)) | _ \<Rightarrow> Inr None)"

text \<open>\<open>$.extend( m, n )\<close> copies what is defined.\<close>

definition jextend :: "(string, jsv) obj \<Rightarrow> (string, jsv) obj \<Rightarrow> (string, jsv) obj" where
  "jextend m n = oextend m (filter (\<lambda>(k, v). v \<noteq> JUndef \<and> k \<noteq> ''__proto__'') n)"

definition jget :: "(string, jsv) obj \<Rightarrow> string \<Rightarrow> jsv" where
  "jget m k = (case oget m k of None \<Rightarrow> JUndef | Some v \<Rightarrow> v)"

text \<open>
  \<open>k in m\<close> on a plain object also sees the properties of \<open>Object.prototype\<close>.
\<close>

definition prototype_names :: "string list" where
  "prototype_names =
     [''constructor'', ''toString'', ''toLocaleString'', ''valueOf'', ''hasOwnProperty'', ''isPrototypeOf'',
      ''propertyIsEnumerable'', ''__proto__'', ''__defineGetter__'', ''__defineSetter__'',
      ''__lookupGetter__'', ''__lookupSetter__'']"

definition js_in :: "string \<Rightarrow> (string, 'v) obj \<Rightarrow> bool" where
  "js_in k m \<longleftrightarrow> k \<in> set (okeys m) \<or> k \<in> set prototype_names"

section \<open>Elements\<close>

text \<open>
  An element is known by its place in the page. \<open>elem_val\<close> is what \<open>val()\<close> returns, \<open>elem_form\<close>
  the form the element belongs to, \<open>elem_within\<close> the forms around it, innermost first.
\<close>

record elem =
  node_name :: string  \<comment> \<open>in lower case\<close>
  elem_type :: string
  elem_name :: string
  elem_id :: string
  elem_title :: string
  elem_attrs :: "(string, string) obj"
  elem_data :: "(string, jsv) obj"
  elem_val :: jsv
  elem_text :: string
  elem_checked :: bool
  bad_input :: "bool option"  \<comment> \<open>nothing where the browser has no \<open>validity\<close>\<close>
  selected_count :: nat
  elem_form :: "nat option"
  elem_within :: "nat list"
  elem_parent :: "nat option"
  elem_in_label :: "string option"  \<comment> \<open>the \<open>for\<close> of a label around the element\<close>
  elem_classes :: "string list"

type_synonym doc = "elem list"

text \<open>
  Everything else on the page that validation touches: error labels, containers of messages. A
  node is beside a field, inside another node, or no longer on the page; \<open>n_wrapper\<close> is the
  element that holds only this node, with its visibility.
\<close>

datatype home = Beside nat | Inside nat | Gone

record node =
  n_tag :: string
  n_id :: string
  n_for :: "string option"
  n_in_label :: "string option"
  n_attrs :: "(string, string) obj"
  n_classes :: "string list"
  n_html :: string
  n_shown :: bool
  n_wrapper :: "(string \<times> bool) option"
  n_home :: home
  n_in_form :: bool
  n_container :: "nat list option"  \<comment> \<open>its \<open>data( "unobtrusiveContainer" )\<close>\<close>

type_synonym nodes = "node list"

text \<open>An entry of the error list.\<close>

record err =
  err_message :: jsv
  err_elem :: "nat option"
  err_method :: "string option"

record env =
  matches :: "doc \<Rightarrow> string \<Rightarrow> nat \<Rightarrow> bool"  \<comment> \<open>\<open>$( el ).is( selector )\<close>\<close>
  select :: "doc \<Rightarrow> string \<Rightarrow> nat list"  \<comment> \<open>\<open>$( selector, form )\<close>\<close>
  call_test :: "nat \<Rightarrow> doc \<Rightarrow> nat \<Rightarrow> bool"  \<comment> \<open>a dependency function\<close>
  call_param :: "nat \<Rightarrow> doc \<Rightarrow> nat \<Rightarrow> jsv"  \<comment> \<open>a parameter function\<close>
  call_norm :: "nat \<Rightarrow> nat \<Rightarrow> jsv \<Rightarrow> jsv"  \<comment> \<open>a normalizer\<close>
  call_msg :: "nat \<Rightarrow> jsv \<Rightarrow> nat \<Rightarrow> jsv"  \<comment> \<open>a message function\<close>
  call_classes :: "nat \<Rightarrow> doc \<Rightarrow> nat \<Rightarrow> string \<Rightarrow> string \<Rightarrow> doc"  \<comment> \<open>own \<open>highlight\<close> or \<open>unhighlight\<close>\<close>
  call_place :: "nat \<Rightarrow> doc \<Rightarrow> nodes \<Rightarrow> nat \<Rightarrow> nat \<Rightarrow> nodes"  \<comment> \<open>\<open>errorPlacement( node, field )\<close>\<close>
  call_success :: "nat \<Rightarrow> nodes \<Rightarrow> nat list \<Rightarrow> nat \<Rightarrow> nodes"  \<comment> \<open>\<open>success( labels, field )\<close>\<close>
  call_invalid :: "nat \<Rightarrow> nodes \<Rightarrow> err list \<Rightarrow> nodes"  \<comment> \<open>\<open>invalidHandler\<close>\<close>
  call_submit :: "nat \<Rightarrow> doc \<Rightarrow> jsv"  \<comment> \<open>\<open>submitHandler\<close>\<close>
  call_data :: "doc \<Rightarrow> jsv \<Rightarrow> jsv"  \<comment> \<open>a function in the data of a remote request\<close>
  object_text :: "elem \<Rightarrow> string"  \<comment> \<open>a field as text, like \<open>[object HTMLInputElement]\<close>\<close>
  date_text :: "string \<Rightarrow> string"  \<comment> \<open>\<open>new Date( value ).toString()\<close>\<close>

definition attr :: "elem \<Rightarrow> string \<Rightarrow> jsv" where
  "attr e a = (case oget (elem_attrs e) a of None \<Rightarrow> JUndef | Some s \<Rightarrow> JStr s)"

definition get_attribute :: "elem \<Rightarrow> string \<Rightarrow> jsv" where
  "get_attribute e a = (case oget (elem_attrs e) a of None \<Rightarrow> JNull | Some s \<Rightarrow> JStr s)"

text \<open>\<open>addClass\<close>, \<open>removeClass\<close>: the classes named in a text, separated by white space.\<close>

definition class_words :: "string \<Rightarrow> string list" where
  "class_words s = filter (\<lambda>w. w \<noteq> []) (rx_split (cls [] [CHR 0x20, CHR 0x09, CHR 0x0A, CHR 0x0C, CHR 0x0D]) s)"

definition with_classes :: "string list \<Rightarrow> string list \<Rightarrow> string list" where
  "with_classes cs ws = foldl (\<lambda>acc w. if w \<in> set acc then acc else acc @ [w]) cs ws"

definition without_classes :: "string list \<Rightarrow> string list \<Rightarrow> string list" where
  "without_classes cs ws = filter (\<lambda>c. c \<notin> set ws) cs"

definition add_class :: "string \<Rightarrow> elem \<Rightarrow> elem" where
  "add_class s e = e\<lparr>elem_classes := with_classes (elem_classes e) (class_words s)\<rparr>"

definition remove_class :: "string \<Rightarrow> elem \<Rightarrow> elem" where
  "remove_class s e = e\<lparr>elem_classes := without_classes (elem_classes e) (class_words s)\<rparr>"

definition node_add_class :: "string \<Rightarrow> node \<Rightarrow> node" where
  "node_add_class s n = n\<lparr>n_classes := with_classes (n_classes n) (class_words s)\<rparr>"

definition node_remove_class :: "string \<Rightarrow> node \<Rightarrow> node" where
  "node_remove_class s n = n\<lparr>n_classes := without_classes (n_classes n) (class_words s)\<rparr>"

definition set_attr :: "string \<Rightarrow> string \<Rightarrow> elem \<Rightarrow> elem" where
  "set_attr a v e = e\<lparr>elem_attrs := oset (elem_attrs e) a v\<rparr>"

definition remove_attr :: "string \<Rightarrow> elem \<Rightarrow> elem" where
  "remove_attr a e = e\<lparr>elem_attrs := odel (elem_attrs e) a\<rparr>"

text \<open>Changing the fields or nodes at given places; a place that is not there changes nothing.\<close>

definition update_at :: "nat \<Rightarrow> ('a \<Rightarrow> 'a) \<Rightarrow> 'a list \<Rightarrow> 'a list" where
  "update_at i f p = (if i < length p then p[i := f (p ! i)] else p)"

definition update_all :: "nat list \<Rightarrow> ('a \<Rightarrow> 'a) \<Rightarrow> 'a list \<Rightarrow> 'a list" where
  "update_all is f p = foldl (\<lambda>q i. update_at i f q) p is"

definition content_editable :: "elem \<Rightarrow> bool" where
  \<comment> \<open>\<open>typeof attr( "contenteditable" ) !== "undefined" && attr( "contenteditable" ) !== "false"\<close>\<close>
  "content_editable e \<longleftrightarrow> oget (elem_attrs e) ''contenteditable'' \<notin> {None, Some ''false''}"

lemma length_update_at [simp]: "length (update_at i f p) = length p"
  by (simp add: update_at_def)

lemma update_all_Nil [simp]: "update_all [] f p = p"
  by (simp add: update_all_def)

lemma update_all_Cons [simp]: "update_all (i # is) f p = update_all is f (update_at i f p)"
  by (simp add: update_all_def)

lemma length_update_all [simp]: "length (update_all is f p) = length p"
  by (induction "is" arbitrary: p) auto

lemma update_at_nth: "i < length p \<Longrightarrow> update_at j f p ! i = (if i = j then f (p ! i) else p ! i)"
  by (simp add: update_at_def nth_list_update)

text \<open>What an update keeps of every element: the projections that the changing function keeps.\<close>

lemma update_all_keeps:
  assumes "\<And>e. g (f e) = g e" "i < length p"
  shows "g (update_all is f p ! i) = g (p ! i)"
  using assms(2) by (induction "is" arbitrary: p) (auto simp: update_at_nth assms(1))

lemma map_update_all:
  assumes "\<And>e. g (f e) = g e"
  shows "map g (update_all is f p) = map g p"
  by (rule nth_equalityI) (auto simp: update_all_keeps [of g f] assms)

text \<open>Adding and removing classes change nothing else.\<close>

lemma class_changes [simp]:
  "node_name (add_class c e) = node_name e" "node_name (remove_class c e) = node_name e"
  "elem_name (add_class c e) = elem_name e" "elem_name (remove_class c e) = elem_name e"
  "elem_form (add_class c e) = elem_form e" "elem_form (remove_class c e) = elem_form e"
  "elem_within (add_class c e) = elem_within e" "elem_within (remove_class c e) = elem_within e"
  "elem_attrs (add_class c e) = elem_attrs e" "elem_attrs (remove_class c e) = elem_attrs e"
  "elem_type (add_class c e) = elem_type e" "elem_type (remove_class c e) = elem_type e"
  by (simp_all add: add_class_def remove_class_def)

lemma class_changes_value [simp]:
  "elem_val (add_class c e) = elem_val e" "elem_val (remove_class c e) = elem_val e"
  "elem_checked (add_class c e) = elem_checked e" "elem_checked (remove_class c e) = elem_checked e"
  by (simp_all add: add_class_def remove_class_def)

end
