(* ===== verification/FormFields.thy ===== *)
theory FormFields
  imports Dom PatternMethods
begin

text \<open>
  Reading a form's fields and the methods of \<open>jquery.validate.js\<close> that judge a value:
  \<open>elementValue\<close>, \<open>checkable\<close>, \<open>findByName\<close>, \<open>getLength\<close>, \<open>depend\<close>, \<open>optional\<close> and
  \<open>$.validator.methods\<close> apart from \<open>remote\<close> (theory \<open>Requests\<close>).
\<close>

section \<open>Fields\<close>

text \<open>Meta-characters of selectors are escaped with a backslash.\<close>

definition css_meta :: string where
  "css_meta = [CHR 0x5C] @ ''!'' @ [CHR 0x22] @ ''#$%&'' @ [CHR 0x27] @ ''()*+,./:;<=>?@[]^`{|}~''"

definition escape_css_meta :: "string \<Rightarrow> string" where
  "escape_css_meta s = rx_replace_all (cls [] css_meta) (\<lambda>m. CHR 0x5C # m) s"

text \<open>
  \<open>find( "[name='...']" )\<close> with the name escaped: the elements inside the form that carry the
  name, in document order.
\<close>

definition find_by_name :: "nat \<Rightarrow> doc \<Rightarrow> string \<Rightarrow> nat list" where
  "find_by_name form p name = filter (\<lambda>i. form \<in> set (elem_within (p ! i)) \<and> elem_name (p ! i) = name) [0..<length p]"

definition checkable :: "elem \<Rightarrow> bool" where
  "checkable e \<longleftrightarrow> rx_test (icase (Alt (lit ''radio'') (lit ''checkbox''))) (elem_type e)"

text \<open>The usual types are decided without matching.\<close>

lemma checkable_types:
  "elem_type e = ''text'' \<Longrightarrow> \<not> checkable e" "elem_type e = ''radio'' \<Longrightarrow> checkable e"
  "elem_type e = ''checkbox'' \<Longrightarrow> checkable e"
proof -
  have "\<not> rx_test (icase (Alt (lit ''radio'') (lit ''checkbox''))) ''text''"
    "rx_test (icase (Alt (lit ''radio'') (lit ''checkbox''))) ''radio''"
    "rx_test (icase (Alt (lit ''radio'') (lit ''checkbox''))) ''checkbox''"
    by code_simp+
  then show "elem_type e = ''text'' \<Longrightarrow> \<not> checkable e" "elem_type e = ''radio'' \<Longrightarrow> checkable e"
    "elem_type e = ''checkbox'' \<Longrightarrow> checkable e"
    unfolding checkable_def by metis+
qed

lemma checkable_code [code]:
  "checkable e =
     (if elem_type e = ''text'' then False else if elem_type e = ''radio'' \<or> elem_type e = ''checkbox'' then True
      else rx_test (icase (Alt (lit ''radio'') (lit ''checkbox''))) (elem_type e))"
  using checkable_types [of e] unfolding checkable_def by (metis (no_types))

text \<open>An empty \<open>ignore\<close> ignores nothing.\<close>

definition ignored :: "env \<Rightarrow> string \<Rightarrow> doc \<Rightarrow> nat \<Rightarrow> bool" where
  "ignored env ignore p i \<longleftrightarrow> ignore \<noteq> [] \<and> matches env p ignore i"

definition validation_target :: "env \<Rightarrow> nat \<Rightarrow> string \<Rightarrow> doc \<Rightarrow> nat \<Rightarrow> nat option" where
  "validation_target env form ignore p i =
     (let cands = (if checkable (p ! i) then find_by_name form p (elem_name (p ! i)) else [i])
      in case filter (\<lambda>j. \<not> ignored env ignore p j) cands of [] \<Rightarrow> None | j # _ \<Rightarrow> Some j)"

definition fakepath :: string where
  "fakepath = ''C:'' @ [CHR 0x5C] @ ''fakepath'' @ [CHR 0x5C]"

definition file_name :: "string \<Rightarrow> string" where
  "file_name val =
     (if substr val 0 12 = fakepath then substr_from val 12
      else case last_index_of val (CHR ''/'') of
             Some idx \<Rightarrow> substr_from val (idx + 1)
           | None \<Rightarrow> (case last_index_of val (CHR 0x5C) of
                       Some idx \<Rightarrow> substr_from val (idx + 1)
                     | None \<Rightarrow> val))"

definition element_value :: "nat \<Rightarrow> doc \<Rightarrow> nat \<Rightarrow> jsv result" where
  "element_value form p i =
     (let e = p ! i
      in if elem_type e = ''radio'' \<or> elem_type e = ''checkbox'' then
           Inr (case filter (\<lambda>j. elem_checked (p ! j)) (find_by_name form p (elem_name e)) of
                  [] \<Rightarrow> JUndef | j # _ \<Rightarrow> elem_val (p ! j))
         else if elem_type e = ''number'' \<and> bad_input e \<noteq> None then
           Inr (if bad_input e = Some True then JStr ''NaN'' else elem_val e)
         else (let val = (if content_editable e then JStr (elem_text e) else elem_val e)
               in if elem_type e = ''file'' then
                    (case val of JStr s \<Rightarrow> Inr (JStr (file_name s)) | _ \<Rightarrow> Inl TypeError)
                  else (case val of
                          JStr s \<Rightarrow> Inr (JStr (rx_delete (lit [CHR 0x0D]) s))
                        | v \<Rightarrow> Inr v)))"

definition get_length :: "nat \<Rightarrow> doc \<Rightarrow> jsv \<Rightarrow> nat \<Rightarrow> nat option result" where
  "get_length form p value i =
     (let e = p ! i
      in if node_name e = ''select'' then Inr (Some (selected_count e))
         else if node_name e = ''input'' \<and> checkable e then
           Inr (Some (length (filter (\<lambda>j. elem_checked (p ! j)) (find_by_name form p (elem_name e)))))
         else js_length value)"

definition depend :: "env \<Rightarrow> doc \<Rightarrow> jsv \<Rightarrow> nat \<Rightarrow> bool" where
  "depend env p param i =
     (case param of
        JBool b \<Rightarrow> b
      | JStr s \<Rightarrow> select env p s \<noteq> []
      | JFun f \<Rightarrow> call_test env f p i
      | _ \<Rightarrow> True)"

section \<open>required and optional\<close>

definition has_length :: "jsv \<Rightarrow> bool" where
  \<comment> \<open>\<open>v.length > 0\<close> for a value that is neither null nor undefined\<close>
  "has_length v = (case v of JStr s \<Rightarrow> s \<noteq> [] | JArr vs \<Rightarrow> vs \<noteq> [] | _ \<Rightarrow> False)"

definition required :: "env \<Rightarrow> nat \<Rightarrow> doc \<Rightarrow> jsv \<Rightarrow> nat \<Rightarrow> jsv \<Rightarrow> mres result" where
  "required env form p value i param =
     (let e = p ! i
      in if \<not> depend env p param i then Inr Mismatch
         else if node_name e = ''select'' then Inr (Res (has_length (elem_val e)))
         else if checkable e then
           bind_res (get_length form p value i)
             (\<lambda>n. Inr (Res (case n of None \<Rightarrow> False | Some k \<Rightarrow> 0 < k)))
         else Inr (Res (has_length value)))"

text \<open>\<open>optional\<close> is truthy exactly when the field is empty.\<close>

definition optional :: "env \<Rightarrow> nat \<Rightarrow> doc \<Rightarrow> nat \<Rightarrow> bool result" where
  "optional env form p i =
     bind_res (element_value form p i)
       (\<lambda>val. bind_res (required env form p val i JUndef) (\<lambda>r. Inr (\<not> truthy r)))"

section \<open>Patterns and lengths\<close>

text \<open>A value tested against a pattern is converted to text.\<close>

definition email_rx :: rx where
  "email_rx = (let label = rseq [cls ''azAZ09'' [], ropt (rseq [rbetween 0 61 (cls ''azAZ09'' ''-''), cls ''azAZ09'' []])]
     in anchored (rseq [rplus (cls ''azAZ09'' (''.!#$%&'' @ [CHR 0x27] @ ''*+/=?^_`{|}~-'')), lit ''@'', label,
                        rstar (rseq [lit ''.'', label])]))"

definition email :: "bool \<Rightarrow> string \<Rightarrow> mres" where
  "email opt value = or_optional opt (rx_test email_rx value)"

definition url :: "bool \<Rightarrow> string \<Rightarrow> mres" where
  "url opt value = or_optional opt (rx_test (url_frame [url_ip, url_domain]) value)"

text \<open>The text of \<open>new Date( value )\<close> is the engine's; \<open>warned\<close> is the closure's flag \<open>called\<close>.\<close>

definition date_method :: "(string \<Rightarrow> string) \<Rightarrow> bool \<Rightarrow> string \<Rightarrow> bool \<Rightarrow> bool \<times> mres" where
  "date_method text_of opt value warned =
     (True, or_optional opt (\<not> rx_test (Alt (lit ''Invalid'') (lit ''NaN'')) (text_of value)))"

definition date_iso_rx :: rx where
  "date_iso_rx = anchored (rseq [rtimes 4 rdigit, cls [] ''/-'',
     Alt (rseq [ropt (lit ''0''), cls ''19'' []]) (rseq [lit ''1'', cls [] ''012'']), cls [] ''/-'',
     ralt [rseq [ropt (lit ''0''), cls ''19'' []], rseq [cls [] ''12'', cls ''09'' []], rseq [lit ''3'', cls [] ''01'']]])"

definition date_iso :: "bool \<Rightarrow> string \<Rightarrow> mres" where
  "date_iso opt value = or_optional opt (rx_test date_iso_rx value)"

definition number_rx :: rx where
  "number_rx = anchored (rseq [
     ropt (Alt (rseq [ropt (lit ''-''), rplus rdigit])
               (rseq [ropt (lit ''-''), rbetween 1 3 rdigit, rplus (rseq [lit '','', rtimes 3 rdigit])])),
     ropt (rseq [lit ''.'', rplus rdigit])])"

definition number :: "bool \<Rightarrow> string \<Rightarrow> mres" where
  "number opt value = or_optional opt (rx_test number_rx value)"

definition digits :: "bool \<Rightarrow> string \<Rightarrow> mres" where
  "digits opt value = or_optional opt (rx_test (anchored (rplus rdigit)) value)"

text \<open>The length of the value or of the selection; it is read before \<open>optional\<close> is asked.\<close>

definition field_length :: "nat \<Rightarrow> doc \<Rightarrow> jsv \<Rightarrow> nat \<Rightarrow> jsv result" where
  "field_length form p value i =
     (case value of
        JArr vs \<Rightarrow> Inr (JNum (Fin (of_nat (length vs))))
      | _ \<Rightarrow> bind_res (get_length form p value i)
               (\<lambda>n. Inr (case n of None \<Rightarrow> JUndef | Some k \<Rightarrow> JNum (Fin (of_nat k)))))"

definition minlength :: "nat \<Rightarrow> doc \<Rightarrow> bool \<Rightarrow> jsv \<Rightarrow> nat \<Rightarrow> jsv \<Rightarrow> mres result" where
  "minlength form p opt value i param =
     bind_res (field_length form p value i) (\<lambda>n. Inr (or_optional opt (js_ge n param)))"

definition maxlength :: "nat \<Rightarrow> doc \<Rightarrow> bool \<Rightarrow> jsv \<Rightarrow> nat \<Rightarrow> jsv \<Rightarrow> mres result" where
  "maxlength form p opt value i param =
     bind_res (field_length form p value i) (\<lambda>n. Inr (or_optional opt (js_le n param)))"

definition rangelength :: "nat \<Rightarrow> doc \<Rightarrow> bool \<Rightarrow> jsv \<Rightarrow> nat \<Rightarrow> jsv \<Rightarrow> jsv \<Rightarrow> mres result" where
  "rangelength form p opt value i p0 p1 =
     bind_res (field_length form p value i) (\<lambda>n. Inr (or_optional opt (js_ge n p0 \<and> js_le n p1)))"

section \<open>Numeric limits\<close>

definition min_method :: "bool \<Rightarrow> jsv \<Rightarrow> jsv \<Rightarrow> mres" where
  "min_method opt value param = or_optional opt (js_ge value param)"

definition max_method :: "bool \<Rightarrow> jsv \<Rightarrow> jsv \<Rightarrow> mres" where
  "max_method opt value param = or_optional opt (js_le value param)"

definition range_method :: "bool \<Rightarrow> jsv \<Rightarrow> jsv \<Rightarrow> jsv \<Rightarrow> mres" where
  "range_method opt value p0 p1 = or_optional opt (js_ge value p0 \<and> js_le value p1)"

definition decimal_places :: "string \<Rightarrow> nat" where
  "decimal_places num =
     (let ds = takeWhile is_digit (rev num); r = dropWhile is_digit (rev num)
      in if ds \<noteq> [] \<and> r \<noteq> [] \<and> hd r = CHR ''.'' then length ds else 0)"

definition to_int :: "nat \<Rightarrow> jsv \<Rightarrow> jnum" where
  "to_int decs num = math_round (num_mult (js_number num) (10 ^ decs))"

definition step_supported :: "jsv \<Rightarrow> bool result" where
  "step_supported type =
     (if \<not> js_truthy type then Inr True
      else bind_res (new_regexp False ([CHR 0x5C] @ ''b'' @ js_text type @ [CHR 0x5C] @ ''b''))
             (\<lambda>re. Inr (rx_test re ''text,number,range'')))"

definition step :: "doc \<Rightarrow> bool \<Rightarrow> jsv \<Rightarrow> nat \<Rightarrow> jsv \<Rightarrow> mres result" where
  "step p opt value i param =
     (let type = attr (p ! i) ''type''
      in bind_res (step_supported type) (\<lambda>ok.
           if \<not> ok then Inl (ErrorMsg (''Step attribute on input type '' @ js_text type @ '' is not supported.''))
           else (let decs = decimal_places (js_text param);
                     valid = \<not> (decimal_places (js_text value) > decs \<or>
                                num_rem (to_int decs value) (to_int decs param) \<noteq> Fin 0)
                 in Inr (or_optional opt valid))))"

section \<open>Equal values\<close>

definition equal_to :: "bool \<Rightarrow> string \<Rightarrow> target option \<Rightarrow> target option \<times> mres" where
  "equal_to = compare_method (=)"

definition not_equal_to :: "bool \<Rightarrow> bool \<Rightarrow> string \<Rightarrow> target option \<Rightarrow> target option \<times> mres" where
  "not_equal_to opt onfocusout value tgt =
     (if opt then (tgt, Mismatch)
      else (let (t, r) = equal_to onfocusout value tgt in (t, Res (\<not> truthy r))))"

end
