(* ===== verification/Settings.thy ===== *)
theory Settings
  imports FormFields
begin

text \<open>
  The settings of a validator with their defaults, what the plugin's tables give (\<open>ctx\<close>), and the
  operations that show validity by the classes of a field: \<open>highlight\<close>, \<open>unhighlight\<close> and
  \<open>resetElements\<close>.
\<close>

text \<open>A callback of the settings: switched off, the one of the defaults, or the author's.\<close>

datatype hook = Off | Default | Custom nat

datatype success_option = SuccessClass string | SuccessFun nat

record settings =
  set_groups :: "(string, jsv) obj"
  set_rules :: "(string, jsv) obj"
  error_class :: string
  pending_class :: string
  valid_class :: string
  error_element :: string
  focus_cleanup :: bool
  focus_on_invalid :: bool
  error_container :: "nat list"
  error_label_container :: "nat list"
  on_submit :: bool
  ignore_selector :: string
  ignore_title :: bool
  debug_on :: bool
  wrapper :: "string option"
  success :: "success_option option"
  error_placement :: "nat option"
  show_errors_hook :: hook
  highlight_hook :: hook
  unhighlight_hook :: hook
  focusin_hook :: hook
  focusout_hook :: hook
  keyup_hook :: hook
  click_hook :: hook
  invalid_handler :: "nat option"
  submit_handler :: "nat option"
  global_normalizer :: "nat option"

definition defaults :: settings where
  "defaults =
     \<lparr>set_groups = [], set_rules = [], error_class = ''error'', pending_class = ''pending'', valid_class = ''valid'',
      error_element = ''label'', focus_cleanup = False, focus_on_invalid = True, error_container = [],
      error_label_container = [], on_submit = True, ignore_selector = '':hidden'', ignore_title = False, debug_on = False,
      wrapper = None, success = None, error_placement = None, show_errors_hook = Default, highlight_hook = Default,
      unhighlight_hook = Default, focusin_hook = Default, focusout_hook = Default, keyup_hook = Default,
      click_hook = Default, invalid_handler = None, submit_handler = None, global_normalizer = None\<rparr>"

type_synonym rules = "(string, jsv) obj"

text \<open>
  A message: a value (a text, or an author's function), or the function that
  \<open>$.validator.format( source )\<close> makes. The messages of a field are one text for all methods or
  one message for each.
\<close>

datatype msg = MVal jsv | MFormat string

datatype custom = CText string | CEach "(string, msg) obj"

text \<open>The plugin's tables that rules and messages depend on.\<close>

record tables =
  class_settings :: "(string, rules) obj"  \<comment> \<open>\<open>$.validator.classRuleSettings\<close>\<close>
  method_names :: "string list"  \<comment> \<open>the keys of \<open>$.validator.methods\<close>\<close>
  default_messages :: "(string, msg) obj"  \<comment> \<open>\<open>$.validator.messages\<close>\<close>
  auto_ranges :: bool  \<comment> \<open>\<open>$.validator.autoCreateRanges\<close>\<close>

text \<open>What a validator does not change: its environment, its form, its settings and the tables.\<close>

record ctx =
  cx_env :: env
  cx_form :: nat
  cx_set :: settings
  cx_tab :: tables

definition targets_of :: "ctx \<Rightarrow> doc \<Rightarrow> string \<Rightarrow> nat list" where
  "targets_of cx p name = find_by_name (cx_form cx) p name"

definition mark :: "ctx \<Rightarrow> (elem \<Rightarrow> elem) \<Rightarrow> nat \<Rightarrow> doc \<Rightarrow> doc" where
  \<comment> \<open>the change for one field, or for the whole group of a radio button\<close>
  "mark cx f i p =
     (if i < length p \<and> elem_type (p ! i) = ''radio'' then update_all (targets_of cx p (elem_name (p ! i))) f p
      else update_at i f p)"

definition highlight :: "ctx \<Rightarrow> string \<Rightarrow> string \<Rightarrow> nat \<Rightarrow> doc \<Rightarrow> doc" where
  "highlight cx errorClass validClass i p =
     (case highlight_hook (cx_set cx) of
        Off \<Rightarrow> p
      | Default \<Rightarrow> mark cx (\<lambda>e. remove_class validClass (add_class errorClass e)) i p
      | Custom k \<Rightarrow> call_classes (cx_env cx) k p i errorClass validClass)"

definition unhighlight :: "ctx \<Rightarrow> string \<Rightarrow> string \<Rightarrow> nat \<Rightarrow> doc \<Rightarrow> doc" where
  "unhighlight cx errorClass validClass i p =
     (case unhighlight_hook (cx_set cx) of
        Off \<Rightarrow> p
      | Default \<Rightarrow> mark cx (\<lambda>e. add_class validClass (remove_class errorClass e)) i p
      | Custom k \<Rightarrow> call_classes (cx_env cx) k p i errorClass validClass)"

text \<open>Without \<open>unhighlight\<close> only the fields themselves are reset, not the groups.\<close>

definition reset_elements :: "ctx \<Rightarrow> nat list \<Rightarrow> doc \<Rightarrow> doc" where
  "reset_elements cx is p =
     (let err = error_class (cx_set cx); val = valid_class (cx_set cx)
      in if unhighlight_hook (cx_set cx) \<noteq> Off then
           foldl (\<lambda>q i. let r = unhighlight cx err [] i q
                        in if i < length r then update_all (targets_of cx r (elem_name (r ! i))) (remove_class val) r else r) p is
         else update_all is (remove_class val) (update_all is (remove_class err) p))"

section \<open>Facts\<close>

text \<open>
  The core of a field: everything but its classes and the two \<open>aria\<close> attributes that validation
  sets. The default hooks and the resetting of classes keep it.
\<close>

definition core_of :: "elem \<Rightarrow> elem" where
  "core_of e =
     e\<lparr>elem_classes := [],
       elem_attrs := filter (\<lambda>(a, v). a \<noteq> ''aria-invalid'' \<and> a \<noteq> ''aria-describedby'') (elem_attrs e)\<rparr>"

definition cores :: "doc \<Rightarrow> doc" where
  "cores p = map core_of p"

definition default_hooks :: "ctx \<Rightarrow> bool" where
  "default_hooks cx \<longleftrightarrow> highlight_hook (cx_set cx) \<in> {Off, Default} \<and> unhighlight_hook (cx_set cx) \<in> {Off, Default}"

lemma length_cores [simp]: "length (cores p) = length p"
  by (simp add: cores_def)

lemma cores_length: "cores p = cores q \<Longrightarrow> length p = length q"
  by (metis length_cores)

lemma cores_nth: "cores p = cores q \<Longrightarrow> i < length p \<Longrightarrow> core_of (p ! i) = core_of (q ! i)"
  by (metis cores_def cores_length nth_map)

lemma core_of_add_class [simp]: "core_of (add_class c e) = core_of e"
  by (simp add: core_of_def add_class_def)

lemma core_of_remove_class [simp]: "core_of (remove_class c e) = core_of e"
  by (simp add: core_of_def remove_class_def)

lemma filter_oset: "\<not> P (a, v) \<Longrightarrow> (\<And>w. P (a, w) = P (a, v)) \<Longrightarrow> filter P (oset m a v) = filter P m"
  by (induction m a v rule: oset.induct) auto

lemma filter_odel: "(\<And>w. \<not> P (a, w)) \<Longrightarrow> filter P (odel m a) = filter P m"
  unfolding odel_def by (induction m) auto

lemma core_of_set_aria [simp]:
  "core_of (set_attr ''aria-invalid'' v e) = core_of e" "core_of (set_attr ''aria-describedby'' v e) = core_of e"
  by (simp_all add: core_of_def set_attr_def filter_oset)

lemma core_of_remove_aria [simp]: "core_of (remove_attr ''aria-invalid'' e) = core_of e"
  by (simp add: core_of_def remove_attr_def filter_odel)

text \<open>What a field's core determines.\<close>

lemma core_of_simps [simp]:
  "elem_name (core_of e) = elem_name e" "elem_type (core_of e) = elem_type e" "elem_form (core_of e) = elem_form e"
  "elem_within (core_of e) = elem_within e" "node_name (core_of e) = node_name e" "elem_val (core_of e) = elem_val e"
  "elem_checked (core_of e) = elem_checked e" "elem_text (core_of e) = elem_text e" "bad_input (core_of e) = bad_input e"
  "selected_count (core_of e) = selected_count e" "elem_parent (core_of e) = elem_parent e" "elem_id (core_of e) = elem_id e"
  "elem_title (core_of e) = elem_title e" "elem_data (core_of e) = elem_data e" "elem_in_label (core_of e) = elem_in_label e"
  by (simp_all add: core_of_def)

lemma core_of_fields:
  assumes "core_of e = core_of e'"
  shows "elem_name e = elem_name e'" "elem_type e = elem_type e'" "elem_form e = elem_form e'"
    "elem_within e = elem_within e'" "node_name e = node_name e'" "elem_val e = elem_val e'"
    "elem_checked e = elem_checked e'" "elem_text e = elem_text e'" "bad_input e = bad_input e'"
    "selected_count e = selected_count e'" "elem_parent e = elem_parent e'" "elem_id e = elem_id e'"
    "elem_title e = elem_title e'" "elem_data e = elem_data e'" "elem_in_label e = elem_in_label e'"
  using assms by (metis core_of_simps)+

lemma oget_filter: "(\<And>v. P (a, v)) \<Longrightarrow> oget (filter P m) a = oget m a"
  by (induction m) (auto simp: oget_def split: if_splits)

lemma core_of_attr:
  assumes "core_of e = core_of e'" "a \<noteq> ''aria-invalid''" "a \<noteq> ''aria-describedby''"
  shows "oget (elem_attrs e) a = oget (elem_attrs e') a"
proof -
  have "oget (elem_attrs (core_of e)) a = oget (elem_attrs e) a" for e
    using assms(2,3) by (simp add: core_of_def oget_filter)
  then show ?thesis using assms(1) by metis
qed

lemma core_of_content_editable: "core_of e = core_of e' \<Longrightarrow> content_editable e = content_editable e'"
  using core_of_attr [of e e' "''contenteditable''"] by (simp add: content_editable_def)

lemma cores_update_all: "(\<And>e. core_of (f e) = core_of e) \<Longrightarrow> cores (update_all is f p) = cores p"
  by (simp add: cores_def map_update_all)

lemma cores_update_at: "(\<And>e. core_of (f e) = core_of e) \<Longrightarrow> cores (update_at i f p) = cores p"
  unfolding cores_def by (rule nth_equalityI) (auto simp: update_at_nth)

lemma cores_mark: "(\<And>e. core_of (f e) = core_of e) \<Longrightarrow> cores (mark cx f i p) = cores p"
  by (simp add: mark_def cores_update_all cores_update_at)

lemma cores_highlight: "default_hooks cx \<Longrightarrow> cores (highlight cx a b i p) = cores p"
  by (auto simp: default_hooks_def highlight_def cores_mark split: hook.splits)

lemma cores_unhighlight: "default_hooks cx \<Longrightarrow> cores (unhighlight cx a b i p) = cores p"
  by (auto simp: default_hooks_def unhighlight_def cores_mark split: hook.splits)

lemma cores_reset_elements:
  assumes "default_hooks cx"
  shows "cores (reset_elements cx is p) = cores p"
proof -
  have "cores (foldl (\<lambda>q i. let r = unhighlight cx err [] i q
      in if i < length r then update_all (targets_of cx r (elem_name (r ! i))) (remove_class val) r else r) p is)
    = cores p" for err val
  proof (induction "is" arbitrary: p)
    case (Cons i "is")
    then show ?case
      by (simp add: Let_def cores_update_all cores_unhighlight assms)
  qed simp
  then show ?thesis
    by (simp add: reset_elements_def Let_def cores_update_all)
qed

text \<open>Names and groups of fields are determined by the cores.\<close>

lemma find_by_name_cores: "find_by_name f (cores p) name = find_by_name f p name"
  unfolding find_by_name_def by (rule filter_cong) (auto simp: cores_def)

lemma cores_find_by_name: "cores p = cores q \<Longrightarrow> find_by_name f p name = find_by_name f q name"
  by (metis find_by_name_cores)

lemma cores_targets: "cores p = cores q \<Longrightarrow> targets_of cx p name = targets_of cx q name"
  unfolding targets_of_def by (rule cores_find_by_name)

end
