(* ===== verification/Rules.thy ===== *)
theory Rules
  imports Settings
begin

text \<open>
  The rules of an element: from its classes, its attributes, its data attributes and the
  settings (\<open>classRules\<close>, \<open>attributeRules\<close>, \<open>dataRules\<close>, \<open>staticRules\<close>), merged and
  normalized, with \<open>required\<close> in front and \<open>remote\<close> at the end; and the operations that change
  them (\<open>rules( "add" )\<close>, \<open>rules( "remove" )\<close>, \<open>addMethod\<close>, \<open>addClassRules\<close>).
\<close>

section \<open>Rules from the page\<close>

text \<open>
  The test \<open>this in classRuleSettings\<close> also holds for a class like \<open>constructor\<close>; what is inherited
  there has no rules to copy.
\<close>

definition class_rules :: "(string, rules) obj \<Rightarrow> elem \<Rightarrow> rules" where
  "class_rules tables_cs e =
     foldl (\<lambda>rs c. case oget tables_cs c of None \<Rightarrow> rs | Some r \<Rightarrow> jextend rs r) [] (elem_classes e)"

definition numeric_method :: "string \<Rightarrow> jsv \<Rightarrow> bool" where
  "numeric_method method type \<longleftrightarrow>
     rx_test (ralt [lit ''min'', lit ''max'', lit ''step'']) method \<and>
     (type = JNull \<or> rx_test (ralt [lit ''number'', lit ''range'', lit ''text'']) (js_text type))"

definition normalize_attribute_rule :: "rules \<Rightarrow> jsv \<Rightarrow> string \<Rightarrow> jsv \<Rightarrow> rules" where
  "normalize_attribute_rule rs type method value =
     (let v = (if numeric_method method type
               then (if js_number value = NaN then JUndef else JNum (js_number value))
               else value)
      in if js_truthy v \<or> v = JNum (Fin 0) then oset rs method v
         else if type = JStr method \<and> type \<noteq> JStr ''range''
         then oset rs (if type = JStr ''date'' then ''dateISO'' else method) (JBool True)
         else rs)"

definition attribute_value :: "elem \<Rightarrow> string \<Rightarrow> jsv" where
  "attribute_value e method =
     (if method = ''required''
      then (let v = get_attribute e method in JBool (js_truthy (if v = JStr [] then JBool True else v)))
      else attr e method)"

text \<open>Some browsers return special numbers for a missing \<open>maxlength\<close>; they are looked for anywhere
  in the text of the number.\<close>

definition no_maxlength :: "jsv \<Rightarrow> bool" where
  "no_maxlength v \<longleftrightarrow> js_truthy v \<and> rx_test (ralt [lit ''-1'', lit ''2147483647'', lit ''524288'']) (js_text v)"

definition attribute_rules :: "string list \<Rightarrow> elem \<Rightarrow> rules" where
  "attribute_rules methods e =
     (let rs = foldl (\<lambda>rs m. normalize_attribute_rule rs (get_attribute e ''type'') m (attribute_value e m)) [] methods
      in if no_maxlength (jget rs ''maxlength'') then odel rs ''maxlength'' else rs)"

definition data_key :: "string \<Rightarrow> string \<Rightarrow> string" where
  "data_key prefix method = prefix @ to_upper (char_at method 0) @ to_lower (substr_from method 1)"

definition data_rules :: "string list \<Rightarrow> elem \<Rightarrow> rules" where
  "data_rules methods e =
     foldl (\<lambda>rs m. let v = jget (elem_data e) (data_key ''rule'' m)
                   in normalize_attribute_rule rs (get_attribute e ''type'') m (if v = JStr [] then JBool True else v))
       [] methods"

text \<open>A string of method names stands for the rules that set each of them to true.\<close>

definition normalize_rule :: "jsv \<Rightarrow> jsv" where
  "normalize_rule data =
     (case data of
        JStr s \<Rightarrow> JObj (foldl (\<lambda>t w. oset t w (JBool True)) [] (rx_split rspace s))
      | d \<Rightarrow> d)"

definition rule_object :: "jsv \<Rightarrow> rules" where
  \<comment> \<open>\<open>v || {}\<close> for a rules object or nothing\<close>
  "rule_object v = (case v of JObj m \<Rightarrow> m | _ \<Rightarrow> [])"

definition static_rules :: "(string, jsv) obj \<Rightarrow> string \<Rightarrow> rules" where
  "static_rules setting_rules name = rule_object (normalize_rule (jget setting_rules name))"

section \<open>Normalizing\<close>

text \<open>
  The first pass: a false rule is dropped; a rule with \<open>param\<close> or \<open>depends\<close> is resolved. When a
  dependency fails the rule is dropped and the field's classes are reset, which a later selector
  can see; a rule that is null stops the pass with an exception.
\<close>

definition keep_rule :: "env \<Rightarrow> doc \<Rightarrow> nat \<Rightarrow> jsv \<Rightarrow> bool" where
  "keep_rule env p i depends =
     (case depends of
        JStr s \<Rightarrow> select env p s \<noteq> []
      | JFun f \<Rightarrow> call_test env f p i
      | _ \<Rightarrow> True)"

definition member :: "jsv \<Rightarrow> string \<Rightarrow> jsv" where
  \<comment> \<open>\<open>v.k\<close> for a property that only plain objects have\<close>
  "member v k = (case v of JObj m \<Rightarrow> jget m k | _ \<Rightarrow> JUndef)"

fun resolve_rules :: "ctx \<Rightarrow> nat \<Rightarrow> rules \<Rightarrow> doc \<Rightarrow> rules result \<times> doc" where
  "resolve_rules cx i [] p = (Inr [], p)"
| "resolve_rules cx i ((prop, val) # rs) p =
     (if val = JBool False then resolve_rules cx i rs p
      else if val = JNull \<or> val = JUndef then (Inl TypeError, p)
      else if js_truthy (member val ''param'') \<or> js_truthy (member val ''depends'') then
        (if keep_rule (cx_env cx) p i (member val ''depends'')
         then (let v = (if member val ''param'' \<noteq> JUndef then member val ''param'' else JBool True);
                   (r, p') = resolve_rules cx i rs p
               in (bind_res r (\<lambda>rs'. Inr ((prop, v) # rs')), p'))
         else resolve_rules cx i rs (reset_elements cx [i] p))
      else (let (r, p') = resolve_rules cx i rs p
            in (bind_res r (\<lambda>rs'. Inr ((prop, val) # rs')), p')))"

definition evaluate_param :: "env \<Rightarrow> doc \<Rightarrow> nat \<Rightarrow> string \<Rightarrow> jsv \<Rightarrow> jsv" where
  "evaluate_param env p i rule v = (case v of JFun f \<Rightarrow> if rule \<noteq> ''normalizer'' then call_param env f p i else v | _ \<Rightarrow> v)"

definition evaluate_params :: "env \<Rightarrow> doc \<Rightarrow> nat \<Rightarrow> rules \<Rightarrow> rules" where
  "evaluate_params env p i rs = map (\<lambda>(k, v). (k, evaluate_param env p i k v)) rs"

definition clean_number :: "rules \<Rightarrow> string \<Rightarrow> rules" where
  "clean_number rs k = (if js_truthy (jget rs k) then oset rs k (JNum (js_number (jget rs k))) else rs)"

definition nth_value :: "jsv list \<Rightarrow> nat \<Rightarrow> jsv" where
  "nth_value vs i = (if i < length vs then vs ! i else JUndef)"

definition clean_range :: "rules \<Rightarrow> string \<Rightarrow> rules" where
  "clean_range rs k =
     (case jget rs k of
        JArr vs \<Rightarrow> oset rs k (JArr [JNum (js_number (nth_value vs 0)), JNum (js_number (nth_value vs 1))])
      | JStr s \<Rightarrow>
          if s = [] then rs
          else (let parts = map JStr (rx_split (rplus (cls [] (ws_chars @ '',''))) (rx_delete (cls [] ''[]'') s))
                in oset rs k (JArr [JNum (js_number (nth_value parts 0)), JNum (js_number (nth_value parts 1))]))
      | _ \<Rightarrow> rs)"

definition present :: "jsv \<Rightarrow> bool" where
  \<comment> \<open>\<open>v != null\<close>\<close>
  "present v \<longleftrightarrow> v \<noteq> JUndef \<and> v \<noteq> JNull"

definition create_range :: "string \<Rightarrow> string \<Rightarrow> string \<Rightarrow> rules \<Rightarrow> rules" where
  "create_range lo hi both rs =
     (if present (jget rs lo) \<and> present (jget rs hi)
      then odel (odel (oset rs both (JArr [jget rs lo, jget rs hi])) lo) hi else rs)"

definition tidy_rules :: "env \<Rightarrow> bool \<Rightarrow> doc \<Rightarrow> nat \<Rightarrow> rules \<Rightarrow> rules" where
  \<comment> \<open>the passes after the dependencies\<close>
  "tidy_rules env auto p i r1 =
     (let r2 = evaluate_params env p i r1;
          r3 = foldl clean_number r2 [''minlength'', ''maxlength''];
          r4 = foldl clean_range r3 [''rangelength'', ''range'']
      in if auto
         then create_range ''minlength'' ''maxlength'' ''rangelength'' (create_range ''min'' ''max'' ''range'' r4)
         else r4)"

definition normalize_rules :: "ctx \<Rightarrow> nat \<Rightarrow> rules \<Rightarrow> doc \<Rightarrow> rules result \<times> doc" where
  "normalize_rules cx i rules0 p =
     (let (r, p') = resolve_rules cx i rules0 p
      in (bind_res r (\<lambda>rs. Inr (tidy_rules (cx_env cx) (auto_ranges (cx_tab cx)) p' i rs)), p'))"

section \<open>The rules of an element\<close>

definition required_first :: "rules \<Rightarrow> rules" where
  "required_first data =
     (if js_truthy (jget data ''required'')
      then jextend [(''required'', jget data ''required'')] (odel data ''required'') else data)"

definition remote_last :: "rules \<Rightarrow> rules" where
  "remote_last data =
     (if js_truthy (jget data ''remote'')
      then jextend (odel data ''remote'') [(''remote'', jget data ''remote'')] else data)"

definition adopt :: "elem \<Rightarrow> elem" where
  \<comment> \<open>form and name of a \<open>contenteditable\<close> element\<close>
  "adopt e =
     (if elem_form e = None \<and> content_editable e
      then e\<lparr>elem_form := (case elem_within e of [] \<Rightarrow> None | f # _ \<Rightarrow> Some f),
             elem_name := (case oget (elem_attrs e) ''name'' of None \<Rightarrow> [] | Some n \<Rightarrow> n)\<rparr>
      else e)"

definition merged_rules :: "tables \<Rightarrow> rules \<Rightarrow> elem \<Rightarrow> rules" where
  "merged_rules tab setting_rules e =
     jextend (jextend (jextend (jextend [] (class_rules (class_settings tab) e))
       (attribute_rules (method_names tab) e)) (data_rules (method_names tab) e)) (static_rules setting_rules (elem_name e))"

text \<open>The result is nothing for an element outside a form.\<close>

definition element_rules :: "ctx \<Rightarrow> rules \<Rightarrow> nat \<Rightarrow> doc \<Rightarrow> rules option result \<times> doc" where
  "element_rules cx setting_rules i p0 =
     (let p = update_at i adopt p0
      in if elem_form (p ! i) = None then (Inr None, p)
         else (let (r, p') = normalize_rules cx i (merged_rules (cx_tab cx) setting_rules (p ! i)) p
               in (bind_res r (\<lambda>rs. Inr (Some (remote_last (required_first rs)))), p')))"

section \<open>Changing the rules\<close>

text \<open>\<open>rules( "add", argument )\<close>: the messages in the argument go to the settings' messages.\<close>

definition rules_add :: "(string, jsv) obj \<Rightarrow> string \<Rightarrow> jsv \<Rightarrow> (string, jsv) obj \<times> (string, jsv) obj option" where
  "rules_add setting_rules name argument =
     (let existing = odel (jextend (static_rules setting_rules name) (rule_object (normalize_rule argument))) ''messages''
      in (oset setting_rules name (JObj existing),
          case member argument ''messages'' of JObj m \<Rightarrow> Some m | _ \<Rightarrow> None))"

text \<open>\<open>rules( "remove", argument )\<close> returns the removed rules; without an argument all of them.\<close>

definition rules_remove :: "(string, jsv) obj \<Rightarrow> string \<Rightarrow> string option \<Rightarrow> (string, jsv) obj \<times> rules" where
  "rules_remove setting_rules name argument =
     (let existing = static_rules setting_rules name
      in case argument of
           None \<Rightarrow> (odel setting_rules name, existing)
         | Some arg \<Rightarrow>
             if arg = [] then (odel setting_rules name, existing)
             else (let ws = rx_split rspace arg;
                       filtered = foldl (\<lambda>f m. oset f m (jget existing m)) [] ws;
                       left = foldl odel existing ws
                   in (case oget setting_rules name of Some (JObj _) \<Rightarrow> oset setting_rules name (JObj left) | _ \<Rightarrow> setting_rules,
                       filtered)))"

text \<open>\<open>addClassRules\<close> and \<open>addMethod\<close>: a method that takes no parameter also becomes a class rule.\<close>

definition core_class_rules :: "(string, rules) obj" where
  "core_class_rules = map (\<lambda>n. (n, [(n, JBool True)]))
     [''required'', ''email'', ''url'', ''date'', ''dateISO'', ''number'', ''digits'', ''creditcard'']"

definition add_class_rules :: "string \<Rightarrow> rules \<Rightarrow> tables \<Rightarrow> tables" where
  "add_class_rules name rs tab = tab\<lparr>class_settings := oset (class_settings tab) name rs\<rparr>"

definition add_class_rules_all :: "(string, rules) obj \<Rightarrow> tables \<Rightarrow> tables" where
  "add_class_rules_all m tab = tab\<lparr>class_settings := oextend (class_settings tab) m\<rparr>"

definition add_method :: "string \<Rightarrow> nat \<Rightarrow> msg option \<Rightarrow> tables \<Rightarrow> tables" where
  "add_method name arity message tab =
     (let names = (if name \<in> set (method_names tab) then method_names tab else method_names tab @ [name]);
          shown = (case message of
                     Some m \<Rightarrow> m
                   | None \<Rightarrow> (case oget (default_messages tab) name of None \<Rightarrow> MVal JUndef | Some m \<Rightarrow> m));
          tab' = tab\<lparr>method_names := names, default_messages := oset (default_messages tab) name shown\<rparr>
      in if arity < 3 then add_class_rules name (rule_object (normalize_rule (JStr name))) tab' else tab')"

end
