(* ===== verification/Messages.thy ===== *)
theory Messages
  imports Rules
begin

text \<open>
  The texts of errors: \<open>$.validator.format\<close>, the table of default messages, and the choice of a
  field's message in \<open>defaultMessage\<close> (own message, data attribute, title, default).
\<close>

section \<open>Filling in parameters\<close>

text \<open>The places \<open>{0}\<close>, \<open>{1}\<close> and so on are replaced one after the other, each in the text that the
  earlier ones left.\<close>

definition place :: "nat \<Rightarrow> string" where
  "place i = ''{'' @ nat_str i @ ''}''"

definition fill_place :: "string \<Rightarrow> nat \<times> string \<Rightarrow> string" where
  "fill_place source p = rx_replace_all (lit (place (fst p))) (\<lambda>_. snd p) source"

definition fill_places :: "string \<Rightarrow> jsv list \<Rightarrow> string" where
  "fill_places source params = foldl fill_place source (zip [0..<length params] (map js_text params))"

definition format :: "string \<Rightarrow> jsv \<Rightarrow> string result" where
  "format source params =
     (case params of
        JUndef \<Rightarrow> Inr source
      | JNull \<Rightarrow> Inl TypeError
      | JArr vs \<Rightarrow> Inr (fill_places source vs)
      | v \<Rightarrow> Inr (fill_places source [v]))"

text \<open>
  The function that \<open>$.validator.format( source )\<close> returns is called with the parameters and the
  field: three arguments, so a single parameter is filled in together with the field.
\<close>

definition format_call :: "string \<Rightarrow> jsv \<Rightarrow> string \<Rightarrow> string result" where
  "format_call source params field_text =
     (case params of
        JUndef \<Rightarrow> Inr source
      | JNull \<Rightarrow> Inl TypeError
      | JArr vs \<Rightarrow> Inr (fill_places source vs)
      | v \<Rightarrow> Inr (fill_places source [v, JStr field_text]))"

section \<open>The message of a field\<close>

definition core_messages :: "(string, msg) obj" where
  "core_messages =
     [(''required'', MVal (JStr ''This field is required.'')),
      (''remote'', MVal (JStr ''Please fix this field.'')),
      (''email'', MVal (JStr ''Please enter a valid email address.'')),
      (''url'', MVal (JStr ''Please enter a valid URL.'')),
      (''date'', MVal (JStr ''Please enter a valid date.'')),
      (''dateISO'', MVal (JStr ''Please enter a valid date (ISO).'')),
      (''number'', MVal (JStr ''Please enter a valid number.'')),
      (''digits'', MVal (JStr ''Please enter only digits.'')),
      (''equalTo'', MVal (JStr ''Please enter the same value again.'')),
      (''maxlength'', MFormat ''Please enter no more than {0} characters.''),
      (''minlength'', MFormat ''Please enter at least {0} characters.''),
      (''rangelength'', MFormat ''Please enter a value between {0} and {1} characters long.''),
      (''range'', MFormat ''Please enter a value between {0} and {1}.''),
      (''max'', MFormat ''Please enter a value less than or equal to {0}.''),
      (''min'', MFormat ''Please enter a value greater than or equal to {0}.''),
      (''step'', MFormat ''Please enter a multiple of {0}.'')]"

definition mget :: "(string, msg) obj \<Rightarrow> string \<Rightarrow> msg" where
  "mget m k = (case oget m k of None \<Rightarrow> MVal JUndef | Some v \<Rightarrow> v)"

definition custom_data_message :: "elem \<Rightarrow> string \<Rightarrow> jsv" where
  "custom_data_message e method =
     (let v = jget (elem_data e) (data_key ''msg'' method)
      in if js_truthy v then v else jget (elem_data e) ''msg'')"

definition custom_message :: "(string, custom) obj \<Rightarrow> string \<Rightarrow> string \<Rightarrow> msg" where
  "custom_message messages name method =
     (case oget messages name of
        None \<Rightarrow> MVal JUndef
      | Some (CText s) \<Rightarrow> MVal (JStr s)
      | Some (CEach m) \<Rightarrow> mget m method)"

fun find_defined :: "msg list \<Rightarrow> msg" where
  "find_defined [] = MVal JUndef"
| "find_defined (m # ms) = (if m \<noteq> MVal JUndef then m else find_defined ms)"

definition place_rx :: rx where
  "place_rx = rseq [ropt (lit ''$''), lit ''{'', rplus rdigit, lit ''}'']"

definition drop_dollar :: "string \<Rightarrow> string" where
  \<comment> \<open>the replacement by the digits in braces\<close>
  "drop_dollar m = (if m \<noteq> [] \<and> hd m = CHR ''$'' then tl m else m)"

definition chosen_message :: "ctx \<Rightarrow> (string, custom) obj \<Rightarrow> elem \<Rightarrow> string \<Rightarrow> msg" where
  "chosen_message cx messages e method =
     find_defined
       [custom_message messages (elem_name e) method,
        MVal (custom_data_message e method),
        if \<not> ignore_title (cx_set cx) \<and> elem_title e \<noteq> [] then MVal (JStr (elem_title e)) else MVal JUndef,
        mget (default_messages (cx_tab cx)) method,
        MVal (JStr (''<strong>Warning: No message defined for '' @ elem_name e @ ''</strong>''))]"

definition default_message :: "ctx \<Rightarrow> (string, custom) obj \<Rightarrow> doc \<Rightarrow> nat \<Rightarrow> string \<Rightarrow> jsv \<Rightarrow> jsv result" where
  "default_message cx messages p i method params =
     (case chosen_message cx messages (p ! i) method of
        MFormat source \<Rightarrow> bind_res (format_call source params (object_text (cx_env cx) (p ! i))) (\<lambda>s. Inr (JStr s))
      | MVal (JFun k) \<Rightarrow> Inr (call_msg (cx_env cx) k params i)
      | MVal v \<Rightarrow>
          if rx_test place_rx (js_text v) then
            (case v of
               JStr s \<Rightarrow> bind_res (format (rx_replace_all place_rx drop_dollar s) params) (\<lambda>t. Inr (JStr t))
             | _ \<Rightarrow> Inl TypeError)
          else Inr v)"

end
