(* ===== verification/Validator.thy ===== *)
theory Validator
  imports Messages
begin

text \<open>
  The state of a validator and its steps: the fields and nodes of the page, the settings that
  change (rules and messages), the lists that a validation fills, the requests under way. A step
  takes the state, may throw, and keeps what it changed before it threw.
\<close>

section \<open>State\<close>

text \<open>What \<open>previousValue\<close> stores at a field.\<close>

record prev =
  old_value :: "string option"
  prev_valid :: bool
  prev_message :: jsv
  original_message :: msg

text \<open>What leaves the validator: events it triggers, requests, calls of the author's functions.\<close>

datatype effect =
    InvalidForm
  | FocusField nat
  | ShowErrorsCall "(string, jsv) obj" "err list"
  | AjaxSend nat nat jsv jsv  \<comment> \<open>field, its stored object, value, parameter\<close>
  | AjaxAbort string
  | SubmitHandlerCall nat
  | NativeSubmit
  | HookCall nat nat
  | EventsOff

record vst =
  page_doc :: doc
  page_nodes :: nodes
  now_rules :: rules
  now_messages :: "(string, custom) obj"
  groups :: "(string, string) obj"
  submitted :: "(string, jsv) obj"
  invalid :: "(string, jsv) obj"
  pending :: "(string, jsv) obj"
  error_map :: "(string, jsv) obj"
  error_list :: "err list"
  success_list :: "nat list"
  current_elements :: "nat list"
  to_show :: "nat list"
  to_hide :: "nat list"
  pending_request :: int
  form_submitted :: bool
  cancel_submit :: bool
  submit_button :: "nat option"
  last_active :: "nat option"
  previous :: "(nat, nat) obj"  \<comment> \<open>the place in \<open>prevs\<close> of a field's \<open>previousValue\<close>\<close>
  prevs :: "prev list"  \<comment> \<open>these objects; a request keeps its own also when the field forgets it\<close>
  ports :: "string list"  \<comment> \<open>the keys of \<open>pendingRequests\<close>\<close>
  effects :: "effect list"

type_synonym 'a vm = "vst \<Rightarrow> 'a result \<times> vst"

definition ret :: "'a \<Rightarrow> 'a vm" where
  "ret a s = (Inr a, s)"

definition throw :: "exn \<Rightarrow> 'a vm" where
  "throw e s = (Inl e, s)"

definition bindv :: "'a vm \<Rightarrow> ('a \<Rightarrow> 'b vm) \<Rightarrow> 'b vm" where
  "bindv m f s = (case m s of (Inl e, t) \<Rightarrow> (Inl e, t) | (Inr a, t) \<Rightarrow> f a t)"

definition andthen :: "unit vm \<Rightarrow> 'b vm \<Rightarrow> 'b vm" where
  "andthen m n = bindv m (\<lambda>_. n)"

definition reading :: "(vst \<Rightarrow> 'a) \<Rightarrow> 'a vm" where
  "reading f s = (Inr (f s), s)"

definition change :: "(vst \<Rightarrow> vst) \<Rightarrow> unit vm" where
  "change f s = (Inr (), f s)"

definition fallible :: "(vst \<Rightarrow> 'a result) \<Rightarrow> 'a vm" where
  "fallible f s = (f s, s)"

definition on_doc :: "(vst \<Rightarrow> doc \<Rightarrow> 'a result \<times> doc) \<Rightarrow> 'a vm" where
  "on_doc f s = (let (r, p) = f s (page_doc s) in (r, s\<lparr>page_doc := p\<rparr>))"

primrec each :: "('a \<Rightarrow> unit vm) \<Rightarrow> 'a list \<Rightarrow> unit vm" where
  "each f [] = ret ()"
| "each f (x # xs) = andthen (f x) (each f xs)"

definition steps :: "unit vm list \<Rightarrow> unit vm" where
  "steps ms = each (\<lambda>m. m) ms"

definition whenv :: "bool \<Rightarrow> unit vm \<Rightarrow> unit vm" where
  "whenv b m = (if b then m else ret ())"

definition effect :: "effect \<Rightarrow> unit vm" where
  "effect x = change (\<lambda>s. s\<lparr>effects := effects s @ [x]\<rparr>)"

section \<open>Reasoning about steps\<close>

text \<open>
  \<open>keeps I m\<close>: the step keeps \<open>I\<close> whether or not it throws. \<open>frame g m\<close>: it leaves the component
  \<open>g\<close> as it is.
\<close>

definition keeps :: "(vst \<Rightarrow> bool) \<Rightarrow> 'a vm \<Rightarrow> bool" where
  "keeps I m \<longleftrightarrow> (\<forall>s. I s \<longrightarrow> I (snd (m s)))"

definition frame :: "(vst \<Rightarrow> 'c) \<Rightarrow> 'a vm \<Rightarrow> bool" where
  "frame g m \<longleftrightarrow> (\<forall>s. g (snd (m s)) = g s)"

named_theorems stepping \<open>steps as state transformers\<close>
named_theorems keeping \<open>what a step keeps\<close>

lemma frameD: "frame g m \<Longrightarrow> m s = (r, t) \<Longrightarrow> g t = g s"
  by (metis frame_def snd_conv)

lemma frame_snd: "frame g m \<Longrightarrow> g (snd (m s)) = g s"
  by (simp add: frame_def)

lemma keepsD: "keeps I m \<Longrightarrow> I s \<Longrightarrow> m s = (r, t) \<Longrightarrow> I t"
  by (metis keeps_def snd_conv)

lemma frame_keeps: "frame g m \<Longrightarrow> keeps (\<lambda>s. P (g s)) m"
  by (simp add: frame_def keeps_def)

lemma steps_basic [stepping]:
  "ret a s = (Inr a, s)" "throw e s = (Inl e, s)" "reading f s = (Inr (f s), s)"
  "change u s = (Inr (), u s)" "fallible h s = (h s, s)"
  by (simp_all add: ret_def throw_def reading_def change_def fallible_def)

lemma bindv_Inr [stepping]: "m s = (Inr a, t) \<Longrightarrow> bindv m f s = f a t"
  by (simp add: bindv_def)

lemma bindv_Inl [stepping]: "m s = (Inl e, t) \<Longrightarrow> bindv m f s = (Inl e, t)"
  by (simp add: bindv_def)

lemma bindv_reading [stepping, simp]: "bindv (reading g) f s = f (g s) s"
  by (simp add: bindv_def reading_def)

lemma bindv_fallible [stepping]: "bindv (fallible g) f s = (case g s of Inl e \<Rightarrow> (Inl e, s) | Inr a \<Rightarrow> f a s)"
  by (simp add: bindv_def fallible_def split: sum.splits)

lemma andthen_change [stepping, simp]: "andthen (change u) n s = n (u s)"
  by (simp add: andthen_def bindv_def change_def)

lemma andthen_ret [stepping, simp]: "andthen (ret ()) n = n"
  by (rule ext) (simp add: andthen_def bindv_def ret_def)

lemma bindv_eq_Inr:
  "bindv m f s = (Inr b, u) \<longleftrightarrow> (\<exists>a t. m s = (Inr a, t) \<and> f a t = (Inr b, u))"
  by (auto simp: bindv_def split: prod.splits sum.splits)

lemma andthen_eq_Inr:
  "andthen m n s = (Inr b, u) \<longleftrightarrow> (\<exists>t. m s = (Inr (), t) \<and> n t = (Inr b, u))"
  by (simp add: andthen_def bindv_eq_Inr)

text \<open>The rules for \<open>keeps\<close>; \<open>frame g\<close> is \<open>keeps\<close> of every value of \<open>g\<close>.\<close>

lemma frame_iff_keeps: "frame g m \<longleftrightarrow> (\<forall>x. keeps (\<lambda>s. g s = x) m)"
  by (auto simp: frame_def keeps_def)

lemma keeps_basic [keeping]:
  "keeps I (ret a)" "keeps I (throw e)" "keeps I (reading f)" "keeps I (fallible h)"
  by (simp_all add: keeps_def stepping)

lemma keeps_change: "(\<And>s. I s \<Longrightarrow> I (u s)) \<Longrightarrow> keeps I (change u)"
  by (simp add: keeps_def stepping)

lemma keeps_bindv [keeping]:
  assumes "keeps I m" "\<And>a. keeps I (f a)"
  shows "keeps I (bindv m f)"
proof -
  have "I (snd (bindv m f s))" if "I s" for s
  proof (cases "m s")
    case (Pair r t)
    then have t: "I t" using assms(1) that by (metis keepsD)
    show ?thesis
    proof (cases r)
      case (Inr a)
      then show ?thesis using Pair t assms(2) [of a] by (simp add: bindv_def keeps_def)
    qed (simp add: bindv_def Pair t)
  qed
  then show ?thesis by (simp add: keeps_def)
qed

lemma keeps_reading_then: "(\<And>s. keeps I (f (g s))) \<Longrightarrow> keeps I (bindv (reading g) f)"
  by (simp add: keeps_def)

lemma keeps_andthen [keeping]: "keeps I m \<Longrightarrow> keeps I n \<Longrightarrow> keeps I (andthen m n)"
  unfolding andthen_def by (rule keeps_bindv)

lemma keeps_each [keeping]: "(\<And>x. keeps I (f x)) \<Longrightarrow> keeps I (each f xs)"
  by (induction xs) (auto intro: keeping)

lemma keeps_whenv [keeping]: "keeps I m \<Longrightarrow> keeps I (whenv b m)"
  by (simp add: whenv_def keeps_basic)

lemma keeps_if [keeping]: "keeps I m \<Longrightarrow> keeps I n \<Longrightarrow> keeps I (if b then m else n)"
  by simp

lemma keeps_steps_Nil [keeping]: "keeps I (steps [])"
  by (simp add: steps_def keeps_basic)

lemma keeps_steps_Cons [keeping]: "keeps I m \<Longrightarrow> keeps I (steps ms) \<Longrightarrow> keeps I (steps (m # ms))"
  by (simp add: steps_def keeps_andthen)

lemma keeps_on_doc: "(\<And>s p. I s \<Longrightarrow> I (s\<lparr>page_doc := p\<rparr>)) \<Longrightarrow> keeps I (on_doc f)"
  by (simp add: keeps_def on_doc_def split: prod.splits)

lemma keeps_effect: "(\<And>s. I s \<Longrightarrow> I (s\<lparr>effects := effects s @ [x]\<rparr>)) \<Longrightarrow> keeps I (effect x)"
  unfolding effect_def by (rule keeps_change)

end
