(* ===== verification/Labels.thy ===== *)
theory Labels
  imports Validator
begin

text \<open>
  The error labels: which nodes are errors of which field, how a label is made, placed, filled and
  linked to its field, what is shown and hidden, and \<open>showErrors\<close>.
\<close>

section \<open>Finding labels\<close>

definition containers :: "ctx \<Rightarrow> nat list" where
  "containers cx = remdups (error_container (cx_set cx) @ error_label_container (cx_set cx))"

definition join_places :: "nat list \<Rightarrow> nat list \<Rightarrow> nat list" where
  \<comment> \<open>\<open>add\<close> of two selections\<close>
  "join_places xs ys = xs @ filter (\<lambda>y. y \<notin> set xs) ys"

definition drop_places :: "nat list \<Rightarrow> nat list \<Rightarrow> nat list" where
  \<comment> \<open>\<open>not\<close>\<close>
  "drop_places xs ys = filter (\<lambda>x. x \<notin> set ys) xs"

definition in_error_context :: "ctx \<Rightarrow> node \<Rightarrow> bool" where
  "in_error_context cx n =
     (if error_label_container (cx_set cx) \<noteq> [] then n_home n \<in> Inside ` set (error_label_container (cx_set cx))
      else n_in_form n)"

definition is_error_node :: "ctx \<Rightarrow> node \<Rightarrow> bool" where
  "is_error_node cx n \<longleftrightarrow>
     n_tag n = error_element (cx_set cx) \<and> in_error_context cx n \<and>
     set (split_on CHR '' '' (error_class (cx_set cx))) \<subseteq> set (n_classes n)"

definition errors :: "ctx \<Rightarrow> nodes \<Rightarrow> nat list" where
  "errors cx ns = filter (\<lambda>k. is_error_node cx (ns ! k)) [0..<length ns]"

definition id_or_name :: "(string, string) obj \<Rightarrow> elem \<Rightarrow> string" where
  "id_or_name gs e =
     (case oget gs (elem_name e) of
        Some (g # g') \<Rightarrow> g # g'
      | _ \<Rightarrow> if checkable e then elem_name e else if elem_id e \<noteq> [] then elem_id e else elem_name e)"

text \<open>The ids in \<open>aria-describedby\<close>.\<close>

definition describers :: "elem \<Rightarrow> string list" where
  "describers e =
     (case oget (elem_attrs e) ''aria-describedby'' of
        None \<Rightarrow> [] | Some s \<Rightarrow> if s = [] then [] else rx_split (rplus rspace) s)"

definition label_matches :: "string \<Rightarrow> string list \<Rightarrow> node \<Rightarrow> bool" where
  "label_matches name ids n \<longleftrightarrow>
     (n_tag n = ''label'' \<and> n_for n = Some name) \<or> n_in_label n = Some name \<or> n_id n \<in> set ids"

text \<open>
  A field whose name \<open>Object.prototype\<close> knows finds an inherited property in \<open>groups\<close>, which is no
  string to escape.
\<close>

definition errors_for :: "ctx \<Rightarrow> nat option \<Rightarrow> vst \<Rightarrow> nat list result" where
  "errors_for cx i s =
     (case i of
        None \<Rightarrow> Inl TypeError
      | Some k \<Rightarrow>
          (let e = page_doc s ! k
           in if elem_name e \<in> set prototype_names \<and> oget (groups s) (elem_name e) = None then Inl TypeError
              else Inr (filter (\<lambda>n. label_matches (id_or_name (groups s) e) (describers e) (page_nodes s ! n))
                          (errors cx (page_nodes s)))))"

section \<open>Showing and hiding\<close>

definition set_shown :: "ctx \<Rightarrow> bool \<Rightarrow> node \<Rightarrow> node" where
  \<comment> \<open>\<open>addWrapper( n ).show()\<close> or \<open>.hide()\<close>\<close>
  "set_shown cx b n =
     n\<lparr>n_shown := b,
       n_wrapper := (case n_wrapper n of
                       Some (t, w) \<Rightarrow> if wrapper (cx_set cx) = Some t then Some (t, b) else Some (t, w)
                     | None \<Rightarrow> None)\<rparr>"

definition set_text :: "string \<Rightarrow> node \<Rightarrow> node" where
  "set_text t n = n\<lparr>n_html := t\<rparr>"

definition on_nodes :: "(nodes \<Rightarrow> nodes) \<Rightarrow> unit vm" where
  "on_nodes f = change (\<lambda>s. s\<lparr>page_nodes := f (page_nodes s)\<rparr>)"

definition hide_these :: "ctx \<Rightarrow> nat list \<Rightarrow> unit vm" where
  "hide_these cx ks =
     on_nodes (\<lambda>ns. update_all ks (set_shown cx False) (update_all (drop_places ks (containers cx)) (set_text []) ns))"

definition hide_errors :: "ctx \<Rightarrow> unit vm" where
  "hide_errors cx = bindv (reading to_hide) (hide_these cx)"

section \<open>One label\<close>

definition label_classes :: "settings \<Rightarrow> node \<Rightarrow> node" where
  "label_classes st n = node_add_class (error_class st) (node_remove_class (valid_class st) n)"

definition new_label :: "ctx \<Rightarrow> string \<Rightarrow> jsv \<Rightarrow> node" where
  "new_label cx elementID message =
     \<lparr>n_tag = error_element (cx_set cx), n_id = elementID @ ''-error'', n_for = None, n_in_label = None, n_attrs = [],
      n_classes = with_classes [] (class_words (error_class (cx_set cx))),
      n_html = (if js_truthy message then js_text message else []), n_shown = True,
      n_wrapper = map_option (\<lambda>t. (t, True)) (wrapper (cx_set cx)), n_home = Gone, n_in_form = False,
      n_container = None\<rparr>"

definition put_inside :: "nat \<Rightarrow> nat \<Rightarrow> nodes \<Rightarrow> nodes" where
  \<comment> \<open>\<open>appendTo\<close> a node\<close>
  "put_inside c k ns =
     update_at k (\<lambda>n. n\<lparr>n_home := Inside c, n_in_form := n_in_form (ns ! c),
       n_in_label := (if n_tag (ns ! c) = ''label'' then n_for (ns ! c) else n_in_label (ns ! c))\<rparr>) ns"

definition put_beside :: "ctx \<Rightarrow> doc \<Rightarrow> nat \<Rightarrow> nat \<Rightarrow> nodes \<Rightarrow> nodes" where
  \<comment> \<open>\<open>insertAfter( element )\<close>\<close>
  "put_beside cx p i k ns =
     update_at k (\<lambda>n. n\<lparr>n_home := Beside i, n_in_form := cx_form cx \<in> set (elem_within (p ! i)),
       n_in_label := elem_in_label (p ! i)\<rparr>) ns"

definition place_label :: "ctx \<Rightarrow> nat \<Rightarrow> nat \<Rightarrow> vst \<Rightarrow> nodes" where
  "place_label cx i k s =
     (let ns = page_nodes s
      in if error_label_container (cx_set cx) \<noteq> [] then put_inside (last (error_label_container (cx_set cx))) k ns
         else (case error_placement (cx_set cx) of
                 Some f \<Rightarrow> call_place (cx_env cx) f (page_doc s) ns k i
               | None \<Rightarrow> put_beside cx (page_doc s) i k ns))"

definition mentions :: "string \<Rightarrow> string \<Rightarrow> bool result" where
  \<comment> \<open>does \<open>describedBy\<close> have the id as a word\<close>
  "mentions described_by error_id =
     bind_res (new_regexp False ([CHR 0x5C] @ ''b'' @ escape_css_meta error_id @ [CHR 0x5C] @ ''b''))
       (\<lambda>re. Inr (rx_test re described_by))"

definition extend_description :: "jsv \<Rightarrow> string \<Rightarrow> string result" where
  "extend_description described_by error_id =
     (case described_by of
        JStr (c # cs) \<Rightarrow>
          bind_res (mentions (c # cs) error_id)
            (\<lambda>b. Inr (if b then c # cs else (c # cs) @ '' '' @ error_id))
      | _ \<Rightarrow> Inr error_id)"

definition group_names :: "(string, string) obj \<Rightarrow> string \<Rightarrow> string list" where
  "group_names gs name =
     (case oget gs name of
        Some (c # cs) \<Rightarrow> map fst (filter (\<lambda>(n, g). g = c # cs) gs)
      | _ \<Rightarrow> [])"

text \<open>The link from the field to its label: \<open>for\<close> at a label, otherwise \<open>aria-describedby\<close>.\<close>

definition describe_field :: "ctx \<Rightarrow> nat \<Rightarrow> nat \<Rightarrow> jsv \<Rightarrow> unit vm" where
  "describe_field cx i k described_by =
     bindv (fallible (\<lambda>s. extend_description described_by (n_id (page_nodes s ! k)))) (\<lambda>d.
       change (\<lambda>s. let err = n_id (page_nodes s ! k);
                       p = update_at i (set_attr ''aria-describedby'' d) (page_doc s);
                       members = concat (map (targets_of cx p) (group_names (groups s) (elem_name (p ! i))))
                   in s\<lparr>page_doc := update_all members (set_attr ''aria-describedby'' err) p\<rparr>))"

definition link_label :: "ctx \<Rightarrow> nat \<Rightarrow> nat \<Rightarrow> string \<Rightarrow> jsv \<Rightarrow> unit vm" where
  "link_label cx i k elementID described_by =
     bindv (reading (\<lambda>s. page_nodes s ! k)) (\<lambda>n.
       if n_tag n = ''label'' then on_nodes (update_at k (\<lambda>n. n\<lparr>n_for := Some elementID\<rparr>))
       else whenv (n_in_label n \<noteq> Some elementID) (describe_field cx i k described_by))"

definition create_label :: "ctx \<Rightarrow> nat \<Rightarrow> jsv \<Rightarrow> nat list vm" where
  "create_label cx i message =
     bindv (reading (\<lambda>s. (length (page_nodes s), id_or_name (groups s) (page_doc s ! i),
                          attr (page_doc s ! i) ''aria-describedby'')))
       (\<lambda>(k, elementID, described_by).
          bindv (steps
            [on_nodes (\<lambda>ns. ns @ [new_label cx elementID message]),
             change (\<lambda>s. s\<lparr>page_nodes := place_label cx i k s\<rparr>),
             link_label cx i k elementID described_by])
          (\<lambda>_. ret [k]))"

definition refresh_labels :: "ctx \<Rightarrow> nat list \<Rightarrow> jsv \<Rightarrow> nat list vm" where
  "refresh_labels cx ks message =
     bindv (on_nodes (update_all ks (\<lambda>n. (if message = JUndef then label_classes (cx_set cx) n
                                          else set_text (js_text message) (label_classes (cx_set cx) n)))))
       (\<lambda>_. ret ks)"

definition mark_success :: "ctx \<Rightarrow> nat \<Rightarrow> nat list \<Rightarrow> unit vm" where
  "mark_success cx i ks =
     (case success (cx_set cx) of
        None \<Rightarrow> ret ()
      | Some f \<Rightarrow> steps
          [on_nodes (update_all ks (set_text [])),
           on_nodes (\<lambda>ns. case f of
                            SuccessClass c \<Rightarrow> update_all ks (node_add_class c) ns
                          | SuccessFun g \<Rightarrow> call_success (cx_env cx) g ns ks i)])"

definition show_label :: "ctx \<Rightarrow> nat option \<Rightarrow> jsv \<Rightarrow> unit vm" where
  "show_label cx target message =
     bindv (fallible (errors_for cx target)) (\<lambda>err.
       (case target of
          None \<Rightarrow> throw TypeError
        | Some i \<Rightarrow>
            bindv (if err \<noteq> [] then refresh_labels cx err message else create_label cx i message) (\<lambda>ks.
              steps [whenv (\<not> js_truthy message) (mark_success cx i ks),
                     change (\<lambda>s. s\<lparr>to_show := join_places (to_show s) ks\<rparr>)])))"

section \<open>All labels\<close>

definition highlight_error :: "ctx \<Rightarrow> err \<Rightarrow> unit vm" where
  "highlight_error cx e =
     whenv (highlight_hook (cx_set cx) \<noteq> Off)
       (case err_elem e of
          None \<Rightarrow> throw TypeError
        | Some i \<Rightarrow> change (\<lambda>s. s\<lparr>page_doc := highlight cx (error_class (cx_set cx)) (valid_class (cx_set cx)) i (page_doc s)\<rparr>))"

definition unhighlight_field :: "ctx \<Rightarrow> nat \<Rightarrow> unit vm" where
  "unhighlight_field cx i =
     change (\<lambda>s. s\<lparr>page_doc := unhighlight cx (error_class (cx_set cx)) (valid_class (cx_set cx)) i (page_doc s)\<rparr>)"

definition invalid_elements :: "vst \<Rightarrow> nat list" where
  "invalid_elements s = concat (map (\<lambda>e. case err_elem e of None \<Rightarrow> [] | Some i \<Rightarrow> [i]) (error_list s))"

definition valid_elements :: "vst \<Rightarrow> nat list" where
  "valid_elements s = drop_places (current_elements s) (invalid_elements s)"

definition default_show_errors :: "ctx \<Rightarrow> unit vm" where
  "default_show_errors cx = steps
     [bindv (reading error_list)
        (each (\<lambda>e. steps [highlight_error cx e, show_label cx (err_elem e) (err_message e)])),
      change (\<lambda>s. if error_list s \<noteq> [] then s\<lparr>to_show := join_places (to_show s) (containers cx)\<rparr> else s),
      whenv (success (cx_set cx) \<noteq> None)
        (bindv (reading success_list) (each (\<lambda>i. show_label cx (Some i) JUndef))),
      whenv (unhighlight_hook (cx_set cx) \<noteq> Off)
        (bindv (reading valid_elements) (each (unhighlight_field cx))),
      change (\<lambda>s. s\<lparr>to_hide := drop_places (to_hide s) (to_show s)\<rparr>),
      hide_errors cx,
      bindv (reading to_show) (\<lambda>ks. on_nodes (update_all ks (set_shown cx True)))]"

text \<open>\<open>showErrors( errors )\<close>: the given messages by name; the author's function may replace the
  default way of showing.\<close>

definition first_named :: "ctx \<Rightarrow> doc \<Rightarrow> string \<Rightarrow> nat option" where
  "first_named cx p name = (case targets_of cx p name of [] \<Rightarrow> None | i # _ \<Rightarrow> Some i)"

definition adopt_errors :: "ctx \<Rightarrow> (string, jsv) obj \<Rightarrow> vst \<Rightarrow> vst" where
  "adopt_errors cx errs s =
     (let m = jextend (error_map s) errs
      in s\<lparr>error_map := m,
           error_list := map (\<lambda>(name, message). \<lparr>err_message = message, err_elem = first_named cx (page_doc s) name,
                                err_method = None\<rparr>) m,
           success_list := filter (\<lambda>i. \<not> js_in (elem_name (page_doc s ! i)) errs) (success_list s)\<rparr>)"

definition show_errors :: "ctx \<Rightarrow> (string, jsv) obj option \<Rightarrow> unit vm" where
  "show_errors cx errs = steps
     [case errs of None \<Rightarrow> ret () | Some m \<Rightarrow> change (adopt_errors cx m),
      case show_errors_hook (cx_set cx) of
        Custom _ \<Rightarrow> bindv (reading (\<lambda>s. ShowErrorsCall (error_map s) (error_list s))) effect
      | _ \<Rightarrow> default_show_errors cx]"

section \<open>What showing keeps\<close>

text \<open>
  The interface of presentation: a predicate on the state that does not depend on how validity is
  shown. It may read the cores of the fields but not classes or \<open>aria\<close> attributes, and none of the
  effects that only announce something. The steps of this theory keep every such predicate.
\<close>

fun announcing :: "effect \<Rightarrow> bool" where
  "announcing InvalidForm = True"
| "announcing (FocusField i) = True"
| "announcing (ShowErrorsCall m l) = True"
| "announcing (HookCall k i) = True"
| "announcing EventsOff = True"
| "announcing _ = False"

locale presentation =
  fixes cx :: ctx and I :: "vst \<Rightarrow> bool"
  assumes hooks: "I s \<Longrightarrow> default_hooks cx"
    and doc: "I s \<Longrightarrow> cores p = cores (page_doc s) \<Longrightarrow> I (s\<lparr>page_doc := p\<rparr>)"
    and nodes: "I s \<Longrightarrow> I (s\<lparr>page_nodes := ns\<rparr>)"
    and shown: "I s \<Longrightarrow> I (s\<lparr>to_show := x\<rparr>)"
    and hidden: "I s \<Longrightarrow> I (s\<lparr>to_hide := x\<rparr>)"
    and announced: "I s \<Longrightarrow> announcing e \<Longrightarrow> I (s\<lparr>effects := effects s @ [e]\<rparr>)"
begin

lemma keeps_doc: "(\<And>s. I s \<Longrightarrow> cores (f s) = cores (page_doc s)) \<Longrightarrow> keeps I (change (\<lambda>s. s\<lparr>page_doc := f s\<rparr>))"
  by (auto intro!: keeps_change doc)

lemma keeps_nodes [keeping]: "keeps I (change (\<lambda>s. s\<lparr>page_nodes := g s\<rparr>))" "keeps I (on_nodes u)"
  by (auto simp: on_nodes_def intro!: keeps_change nodes)

lemma keeps_shown [keeping]: "keeps I (change (\<lambda>s. s\<lparr>to_show := h s\<rparr>))"
  "keeps I (change (\<lambda>s. if b s then s\<lparr>to_show := h s\<rparr> else s))"
  by (auto intro!: keeps_change shown)

lemma keeps_hidden [keeping]: "keeps I (change (\<lambda>s. s\<lparr>to_hide := h s\<rparr>))"
  "keeps I (change (\<lambda>s. if b s then s\<lparr>to_hide := h s\<rparr> else s))"
  by (auto intro!: keeps_change hidden)

lemma keeps_announced [keeping]: "announcing e \<Longrightarrow> keeps I (effect e)"
  by (auto simp: effect_def intro!: keeps_change announced)

lemma keeps_hide_these [keeping]: "keeps I (hide_these cx ks)"
  unfolding hide_these_def by (intro keeping)

lemma keeps_hide_errors [keeping]: "keeps I (hide_errors cx)"
  unfolding hide_errors_def by (intro keeping)

lemma keeps_describe_field [keeping]: "keeps I (describe_field cx i k d)"
  unfolding describe_field_def
  by (intro keeping keeps_change) (auto simp: Let_def cores_update_all cores_update_at intro!: doc)

lemma keeps_link_label [keeping]: "keeps I (link_label cx i k e d)"
  unfolding link_label_def by (intro keeping)

lemma keeps_create_label [keeping]: "keeps I (create_label cx i m)"
  unfolding create_label_def case_prod_beta by (intro keeping)

lemma keeps_mark_success [keeping]: "keeps I (mark_success cx i ks)"
  unfolding mark_success_def by (cases "success (cx_set cx)") (auto intro!: keeping)

lemma keeps_show_label [keeping]: "keeps I (show_label cx t m)"
  unfolding show_label_def refresh_labels_def by (cases t) (auto intro!: keeping)

lemma keeps_highlight_error [keeping]: "keeps I (highlight_error cx e)"
  unfolding highlight_error_def
  by (cases "err_elem e") (auto intro!: keeping keeps_doc cores_highlight intro: hooks)

lemma keeps_unhighlight_field [keeping]: "keeps I (unhighlight_field cx i)"
  unfolding unhighlight_field_def by (rule keeps_doc) (rule cores_unhighlight, rule hooks)

lemma keeps_default_show_errors [keeping]: "keeps I (default_show_errors cx)"
  unfolding default_show_errors_def by (intro keeping)

lemma keeps_show_current [keeping]: "keeps I (show_errors cx None)"
  unfolding show_errors_def by (cases "show_errors_hook (cx_set cx)") (auto intro!: keeps_reading_then keeping)

end

end
