(* ===== verification/Checking.thy ===== *)
theory Checking
  imports Labels
begin

text \<open>
  Validating: which fields a form has (\<open>elements\<close>), the rules of one field in their order
  (\<open>check\<close>), one field with its group (\<open>element\<close>), the whole form (\<open>form\<close>), resetting, and the
  focus on the first error. The methods are a table from names to steps.
\<close>

type_synonym vmethod = "jsv \<Rightarrow> nat \<Rightarrow> jsv \<Rightarrow> mres vm"

type_synonym methods = "(string, vmethod) obj"

text \<open>What \<open>check\<close> and \<open>element\<close> return: a boolean or nothing.\<close>

datatype verdict = Checked bool | Unchecked

fun verdict_and :: "verdict \<Rightarrow> verdict \<Rightarrow> verdict" where
  "verdict_and (Checked True) b = b"
| "verdict_and a b = a"

section \<open>Internals\<close>

definition reset_internals :: "vst \<Rightarrow> vst" where
  "reset_internals s = s\<lparr>success_list := [], error_list := [], error_map := [], to_show := [], to_hide := []\<rparr>"

definition reset_lists :: "vst \<Rightarrow> vst" where
  "reset_lists s = (reset_internals s)\<lparr>current_elements := []\<rparr>"

definition prepare_form :: "ctx \<Rightarrow> vst \<Rightarrow> vst" where
  "prepare_form cx s =
     (let t = reset_lists s in t\<lparr>to_hide := join_places (errors cx (page_nodes t)) (containers cx)\<rparr>)"

definition prepare_element :: "ctx \<Rightarrow> nat \<Rightarrow> unit vm" where
  "prepare_element cx i = andthen (change reset_lists)
     (bindv (fallible (errors_for cx (Some i))) (\<lambda>ks. change (\<lambda>s. s\<lparr>to_hide := ks\<rparr>)))"

definition object_length :: "(string, jsv) obj \<Rightarrow> nat" where
  "object_length m = length (filter (\<lambda>(k, v). v \<noteq> JUndef \<and> v \<noteq> JNull \<and> v \<noteq> JBool False) m)"

definition number_of_invalids :: "vst \<Rightarrow> nat" where
  "number_of_invalids s = object_length (invalid s)"

definition size_of_errors :: "vst \<Rightarrow> nat" where
  "size_of_errors s = length (error_list s)"

definition valid_now :: "vst \<Rightarrow> bool" where
  "valid_now s \<longleftrightarrow> size_of_errors s = 0"

section \<open>The fields of the form\<close>

definition rules_of :: "ctx \<Rightarrow> nat \<Rightarrow> rules option vm" where
  "rules_of cx i = on_doc (\<lambda>s. element_rules cx (now_rules s) i)"

definition cache_name :: "elem \<Rightarrow> string" where
  "cache_name e =
     (if elem_name e \<noteq> [] then elem_name e
      else case oget (elem_attrs e) ''name'' of None \<Rightarrow> ''undefined'' | Some n \<Rightarrow> n)"

definition expando :: "elem \<Rightarrow> elem" where
  \<comment> \<open>form and name set on a \<open>contenteditable\<close> field\<close>
  "expando e =
     (if content_editable e
      then e\<lparr>elem_form := (case elem_within e of [] \<Rightarrow> None | f # _ \<Rightarrow> Some f),
             elem_name := (if elem_name e \<noteq> [] then elem_name e
                           else case oget (elem_attrs e) ''name'' of None \<Rightarrow> [] | Some n \<Rightarrow> n)\<rparr>
      else e)"

definition candidates :: "ctx \<Rightarrow> doc \<Rightarrow> nat list" where
  "candidates cx p =
     filter (\<lambda>i. \<not> ignored (cx_env cx) (ignore_selector (cx_set cx)) p i)
       (filter (\<lambda>i. \<not> matches (cx_env cx) p '':submit, :reset, :image, :disabled'' i)
         (filter (\<lambda>i. cx_form cx \<in> set (elem_within (p ! i)) \<and>
                      (node_name (p ! i) \<in> {''input'', ''select'', ''textarea''} \<or>
                       oget (elem_attrs (p ! i)) ''contenteditable'' \<noteq> None))
            [0..<length p]))"

definition length_of_rules :: "rules option \<Rightarrow> nat" where
  "length_of_rules r = (case r of None \<Rightarrow> 0 | Some rs \<Rightarrow> object_length rs)"

fun elements_loop :: "ctx \<Rightarrow> nat list \<Rightarrow> (string, bool) obj \<Rightarrow> nat list vm" where
  "elements_loop cx [] cache = ret []"
| "elements_loop cx (i # is) cache =
     bindv (reading (\<lambda>s. cache_name (page_doc s ! i))) (\<lambda>name.
       andthen (change (\<lambda>s. s\<lparr>page_doc := update_at i expando (page_doc s)\<rparr>))
         (bindv (reading (\<lambda>s. elem_form (page_doc s ! i) \<noteq> Some (cx_form cx) \<or> js_in name cache)) (\<lambda>skip.
            if skip then elements_loop cx is cache
            else bindv (rules_of cx i) (\<lambda>r.
              if length_of_rules r = 0 then elements_loop cx is cache
              else bindv (elements_loop cx is (oset cache name True)) (\<lambda>rest. ret (i # rest))))))"

definition elements :: "ctx \<Rightarrow> nat list vm" where
  "elements cx = bindv (reading (\<lambda>s. candidates cx (page_doc s))) (\<lambda>is. elements_loop cx is [])"

section \<open>Checking one field\<close>

definition format_and_add :: "ctx \<Rightarrow> nat \<Rightarrow> string \<Rightarrow> jsv \<Rightarrow> unit vm" where
  "format_and_add cx i method params =
     bindv (fallible (\<lambda>s. default_message cx (now_messages s) (page_doc s) i method params)) (\<lambda>message.
       change (\<lambda>s. let name = elem_name (page_doc s ! i)
                   in s\<lparr>error_list := error_list s @ [\<lparr>err_message = message, err_elem = Some i, err_method = Some method\<rparr>],
                        error_map := oset (error_map s) name message,
                        submitted := oset (submitted s) name message\<rparr>))"

definition call_method :: "methods \<Rightarrow> string \<Rightarrow> jsv \<Rightarrow> nat \<Rightarrow> jsv \<Rightarrow> mres vm" where
  "call_method ms method val i param =
     (case oget ms method of None \<Rightarrow> throw TypeError | Some f \<Rightarrow> f val i param)"

text \<open>The loop over the rules ends early with a verdict, or reaches the end; \<open>mismatch\<close> is its flag.\<close>

datatype outcome = Early verdict | Finished bool

fun check_loop :: "ctx \<Rightarrow> methods \<Rightarrow> nat \<Rightarrow> jsv \<Rightarrow> nat \<Rightarrow> rules \<Rightarrow> bool \<Rightarrow> outcome vm" where
  "check_loop cx ms i val rulesCount [] mismatch = ret (Finished mismatch)"
| "check_loop cx ms i val rulesCount ((method, param) # rs) mismatch =
     bindv (call_method ms method val i param) (\<lambda>result.
       if result = Mismatch \<and> rulesCount = 1 then check_loop cx ms i val rulesCount rs True
       else if result = Pending then
         bindv (fallible (errors_for cx (Some i))) (\<lambda>ks.
           andthen (change (\<lambda>s. s\<lparr>to_hide := drop_places (to_hide s) ks\<rparr>)) (ret (Early Unchecked)))
       else if \<not> truthy result then
         andthen (format_and_add cx i method param) (ret (Early (Checked False)))
       else check_loop cx ms i val rulesCount rs False)"

definition normalizer_of :: "ctx \<Rightarrow> rules \<Rightarrow> nat option" where
  "normalizer_of cx rs = (case jget rs ''normalizer'' of JFun f \<Rightarrow> Some f | _ \<Rightarrow> global_normalizer (cx_set cx))"

definition finish_check :: "nat \<Rightarrow> rules \<Rightarrow> outcome \<Rightarrow> verdict vm" where
  "finish_check i rs out =
     (case out of
        Early v \<Rightarrow> ret v
      | Finished True \<Rightarrow> ret Unchecked
      | Finished False \<Rightarrow>
          andthen (change (\<lambda>s. if object_length rs \<noteq> 0 then s\<lparr>success_list := success_list s @ [i]\<rparr> else s))
            (ret (Checked True)))"

definition target_of :: "ctx \<Rightarrow> nat \<Rightarrow> vst \<Rightarrow> nat option" where
  "target_of cx i s = validation_target (cx_env cx) (cx_form cx) (ignore_selector (cx_set cx)) (page_doc s) i"

definition run_rules :: "ctx \<Rightarrow> methods \<Rightarrow> nat \<Rightarrow> rules \<Rightarrow> jsv \<Rightarrow> verdict vm" where
  "run_rules cx ms i rs val =
     (case normalizer_of cx rs of
        None \<Rightarrow> bindv (check_loop cx ms i val (length rs) rs False) (finish_check i rs)
      | Some f \<Rightarrow>
          (let rs' = odel rs ''normalizer''
           in bindv (check_loop cx ms i (call_norm (cx_env cx) f i val) (length rs) rs' False) (finish_check i rs')))"

definition check :: "ctx \<Rightarrow> methods \<Rightarrow> nat \<Rightarrow> verdict vm" where
  "check cx ms i0 =
     bindv (reading (target_of cx i0)) (\<lambda>t.
       (case t of
          None \<Rightarrow> throw TypeError
        | Some i \<Rightarrow>
            bindv (rules_of cx i) (\<lambda>rules.
              bindv (fallible (\<lambda>s. element_value (cx_form cx) (page_doc s) i)) (\<lambda>val.
                (case rules of None \<Rightarrow> throw TypeError | Some rs \<Rightarrow> run_rules cx ms i rs val)))))"

section \<open>Checking a field with its group, and the form\<close>

definition name_of :: "nat \<Rightarrow> vst \<Rightarrow> string" where
  "name_of i s = elem_name (page_doc s ! i)"

definition check_group_member :: "ctx \<Rightarrow> methods \<Rightarrow> string \<Rightarrow> verdict \<Rightarrow> verdict vm" where
  "check_group_member cx ms name result =
     bindv (reading (\<lambda>s. first_named cx (page_doc s) name)) (\<lambda>f.
       (case f of
          None \<Rightarrow> throw TypeError
        | Some k \<Rightarrow>
            bindv (reading (\<lambda>s. (case target_of cx k s of
                                   None \<Rightarrow> None
                                 | Some j \<Rightarrow> if js_in (name_of j s) (invalid s) then Some j else None))) (\<lambda>t.
              (case t of
                 None \<Rightarrow> ret result
               | Some j \<Rightarrow>
                   andthen (change (\<lambda>s. s\<lparr>current_elements := current_elements s @ [j]\<rparr>))
                     (bindv (check cx ms j) (\<lambda>v. ret (verdict_and v result)))))))"

fun check_members :: "ctx \<Rightarrow> methods \<Rightarrow> string list \<Rightarrow> verdict \<Rightarrow> verdict vm" where
  "check_members cx ms [] result = ret result"
| "check_members cx ms (n # ns) result =
     bindv (check_group_member cx ms n result) (check_members cx ms ns)"

definition record_verdict :: "ctx \<Rightarrow> nat \<Rightarrow> bool \<Rightarrow> vst \<Rightarrow> vst" where
  "record_verdict cx i rs s =
     (let t = s\<lparr>invalid := oset (invalid s) (name_of i s) (JBool (\<not> rs))\<rparr>
      in if number_of_invalids t = 0 then t\<lparr>to_hide := join_places (to_hide t) (containers cx)\<rparr> else t)"

definition element_target :: "ctx \<Rightarrow> methods \<Rightarrow> nat \<Rightarrow> nat \<Rightarrow> verdict vm" where
  "element_target cx ms i t =
     bindv (prepare_element cx t) (\<lambda>_.
     bindv (change (\<lambda>s. s\<lparr>current_elements := [t]\<rparr>)) (\<lambda>_.
     bindv (reading (\<lambda>s. filter (\<lambda>n. n \<noteq> name_of t s) (group_names (groups s) (name_of t s)))) (\<lambda>members.
     bindv (check_members cx ms members (Checked True)) (\<lambda>result.
     bindv (check cx ms t) (\<lambda>v.
     (let rs = (v \<noteq> Checked False)
      in bindv (steps
           [change (record_verdict cx t rs),
            show_errors cx None,
            change (\<lambda>s. s\<lparr>page_doc := update_at i (set_attr ''aria-invalid'' (if rs then ''false'' else ''true'')) (page_doc s)\<rparr>)])
           (\<lambda>_. ret (verdict_and result (Checked rs)))))))))"

definition element :: "ctx \<Rightarrow> methods \<Rightarrow> nat \<Rightarrow> verdict vm" where
  "element cx ms i =
     bindv (reading (target_of cx i)) (\<lambda>t.
       (case t of
          None \<Rightarrow> andthen (change (\<lambda>s. s\<lparr>invalid := odel (invalid s) (name_of i s)\<rparr>)) (ret (Checked True))
        | Some t \<Rightarrow> element_target cx ms i t))"

definition check_each :: "ctx \<Rightarrow> methods \<Rightarrow> nat list \<Rightarrow> unit vm" where
  "check_each cx ms is = each (\<lambda>i. bindv (check cx ms i) (\<lambda>_. ret ())) is"

definition check_form :: "ctx \<Rightarrow> methods \<Rightarrow> bool vm" where
  "check_form cx ms =
     bindv (change (prepare_form cx)) (\<lambda>_.
     bindv (elements cx) (\<lambda>is.
     bindv (change (\<lambda>s. s\<lparr>current_elements := is\<rparr>)) (\<lambda>_.
     bindv (check_each cx ms is) (\<lambda>_.
     reading valid_now))))"

definition trigger_invalid :: "ctx \<Rightarrow> unit vm" where
  "trigger_invalid cx = andthen (effect InvalidForm)
     (change (\<lambda>s. s\<lparr>page_nodes := (case invalid_handler (cx_set cx) of
        None \<Rightarrow> page_nodes s | Some k \<Rightarrow> call_invalid (cx_env cx) k (page_nodes s) (error_list s))\<rparr>))"

definition note_errors :: "vst \<Rightarrow> vst" where
  "note_errors s = s\<lparr>submitted := jextend (submitted s) (error_map s), invalid := jextend [] (error_map s)\<rparr>"

definition form :: "ctx \<Rightarrow> methods \<Rightarrow> bool vm" where
  "form cx ms =
     bindv (check_form cx ms) (\<lambda>_.
     bindv (change note_errors) (\<lambda>_.
     bindv (reading valid_now) (\<lambda>ok.
     bindv (whenv (\<not> ok) (trigger_invalid cx)) (\<lambda>_.
     bindv (show_errors cx None) (\<lambda>_.
     reading valid_now)))))"

section \<open>Resetting and the focus\<close>

definition reset_form :: "ctx \<Rightarrow> unit vm" where
  "reset_form cx = steps
     [change (\<lambda>s. s\<lparr>invalid := [], submitted := []\<rparr>),
      change (prepare_form cx),
      hide_errors cx,
      bindv (elements cx) (\<lambda>is.
        change (\<lambda>s. s\<lparr>previous := foldl odel (previous s) is,
                      page_doc := reset_elements cx is (update_all is (remove_attr ''aria-invalid'') (page_doc s))\<rparr>))]"

definition find_last_active :: "vst \<Rightarrow> nat option result" where
  "find_last_active s =
     (case last_active s of
        None \<Rightarrow> Inr None
      | Some a \<Rightarrow>
          if list_ex (\<lambda>e. err_elem e = None) (error_list s) then Inl TypeError
          else Inr (if length (filter (\<lambda>e. case err_elem e of None \<Rightarrow> False | Some k \<Rightarrow> name_of k s = name_of a s) (error_list s)) = 1
                    then Some a else None))"

definition focus_target :: "vst \<Rightarrow> nat option" where
  \<comment> \<open>nothing also when an exception is caught\<close>
  "focus_target s =
     (case find_last_active s of
        Inl _ \<Rightarrow> None
      | Inr (Some a) \<Rightarrow> Some a
      | Inr None \<Rightarrow> (case error_list s of [] \<Rightarrow> None | e # _ \<Rightarrow> err_elem e))"

section \<open>Settled fields\<close>

text \<open>
  On a settled page a \<open>contenteditable\<close> field already carries its form and name; reading the rules or
  listing the fields then leaves the cores of all fields alone.
\<close>

definition settled_field :: "elem \<Rightarrow> bool" where
  "settled_field e \<longleftrightarrow> (content_editable e \<longrightarrow>
     node_name e \<noteq> ''input'' \<and> elem_name e \<noteq> [] \<and> elem_form e \<noteq> None \<and>
     elem_form e = (case elem_within e of [] \<Rightarrow> None | f # _ \<Rightarrow> Some f))"

definition settled :: "doc \<Rightarrow> bool" where
  "settled p \<longleftrightarrow> list_all settled_field p"

lemma content_editable_core [simp]: "content_editable (core_of e) = content_editable e"
  by (simp add: content_editable_def core_of_def oget_filter)

lemma settled_cores_iff: "settled (cores p) = settled p"
  by (simp add: settled_def settled_field_def cores_def list_all_iff)

lemma settled_cores: "cores p = cores q \<Longrightarrow> settled p \<Longrightarrow> settled q"
  by (metis settled_cores_iff)

lemma adopt_settled: "settled p \<Longrightarrow> i < length p \<Longrightarrow> adopt (p ! i) = p ! i"
  by (auto simp: settled_def settled_field_def list_all_length adopt_def)

lemma expando_settled: "settled p \<Longrightarrow> i < length p \<Longrightarrow> expando (p ! i) = p ! i"
  by (auto simp: settled_def settled_field_def list_all_length expando_def)

lemma update_at_same: "(i < length p \<Longrightarrow> f (p ! i) = p ! i) \<Longrightarrow> update_at i f p = p"
  by (simp add: update_at_def)

lemma update_adopt_settled: "settled p \<Longrightarrow> update_at i adopt p = p"
  by (rule update_at_same) (rule adopt_settled)

lemma update_expando_settled: "settled p \<Longrightarrow> update_at i expando p = p"
  by (rule update_at_same) (rule expando_settled)

lemma resolve_rules_cores: "default_hooks cx \<Longrightarrow> cores (snd (resolve_rules cx i rs p)) = cores p"
proof (induction rs arbitrary: p)
  case (Cons r rs)
  then show ?case by (cases r) (simp add: cores_reset_elements Let_def case_prod_beta)
qed simp

lemma element_rules_cores:
  "default_hooks cx \<Longrightarrow> settled p \<Longrightarrow> cores (snd (element_rules cx sr i p)) = cores p"
  using resolve_rules_cores [of cx i "merged_rules (cx_tab cx) sr (p ! i)" p]
  by (auto simp: element_rules_def normalize_rules_def update_adopt_settled Let_def split: prod.splits)

section \<open>What checking keeps\<close>

text \<open>
  The interface of checking: a predicate that also does not depend on the lists of a validation, and
  that the methods keep. Every operation of this theory keeps it.
\<close>

locale ledger = presentation +
  assumes settled: "I s \<Longrightarrow> settled (page_doc s)"
    and error_list: "I s \<Longrightarrow> I (s\<lparr>error_list := es\<rparr>)"
    and error_map: "I s \<Longrightarrow> I (s\<lparr>error_map := m\<rparr>)"
    and success_list: "I s \<Longrightarrow> I (s\<lparr>success_list := ks\<rparr>)"
    and current: "I s \<Longrightarrow> I (s\<lparr>current_elements := ks\<rparr>)"
    and submitted: "I s \<Longrightarrow> I (s\<lparr>submitted := m\<rparr>)"
    and invalid: "I s \<Longrightarrow> I (s\<lparr>invalid := m\<rparr>)"
    and previous: "I s \<Longrightarrow> I (s\<lparr>previous := pv\<rparr>)"
    and active: "I s \<Longrightarrow> I (s\<lparr>last_active := a\<rparr>)"
begin

lemmas list_rules = error_list error_map success_list current submitted invalid previous shown hidden

lemma keeps_reset_lists [keeping]: "keeps I (change reset_lists)" "keeps I (change (prepare_form cx))" "keeps I (change note_errors)"
  by (auto simp: reset_lists_def reset_internals_def prepare_form_def note_errors_def Let_def intro!: keeps_change list_rules)

lemma keeps_list_changes [keeping]:
  "keeps I (change (\<lambda>s. s\<lparr>current_elements := c s\<rparr>))" "keeps I (change (\<lambda>s. s\<lparr>invalid := m s\<rparr>))"
  "keeps I (change (\<lambda>s. if b s then s\<lparr>success_list := l s\<rparr> else s))" "keeps I (change (\<lambda>s. s\<lparr>invalid := m s, submitted := m' s\<rparr>))"
  by (auto intro!: keeps_change list_rules)

lemma keeps_rules_of [keeping]: "keeps I (rules_of cx i)"
proof -
  have "I (snd (rules_of cx i s))" if "I s" for s
    using doc [OF that element_rules_cores [OF hooks [OF that] settled [OF that], of "now_rules s" i]]
    by (simp add: rules_of_def on_doc_def case_prod_beta)
  then show ?thesis by (simp add: keeps_def)
qed

lemma keeps_expando [keeping]: "keeps I (change (\<lambda>s. s\<lparr>page_doc := update_at i expando (page_doc s)\<rparr>))"
  by (rule keeps_doc) (simp add: update_expando_settled settled)

lemma keeps_elements_loop [keeping]: "keeps I (elements_loop cx is cache)"
  by (induction "is" arbitrary: cache) (auto intro!: keeping)

lemma keeps_elements [keeping]: "keeps I (elements cx)"
  unfolding elements_def by (intro keeping)

lemma keeps_format_and_add [keeping]: "keeps I (format_and_add cx i m p)"
  unfolding format_and_add_def by (auto simp: Let_def intro!: keeping keeps_change list_rules)

lemma keeps_trigger_invalid [keeping]: "keeps I (trigger_invalid cx)"
  unfolding trigger_invalid_def by (intro keeping) simp

lemma keeps_reset_form [keeping]: "keeps I (reset_form cx)"
  unfolding reset_form_def
  by (intro keeping keeps_change doc previous)
     (auto simp: cores_reset_elements [OF hooks] cores_update_all intro!: previous)

lemma keeps_finish_check [keeping]: "keeps I (finish_check i rs out)"
  unfolding finish_check_def by (auto split: outcome.splits bool.splits intro!: keeping)

lemma keeps_record_verdict [keeping]: "keeps I (change (record_verdict cx i rs))"
  by (auto simp: record_verdict_def Let_def intro!: keeps_change list_rules)

lemma keeps_adopt_errors [keeping]: "keeps I (change (adopt_errors cx m))"
  by (auto simp: adopt_errors_def Let_def intro!: keeps_change list_rules)

lemma keeps_show_errors [keeping]: "keeps I (show_errors cx errs)"
  unfolding show_errors_def
  by (cases "show_errors_hook (cx_set cx)"; cases errs) (auto intro!: keeps_reading_then keeping)

end

text \<open>With the methods, which keep the predicate, every check does.\<close>

locale validation = ledger +
  fixes ms :: methods
  assumes methods: "oget ms name = Some f \<Longrightarrow> keeps I (f v i param)"
begin

lemma keeps_call_method [keeping]: "keeps I (call_method ms m v i p)"
  unfolding call_method_def by (cases "oget ms m") (auto intro: keeping methods)

lemma keeps_check_loop [keeping]: "keeps I (check_loop cx ms i v n rs mm)"
proof (induction rs arbitrary: mm)
  case (Cons r rs)
  then show ?case by (cases r) (auto intro!: keeping)
qed (auto intro: keeping)

lemma keeps_check [keeping]: "keeps I (check cx ms i)"
  unfolding check_def run_rules_def
  by (auto split: option.splits simp: Let_def intro!: keeps_reading_then keeping)

lemma keeps_check_member [keeping]: "keeps I (check_group_member cx ms n r)"
  unfolding check_group_member_def by (auto split: option.splits intro!: keeping)

lemma keeps_check_members [keeping]: "keeps I (check_members cx ms ns r)"
  by (induction ns arbitrary: r) (auto intro!: keeping)

lemma keeps_element_target [keeping]: "keeps I (element_target cx ms i t)"
  unfolding element_target_def prepare_element_def Let_def
  by (intro keeping keeps_doc) (auto simp: cores_update_at)

lemma keeps_element [keeping]: "keeps I (element cx ms i)"
  unfolding element_def by (auto split: option.splits intro!: keeping)

lemma keeps_check_form [keeping]: "keeps I (check_form cx ms)"
  unfolding check_form_def check_each_def by (intro keeping)

lemma keeps_form [keeping]: "keeps I (form cx ms)"
  unfolding form_def trigger_invalid_def by (intro keeping) simp

end

end
