(* ===== verification/Events.thy ===== *)
theory Events
  imports Checking
begin

text \<open>
  The handlers of the page's events: the delegate that finds the field's validator, the default
  \<open>onfocusin\<close>, \<open>onfocusout\<close>, \<open>onkeyup\<close> and \<open>onclick\<close>, the focus on an invalid field, \<open>valid()\<close>, and
  the submission of the form.
\<close>

section \<open>Fields\<close>

definition delegate :: "ctx \<Rightarrow> hook \<Rightarrow> unit vm \<Rightarrow> nat \<Rightarrow> unit vm" where
  "delegate cx h handler i = andthen (change (\<lambda>s. s\<lparr>page_doc := update_at i adopt (page_doc s)\<rparr>))
     (bindv (reading (\<lambda>s. elem_form (page_doc s ! i) = Some (cx_form cx) \<and>
                          \<not> ignored (cx_env cx) (ignore_selector (cx_set cx)) (page_doc s) i)) (\<lambda>mine.
        if \<not> mine then ret ()
        else (case h of Off \<Rightarrow> ret () | Default \<Rightarrow> handler | Custom k \<Rightarrow> effect (HookCall k i))))"

definition onfocusin :: "ctx \<Rightarrow> nat \<Rightarrow> unit vm" where
  "onfocusin cx i = andthen (change (\<lambda>s. s\<lparr>last_active := Some i\<rparr>))
     (whenv (focus_cleanup (cx_set cx))
        (steps [whenv (unhighlight_hook (cx_set cx) \<noteq> Off) (unhighlight_field cx i),
                bindv (fallible (errors_for cx (Some i))) (hide_these cx)]))"

definition recheck :: "ctx \<Rightarrow> methods \<Rightarrow> nat \<Rightarrow> unit vm" where
  "recheck cx ms i = bindv (element cx ms i) (\<lambda>_. ret ())"

definition onfocusout :: "ctx \<Rightarrow> methods \<Rightarrow> nat \<Rightarrow> unit vm" where
  "onfocusout cx ms i =
     bindv (fallible (\<lambda>s.
       if checkable (page_doc s ! i) then Inr False
       else if js_in (name_of i s) (submitted s) then Inr True
       else bind_res (optional (cx_env cx) (cx_form cx) (page_doc s) i) (\<lambda>opt. Inr (\<not> opt))))
       (\<lambda>b. whenv b (recheck cx ms i))"

definition excluded_keys :: "nat list" where
  "excluded_keys = [16, 17, 18, 20, 35, 36, 37, 38, 39, 40, 45, 144, 225]"

definition onkeyup :: "ctx \<Rightarrow> methods \<Rightarrow> nat \<Rightarrow> nat \<Rightarrow> nat \<Rightarrow> unit vm" where
  "onkeyup cx ms i which keyCode =
     bindv (fallible (\<lambda>s.
       if which = 9 then bind_res (element_value (cx_form cx) (page_doc s) i) (\<lambda>v. Inr (v = JStr []))
       else Inr False)) (\<lambda>tabbed.
     bindv (reading (\<lambda>s. js_in (name_of i s) (submitted s) \<or> js_in (name_of i s) (invalid s))) (\<lambda>seen.
       whenv (\<not> (tabbed \<or> keyCode \<in> set excluded_keys) \<and> seen) (recheck cx ms i)))"

definition onclick :: "ctx \<Rightarrow> methods \<Rightarrow> nat \<Rightarrow> unit vm" where
  "onclick cx ms i =
     bindv (reading (\<lambda>s. (js_in (name_of i s) (submitted s), elem_parent (page_doc s ! i),
       js_in (case elem_parent (page_doc s ! i) of None \<Rightarrow> ''undefined'' | Some k \<Rightarrow> name_of k s) (submitted s))))
       (\<lambda>(self, parent, above).
          if self then recheck cx ms i
          else if above then (case parent of None \<Rightarrow> throw TypeError | Some k \<Rightarrow> recheck cx ms k)
          else ret ())"

definition focusin_event :: "ctx \<Rightarrow> nat \<Rightarrow> unit vm" where
  "focusin_event cx i = delegate cx (focusin_hook (cx_set cx)) (onfocusin cx i) i"

definition focusout_event :: "ctx \<Rightarrow> methods \<Rightarrow> nat \<Rightarrow> unit vm" where
  "focusout_event cx ms i = delegate cx (focusout_hook (cx_set cx)) (onfocusout cx ms i) i"

definition keyup_event :: "ctx \<Rightarrow> methods \<Rightarrow> nat \<Rightarrow> nat \<Rightarrow> nat \<Rightarrow> unit vm" where
  "keyup_event cx ms i which keyCode = delegate cx (keyup_hook (cx_set cx)) (onkeyup cx ms i which keyCode) i"

definition click_event :: "ctx \<Rightarrow> methods \<Rightarrow> nat \<Rightarrow> unit vm" where
  "click_event cx ms i = delegate cx (click_hook (cx_set cx)) (onclick cx ms i) i"

text \<open>\<open>try\<close> with an empty \<open>catch\<close>.\<close>

definition quietly :: "unit vm \<Rightarrow> unit vm" where
  "quietly m s = (Inr (), snd (m s))"

definition focus_invalid :: "ctx \<Rightarrow> unit vm" where
  "focus_invalid cx =
     whenv (focus_on_invalid (cx_set cx))
       (bindv (reading (\<lambda>s. (focus_target s, page_doc s))) (\<lambda>(t, p).
          (case t of
             None \<Rightarrow> ret ()
           | Some i \<Rightarrow> whenv (matches (cx_env cx) p '':visible'' i)
                         (andthen (effect (FocusField i)) (quietly (focusin_event cx i))))))"

section \<open>valid()\<close>

fun valid_loop :: "ctx \<Rightarrow> methods \<Rightarrow> nat list \<Rightarrow> verdict \<Rightarrow> err list \<Rightarrow> (verdict \<times> err list) vm" where
  "valid_loop cx ms [] valid errs = ret (valid, errs)"
| "valid_loop cx ms (i # is) valid errs =
     bindv (element cx ms i) (\<lambda>v.
       let valid' = verdict_and v valid
       in bindv (reading error_list) (\<lambda>es. valid_loop cx ms is valid' (if valid' = Checked True then errs else errs @ es)))"

definition valid_fields :: "ctx \<Rightarrow> methods \<Rightarrow> nat list \<Rightarrow> verdict vm" where
  "valid_fields cx ms is =
     (if is = [] then throw TypeError
      else bindv (valid_loop cx ms is (Checked True) []) (\<lambda>(v, errs).
             andthen (change (\<lambda>s. s\<lparr>error_list := errs\<rparr>)) (ret v)))"

definition valid_form :: "ctx \<Rightarrow> methods \<Rightarrow> verdict vm" where
  "valid_form cx ms = bindv (form cx ms) (\<lambda>b. ret (Checked b))"

section \<open>Submitting\<close>

text \<open>A click on a submit button.\<close>

definition click_submit :: "ctx \<Rightarrow> nat \<Rightarrow> vst \<Rightarrow> vst" where
  "click_submit cx b s =
     (let e = page_doc s ! b
      in s\<lparr>submit_button := Some b,
           cancel_submit := (''cancel'' \<in> set (elem_classes e) \<or> oget (elem_attrs e) ''formnovalidate'' \<noteq> None
                             \<or> cancel_submit s)\<rparr>)"

definition hidden_input :: "ctx \<Rightarrow> elem \<Rightarrow> elem" where
  "hidden_input cx b =
     \<lparr>node_name = ''input'', elem_type = ''hidden'', elem_name = elem_name b, elem_id = [], elem_title = [],
      elem_attrs = [(''type'', ''hidden''), (''name'', elem_name b)], elem_data = [], elem_val = elem_val b, elem_text = [],
      elem_checked = False, bad_input = Some False, selected_count = 0, elem_form = Some (cx_form cx),
      elem_within = [cx_form cx], elem_parent = None, elem_in_label = None, elem_classes = []\<rparr>"

definition detach :: "elem \<Rightarrow> elem" where
  \<comment> \<open>\<open>remove()\<close>: the element is in no form any more\<close>
  "detach e = e\<lparr>elem_form := None, elem_within := []\<rparr>"

definition insert_hidden :: "ctx \<Rightarrow> vst \<Rightarrow> vst" where
  "insert_hidden cx s =
     (case submit_button s of
        Some b \<Rightarrow>
          if submit_handler (cx_set cx) \<noteq> None \<or> form_submitted s
          then s\<lparr>page_doc := page_doc s @ [hidden_input cx (page_doc s ! b)]\<rparr> else s
      | None \<Rightarrow> s)"

definition remove_hidden :: "nat \<Rightarrow> vst \<Rightarrow> vst" where
  \<comment> \<open>what was appended to a page of \<open>n\<close> fields\<close>
  "remove_hidden n s = s\<lparr>page_doc := update_all [n..<length (page_doc s)] detach (page_doc s)\<rparr>"

definition handle :: "ctx \<Rightarrow> jsv vm" where
  "handle cx =
     bindv (reading (\<lambda>s. length (page_doc s))) (\<lambda>n.
     andthen (change (insert_hidden cx))
       (case submit_handler (cx_set cx) of
          None \<Rightarrow> ret (JBool True)
        | Some k \<Rightarrow>
            if debug_on (cx_set cx) then ret (JBool True)
            else andthen (effect (SubmitHandlerCall k))
                   (bindv (reading (\<lambda>s. call_submit (cx_env cx) k (page_doc s))) (\<lambda>result.
                      andthen (change (remove_hidden n))
                        (ret (if result \<noteq> JUndef then result else JBool False))))))"

definition submit_listener :: "ctx \<Rightarrow> methods \<Rightarrow> jsv vm" where
  "submit_listener cx ms =
     bindv (reading cancel_submit) (\<lambda>cancel.
       if cancel then andthen (change (\<lambda>s. s\<lparr>cancel_submit := False\<rparr>)) (handle cx)
       else bindv (form cx ms) (\<lambda>ok.
         if ok then
           bindv (reading pending_request) (\<lambda>n.
             if n \<noteq> 0 then andthen (change (\<lambda>s. s\<lparr>form_submitted := True\<rparr>)) (ret (JBool False))
             else handle cx)
         else andthen (focus_invalid cx) (ret (JBool False))))"

text \<open>
  \<open>trigger( "submit" )\<close>: the form is sent unless the listener returns false or, when debugging,
  prevents it. An exception of the listener reaches the caller of \<open>trigger\<close>.
\<close>

definition trigger_submit :: "ctx \<Rightarrow> methods \<Rightarrow> unit vm" where
  "trigger_submit cx ms =
     (if on_submit (cx_set cx)
      then bindv (submit_listener cx ms) (\<lambda>r. whenv (r \<noteq> JBool False \<and> \<not> debug_on (cx_set cx)) (effect NativeSubmit))
      else effect NativeSubmit)"

text \<open>The user submits: the browser reports an exception of the listener and sends the form.\<close>

definition user_submit :: "ctx \<Rightarrow> methods \<Rightarrow> vst \<Rightarrow> vst" where
  "user_submit cx ms s =
     (case trigger_submit cx ms s of
        (Inr _, t) \<Rightarrow> t
      | (Inl e, t) \<Rightarrow> if debug_on (cx_set cx) then t else snd (effect NativeSubmit t))"

section \<open>What the handlers keep\<close>

lemma keeps_quietly [keeping]: "keeps I m \<Longrightarrow> keeps I (quietly m)"
  by (simp add: keeps_def quietly_def)

context ledger begin

lemma keeps_adopt [keeping]: "keeps I (change (\<lambda>s. s\<lparr>page_doc := update_at i adopt (page_doc s)\<rparr>))"
  by (rule keeps_doc) (simp add: update_adopt_settled settled)

lemma keeps_active [keeping]: "keeps I (change (\<lambda>s. s\<lparr>last_active := a\<rparr>))"
  by (auto intro!: keeps_change active)

lemma keeps_delegate [keeping]: "keeps I m \<Longrightarrow> keeps I (delegate cx h m i)"
  unfolding delegate_def by (cases h) (auto intro!: keeping)

lemma keeps_onfocusin [keeping]: "keeps I (onfocusin cx i)"
  unfolding onfocusin_def by (intro keeping)

lemma keeps_focusin_event [keeping]: "keeps I (focusin_event cx i)"
  unfolding focusin_event_def by (intro keeping)

lemma keeps_focus_invalid [keeping]: "keeps I (focus_invalid cx)"
  unfolding focus_invalid_def by (auto split: option.splits intro!: keeping)

end

context validation begin

lemma keeps_recheck [keeping]: "keeps I (recheck cx ms i)"
  unfolding recheck_def by (intro keeping)

lemma keeps_focusout_event [keeping]: "keeps I (focusout_event cx ms i)"
  unfolding focusout_event_def onfocusout_def by (intro keeping)

lemma keeps_keyup_event [keeping]: "keeps I (keyup_event cx ms i w k)"
  unfolding keyup_event_def onkeyup_def by (intro keeping)

lemma keeps_click_event [keeping]: "keeps I (click_event cx ms i)"
  unfolding click_event_def onclick_def
  by (auto split: option.splits intro!: keeping keeps_reading_then)

lemma keeps_valid_loop [keeping]: "keeps I (valid_loop cx ms is v es)"
  by (induction "is" arbitrary: v es) (auto simp: Let_def intro!: keeping)

lemma keeps_valid_fields [keeping]: "keeps I (valid_fields cx ms is)"
  unfolding valid_fields_def
  by (auto intro!: keeping keeps_change error_list split: prod.splits)

end

end
