(* ===== verification/Params.thy ===== *)
theory Params
  imports Dom
begin

text \<open>
  \<open>jQuery.param\<close>: the query string of an object or of a list of name and value pairs, and
  \<open>encodeURIComponent\<close>. The result of a function among the values is a parameter. Fields of the
  page are not followed as objects. Texts have code units below 256, which \<open>encodeURIComponent\<close> never refuses;
  \<open>UriTexts\<close> has those of all 16 bits and the error.
\<close>

section \<open>encodeURIComponent\<close>

definition unreserved :: "char \<Rightarrow> bool" where
  "unreserved c \<longleftrightarrow> (CHR ''A'' \<le> c \<and> c \<le> CHR ''Z'') \<or> (CHR ''a'' \<le> c \<and> c \<le> CHR ''z'') \<or> is_digit c \<or>
     c \<in> set (''-_.!~*()'' @ [CHR 0x27])"

definition hex_char :: "nat \<Rightarrow> char" where
  "hex_char n = ''0123456789ABCDEF'' ! n"

definition percent_byte :: "nat \<Rightarrow> string" where
  "percent_byte b = [CHR ''%'', hex_char (b div 16), hex_char (b mod 16)]"

text \<open>The bytes are those of UTF-8: code units from 128 to 255 take two.\<close>

definition encode_char :: "char \<Rightarrow> string" where
  "encode_char c =
     (let n = of_char c
      in if unreserved c then [c]
         else if n < 128 then percent_byte n
         else percent_byte (192 + n div 64) @ percent_byte (128 + n mod 64))"

definition encode_component :: "string \<Rightarrow> string" where
  "encode_component s = concat (map encode_char s)"

section \<open>Building the pairs\<close>

definition ends_in_brackets :: "string \<Rightarrow> bool" where
  "ends_in_brackets s \<longleftrightarrow> rx_test (Seq (lit ''[]'') Eol) s"

definition is_object :: "jsv \<Rightarrow> bool" where
  \<comment> \<open>\<open>typeof v === "object" && v != null\<close>\<close>
  "is_object v = (case v of JArr vs \<Rightarrow> True | JObj m \<Rightarrow> True | JRegExp r \<Rightarrow> True | JElem i \<Rightarrow> True | _ \<Rightarrow> False)"

text \<open>The calls of \<open>add\<close> in their order: \<open>items\<close> for the elements of an array from an index on,
  \<open>members\<close> for those of an object.\<close>

fun build_params :: "bool \<Rightarrow> string \<Rightarrow> jsv \<Rightarrow> (string \<times> jsv) list"
  and build_items :: "bool \<Rightarrow> string \<Rightarrow> nat \<Rightarrow> jsv list \<Rightarrow> (string \<times> jsv) list"
  and build_members :: "bool \<Rightarrow> string \<Rightarrow> (string \<times> jsv) list \<Rightarrow> (string \<times> jsv) list" where
  "build_params traditional prefix (JArr vs) = build_items traditional prefix 0 vs"
| "build_params traditional prefix (JObj m) =
     (if traditional then [(prefix, JObj m)] else build_members traditional prefix m)"
| "build_params traditional prefix v = [(prefix, v)]"
| "build_items traditional prefix i [] = []"
| "build_items traditional prefix i (v # vs) =
     (if traditional \<or> ends_in_brackets prefix then [(prefix, v)]
      else build_params traditional (prefix @ ''['' @ (if is_object v then nat_str i else []) @ '']'') v) @
     build_items traditional prefix (Suc i) vs"
| "build_members traditional prefix [] = []"
| "build_members traditional prefix ((name, v) # m) =
     build_params traditional (prefix @ ''['' @ name @ '']'') v @ build_members traditional prefix m"

definition is_function :: "jsv \<Rightarrow> bool" where
  "is_function v = (case v of JFun f \<Rightarrow> True | JReader n \<Rightarrow> True | _ \<Rightarrow> False)"

text \<open>The entry that \<open>add\<close> writes; \<open>call\<close> gives the result of a function.\<close>

definition add_entry :: "(jsv \<Rightarrow> jsv) \<Rightarrow> string \<times> jsv \<Rightarrow> string" where
  "add_entry call kv =
     (let v = (if is_function (snd kv) then call (snd kv) else snd kv)
      in encode_component (fst kv) @ ''='' @ encode_component (if v = JUndef \<or> v = JNull then [] else js_text v))"

definition index_keys :: "'a list \<Rightarrow> (string \<times> 'a) list" where
  "index_keys xs = zip (map nat_str [0..<length xs]) xs"

definition own_members :: "jsv \<Rightarrow> (string \<times> jsv) list" where
  \<comment> \<open>what \<open>for in\<close> visits\<close>
  "own_members v =
     (case v of
        JObj m \<Rightarrow> m
      | JArr vs \<Rightarrow> index_keys vs
      | JStr s \<Rightarrow> index_keys (map (\<lambda>c. JStr [c]) s)
      | _ \<Rightarrow> [])"

definition name_value :: "jsv \<Rightarrow> (string \<times> jsv) result" where
  \<comment> \<open>\<open>this.name\<close> and \<open>this.value\<close> of an item of a list\<close>
  "name_value v =
     (case v of
        JUndef \<Rightarrow> Inl TypeError | JNull \<Rightarrow> Inl TypeError
      | JObj m \<Rightarrow> Inr (js_text (jget m ''name''), jget m ''value'')
      | _ \<Rightarrow> Inr (''undefined'', JUndef))"

fun collect_results :: "'a result list \<Rightarrow> 'a list result" where
  "collect_results [] = Inr []"
| "collect_results (r # rs) = bind_res r (\<lambda>x. bind_res (collect_results rs) (\<lambda>xs. Inr (x # xs)))"

definition query_of :: "(jsv \<Rightarrow> jsv) \<Rightarrow> (string \<times> jsv) list \<Rightarrow> string" where
  "query_of call kvs = join ''&'' (map (add_entry call) kvs)"

definition param_members :: "(jsv \<Rightarrow> jsv) \<Rightarrow> bool \<Rightarrow> (string \<times> jsv) list \<Rightarrow> string" where
  "param_members call traditional m = query_of call (concat (map (\<lambda>(k, v). build_params traditional k v) m))"

definition jquery_param :: "(jsv \<Rightarrow> jsv) \<Rightarrow> bool \<Rightarrow> jsv \<Rightarrow> string result" where
  "jquery_param call traditional a =
     (case a of
        JUndef \<Rightarrow> Inr [] | JNull \<Rightarrow> Inr []
      | JArr vs \<Rightarrow> bind_res (collect_results (map name_value vs)) (\<lambda>kvs. Inr (query_of call kvs))
      | _ \<Rightarrow> Inr (param_members call traditional (own_members a)))"

text \<open>The data string of a remote request: \<open>$.param( $.extend( { data: value }, param.data ) )\<close>.\<close>

definition data_string :: "(jsv \<Rightarrow> jsv) \<Rightarrow> jsv \<Rightarrow> jsv \<Rightarrow> string" where
  "data_string call value data = param_members call False (jextend [(''data'', value)] (own_members data))"

section \<open>Reading a query string\<close>

text \<open>The reference: how a server reads the pairs back.\<close>

definition hex_nat :: "char \<Rightarrow> nat" where
  "hex_nat c = (case hex_val c of None \<Rightarrow> 0 | Some i \<Rightarrow> nat i)"

definition byte_of :: "char \<Rightarrow> char \<Rightarrow> nat" where
  "byte_of a b = 16 * hex_nat a + hex_nat b"

fun decode_component :: "string \<Rightarrow> string" where
  "decode_component [] = []"
| "decode_component [c] = [c]"
| "decode_component [c, d] = [c, d]"
| "decode_component (c # a # b # s) =
     (if c \<noteq> CHR ''%'' then c # decode_component (a # b # s)
      else if byte_of a b < 128 then char_of (byte_of a b) # decode_component s
      else (case s of
              _ # e # f # t \<Rightarrow> char_of ((byte_of a b - 192) * 64 + (byte_of e f - 128)) # decode_component t
            | _ \<Rightarrow> []))"

definition read_entry :: "string \<Rightarrow> string \<times> string" where
  "read_entry s =
     (case split_on (CHR ''='') s of
        k # v # _ \<Rightarrow> (decode_component k, decode_component v)
      | _ \<Rightarrow> (decode_component s, []))"

definition read_query :: "string \<Rightarrow> (string \<times> string) list" where
  "read_query s = (if s = [] then [] else map read_entry (split_on (CHR ''&'') s))"

lemma hex_digits: "list_all (\<lambda>k. hex_nat (hex_char k) = k \<and> hex_char k \<notin> set ''&='') [0..<16]"
  by code_simp

lemma hex_char_nat: "k < 16 \<Longrightarrow> hex_nat (hex_char k) = k" "k < 16 \<Longrightarrow> hex_char k \<notin> set ''&=''"
  using hex_digits unfolding list_all_length by auto

lemma byte_of_percent: "n < 256 \<Longrightarrow> byte_of (hex_char (n div 16)) (hex_char (n mod 16)) = n"
  using hex_char_nat(1) [of "n div 16"] hex_char_nat(1) [of "n mod 16"] by (simp add: byte_of_def)

lemma percent_no_separator: "n < 256 \<Longrightarrow> {hex_char (n div 16), hex_char (n mod 16)} \<inter> set ''&='' = {}"
  using hex_char_nat(2) [of "n div 16"] hex_char_nat(2) [of "n mod 16"] by auto

lemma reserved: "\<not> unreserved (CHR ''%'')" "\<not> unreserved (CHR ''&'')" "\<not> unreserved (CHR ''='')"
  by code_simp+

lemma encode_char_cases:
  obtains (plain) "encode_char c = [c]" "c \<notin> set ''%&=''"
    | (ascii) a b where "encode_char c = [CHR ''%'', a, b]" "byte_of a b < 128" "char_of (byte_of a b) = c"
        "{a, b} \<inter> set ''&='' = {}"
    | (wide) a b e f where "encode_char c = [CHR ''%'', a, b, CHR ''%'', e, f]" "128 \<le> byte_of a b"
        "char_of ((byte_of a b - 192) * 64 + (byte_of e f - 128)) = c" "{a, b, e, f} \<inter> set ''&='' = {}"
proof -
  define n where "n = (of_char c :: nat)"
  have n: "n < 256" "char_of n = c" by (simp_all add: n_def)
  consider "unreserved c" | "\<not> unreserved c" "n < 128" | "\<not> unreserved c" "128 \<le> n" by linarith
  then show thesis
  proof cases
    case 1
    then show thesis using plain reserved by (auto simp: encode_char_def)
  next
    case 2
    then show thesis
      using ascii [of "hex_char (n div 16)" "hex_char (n mod 16)"] byte_of_percent [OF n(1)] percent_no_separator [OF n(1)] n(2)
      by (simp add: encode_char_def n_def [symmetric] percent_byte_def)
  next
    case 3
    define x y where xy: "x = 192 + n div 64" "y = 128 + n mod 64"
    have x: "x < 256" "128 \<le> x" and y: "y < 256" using n(1) by (auto simp: xy)
    have c: "char_of ((x - 192) * 64 + (y - 128)) = c" using n(2) by (simp add: xy)
    have e: "encode_char c = [CHR ''%'', hex_char (x div 16), hex_char (x mod 16), CHR ''%'', hex_char (y div 16), hex_char (y mod 16)]"
      using 3 by (simp add: encode_char_def n_def [symmetric] percent_byte_def xy del: div_mult_mod_eq)
    show thesis
      by (rule wide [OF e]) (use x y c byte_of_percent [OF x(1)] byte_of_percent [OF y] percent_no_separator [OF x(1)]
        percent_no_separator [OF y] in simp_all)
  qed
qed

lemma decode_plain: "c \<noteq> CHR ''%'' \<Longrightarrow> decode_component (c # s) = c # decode_component s"
  by (cases s rule: decode_component.cases) auto

lemma decode_encode: "decode_component (encode_component s @ r) = s @ decode_component r"
proof (induction s)
  case (Cons c s)
  show ?case
    by (cases c rule: encode_char_cases) (use Cons in \<open>simp_all add: encode_component_def decode_plain\<close>)
qed (simp add: encode_component_def)

lemma encode_no_separator: "set (encode_component s) \<inter> set ''&='' = {}"
proof -
  have "set (encode_char c) \<inter> set ''&='' = {}" for c by (cases c rule: encode_char_cases) auto
  then show ?thesis unfolding encode_component_def by auto
qed

lemma read_entry_encoded: "read_entry (encode_component k @ ''='' @ encode_component v) = (k, v)"
proof -
  have "CHR ''='' \<notin> set (encode_component k)" "CHR ''='' \<notin> set (encode_component v)"
    using encode_no_separator [of k] encode_no_separator [of v] by auto
  then show ?thesis
    using decode_encode [of k "[]"] decode_encode [of v "[]"] by (simp add: read_entry_def split_on_append split_on_absent)
qed

definition entry_text :: "(jsv \<Rightarrow> jsv) \<Rightarrow> jsv \<Rightarrow> string" where
  "entry_text call v =
     (let w = (if is_function v then call v else v) in if w = JUndef \<or> w = JNull then [] else js_text w)"

lemma add_entry_text: "add_entry call kv = encode_component (fst kv) @ ''='' @ encode_component (entry_text call (snd kv))"
  by (simp add: add_entry_def entry_text_def Let_def)

lemma read_query_of: "read_query (query_of call kvs) = map (\<lambda>(k, v). (k, entry_text call v)) kvs"
proof (cases "kvs = []")
  case False
  let ?ws = "map (add_entry call) kvs"
  have "\<forall>w \<in> set ?ws. CHR ''&'' \<notin> set w"
    using encode_no_separator by (fastforce simp: add_entry_text)
  then have s: "split_on (CHR ''&'') (join ''&'' ?ws) = ?ws" using False by (intro split_on_join) auto
  have "join ''&'' ?ws \<noteq> []" using False by (cases kvs; cases "tl kvs") (simp_all add: add_entry_text)
  then show ?thesis
    unfolding query_of_def read_query_def s using read_entry_encoded by (simp add: add_entry_text case_prod_beta)
qed (simp add: query_of_def read_query_def)

section \<open>Round trip\<close>

lemma build_text [simp]: "build_params t k (JStr s) = [(k, JStr s)]"
  by simp

text \<open>Reading back the query string that \<open>jQuery.param\<close> makes of an object whose members are texts of code units below
  256 gives these members again.\<close>

theorem param_reads_back:
  "\<exists>q. jquery_param call traditional (JObj (map (\<lambda>(k, s). (k, JStr s)) kvs)) = Inr q \<and> read_query q = kvs"
proof -
  have "concat (map (\<lambda>(k, v). build_params traditional k v) (map (\<lambda>(k, s). (k, JStr s)) kvs)) = map (\<lambda>(k, s). (k, JStr s)) kvs"
    by (induction kvs) auto
  then show ?thesis
    by (simp add: jquery_param_def param_members_def own_members_def read_query_of entry_text_def is_function_def comp_def case_prod_beta)
qed

text \<open>The data string of a remote request tells values apart, unless the request's own data has a member called
  \<open>data\<close>, which replaces the value.\<close>

lemma oextend_first: "k \<notin> fst ` set n \<Longrightarrow> oextend ((k, v) # m) n = (k, v) # oextend m n"
proof (induction n arbitrary: m)
  case (Cons p n)
  then show ?case by (cases p) (simp add: oextend_def)
qed (simp add: oextend_def)

lemma data_string_reads:
  assumes "''data'' \<notin> fst ` set (own_members d)"
  shows "hd (read_query (data_string call (JStr v) d)) = (''data'', v)"
proof -
  have "jextend [(''data'', JStr v)] (own_members d) = (''data'', JStr v) # jextend [] (own_members d)"
    using assms unfolding jextend_def by (intro oextend_first) auto
  then show ?thesis
    by (simp add: data_string_def param_members_def read_query_of entry_text_def is_function_def)
qed

lemma data_string_inj:
  assumes "''data'' \<notin> fst ` set (own_members d)"
  shows "data_string call (JStr v) d = data_string call (JStr w) d \<longleftrightarrow> v = w"
  using data_string_reads [OF assms] by (metis prod.inject)

lemma data_string_hidden:
  "data_string call v (JObj [(''data'', JStr x)]) = data_string call w (JObj [(''data'', JStr x)])"
proof -
  have "jextend [(''data'', v)] (own_members (JObj [(''data'', JStr x)])) = [(''data'', JStr x)]" for v
    by (simp add: own_members_def jextend_def oextend_def)
  then show ?thesis by (simp only: data_string_def)
qed

end
