(* ===== verification/Requests.thy ===== *)
theory Requests
  imports Events Params
begin

text \<open>
  Remote validation: the value stored at a field (\<open>previousValue\<close>), the count of requests under
  way (\<open>startRequest\<close>, \<open>stopRequest\<close>), the method \<open>remote\<close> with the callback of its request, and
  the abort mode of \<open>$.ajax\<close>.
\<close>

section \<open>Counting requests\<close>

definition start_request :: "ctx \<Rightarrow> nat \<Rightarrow> vst \<Rightarrow> vst" where
  "start_request cx i s =
     (let name = name_of i s
      in if js_truthy (jget (pending s) name) \<or> (oget (pending s) name = None \<and> name \<in> set prototype_names) then s
         else s\<lparr>pending_request := pending_request s + 1,
                page_doc := update_at i (add_class (pending_class (cx_set cx))) (page_doc s),
                pending := oset (pending s) name (JBool True)\<rparr>)"

definition end_request :: "ctx \<Rightarrow> nat \<Rightarrow> vst \<Rightarrow> vst" where
  \<comment> \<open>the first part of \<open>stopRequest\<close>\<close>
  "end_request cx i s =
     s\<lparr>pending_request := max 0 (pending_request s - 1),
       pending := odel (pending s) (name_of i s),
       page_doc := update_at i (remove_class (pending_class (cx_set cx))) (page_doc s)\<rparr>"

definition remove_inputs_named :: "ctx \<Rightarrow> vst \<Rightarrow> vst" where
  \<comment> \<open>\<open>$( "input:hidden[name='...']" ).remove()\<close> for the name of the submit button\<close>
  "remove_inputs_named cx s =
     (case submit_button s of
        None \<Rightarrow> s
      | Some b \<Rightarrow>
          s\<lparr>page_doc := update_all
              (filter (\<lambda>k. node_name (page_doc s ! k) = ''input'' \<and> matches (cx_env cx) (page_doc s) '':hidden'' k)
                 (targets_of cx (page_doc s) (name_of b s)))
              detach (page_doc s)\<rparr>)"

definition resume_submit :: "ctx \<Rightarrow> methods \<Rightarrow> bool \<Rightarrow> unit vm" where
  \<comment> \<open>the rest of \<open>stopRequest\<close>: a waiting submission goes on or is given up\<close>
  "resume_submit cx ms valid =
     bindv (reading (\<lambda>s. pending_request s = 0 \<and> form_submitted s)) (\<lambda>waiting.
       if \<not> waiting then ret ()
       else if valid then
         bindv (form cx ms) (\<lambda>ok.
         bindv (reading pending_request) (\<lambda>n.
           whenv (ok \<and> n = 0)
             (steps [trigger_submit cx ms,
                     change (remove_inputs_named cx),
                     change (\<lambda>s. s\<lparr>form_submitted := False\<rparr>)])))
       else andthen (trigger_invalid cx) (change (\<lambda>s. s\<lparr>form_submitted := False\<rparr>)))"

definition stop_request :: "ctx \<Rightarrow> methods \<Rightarrow> nat \<Rightarrow> bool \<Rightarrow> unit vm" where
  "stop_request cx ms i valid = andthen (change (end_request cx i)) (resume_submit cx ms valid)"

section \<open>The remembered value\<close>

definition new_previous :: "nat \<Rightarrow> jsv \<Rightarrow> vst \<Rightarrow> vst" where
  "new_previous i message s =
     s\<lparr>previous := oset (previous s) i (length (prevs s)),
       prevs := prevs s @ [\<lparr>old_value = None, prev_valid = True, prev_message = message, original_message = MVal JUndef\<rparr>]\<rparr>"

definition previous_value :: "ctx \<Rightarrow> nat \<Rightarrow> nat vm" where
  "previous_value cx i =
     bindv (reading (\<lambda>s. oget (previous s) i)) (\<lambda>stored.
       (case stored of
          Some a \<Rightarrow> ret a
        | None \<Rightarrow>
            bindv (fallible (\<lambda>s. default_message cx (now_messages s) (page_doc s) i ''remote'' JUndef)) (\<lambda>m.
              bindv (reading (\<lambda>s. length (prevs s))) (\<lambda>a.
                andthen (change (new_previous i m)) (ret a)))))"

definition update_prev :: "nat \<Rightarrow> (prev \<Rightarrow> prev) \<Rightarrow> vst \<Rightarrow> vst" where
  "update_prev a f s = s\<lparr>prevs := update_at a f (prevs s)\<rparr>"

section \<open>Messages\<close>

fun msg_truthy :: "msg \<Rightarrow> bool" where
  "msg_truthy (MVal v) = js_truthy v"
| "msg_truthy (MFormat f) = True"

definition ensure_messages :: "string \<Rightarrow> (string, custom) obj \<Rightarrow> (string, custom) obj" where
  "ensure_messages name m =
     (case oget m name of
        None \<Rightarrow> if name \<in> set prototype_names then m else oset m name (CEach [])
      | Some (CText []) \<Rightarrow> oset m name (CEach [])
      | _ \<Rightarrow> m)"

text \<open>A property written to a text is lost.\<close>

definition set_message :: "string \<Rightarrow> string \<Rightarrow> msg \<Rightarrow> (string, custom) obj \<Rightarrow> (string, custom) obj" where
  "set_message name method v m =
     (case oget m name of Some (CEach ms) \<Rightarrow> oset m name (CEach (oset ms method v)) | _ \<Rightarrow> m)"

definition get_message :: "string \<Rightarrow> string \<Rightarrow> (string, custom) obj \<Rightarrow> msg" where
  "get_message name method m = (case oget m name of Some (CEach ms) \<Rightarrow> mget ms method | _ \<Rightarrow> MVal JUndef)"

definition borrow_message :: "nat \<Rightarrow> nat \<Rightarrow> vst \<Rightarrow> vst" where
  \<comment> \<open>the stored message replaces the field's own one until the answer comes\<close>
  "borrow_message i a s =
     (let name = name_of i s; pv = prevs s ! a;
          m = ensure_messages name (now_messages s);
          orig = (if msg_truthy (original_message pv) then original_message pv else get_message name ''remote'' m)
      in update_prev a (\<lambda>pv. pv\<lparr>original_message := orig\<rparr>)
           (s\<lparr>now_messages := set_message name ''remote'' (MVal (prev_message pv)) m\<rparr>))"

section \<open>The method remote\<close>

definition ajax_send :: "nat \<Rightarrow> nat \<Rightarrow> jsv \<Rightarrow> jsv \<Rightarrow> vst \<Rightarrow> vst" where
  "ajax_send i a value param s =
     (let port = ''validate'' @ name_of i s
      in s\<lparr>effects := effects s @ (if port \<in> set (ports s) then [AjaxAbort port] else []) @ [AjaxSend i a value param],
           ports := (if port \<in> set (ports s) then ports s else ports s @ [port])\<rparr>)"

definition remote_param :: "jsv \<Rightarrow> jsv" where
  "remote_param param = (case param of JStr u \<Rightarrow> if u = [] then param else JObj [(''url'', JStr u)] | _ \<Rightarrow> param)"

definition ask_server :: "ctx \<Rightarrow> nat \<Rightarrow> nat \<Rightarrow> jsv \<Rightarrow> jsv \<Rightarrow> string \<Rightarrow> vst \<Rightarrow> vst" where
  "ask_server cx i a value param data s =
     ajax_send i a value param (start_request cx i (update_prev a (\<lambda>pv. pv\<lparr>old_value := Some data\<rparr>) s))"

definition remote :: "ctx \<Rightarrow> vmethod" where
  "remote cx value i param =
     bindv (fallible (\<lambda>s. optional (cx_env cx) (cx_form cx) (page_doc s) i)) (\<lambda>opt.
       if opt then ret Mismatch
       else bindv (previous_value cx i) (\<lambda>a.
         andthen (change (borrow_message i a))
           (bindv (reading (\<lambda>s. (prevs s ! a, data_string (call_data (cx_env cx) (page_doc s)) value (member (remote_param param) ''data''))))
             (\<lambda>(pv, data).
                if old_value pv = Some data then ret (Res (prev_valid pv))
                else andthen (change (ask_server cx i a value (remote_param param) data)) (ret Pending)))))"

section \<open>The answer\<close>

definition restore_message :: "nat \<Rightarrow> nat \<Rightarrow> vst \<Rightarrow> vst" where
  "restore_message i a s =
     s\<lparr>now_messages := set_message (name_of i s) ''remote'' (original_message (prevs s ! a)) (now_messages s)\<rparr>"

definition accept_answer :: "ctx \<Rightarrow> nat \<Rightarrow> unit vm" where
  "accept_answer cx i = andthen (change reset_internals)
     (bindv (fallible (errors_for cx (Some i))) (\<lambda>ks. steps
        [change (\<lambda>s. s\<lparr>to_hide := ks\<rparr>),
         change (\<lambda>s. s\<lparr>success_list := success_list s @ [i], invalid := oset (invalid s) (name_of i s) (JBool False)\<rparr>),
         show_errors cx None]))"

definition refuse_answer :: "ctx \<Rightarrow> nat \<Rightarrow> nat \<Rightarrow> jsv \<Rightarrow> jsv \<Rightarrow> unit vm" where
  "refuse_answer cx i a value response =
     bindv (fallible (\<lambda>s. if js_truthy response then Inr response
                          else default_message cx (now_messages s) (page_doc s) i ''remote'' value)) (\<lambda>message.
     bindv (reading (name_of i)) (\<lambda>name. steps
       [change (update_prev a (\<lambda>pv. pv\<lparr>prev_message := message\<rparr>)),
        change (\<lambda>s. s\<lparr>invalid := oset (invalid s) name (JBool True)\<rparr>),
        show_errors cx (Some [(name, message)])]))"

definition accepted :: "jsv \<Rightarrow> bool" where
  "accepted response \<longleftrightarrow> response = JBool True \<or> response = JStr ''true''"

text \<open>\<open>a\<close> is the stored object that the request's callback refers to.\<close>

definition remote_success :: "ctx \<Rightarrow> methods \<Rightarrow> nat \<Rightarrow> nat \<Rightarrow> jsv \<Rightarrow> jsv \<Rightarrow> unit vm" where
  "remote_success cx ms i a value response = steps
     [change (restore_message i a),
      if accepted response then accept_answer cx i else refuse_answer cx i a value response,
      change (update_prev a (\<lambda>pv. pv\<lparr>prev_valid := accepted response\<rparr>)),
      stop_request cx ms i (accepted response)]"

text \<open>The options of the request have no \<open>error\<close> callback.\<close>

definition remote_failure :: "vst \<Rightarrow> vst" where
  "remote_failure s = s"

section \<open>destroy\<close>

definition blur_classes :: "string list" where
  "blur_classes = [''validate-equalTo-blur'', ''validate-lessThan-blur'', ''validate-lessThanEqual-blur'',
     ''validate-greaterThanEqual-blur'', ''validate-greaterThan-blur'']"

definition destroy :: "ctx \<Rightarrow> unit vm" where
  "destroy cx = steps
     [reset_form cx,
      effect EventsOff,
      change (\<lambda>s. s\<lparr>page_doc := map (\<lambda>e. if cx_form cx \<in> set (elem_within e)
                                          then foldl (\<lambda>f c. remove_class c f) e blur_classes else e) (page_doc s)\<rparr>)]"

end
