(* ===== verification/Plugin.thy ===== *)
theory Plugin
  imports Requests
begin

text \<open>
  The plugin put together: the table of methods as steps of a validator, the blur handler that
  \<open>equalTo\<close> installs, the start of a validator (\<open>validate\<close>, \<open>init\<close>), and the selectors
  \<open>:blank\<close>, \<open>:filled\<close> and \<open>:unchecked\<close>.
\<close>

section \<open>The methods\<close>

definition opt_of :: "ctx \<Rightarrow> nat \<Rightarrow> bool vm" where
  "opt_of cx i = fallible (\<lambda>s. optional (cx_env cx) (cx_form cx) (page_doc s) i)"

definition tested :: "ctx \<Rightarrow> (bool \<Rightarrow> string \<Rightarrow> mres) \<Rightarrow> vmethod" where
  \<comment> \<open>a method that tests the text of the value\<close>
  "tested cx f value i param = bindv (opt_of cx i) (\<lambda>opt. ret (f opt (js_text value)))"

definition compared :: "ctx \<Rightarrow> (bool \<Rightarrow> jsv \<Rightarrow> jsv \<Rightarrow> mres) \<Rightarrow> vmethod" where
  "compared cx f value i param = bindv (opt_of cx i) (\<lambda>opt. ret (f opt value param))"

definition measured :: "ctx \<Rightarrow> (nat \<Rightarrow> doc \<Rightarrow> bool \<Rightarrow> jsv \<Rightarrow> nat \<Rightarrow> jsv \<Rightarrow> mres result) \<Rightarrow> vmethod" where
  "measured cx f value i param =
     bindv (opt_of cx i) (\<lambda>opt. fallible (\<lambda>s. f (cx_form cx) (page_doc s) opt value i param))"

definition part :: "jsv \<Rightarrow> nat \<Rightarrow> jsv" where
  "part param n = (case param of JArr vs \<Rightarrow> nth_value vs n | _ \<Rightarrow> JUndef)"

definition targets_for :: "ctx \<Rightarrow> doc \<Rightarrow> jsv \<Rightarrow> nat list" where
  \<comment> \<open>\<open>$( param )\<close> for a selector or an element\<close>
  "targets_for cx p param = (case param of JStr s \<Rightarrow> select (cx_env cx) p s | JElem k \<Rightarrow> [k] | _ \<Rightarrow> [])"

definition blur_class :: string where
  "blur_class = ''validate-equalTo-blur''"

definition bind_blur :: "ctx \<Rightarrow> nat list \<Rightarrow> vst \<Rightarrow> vst" where
  "bind_blur cx ts s =
     (if focusout_hook (cx_set cx) \<noteq> Off \<and> list_ex (\<lambda>k. blur_class \<notin> set (elem_classes (page_doc s ! k))) ts
      then s\<lparr>page_doc := update_all ts (add_class blur_class) (page_doc s)\<rparr> else s)"

definition equal_to_method :: "ctx \<Rightarrow> vmethod" where
  "equal_to_method cx value i param =
     bindv (reading (\<lambda>s. targets_for cx (page_doc s) param)) (\<lambda>ts.
     andthen (change (bind_blur cx ts))
       (reading (\<lambda>s. Res (value = (case ts of [] \<Rightarrow> JUndef | k # _ \<Rightarrow> elem_val (page_doc s ! k))))))"

definition blur_target :: "ctx \<Rightarrow> methods \<Rightarrow> nat \<Rightarrow> unit vm" where
  "blur_target cx ms i = bindv (valid_fields cx ms [i]) (\<lambda>_. ret ())"

definition core_methods :: "ctx \<Rightarrow> methods" where
  "core_methods cx =
     [(''required'', \<lambda>value i param. fallible (\<lambda>s. required (cx_env cx) (cx_form cx) (page_doc s) value i param)),
      (''email'', tested cx email),
      (''url'', tested cx url),
      (''date'', tested cx (\<lambda>opt v. snd (date_method (date_text (cx_env cx)) opt v False))),
      (''dateISO'', tested cx date_iso),
      (''number'', tested cx number),
      (''digits'', tested cx digits),
      (''minlength'', measured cx minlength),
      (''maxlength'', measured cx maxlength),
      (''rangelength'', measured cx (\<lambda>form p opt value i param. rangelength form p opt value i (part param 0) (part param 1))),
      (''min'', compared cx min_method),
      (''max'', compared cx max_method),
      (''range'', compared cx (\<lambda>opt value param. range_method opt value (part param 0) (part param 1))),
      (''step'', \<lambda>value i param. bindv (opt_of cx i) (\<lambda>opt. fallible (\<lambda>s. step (page_doc s) opt value i param))),
      (''equalTo'', equal_to_method cx),
      (''remote'', remote cx)]"

definition core_method_names :: "string list" where
  "core_method_names =
     [''required'', ''email'', ''url'', ''date'', ''dateISO'', ''number'', ''digits'', ''minlength'', ''maxlength'',
      ''rangelength'', ''min'', ''max'', ''range'', ''step'', ''equalTo'', ''remote'']"

lemma okeys_core_methods: "okeys (core_methods cx) = core_method_names"
  by (simp add: core_methods_def core_method_names_def)

definition core_tables :: tables where
  "core_tables =
     \<lparr>class_settings = core_class_rules, method_names = core_method_names,
      default_messages = core_messages, auto_ranges = False\<rparr>"

section \<open>Starting a validator\<close>

definition listed_names :: "jsv \<Rightarrow> string list" where
  "listed_names v = (case v of JStr s \<Rightarrow> rx_split rspace s | JArr vs \<Rightarrow> map js_text vs | _ \<Rightarrow> [])"

definition init_groups :: "(string, jsv) obj \<Rightarrow> (string, string) obj" where
  "init_groups gs = foldl (\<lambda>m (key, v). foldl (\<lambda>m n. oset m n key) m (listed_names v)) [] gs"

definition init_rules :: "rules \<Rightarrow> rules" where
  "init_rules rs = map (\<lambda>(k, v). (k, normalize_rule v)) rs"

definition init :: "ctx \<Rightarrow> (string, custom) obj \<Rightarrow> doc \<Rightarrow> nodes \<Rightarrow> vst" where
  "init cx messages p ns =
     \<lparr>page_doc = p, page_nodes = ns, now_rules = init_rules (set_rules (cx_set cx)), now_messages = messages,
      groups = init_groups (set_groups (cx_set cx)), submitted = [], invalid = [], pending = [], error_map = [],
      error_list = [], success_list = [], current_elements = [], to_show = [], to_hide = [], pending_request = 0,
      form_submitted = False, cancel_submit = False, submit_button = None, last_active = None, previous = [],
      prevs = [], ports = [], effects = []\<rparr>"

text \<open>\<open>validate( options )\<close>: the validator that the form has, or a new one.\<close>

definition validate_call :: "ctx \<Rightarrow> (string, custom) obj \<Rightarrow> doc \<Rightarrow> nodes \<Rightarrow> vst option \<Rightarrow> vst" where
  "validate_call cx messages p ns registered =
     (case registered of Some v \<Rightarrow> v | None \<Rightarrow> init cx messages p ns)"

section \<open>rules() with a command\<close>

definition rules_command_add :: "nat \<Rightarrow> jsv \<Rightarrow> vst \<Rightarrow> vst" where
  "rules_command_add i argument s =
     (let name = name_of i s; (rs, ms) = rules_add (now_rules s) name argument
      in s\<lparr>now_rules := rs,
           now_messages := (case ms of
              None \<Rightarrow> now_messages s
            | Some m \<Rightarrow>
                oset (now_messages s) name
                  (CEach (oextend (case oget (now_messages s) name of Some (CEach old) \<Rightarrow> old | _ \<Rightarrow> [])
                     (map (\<lambda>(k, v). (k, MVal v)) (jextend [] m)))))\<rparr>)"

definition rules_command_remove :: "nat \<Rightarrow> string option \<Rightarrow> vst \<Rightarrow> rules \<times> vst" where
  "rules_command_remove i argument s =
     (let (rs, removed) = rules_remove (now_rules s) (name_of i s) argument in (removed, s\<lparr>now_rules := rs\<rparr>))"

section \<open>Selectors\<close>

definition trim :: "string \<Rightarrow> string" where
  "trim s = rx_delete (Alt (Seq Bol (rplus rspace)) (Seq (rplus rspace) Eol)) s"

definition blank :: "elem \<Rightarrow> bool" where
  "blank e \<longleftrightarrow> trim (js_text (elem_val e)) = []"

definition filled :: "elem \<Rightarrow> bool" where
  "filled e \<longleftrightarrow> elem_val e \<noteq> JNull \<and> trim (js_text (elem_val e)) \<noteq> []"

definition unchecked_field :: "elem \<Rightarrow> bool" where
  "unchecked_field e \<longleftrightarrow> \<not> elem_checked e"

section \<open>What the methods and answers keep\<close>

text \<open>
  The interface of asking: a predicate that survives a request. The built-in methods keep it: they
  read the state, apart from \<open>equalTo\<close>, which marks the fields it compares with, and \<open>remote\<close>.
\<close>

locale asking = presentation +
  assumes stored: "I s \<Longrightarrow> I (new_previous i m s)"
    and borrowed: "I s \<Longrightarrow> I (borrow_message i a s)"
    and asked: "I s \<Longrightarrow> I (ask_server cx i a v q d s)"
begin

lemma keeps_opt [keeping]: "keeps I (opt_of cx i)"
  unfolding opt_of_def by (intro keeping)

lemma keeps_previous_value [keeping]: "keeps I (previous_value cx i)"
  unfolding previous_value_def by (auto split: option.splits intro!: keeping keeps_change stored)

lemma keeps_remote: "keeps I (remote cx v i q)"
  unfolding remote_def by (auto split: prod.splits intro!: keeping keeps_change borrowed asked)

lemma keeps_equal_to: "keeps I (equal_to_method cx v i q)"
  unfolding equal_to_method_def
  by (auto simp: bind_blur_def cores_update_all intro!: keeping keeps_change doc)

lemma keeps_core_methods: "oget (core_methods cx) name = Some f \<Longrightarrow> keeps I (f v i q)"
  by (auto simp: core_methods_def tested_def compared_def measured_def keeps_remote keeps_equal_to
      split: if_splits intro!: keeping)

end

text \<open>The interface of answers: a predicate that does not depend on messages and remembered values.\<close>

locale answering = ledger +
  assumes messages: "I s \<Longrightarrow> I (s\<lparr>now_messages := ms\<rparr>)"
    and remembered: "I s \<Longrightarrow> I (s\<lparr>prevs := ps\<rparr>)"
begin

lemma storing: "I s \<Longrightarrow> I (new_previous i m s)" "I s \<Longrightarrow> I (borrow_message i a s)"
  by (simp_all add: new_previous_def borrow_message_def update_prev_def Let_def previous messages remembered)

lemma keeps_answer_changes [keeping]: "keeps I (change (restore_message i a))" "keeps I (change (update_prev a f))"
  by (auto simp: restore_message_def update_prev_def intro!: keeps_change messages remembered)

lemma keeps_accept [keeping]: "keeps I (accept_answer cx i)"
  unfolding accept_answer_def reset_internals_def
  by (intro keeping keeps_change list_rules)

lemma keeps_refuse [keeping]: "keeps I (refuse_answer cx i a v r)"
  unfolding refuse_answer_def by (intro keeping)

end

text \<open>A session: both. Checking with the built-in methods keeps what a session keeps.\<close>

locale session = answering +
  assumes requested: "I s \<Longrightarrow> I (ask_server cx i a v q d s)"

sublocale session \<subseteq> asking
  by unfold_locales (rule storing requested, assumption)+

sublocale session \<subseteq> validation cx I "core_methods cx"
  by unfold_locales (rule keeps_core_methods)

context session begin

lemma keeps_blur [keeping]: "keeps I (blur_target cx (core_methods cx) i)"
  unfolding blur_target_def by (intro keeping)

end

end
