(* ===== verification/Sessions.thy ===== *)
theory Sessions
  imports Plugin
begin

text \<open>
  A form at work: the events of the page as steps on the validator's state, in any order, with the
  interfaces of checking and asking interpreted for what the whole plugin keeps: the fields
  themselves, the submissions, and the count of requests.
\<close>

section \<open>Events\<close>

text \<open>
  What can happen to a page: the user's events, an edit of a field, a request's answer (for a
  field, its stored object and its value) or failure. An exception of a handler goes to the
  browser's console; what the handler changed before stays.
\<close>

datatype event =
    FocusIn nat
  | FocusOut nat
  | KeyUp nat nat nat
  | Click nat
  | Blur nat
  | ClickSubmit nat
  | Submit
  | Answer nat nat jsv jsv
  | RequestFails
  | Edit nat jsv
  | ResetForm

definition set_value :: "jsv \<Rightarrow> elem \<Rightarrow> elem" where
  "set_value v e = e\<lparr>elem_val := v\<rparr>"

fun happen :: "ctx \<Rightarrow> methods \<Rightarrow> event \<Rightarrow> vst \<Rightarrow> vst" where
  "happen cx ms (FocusIn i) s = snd (focusin_event cx i s)"
| "happen cx ms (FocusOut i) s = snd (focusout_event cx ms i s)"
| "happen cx ms (KeyUp i w k) s = snd (keyup_event cx ms i w k s)"
| "happen cx ms (Click i) s = snd (click_event cx ms i s)"
| "happen cx ms (Blur i) s = snd (blur_target cx ms i s)"
| "happen cx ms (ClickSubmit b) s = click_submit cx b s"
| "happen cx ms Submit s = user_submit cx ms s"
| "happen cx ms (Answer i a v r) s = snd (remote_success cx ms i a v r s)"
| "happen cx ms RequestFails s = remote_failure s"
| "happen cx ms (Edit i v) s = s\<lparr>page_doc := update_at i (set_value v) (page_doc s)\<rparr>"
| "happen cx ms ResetForm s = snd (reset_form cx s)"

lemma effect_changes [simp]:
  "page_doc (snd (effect e s)) = page_doc s" "effects (snd (effect e s)) = effects s @ [e]"
  by (simp_all add: effect_def change_def)

section \<open>The fields\<close>

definition fields_kept :: "ctx \<Rightarrow> doc \<Rightarrow> vst \<Rightarrow> bool" where
  "fields_kept cx X s \<longleftrightarrow> default_hooks cx \<and> settled (page_doc s) \<and> cores (page_doc s) = X"

lemma cores_ask_server [simp]: "cores (page_doc (ask_server cx i a v q d s)) = cores (page_doc s)"
  by (simp add: ask_server_def ajax_send_def start_request_def update_prev_def Let_def cores_update_at)

lemma fields_kept_doc: "fields_kept cx X s \<Longrightarrow> cores p = cores (page_doc s) \<Longrightarrow> default_hooks cx \<and> settled p \<and> cores p = X"
  using settled_cores [of "page_doc s" p] by (simp add: fields_kept_def)

interpretation fields: session cx "fields_kept cx X" for cx X
proof unfold_locales
  show "fields_kept cx X (ask_server cx i a v q d s)" if "fields_kept cx X s" for i a v q d s
    using fields_kept_doc [OF that cores_ask_server] by (simp add: fields_kept_def)
  show "fields_kept cx X (s\<lparr>page_doc := p\<rparr>)" if "fields_kept cx X s" "cores p = cores (page_doc s)" for s p
    using fields_kept_doc [OF that] by (simp add: fields_kept_def)
qed (auto simp: fields_kept_def)

lemma keeps_fields:
  assumes "\<And>X. keeps (fields_kept cx X) m" "default_hooks cx" "settled (page_doc s)"
  shows "cores (page_doc (snd (m s))) = cores (page_doc s)" "settled (page_doc (snd (m s)))"
  using assms(1) [of "cores (page_doc s)"] assms(2,3) by (auto simp: keeps_def fields_kept_def)

section \<open>Submissions and flags\<close>

fun is_submission :: "effect \<Rightarrow> bool" where
  "is_submission NativeSubmit = True"
| "is_submission (SubmitHandlerCall k) = True"
| "is_submission _ = False"

definition submissions :: "vst \<Rightarrow> effect list" where
  "submissions s = filter is_submission (effects s)"

lemma announcing_no_submission: "announcing e \<Longrightarrow> \<not> is_submission e"
  by (cases e) auto

definition unsubmitted :: "ctx \<Rightarrow> effect list \<Rightarrow> bool \<Rightarrow> bool \<Rightarrow> vst \<Rightarrow> bool" where
  "unsubmitted cx Y w c s \<longleftrightarrow> default_hooks cx \<and> settled (page_doc s) \<and> submissions s = Y \<and> form_submitted s = w \<and> cancel_submit s = c"

lemma submissions_ask_server [simp]:
  "submissions (ask_server cx i a v q d s) = submissions s" "form_submitted (ask_server cx i a v q d s) = form_submitted s"
  "cancel_submit (ask_server cx i a v q d s) = cancel_submit s"
  by (simp_all add: ask_server_def ajax_send_def start_request_def update_prev_def Let_def submissions_def)

lemma settled_ask_server [simp]: "settled (page_doc (ask_server cx i a v q d s)) = settled (page_doc s)"
  by (metis cores_ask_server settled_cores_iff)

interpretation subm: session cx "unsubmitted cx Y w c" for cx Y w c
proof unfold_locales
  show "unsubmitted cx Y w c (s\<lparr>page_doc := p\<rparr>)" if "unsubmitted cx Y w c s" "cores p = cores (page_doc s)" for s p
    using that settled_cores [of "page_doc s" p] by (simp add: unsubmitted_def submissions_def)
  show "unsubmitted cx Y w c (ask_server cx i a v q d s)" if "unsubmitted cx Y w c s" for i a v q d s
    using that by (simp add: unsubmitted_def)
qed (auto simp: unsubmitted_def submissions_def announcing_no_submission)

text \<open>Answers alone do not touch the requests under way either.\<close>

definition frozen :: "ctx \<Rightarrow> (string, jsv) obj \<Rightarrow> int \<Rightarrow> doc \<Rightarrow> vst \<Rightarrow> bool" where
  "frozen cx P n X s \<longleftrightarrow> fields_kept cx X s \<and> pending s = P \<and> pending_request s = n"

interpretation frz: answering cx "frozen cx P n X" for cx P n X
proof unfold_locales
  show "frozen cx P n X (s\<lparr>page_doc := p\<rparr>)" if "frozen cx P n X s" "cores p = cores (page_doc s)" for s p
    using that fields_kept_doc [of cx X s p] by (simp add: frozen_def fields_kept_def)
qed (auto simp: frozen_def fields_kept_def)

section \<open>The count of requests\<close>

text \<open>
  Abstractly a validator has a set of names it waits for. The object \<open>pending\<close> holds these names and
  \<open>pendingRequest\<close> is their number.
\<close>

definition awaited :: "vst \<Rightarrow> string set" where
  "awaited s = set (okeys (pending s))"

definition count_ok :: "vst \<Rightarrow> bool" where
  "count_ok s \<longleftrightarrow> wf_obj (pending s) \<and> (\<forall>v \<in> snd ` set (pending s). v = JBool True) \<and>
     pending_request s = int (length (pending s))"

lemma count_ok_card: "count_ok s \<Longrightarrow> pending_request s = int (card (awaited s))"
  using distinct_card [of "okeys (pending s)"] by (simp add: count_ok_def awaited_def wf_obj_def okeys_def)

lemma oget_in: "oget m k = Some v \<Longrightarrow> (k, v) \<in> set m"
  by (simp add: oget_def map_of_SomeD)

lemma oget_None_iff: "oget m k = None \<longleftrightarrow> k \<notin> set (okeys m)"
  by (simp add: oget_def okeys_def map_of_eq_None_iff)

lemma count_ok_pending:
  assumes "count_ok s"
  shows "js_truthy (jget (pending s) name) \<longleftrightarrow> name \<in> awaited s"
proof (cases "oget (pending s) name")
  case None
  then have "name \<notin> awaited s" by (simp add: awaited_def oget_None_iff)
  then show ?thesis using None by (simp add: jget_def)
next
  case (Some v)
  then have "v = JBool True" using assms oget_in [OF Some] by (force simp: count_ok_def)
  moreover have "name \<in> awaited s" using Some oget_None_iff [of "pending s" name] by (auto simp: awaited_def)
  ultimately show ?thesis using Some by (simp add: jget_def)
qed

lemma snd_oset: "snd ` set (oset m k v) \<subseteq> insert v (snd ` set m)"
  by (induction m k v rule: oset.induct) auto

lemma length_oset: "length (oset m k v) = (if k \<in> set (okeys m) then length m else Suc (length m))"
  using arg_cong [OF keys_oset [of m k v], of length] by (simp add: okeys_def split: if_splits)

lemma snd_odel: "snd ` set (odel m k) \<subseteq> snd ` set m"
  by (auto simp: odel_def)

lemma length_odel: "wf_obj m \<Longrightarrow> length (odel m k) = (if k \<in> set (okeys m) then length m - 1 else length m)"
  using obj.length_keys_del [of m k] by (simp add: okeys_def oget_None_iff [unfolded okeys_def])

lemma pending_start_request:
  assumes "count_ok s"
  shows "count_ok (start_request cx i s)"
    "awaited (start_request cx i s) = (if name_of i s \<in> set prototype_names then awaited s else insert (name_of i s) (awaited s))"
proof -
  let ?n = "name_of i s"
  have k: "oget (pending s) ?n = None \<longleftrightarrow> ?n \<notin> awaited s"
    by (simp add: oget_None_iff awaited_def)
  have v: "\<forall>v \<in> snd ` set (oset (pending s) ?n (JBool True)). v = JBool True"
    using snd_oset [of "pending s" ?n "JBool True"] assms by (auto simp: count_ok_def)
  show "count_ok (start_request cx i s)"
    using assms v count_ok_pending [OF assms, of ?n] k
    by (auto simp: start_request_def Let_def count_ok_def wf_oset length_oset awaited_def)
  show "awaited (start_request cx i s) = (if ?n \<in> set prototype_names then awaited s else insert ?n (awaited s))"
    using count_ok_pending [OF assms, of ?n] k
    by (auto simp: start_request_def Let_def awaited_def keys_oset insert_absorb)
qed

lemma pending_end_request:
  assumes "count_ok s" "name_of i s \<in> awaited s"
  shows "count_ok (end_request cx i s)" "awaited (end_request cx i s) = awaited s - {name_of i s}"
proof -
  have n: "name_of i s \<in> set (okeys (pending s))" using assms(2) by (simp add: awaited_def)
  then have pos: "0 < length (pending s)" by (cases "pending s") (auto simp: okeys_def)
  have c: "int (length (pending s) - 1) = int (length (pending s)) - 1"
    using pos by (cases "length (pending s)") auto
  show "count_ok (end_request cx i s)"
    using assms(1) n pos c snd_odel [of "pending s" "name_of i s"]
    by (auto simp: end_request_def count_ok_def wf_odel length_odel max_def)
  show "awaited (end_request cx i s) = awaited s - {name_of i s}"
    by (auto simp: end_request_def awaited_def okeys_odel)
qed

section \<open>Submitting\<close>

text \<open>The interface of submission: a predicate that survives every effect, flag and hidden input.\<close>

locale submitting = session +
  assumes any_effect: "I s \<Longrightarrow> I (s\<lparr>effects := effects s @ [e]\<rparr>)"
    and cancel: "I s \<Longrightarrow> I (s\<lparr>cancel_submit := c\<rparr>)"
    and waiting: "I s \<Longrightarrow> I (s\<lparr>form_submitted := w\<rparr>)"
    and button: "I s \<Longrightarrow> I (s\<lparr>submit_button := sb\<rparr>)"
    and extended: "I s \<Longrightarrow> I (s\<lparr>page_doc := page_doc s @ [hidden_input cx el]\<rparr>)"
    and detached: "I s \<Longrightarrow> (\<And>k. k \<in> set ks \<Longrightarrow> k < length (page_doc s) \<Longrightarrow> node_name (page_doc s ! k) = ''input'') \<Longrightarrow>
      I (s\<lparr>page_doc := update_all ks detach (page_doc s)\<rparr>)"
begin

lemma keeps_flags [keeping]: "keeps I (change (\<lambda>s. s\<lparr>form_submitted := w\<rparr>))" "keeps I (change (\<lambda>s. s\<lparr>cancel_submit := c\<rparr>))"
  "keeps I (effect e)"
  by (auto simp: effect_def intro!: keeps_change waiting cancel any_effect)

lemma insert_hidden_kept: "I s \<Longrightarrow> I (insert_hidden cx s)"
  by (auto simp: insert_hidden_def extended split: option.splits)

lemma hidden_cycle:
  assumes "I s" "es = effects (insert_hidden cx s)"
  shows "I (remove_hidden (length (page_doc s)) ((insert_hidden cx s)\<lparr>effects := es @ [e]\<rparr>))"
proof -
  let ?t = "(insert_hidden cx s)\<lparr>effects := es @ [e]\<rparr>"
  have t: "I ?t" using assms(2) any_effect [OF insert_hidden_kept [OF assms(1)]] by simp
  have "node_name (page_doc ?t ! k) = ''input''" if "length (page_doc s) \<le> k" "k < length (page_doc ?t)" for k
    using that by (auto simp: insert_hidden_def nth_append hidden_input_def split: option.splits if_splits)
  then show ?thesis unfolding remove_hidden_def by (intro detached [OF t]) auto
qed

lemma keeps_handle [keeping]: "keeps I (handle cx)"
proof -
  have "I (snd (handle cx s))" if "I s" for s
    using hidden_cycle [OF that refl] insert_hidden_kept [OF that]
    by (auto simp: handle_def effect_def bindv_def ret_def andthen_def change_def reading_def split: option.splits)
  then show ?thesis by (simp add: keeps_def)
qed

lemma keeps_submit_listener [keeping]: "keeps I (submit_listener cx (core_methods cx))"
  unfolding submit_listener_def by (intro keeping)

lemma keeps_trigger_submit [keeping]: "keeps I (trigger_submit cx (core_methods cx))"
  unfolding trigger_submit_def by (intro keeping)

lemma keeps_remove_inputs [keeping]: "keeps I (change (remove_inputs_named cx))"
  by (auto simp: remove_inputs_named_def split: option.splits intro!: keeps_change detached)

lemma keeps_resume_submit [keeping]: "keeps I (resume_submit cx (core_methods cx) valid)"
  unfolding resume_submit_def by (intro keeping)

lemma user_submit_kept:
  assumes "I s"
  shows "I (user_submit cx (core_methods cx) s)"
proof (cases "trigger_submit cx (core_methods cx) s")
  case (Pair r t)
  then have "I t" using keepsD [OF keeps_trigger_submit assms] by blast
  then show ?thesis
    using any_effect by (cases r) (simp_all add: user_submit_def Pair effect_def change_def)
qed

lemma click_submit_kept: "I s \<Longrightarrow> I (click_submit cx b s)"
  using cancel [OF button] by (simp add: click_submit_def Let_def)

end

definition counting :: "ctx \<Rightarrow> vst \<Rightarrow> bool" where
  "counting cx s \<longleftrightarrow> default_hooks cx \<and> settled (page_doc s) \<and> count_ok s"

lemma settled_hidden: "settled p \<Longrightarrow> settled (p @ [hidden_input cx e])"
  by (simp add: settled_def settled_field_def content_editable_def hidden_input_def)

lemma detach_keeps: "settled_field e \<Longrightarrow> node_name e = ''input'' \<Longrightarrow> settled_field (detach e)"
  by (simp add: settled_field_def detach_def content_editable_def)

lemma settled_detach:
  assumes "settled p" "\<And>k. k \<in> set ks \<Longrightarrow> k < length p \<Longrightarrow> node_name (p ! k) = ''input''"
  shows "settled (update_all ks detach p)"
  using assms
proof (induction ks arbitrary: p)
  case (Cons k ks)
  have n: "node_name (update_at k detach p ! j) = node_name (p ! j)" if "j < length p" for j
    using that by (simp add: update_at_nth detach_def)
  have "settled (update_at k detach p)"
    using Cons.prems by (auto simp: settled_def list_all_length update_at_nth detach_keeps)
  then show ?case using Cons.prems(2) by (auto intro!: Cons.IH simp: n)
qed simp

lemma count_ok_ask_server: "count_ok s \<Longrightarrow> count_ok (ask_server cx i a v q d s)"
  using pending_start_request(1) [of "update_prev a (\<lambda>pv. pv\<lparr>old_value := Some d\<rparr>) s" cx i]
  by (simp add: ask_server_def ajax_send_def Let_def count_ok_def update_prev_def)

interpretation requests: submitting cx "counting cx" for cx
proof unfold_locales
  show "counting cx (s\<lparr>page_doc := p\<rparr>)" if "counting cx s" "cores p = cores (page_doc s)" for s p
    using that settled_cores [of "page_doc s" p] by (simp add: counting_def count_ok_def)
  show "counting cx (s\<lparr>page_doc := page_doc s @ [hidden_input cx el]\<rparr>)" if "counting cx s" for s el
    using that by (simp add: counting_def count_ok_def settled_hidden)
  show "counting cx (s\<lparr>page_doc := update_all ks detach (page_doc s)\<rparr>)"
    if "counting cx s" "\<And>k. k \<in> set ks \<Longrightarrow> k < length (page_doc s) \<Longrightarrow> node_name (page_doc s ! k) = ''input''" for s ks
    using that settled_detach [of "page_doc s" ks] by (simp add: counting_def count_ok_def)
  show "counting cx (ask_server cx i a v q d s)" if "counting cx s" for i a v q d s
    using that by (simp add: counting_def count_ok_ask_server)
qed (auto simp: counting_def count_ok_def)

section \<open>Answers\<close>

lemma after_keeps:
  assumes "keeps K m" "K s" "\<And>t. K t \<Longrightarrow> J t" "\<And>t. K t \<Longrightarrow> J (snd (n t))"
  shows "J (snd (andthen m n s))"
proof (cases "m s")
  case (Pair r t)
  then have "K t" using keepsD [OF assms(1,2)] by blast
  then show ?thesis
    using assms(3,4) by (cases r) (simp_all add: andthen_def bindv_def Pair)
qed

lemma andthen_finish [simp]: "snd (andthen m (ret ()) s) = snd (m s)"
  by (simp add: andthen_def bindv_def ret_def split: prod.split sum.split)

lemma remote_success_steps:
  "remote_success cx ms i a v r =
     andthen (change (restore_message i a))
       (andthen (if accepted r then accept_answer cx i else refuse_answer cx i a v r)
          (andthen (change (update_prev a (\<lambda>pv. pv\<lparr>prev_valid := accepted r\<rparr>)))
             (andthen (stop_request cx ms i (accepted r)) (ret ()))))"
  by (simp add: remote_success_def steps_def)

text \<open>What holds after an answer: show it for the state before \<open>stopRequest\<close>, which has the same
  fields and requests as the state in which the answer came.\<close>

lemma answer_rule:
  assumes "frozen cx P n X s"
    and "\<And>t. frozen cx P n X t \<Longrightarrow> J t"
    and "\<And>t. frozen cx P n X t \<Longrightarrow> J (snd (stop_request cx ms i (accepted r) t))"
  shows "J (snd (remote_success cx ms i a v r s))"
proof -
  let ?K = "frozen cx P n X"
  have k: "keeps ?K (change (restore_message i a))"
    "keeps ?K (if accepted r then accept_answer cx i else refuse_answer cx i a v r)"
    "keeps ?K (change (update_prev a (\<lambda>pv. pv\<lparr>prev_valid := accepted r\<rparr>)))"
    by (intro keeping frz.keeps_answer_changes frz.keeps_accept frz.keeps_refuse)+
  have 3: "J (snd (andthen (change (update_prev a (\<lambda>pv. pv\<lparr>prev_valid := accepted r\<rparr>)))
      (andthen (stop_request cx ms i (accepted r)) (ret ())) t))" if "?K t" for t
  proof (rule after_keeps [where K = ?K])
    show "J (snd (andthen (stop_request cx ms i (accepted r)) (ret ()) t))" if "?K t" for t
      unfolding andthen_finish using that by (rule assms(3))
  qed (use k(3) that assms(2) in auto)
  have 2: "J (snd (andthen (if accepted r then accept_answer cx i else refuse_answer cx i a v r)
      (andthen (change (update_prev a (\<lambda>pv. pv\<lparr>prev_valid := accepted r\<rparr>)))
        (andthen (stop_request cx ms i (accepted r)) (ret ()))) t))" if "?K t" for t
    using k(2) that assms(2) 3 by (rule after_keeps)
  show ?thesis unfolding remote_success_steps using k(1) assms(1) assms(2) 2 by (rule after_keeps)
qed

lemma frozenI: "default_hooks cx \<Longrightarrow> settled (page_doc s) \<Longrightarrow>
    frozen cx (pending s) (pending_request s) (cores (page_doc s)) s"
  by (simp add: frozen_def fields_kept_def)

lemma cores_name_of: "cores (page_doc s) = cores (page_doc t) \<Longrightarrow> i < length (page_doc s) \<Longrightarrow> name_of i s = name_of i t"
  unfolding name_of_def by (rule core_of_fields(1)) (rule cores_nth)

lemma frozen_name:
  assumes "frozen cx P n (cores (page_doc s)) t" "i < length (page_doc s)"
  shows "name_of i t = name_of i s"
  using assms cores_name_of [of s t i] by (simp add: frozen_def fields_kept_def)

section \<open>Reachable states\<close>

text \<open>Answers come for fields that have a request under way.\<close>

fun possible :: "vst \<Rightarrow> event \<Rightarrow> bool" where
  "possible s (Answer i a v r) = (i < length (page_doc s) \<and> name_of i s \<in> awaited s)"
| "possible s _ = True"

inductive reachable :: "ctx \<Rightarrow> vst \<Rightarrow> vst \<Rightarrow> bool" for cx s0 where
  start: "reachable cx s0 s0"
| step: "reachable cx s0 s \<Longrightarrow> possible s ev \<Longrightarrow> reachable cx s0 (happen cx (core_methods cx) ev s)"

lemma settled_field_set_value [simp]: "settled_field (set_value v e) = settled_field e"
  by (simp add: settled_field_def set_value_def content_editable_def)

lemma settled_edit: "settled p \<Longrightarrow> settled (update_at i (set_value v) p)"
  by (simp add: settled_def list_all_length update_at_nth)

lemma counting_stop_request:
  assumes "counting cx s" "name_of i s \<in> awaited s"
  shows "counting cx (snd (stop_request cx (core_methods cx) i b s))"
proof -
  have "cores (page_doc (end_request cx i s)) = cores (page_doc s)"
    by (simp add: end_request_def cores_update_at)
  then have "counting cx (end_request cx i s)"
    using assms pending_end_request(1) [of s i cx] settled_cores [of "page_doc s" "page_doc (end_request cx i s)"]
    by (simp add: counting_def)
  then show ?thesis
    using requests.keeps_resume_submit [of cx b] by (simp add: stop_request_def keeps_def)
qed

lemma counting_answer:
  assumes "counting cx s" "i < length (page_doc s)" "name_of i s \<in> awaited s"
  shows "counting cx (snd (remote_success cx (core_methods cx) i a v r s))"
proof (rule answer_rule [where P = "pending s" and n = "pending_request s" and X = "cores (page_doc s)"])
  show "frozen cx (pending s) (pending_request s) (cores (page_doc s)) s"
    using assms(1) by (intro frozenI) (simp_all add: counting_def)
  show c: "counting cx t" if "frozen cx (pending s) (pending_request s) (cores (page_doc s)) t" for t
    using that assms(1) by (simp add: counting_def frozen_def fields_kept_def count_ok_def)
  show "counting cx (snd (stop_request cx (core_methods cx) i (accepted r) t))"
    if "frozen cx (pending s) (pending_request s) (cores (page_doc s)) t" for t
    using counting_stop_request [OF c [OF that], of i] that assms(2,3) frozen_name [OF that assms(2)]
    by (simp add: frozen_def awaited_def)
qed

lemma counting_happen:
  assumes "counting cx s" "possible s ev"
  shows "counting cx (happen cx (core_methods cx) ev s)"
proof (cases ev)
  case (Answer i a v r)
  then show ?thesis using assms counting_answer by simp
next
  case (Edit i v)
  then show ?thesis using assms(1) settled_edit by (simp add: counting_def count_ok_def)
qed (use assms(1) in \<open>auto simp: remote_failure_def
    intro: requests.user_submit_kept requests.click_submit_kept
      requests.keeps_focusin_event [unfolded keeps_def, rule_format]
      requests.keeps_focusout_event [unfolded keeps_def, rule_format]
      requests.keeps_keyup_event [unfolded keeps_def, rule_format]
      requests.keeps_click_event [unfolded keeps_def, rule_format]
      requests.keeps_blur [unfolded keeps_def, rule_format]
      requests.keeps_reset_form [unfolded keeps_def, rule_format]\<close>)

end
