(* ===== verification/Sample.thy ===== *)
theory Sample
  imports Sessions
begin

text \<open>
  Small pages on which the properties are instantiated (without rules from attributes): one form of text fields, a selector engine
  that answers a few selectors, the default settings and the built-in methods.
\<close>

definition text_field :: "string \<Rightarrow> string \<Rightarrow> string list \<Rightarrow> elem" where
  "text_field name val classes =
     \<lparr>node_name = ''input'', elem_type = ''text'', elem_name = name, elem_id = [], elem_title = [], elem_attrs = [],
      elem_data = [], elem_val = JStr val, elem_text = [], elem_checked = False, bad_input = None, selected_count = 0,
      elem_form = Some 0, elem_within = [0], elem_parent = None, elem_in_label = None, elem_classes = classes\<rparr>"

definition sample_env :: env where
  "sample_env =
     \<lparr>matches = (\<lambda>p sel i. sel = '':visible''), select = (\<lambda>p sel. []), call_test = (\<lambda>f p i. False),
      call_param = (\<lambda>f p i. JUndef), call_norm = (\<lambda>f i v. v), call_msg = (\<lambda>f v i. JUndef),
      call_classes = (\<lambda>f p i a b. p), call_place = (\<lambda>f p ns k i. ns), call_success = (\<lambda>f ns ks i. ns),
      call_invalid = (\<lambda>f ns es. ns), call_submit = (\<lambda>f p. JUndef), call_data = (\<lambda>p v. JUndef),
      object_text = (\<lambda>e. ''[object HTMLInputElement]''), date_text = (\<lambda>t. t)\<rparr>"

definition sample_cx :: ctx where
  "sample_cx = \<lparr>cx_env = sample_env, cx_form = 0, cx_set = defaults, cx_tab = core_tables\<lparr>method_names := []\<rparr>\<rparr>"

text \<open>A login form: the user's name is required and asked at the server.\<close>

definition login_cx :: ctx where
  "login_cx = sample_cx\<lparr>cx_set := defaults\<lparr>set_rules :=
     [(''user'', JObj [(''required'', JBool True), (''remote'', JStr ''/free'')])]\<rparr>\<rparr>"

definition login_page :: doc where
  "login_page = [text_field ''user'' ''ann'' []]"

definition login_start :: vst where
  "login_start = init login_cx [] login_page []"

lemma default_hooks_sample: "default_hooks sample_cx" "default_hooks login_cx"
  by (simp_all add: default_hooks_def sample_cx_def login_cx_def defaults_def)

lemma settled_login: "settled (page_doc login_start)"
  by (simp add: login_start_def init_def login_page_def settled_def settled_field_def text_field_def content_editable_def)

text \<open>The login form after it was submitted: it waits for the answer.\<close>

definition login_waiting :: vst where
  "login_waiting =
     \<lparr>page_doc = [(text_field ''user'' ''ann'' [])\<lparr>elem_classes := [''pending'', ''valid'']\<rparr>], page_nodes = [],
      now_rules = [(''user'', JObj [(''required'', JBool True), (''remote'', JStr ''/free'')])],
      now_messages = [(''user'', CEach [(''remote'', MVal (JStr ''Please fix this field.''))])],
      groups = [], submitted = [], invalid = [], pending = [(''user'', JBool True)], error_map = [], error_list = [],
      success_list = [], current_elements = [0], to_show = [], to_hide = [], pending_request = 1, form_submitted = True,
      cancel_submit = False, submit_button = None, last_active = None, previous = [(0, 0)],
      prevs = [\<lparr>old_value = Some ''data=ann'', prev_valid = True, prev_message = JStr ''Please fix this field.'',
                 original_message = MVal JUndef\<rparr>],
      ports = [''validateuser''],
      effects = [AjaxSend 0 0 (JStr ''ann'') (JObj [(''url'', JStr ''/free'')])]\<rparr>"

lemma login_waiting_reached: "happen login_cx (core_methods login_cx) Submit login_start = login_waiting"
  by code_simp

lemma count_ok_init: "count_ok (init cx messages p ns)"
  by (simp add: count_ok_def init_def)

lemma counting_login: "counting login_cx login_start"
  using default_hooks_sample(2) settled_login count_ok_init by (simp add: counting_def login_start_def)

lemma counting_waiting: "counting login_cx login_waiting"
  using counting_happen [OF counting_login, of Submit] unfolding login_waiting_reached by simp

end
