(* ===== verification/SessionProps.thy ===== *)
theory SessionProps
  imports Sample
begin

text \<open>
  Properties of a form at work: what validation never changes, when a form is submitted, the count
  of requests as a set of names, and what becomes of a submission that waits for an answer.
\<close>

section \<open>Validation leaves the fields alone\<close>

text \<open>C10: Validating (the whole form, one field with its group, a list of fields) changes nothing of
  any field but its classes and the attributes \<open>aria-invalid\<close> and \<open>aria-describedby\<close>: names, values,
  checks and every other attribute are the same afterwards, also when a method throws, for every
  settled page, every rule and every state, with the default hooks.\<close>

theorem validation_keeps_fields:
  assumes "default_hooks cx" "settled (page_doc s)"
  shows "cores (page_doc (snd (form cx (core_methods cx) s))) = cores (page_doc s) \<and>
    cores (page_doc (snd (element cx (core_methods cx) i s))) = cores (page_doc s) \<and>
    cores (page_doc (snd (valid_fields cx (core_methods cx) is s))) = cores (page_doc s)"
  using keeps_fields(1) [OF fields.keeps_form assms] keeps_fields(1) [OF fields.keeps_element assms]
    keeps_fields(1) [OF fields.keeps_valid_fields assms] by blast

theorem validation_keeps_fields_witness:
  "map elem_val (page_doc (snd (form login_cx (core_methods login_cx) login_start))) = [JStr ''ann'']"
proof -
  have "map elem_val (cores (page_doc (snd (form login_cx (core_methods login_cx) login_start))))
      = map elem_val (cores (page_doc login_start))"
    using validation_keeps_fields [OF default_hooks_sample(2) settled_login] by simp
  then show ?thesis by (simp add: cores_def comp_def login_start_def init_def login_page_def text_field_def)
qed

section \<open>When a form is submitted\<close>

text \<open>What a submission needs: a submit event with validation switched off, cancelled for once, or
  passed with no request under way (or broken off by an exception); or the last accepted answer for
  a submission that waits.\<close>

fun may_submit :: "ctx \<Rightarrow> methods \<Rightarrow> vst \<Rightarrow> event \<Rightarrow> bool" where
  "may_submit cx ms s Submit =
     (\<not> on_submit (cx_set cx) \<or> cancel_submit s \<or>
      (case form cx ms s of (Inr ok, u) \<Rightarrow> ok \<and> pending_request u = 0 | (Inl e, u) \<Rightarrow> True))"
| "may_submit cx ms s (Answer i a v r) = (accepted r \<and> form_submitted s \<and> pending_request s \<le> 1)"
| "may_submit cx ms s _ = False"

lemma unsubmittedI: "default_hooks cx \<Longrightarrow> settled (page_doc s) \<Longrightarrow>
    unsubmitted cx (submissions s) (form_submitted s) (cancel_submit s) s"
  by (simp add: unsubmitted_def)

lemma keeps_submissions:
  assumes "\<And>Y w c. keeps (unsubmitted cx Y w c) m" "default_hooks cx" "settled (page_doc s)"
  shows "submissions (snd (m s)) = submissions s"
  using assms(1) [of "submissions s" "form_submitted s" "cancel_submit s"] unsubmittedI [OF assms(2,3)]
  by (auto simp: keeps_def unsubmitted_def)

lemma fst_focus_invalid: "fst (focus_invalid cx s) = Inr ()"
  by (auto simp: focus_invalid_def whenv_def ret_def bindv_def reading_def andthen_def quietly_def effect_def change_def
      split: option.splits)

lemma refused_submit:
  assumes "default_hooks cx" "settled (page_doc s)" "on_submit (cx_set cx)" "\<not> cancel_submit s"
    and "form cx (core_methods cx) s = (Inr ok, u)" "\<not> ok \<or> pending_request u \<noteq> 0"
  shows "submissions (user_submit cx (core_methods cx) s) = submissions s"
proof -
  let ?Y = "unsubmitted cx (submissions s) (form_submitted s) (cancel_submit s)"
  have u: "?Y u" using keepsD [OF subm.keeps_form unsubmittedI [OF assms(1,2)] assms(5)] .
  then have f: "?Y (snd (focus_invalid cx u))" using subm.keeps_focus_invalid by (simp add: keeps_def)
  obtain t where t: "submit_listener cx (core_methods cx) s = (Inr (JBool False), t)" "submissions t = submissions s"
  proof (cases ok)
    case True
    then have "submit_listener cx (core_methods cx) s = (Inr (JBool False), u\<lparr>form_submitted := True\<rparr>)"
      using assms(4,5,6) by (simp add: submit_listener_def bindv_def reading_def andthen_def change_def ret_def)
    then show ?thesis using that u by (simp add: unsubmitted_def submissions_def)
  next
    case False
    obtain v where fi: "focus_invalid cx u = (Inr (), v)"
      using fst_focus_invalid [of cx u] by (metis prod.collapse)
    have "submit_listener cx (core_methods cx) s = (Inr (JBool False), v)"
      using False assms(4,5) fi by (simp add: submit_listener_def bindv_def reading_def andthen_def ret_def)
    then show ?thesis using that f fi by (simp add: unsubmitted_def)
  qed
  then show ?thesis
    using assms(3) by (simp add: user_submit_def trigger_submit_def bindv_def whenv_def ret_def)
qed

lemma unsubmitted_end_request: "unsubmitted cx Y w c s \<Longrightarrow> unsubmitted cx Y w c (end_request cx i s)"
  using settled_cores [of "page_doc s" "page_doc (end_request cx i s)"]
  by (simp add: unsubmitted_def end_request_def submissions_def cores_update_at)

lemma keeps_waiting_off:
  "keeps (\<lambda>s. default_hooks cx \<and> settled (page_doc s) \<and> submissions s = Y) (change (\<lambda>s. s\<lparr>form_submitted := False\<rparr>))"
  by (rule keeps_change) (simp add: submissions_def)

lemma quiet_stop_request:
  assumes "unsubmitted cx Y w c t" "\<not> (b \<and> form_submitted t \<and> pending_request t \<le> 1)"
  shows "submissions (snd (stop_request cx (core_methods cx) i b t)) = Y"
proof -
  let ?e = "end_request cx i t"
  have e: "unsubmitted cx Y w c ?e" "pending_request ?e = max 0 (pending_request t - 1)" "form_submitted ?e = form_submitted t"
    using unsubmitted_end_request [OF assms(1)] by (simp_all add: end_request_def)
  have tr: "unsubmitted cx Y w c (snd (trigger_invalid cx ?e))"
    using subm.keeps_trigger_invalid e(1) by (simp add: keeps_def)
  obtain u where u: "trigger_invalid cx ?e = (Inr (), u)"
    by (simp add: trigger_invalid_def effect_def andthen_def bindv_def change_def)
  have "submissions u = Y" using tr u by (simp add: unsubmitted_def)
  then show ?thesis
    using assms(2) e u
    by (auto simp: stop_request_def resume_submit_def ret_def andthen_def bindv_def change_def reading_def
        unsubmitted_def submissions_def)
qed

lemma quiet_answer:
  assumes "default_hooks cx" "settled (page_doc s)" "\<not> may_submit cx (core_methods cx) s (Answer i a v r)"
  shows "submissions (snd (remote_success cx (core_methods cx) i a v r s)) = submissions s"
proof -
  let ?U = "unsubmitted cx (submissions s) (form_submitted s) (cancel_submit s)"
  let ?K = "\<lambda>t. ?U t \<and> frozen cx (pending s) (pending_request s) (cores (page_doc s)) t"
  have kk: "keeps ?K m" if "\<And>Y w c. keeps (unsubmitted cx Y w c) m" "\<And>P n X. keeps (frozen cx P n X) m" for m :: "unit vm"
    using that unfolding keeps_def by blast
  have k: "keeps ?K (change (restore_message i a))" "keeps ?K (change (update_prev a f))"
    "keeps ?K (if accepted r then accept_answer cx i else refuse_answer cx i a v r)" for f
    by (auto intro!: kk keeping subm.keeps_accept subm.keeps_refuse subm.keeps_answer_changes
        frz.keeps_accept frz.keeps_refuse frz.keeps_answer_changes)
  have s: "?K s" using unsubmittedI frozenI assms(1,2) by blast
  have J: "submissions t = submissions s" if "?K t" for t using that by (simp add: unsubmitted_def)
  have 3: "submissions (snd (andthen (stop_request cx (core_methods cx) i (accepted r)) (ret ()) t)) = submissions s"
    if "?K t" for t
    unfolding andthen_finish
  proof (rule quiet_stop_request)
    show "?U t" using that ..
    show "\<not> (accepted r \<and> form_submitted t \<and> pending_request t \<le> 1)"
      using that assms(3) by (auto simp: unsubmitted_def frozen_def)
  qed
  note after = after_keeps [where K = ?K and J = "\<lambda>t. submissions t = submissions s", OF _ _ J]
  show ?thesis
    unfolding remote_success_steps
    by (rule after [OF k(1) s], assumption, rule after [OF k(3)], assumption, assumption,
        rule after [OF k(2)], assumption, assumption, rule 3)
qed

lemma quiet_event:
  assumes "default_hooks cx" "settled (page_doc s)" "\<not> may_submit cx (core_methods cx) s ev"
  shows "submissions (happen cx (core_methods cx) ev s) = submissions s"
proof -
  note quiet = keeps_submissions [OF _ assms(1,2)]
  show ?thesis
  proof (cases ev)
    case Submit
    then show ?thesis
      using assms(3) refused_submit [OF assms(1,2)] by (auto split: prod.splits sum.splits)
  next
    case (Answer i a v r)
    then show ?thesis using assms(3) quiet_answer [OF assms(1,2)] by simp
  qed (auto simp: click_submit_def submissions_def Let_def remote_failure_def
      intro: quiet [unfolded submissions_def] subm.keeps_focusin_event subm.keeps_focusout_event subm.keeps_keyup_event
        subm.keeps_click_event subm.keeps_blur subm.keeps_reset_form)
qed

text \<open>C1: A form is only ever submitted (natively or through the page's \<open>submitHandler\<close>) by a submit
  event whose validation is switched off, is cancelled by the button that was used, or returns true
  with no request under way, or breaks off with an exception; or by the accepted answer to the
  last request of a submission that waits. No other event (focus, keys, clicks, blurs, refused or
  early answers, failed requests, edits, resets) submits, in any state of any settled page.\<close>

theorem submission_needs_validation:
  assumes "default_hooks cx" "settled (page_doc s)"
    and "submissions (happen cx (core_methods cx) ev s) \<noteq> submissions s"
  shows "may_submit cx (core_methods cx) s ev"
  using quiet_event [OF assms(1,2)] assms(3) by blast

theorem submission_needs_validation_witness:
  "may_submit login_cx (core_methods login_cx) (login_start\<lparr>cancel_submit := True\<rparr>) Submit"
proof -
  let ?s = "login_start\<lparr>cancel_submit := True\<rparr>"
  have "submissions (happen login_cx (core_methods login_cx) Submit ?s) \<noteq> submissions ?s"
    by (simp add: user_submit_def trigger_submit_def submit_listener_def handle_def bindv_def andthen_def change_def ret_def
        reading_def whenv_def effect_def insert_hidden_def submissions_def login_start_def init_def login_cx_def sample_cx_def defaults_def)
  from submission_needs_validation [OF default_hooks_sample(2) _ this]
  show ?thesis using settled_login by simp
qed

section \<open>The count of requests\<close>

text \<open>C12: In every state that a form reaches by any sequence of events (answers coming only for fields
  that wait for one), \<open>pendingRequest\<close> is never negative and is exactly the number of names in
  \<open>pending\<close>; every name stands there once.\<close>

theorem request_count:
  assumes "reachable cx (init cx messages p ns) s" "default_hooks cx" "settled p"
  shows "0 \<le> pending_request s \<and> pending_request s = int (card (awaited s)) \<and> distinct (okeys (pending s))"
proof -
  from assms(1) have "counting cx s"
  proof induction
    case start
    then show ?case using assms(2,3) count_ok_init by (simp add: counting_def init_def)
  qed (rule counting_happen)
  then show ?thesis
    using count_ok_card [of s] by (simp add: counting_def count_ok_def wf_obj_def okeys_def)
qed

theorem request_count_witness: "pending_request login_waiting = int (card (awaited login_waiting))"
proof -
  have "reachable login_cx (init login_cx [] login_page []) login_waiting"
    using reachable.step [OF reachable.start, of login_start Submit login_cx]
    unfolding login_waiting_reached by (simp add: login_start_def)
  then show ?thesis
    using request_count [of login_cx "[]" login_page "[]" login_waiting] default_hooks_sample settled_login
    by (simp add: login_start_def init_def)
qed

text \<open>The abstract validator: a set of names it waits for, with two operations.\<close>

definition ask_name :: "string \<Rightarrow> string set \<Rightarrow> string set" where
  "ask_name name W = (if name \<in> set prototype_names then W else insert name W)"

definition answer_name :: "string \<Rightarrow> string set \<Rightarrow> string set" where
  "answer_name name W = W - {name}"

lemma unawaited_end_request:
  assumes "count_ok s" "name_of i s \<notin> awaited s"
  shows "awaited (end_request cx i s) = awaited s \<and> (count_ok (end_request cx i s) \<longleftrightarrow> awaited s = {})"
proof -
  have n: "name_of i s \<notin> set (okeys (pending s))" using assms(2) by (simp add: awaited_def)
  then have p: "pending (end_request cx i s) = pending s" by (force simp: end_request_def odel_def okeys_def filter_id_conv)
  have "awaited s = {} \<longleftrightarrow> length (pending s) = 0" by (simp add: awaited_def okeys_def)
  moreover have "pending_request (end_request cx i s) = max 0 (int (length (pending s)) - 1)"
    using assms(1) by (simp add: end_request_def count_ok_def)
  ultimately show ?thesis using assms(1) by (auto simp: count_ok_def p awaited_def)
qed

text \<open>C3: The counter and the object of \<open>startRequest\<close> and \<open>stopRequest\<close> implement a set of names: starting a request
  inserts the field's name (except for the name of a member that every object has, such as \<open>constructor\<close>, for which
  nothing is inserted or counted), ending the request of a name in the set removes it, and in both cases the
  counter stays the size of the set, so that no request is counted twice and the counter is zero exactly when no name
  is awaited. Ending the request of a name that is not in the set leaves the set, but takes one off a counter above
  zero: the counter then is the size of the set no more, unless the set is empty.\<close>

theorem requests_refine_set:
  assumes "count_ok s"
  shows "awaited (start_request cx i s) = ask_name (name_of i s) (awaited s) \<and> count_ok (start_request cx i s) \<and>
    awaited (end_request cx i s) = answer_name (name_of i s) (awaited s) \<and>
    (count_ok (end_request cx i s) \<longleftrightarrow> name_of i s \<in> awaited s \<or> awaited s = {}) \<and>
    (pending_request s = 0 \<longleftrightarrow> awaited s = {})"
proof -
  have "finite (awaited s)" by (simp add: awaited_def)
  then have "pending_request s = 0 \<longleftrightarrow> awaited s = {}" using count_ok_card [OF assms] by simp
  then show ?thesis
    using pending_start_request [OF assms, of cx i] pending_end_request [OF assms, of i cx] unawaited_end_request [OF assms, of i cx]
    by (cases "name_of i s \<in> awaited s") (auto simp: ask_name_def answer_name_def)
qed

theorem requests_refine_set_witness:
  "awaited (start_request login_cx 0 login_start) = {''user''} \<and> count_ok (start_request login_cx 0 login_start)"
proof -
  have "count_ok login_start" using counting_login by (simp add: counting_def)
  from requests_refine_set [OF this, of login_cx 0]
  show ?thesis
    by (simp add: ask_name_def awaited_def name_of_def prototype_names_def login_start_def init_def login_page_def text_field_def)
qed

section \<open>A submission that waits\<close>

lemma submissions_end_request [simp]: "submissions (end_request cx i s) = submissions s"
  by (simp add: end_request_def submissions_def)

text \<open>C4: A form that was submitted while a request was under way is sent by itself as soon as the last
  awaited answer is positive: if the form validates then, and again in the submit event that
  \<open>stopRequest\<close> triggers, without new requests, the browser submits it exactly once (with no
  \<open>submitHandler\<close> and no debugging), and it no longer waits.\<close>

theorem waiting_form_is_sent:
  assumes "default_hooks cx" "settled (page_doc s)" "count_ok s" "form_submitted s" "awaited s = {name_of i s}"
    and "\<not> cancel_submit s" "on_submit (cx_set cx)" "submit_handler (cx_set cx) = None" "\<not> debug_on (cx_set cx)"
    and "form cx (core_methods cx) (end_request cx i s) = (Inr True, u)" "pending_request u = 0"
    and "form cx (core_methods cx) u = (Inr True, w)" "pending_request w = 0"
  shows "submissions (snd (stop_request cx (core_methods cx) i True s)) = submissions s @ [NativeSubmit] \<and>
    \<not> form_submitted (snd (stop_request cx (core_methods cx) i True s))"
proof -
  let ?e = "end_request cx i s" and ?U = "unsubmitted cx (submissions s) True False"
  have e0: "pending_request ?e = 0" "form_submitted ?e"
    using assms(4) count_ok_card [OF assms(3)] assms(5) by (simp_all add: end_request_def)
  have "?U ?e" using unsubmitted_end_request [OF unsubmittedI [OF assms(1,2)]] assms(4,6) by simp
  then have u: "?U u" using keepsD [OF subm.keeps_form _ assms(10)] by blast
  then have w: "?U w" using keepsD [OF subm.keeps_form _ assms(12)] by blast
  have l: "submit_listener cx (core_methods cx) u = (Inr (JBool True), insert_hidden cx w)"
    using u assms(8,12,13)
    by (simp add: submit_listener_def handle_def bindv_def reading_def andthen_def change_def ret_def unsubmitted_def)
  have t: "trigger_submit cx (core_methods cx) u
      = (Inr (), (insert_hidden cx w)\<lparr>effects := effects (insert_hidden cx w) @ [NativeSubmit]\<rparr>)"
    using assms(7,9) l by (simp add: trigger_submit_def bindv_def whenv_def effect_def change_def)
  have "submissions (insert_hidden cx w) = submissions s"
    using w by (auto simp: insert_hidden_def submissions_def unsubmitted_def split: option.splits)
  then show ?thesis
    using e0 assms(10,11) t
    by (auto simp: stop_request_def resume_submit_def steps_def andthen_def bindv_def change_def reading_def whenv_def ret_def
        remove_inputs_named_def submissions_def split: option.splits)
qed

lemma login_resumes:
  "fst (form login_cx (core_methods login_cx) login_waiting) = Inr True \<and>
   (case form login_cx (core_methods login_cx) (end_request login_cx 0 login_waiting) of (r, u) \<Rightarrow>
     r = Inr True \<and> pending_request u = 0 \<and>
     (case form login_cx (core_methods login_cx) u of (q, w) \<Rightarrow> q = Inr True \<and> pending_request w = 0))"
  by code_simp

theorem waiting_form_is_sent_witness:
  "submissions (snd (stop_request login_cx (core_methods login_cx) 0 True login_waiting)) = [NativeSubmit]"
proof -
  obtain u w where r: "form login_cx (core_methods login_cx) (end_request login_cx 0 login_waiting) = (Inr True, u)"
    "pending_request u = 0" "form login_cx (core_methods login_cx) u = (Inr True, w)" "pending_request w = 0"
    using login_resumes by (auto split: prod.splits)
  have s: "submissions login_waiting = []" "form_submitted login_waiting" "awaited login_waiting = {name_of 0 login_waiting}"
    "\<not> cancel_submit login_waiting"
    by (simp_all add: login_waiting_def submissions_def awaited_def name_of_def text_field_def)
  have c: "on_submit (cx_set login_cx)" "submit_handler (cx_set login_cx) = None" "\<not> debug_on (cx_set login_cx)"
    by (simp_all add: login_cx_def defaults_def)
  show ?thesis
    using waiting_form_is_sent [OF default_hooks_sample(2) _ _ s(2,3,4) c r] counting_waiting s(1)
    by (simp add: counting_def)
qed












end
