(* ===== verification/CheckingProps.thy ===== *)
theory CheckingProps
  imports Sample
begin

text \<open>
  Properties of a validation: which fields a form has, what \<open>check\<close> reports of one field, and how
  the lists that \<open>form\<close> leaves fit together.
\<close>

section \<open>The fields of a form\<close>

lemma cache_name_cores: "core_of e = core_of e' \<Longrightarrow> cache_name e = cache_name e'"
  using core_of_fields(1) [of e e'] core_of_attr [of e e' "''name''"] by (simp add: cache_name_def)

lemma rules_of_cores:
  assumes "default_hooks cx" "settled (page_doc s)" "rules_of cx i s = (r, t)"
  shows "cores (page_doc t) = cores (page_doc s)" "settled (page_doc t)"
proof -
  show c: "cores (page_doc t) = cores (page_doc s)"
    using assms(3) element_rules_cores [OF assms(1,2), of "now_rules s" i]
    by (auto simp: rules_of_def on_doc_def split: prod.splits)
  show "settled (page_doc t)" using settled_cores [OF c [symmetric] assms(2)] .
qed

lemma elements_loop_names:
  assumes "elements_loop cx is cache s = (Inr js, t)" "default_hooks cx" "settled (page_doc s)"
    "\<And>i. i \<in> set is \<Longrightarrow> i < length (page_doc s)" "distinct is"
    "\<And>i. i < length (page_doc s) \<Longrightarrow> N i = cache_name (page_doc s ! i)"
    "\<And>i. i < length (page_doc s) \<Longrightarrow> F i = elem_form (page_doc s ! i)"
  shows "set js \<subseteq> set is \<and> distinct (map N js) \<and>
    (\<forall>j \<in> set js. \<not> js_in (N j) cache \<and> F j = Some (cx_form cx))"
  using assms
proof (induction "is" arbitrary: cache s js t)
  case Nil
  then show ?case by (simp add: ret_def)
next
  case (Cons i "is")
  have i: "i < length (page_doc s)" using Cons.prems(4) by simp
  have same: "s\<lparr>page_doc := update_at i expando (page_doc s)\<rparr> = s"
    using update_expando_settled [OF Cons.prems(3)] by simp
  note run = Cons.prems(1) [simplified same elements_loop.simps bindv_reading andthen_change]
  have d: "i \<notin> set is" "distinct is" using Cons.prems(5) by auto
  show ?case
  proof (cases "F i \<noteq> Some (cx_form cx) \<or> js_in (N i) cache")
    case True
    then have "elements_loop cx is cache s = (Inr js, t)"
      using run Cons.prems(6,7) [OF i] by (simp split: if_splits)
    from Cons.IH [OF this Cons.prems(2,3) _ d(2) Cons.prems(6,7)] Cons.prems(4)
    show ?thesis by auto
  next
    case False
    then have "bindv (rules_of cx i) (\<lambda>r.
        if length_of_rules r = 0 then elements_loop cx is cache
        else bindv (elements_loop cx is (oset cache (cache_name (page_doc s ! i)) True)) (\<lambda>rest. ret (i # rest))) s = (Inr js, t)"
      using run Cons.prems(6,7) [OF i] by (simp split: if_splits)
    then obtain r u where u: "rules_of cx i s = (Inr r, u)"
      and rest: "(if length_of_rules r = 0 then elements_loop cx is cache
        else bindv (elements_loop cx is (oset cache (N i) True)) (\<lambda>rest. ret (i # rest))) u = (Inr js, t)"
      unfolding bindv_eq_Inr Cons.prems(6) [OF i, symmetric] by blast
    note uc = rules_of_cores [OF Cons.prems(2,3) u]
    have len: "length (page_doc u) = length (page_doc s)" using cores_length [OF uc(1)] .
    have N: "N j = cache_name (page_doc u ! j)" "F j = elem_form (page_doc u ! j)" if "j < length (page_doc u)" for j
      using that cores_nth [OF uc(1), of j] Cons.prems(6,7) [of j] len
      by (metis cache_name_cores, metis core_of_fields(3))
    have in_u: "j \<in> set is \<Longrightarrow> j < length (page_doc u)" for j using Cons.prems(4) len by simp
    show ?thesis
    proof (cases "length_of_rules r = 0")
      case True
      then show ?thesis
        using Cons.IH [OF _ Cons.prems(2) uc(2) in_u d(2) N, of cache js t] rest by auto
    next
      case False
      then obtain js' where js: "js = i # js'"
        and run': "elements_loop cx is (oset cache (N i) True) u = (Inr js', t)"
        using rest by (auto simp: bindv_eq_Inr ret_def)
      from Cons.IH [OF run' Cons.prems(2) uc(2) in_u d(2) N]
      have "set js' \<subseteq> set is" "distinct (map N js')"
        "\<forall>j \<in> set js'. \<not> js_in (N j) (oset cache (N i) True) \<and> F j = Some (cx_form cx)" by auto
      then show ?thesis
        using js \<open>\<not> (F i \<noteq> Some (cx_form cx) \<or> js_in (N i) cache)\<close>
        by (auto simp: js_in_def keys_oset split: if_splits)
    qed
  qed
qed

text \<open>C9: The fields that \<open>elements()\<close> selects are candidates of the form (inside it, of a field tag, no
  button, not ignored), belong to the form, and have different names, one field for each name; a
  field whose name is a property of \<open>Object.prototype\<close>, such as \<open>constructor\<close>, is never among
  them, because the cache of names is a plain object that is asked with \<open>in\<close>.\<close>

theorem elements_names:
  assumes "elements cx s = (Inr is, t)" "default_hooks cx" "settled (page_doc s)"
  shows "set is \<subseteq> set (candidates cx (page_doc s)) \<and> distinct is \<and>
    distinct (map (\<lambda>i. cache_name (page_doc s ! i)) is) \<and>
    (\<forall>i \<in> set is. elem_form (page_doc s ! i) = Some (cx_form cx) \<and>
       cache_name (page_doc s ! i) \<notin> set prototype_names)"
proof -
  have "elements_loop cx (candidates cx (page_doc s)) [] s = (Inr is, t)"
    using assms(1) by (simp add: elements_def)
  from elements_loop_names [OF this assms(2,3), of "\<lambda>i. cache_name (page_doc s ! i)" "\<lambda>i. elem_form (page_doc s ! i)"]
  have r: "set is \<subseteq> set (candidates cx (page_doc s))" "distinct (map (\<lambda>i. cache_name (page_doc s ! i)) is)"
    "\<forall>j \<in> set is. \<not> js_in (cache_name (page_doc s ! j)) ([] :: (string, bool) obj) \<and> elem_form (page_doc s ! j) = Some (cx_form cx)"
    by (auto simp: candidates_def)
  then show ?thesis by (auto simp: js_in_def distinct_map)
qed

text \<open>A form with a field called \<open>constructor\<close>, which is required and empty.\<close>

definition odd_cx :: ctx where
  "odd_cx = sample_cx\<lparr>cx_set := defaults\<lparr>set_rules := [(''constructor'', JStr ''required''), (''a'', JStr ''required'')]\<rparr>\<rparr>"

definition odd_start :: vst where
  "odd_start = init odd_cx [] [text_field ''constructor'' [] [], text_field ''a'' ''x'' []] []"

lemma odd_facts: "default_hooks odd_cx" "settled (page_doc odd_start)"
  by (simp_all add: default_hooks_def odd_cx_def sample_cx_def defaults_def odd_start_def init_def settled_def settled_field_def
      text_field_def content_editable_def)

theorem elements_names_witness:
  "fst (elements odd_cx odd_start) = Inr [1] \<and> cache_name (page_doc odd_start ! 1) \<notin> set prototype_names"
proof -
  have e: "fst (elements odd_cx odd_start) = Inr [1]" by code_simp
  then obtain t where "elements odd_cx odd_start = (Inr [1], t)" by (metis prod.collapse)
  from elements_names [OF this odd_facts] show ?thesis using e by simp
qed

section \<open>One field\<close>

text \<open>The rules of a list all pass: each method is called in the state the one before left and says
  yes (it is true or not applicable) and does not wait.\<close>

inductive passes :: "methods \<Rightarrow> nat \<Rightarrow> jsv \<Rightarrow> rules \<Rightarrow> vst \<Rightarrow> vst \<Rightarrow> bool" for ms i v where
  no_rule: "passes ms i v [] s s"
| rule: "call_method ms m v i q s = (Inr r, t) \<Longrightarrow> truthy r \<Longrightarrow> r \<noteq> Pending \<Longrightarrow> passes ms i v rs t u \<Longrightarrow>
    passes ms i v ((m, q) # rs) s u"

inductive_simps passes_simps: "passes ms i v [] s u" "passes ms i v ((m, q) # rs) s u"

text \<open>What a run of the loop from \<open>s\<close> to \<open>t\<close> with an outcome means for the rules.\<close>

fun loop_spec :: "ctx \<Rightarrow> methods \<Rightarrow> nat \<Rightarrow> jsv \<Rightarrow> rules \<Rightarrow> vst \<Rightarrow> outcome \<Rightarrow> vst \<Rightarrow> bool" where
  "loop_spec cx ms i v rs s (Finished b) t = passes ms i v rs s t"
| "loop_spec cx ms i v rs s (Early (Checked True)) t = False"
| "loop_spec cx ms i v rs s (Early (Checked False)) t =
     (\<exists>pre m q post u w. rs = pre @ (m, q) # post \<and> passes ms i v pre s u \<and>
        call_method ms m v i q u = (Inr (Res False), w) \<and> format_and_add cx i m q w = (Inr (), t))"
| "loop_spec cx ms i v rs s (Early Unchecked) t =
     (\<exists>pre m q post u w ks. rs = pre @ (m, q) # post \<and> passes ms i v pre s u \<and>
        call_method ms m v i q u = (Inr Pending, w) \<and> errors_for cx (Some i) w = Inr ks \<and>
        t = w\<lparr>to_hide := drop_places (to_hide w) ks\<rparr>)"

lemma loop_spec_Cons:
  assumes "call_method ms m v i q s = (Inr r, u)" "truthy r" "r \<noteq> Pending" "loop_spec cx ms i v rs u out t"
  shows "loop_spec cx ms i v ((m, q) # rs) s out t"
proof -
  note pass = rule [OF assms(1-3)]
  consider b where "out = Finished b" | "out = Early (Checked False)" | "out = Early Unchecked"
    using assms(4) by (cases out rule: outcome.exhaust) (auto split: verdict.splits, metis (full_types) loop_spec.simps(2) verdict.exhaust)
  then show ?thesis
  proof cases
    case 1
    then show ?thesis using assms(4) pass by simp
  next
    case 2
    then obtain pre m' q' post x w where *: "rs = pre @ (m', q') # post" "passes ms i v pre u x"
      "call_method ms m' v i q' x = (Inr (Res False), w)" "format_and_add cx i m' q' w = (Inr (), t)"
      using assms(4) by auto
    have "(m, q) # rs = ((m, q) # pre) @ (m', q') # post" using *(1) by simp
    then show ?thesis using 2 pass [OF *(2)] *(3,4) by (simp only: loop_spec.simps) blast
  next
    case 3
    then obtain pre m' q' post x w ks where *: "rs = pre @ (m', q') # post" "passes ms i v pre u x"
      "call_method ms m' v i q' x = (Inr Pending, w)" "errors_for cx (Some i) w = Inr ks"
      "t = w\<lparr>to_hide := drop_places (to_hide w) ks\<rparr>"
      using assms(4) by auto
    have "(m, q) # rs = ((m, q) # pre) @ (m', q') # post" using *(1) by simp
    then show ?thesis using 3 pass [OF *(2)] *(3-5) by (simp only: loop_spec.simps) blast
  qed
qed

lemma check_loop_spec:
  assumes "check_loop cx ms i v n rs mm s = (Inr out, t)"
  shows "loop_spec cx ms i v rs s out t"
  using assms
proof (induction rs arbitrary: mm s)
  case Nil
  then show ?case by (auto simp: ret_def passes_simps)
next
  case (Cons r rs)
  obtain m q where r: "r = (m, q)" by (cases r)
  from Cons.prems obtain res u where u: "call_method ms m v i q s = (Inr res, u)"
    and rest: "(if res = Mismatch \<and> n = 1 then check_loop cx ms i v n rs True
       else if res = Pending then
         bindv (fallible (errors_for cx (Some i))) (\<lambda>ks.
           andthen (change (\<lambda>s. s\<lparr>to_hide := drop_places (to_hide s) ks\<rparr>)) (ret (Early Unchecked)))
       else if \<not> truthy res then andthen (format_and_add cx i m q) (ret (Early (Checked False)))
       else check_loop cx ms i v n rs False) u = (Inr out, t)"
    by (auto simp: r bindv_eq_Inr)
  consider mm' where "check_loop cx ms i v n rs mm' u = (Inr out, t)" "truthy res" "res \<noteq> Pending"
    | ks where "res = Pending" "errors_for cx (Some i) u = Inr ks" "out = Early Unchecked"
        "t = u\<lparr>to_hide := drop_places (to_hide u) ks\<rparr>"
    | "res = Res False" "out = Early (Checked False)" "format_and_add cx i m q u = (Inr (), t)"
    using rest by (cases res) (auto simp: bindv_fallible andthen_eq_Inr ret_def split: if_splits sum.splits)
  then show ?case
  proof cases
    case 1
    then show ?thesis unfolding r using loop_spec_Cons [OF u] Cons.IH by blast
  next
    case 2
    moreover have "r # rs = [] @ (m, q) # rs" by (simp add: r)
    ultimately show ?thesis using u no_rule [of ms i v s] unfolding 2(3) loop_spec.simps by blast
  next
    case 3
    moreover have "r # rs = [] @ (m, q) # rs" by (simp add: r)
    ultimately show ?thesis using u no_rule [of ms i v s] unfolding 3(2) loop_spec.simps by blast
  qed
qed

text \<open>C8: The loop of \<open>check\<close> over the rules of a field, in their order: it returns false exactly for the
  first rule whose method says no, after all rules before it said yes, and adds the one error of
  that rule; it returns nothing at the first rule that waits for the server, and takes the field's labels
  off the list of what to hide; otherwise all rules said yes. It never returns true early, and whatever the methods do, no
  rule after the deciding one is called.\<close>

theorem check_stops_at_first_failure:
  assumes "check_loop cx ms i v n rs mm s = (Inr out, t)"
  shows "loop_spec cx ms i v rs s out t"
  by (rule check_loop_spec [OF assms])

theorem check_stops_at_first_failure_witness:
  "\<exists>t. loop_spec odd_cx (core_methods odd_cx) 0 (JStr []) [(''required'', JBool True), (''email'', JBool True)] odd_start
     (Early (Checked False)) t"
proof -
  have "fst (check_loop odd_cx (core_methods odd_cx) 0 (JStr []) 2 [(''required'', JBool True), (''email'', JBool True)] False
      odd_start) = Inr (Early (Checked False))"
    by code_simp
  then show ?thesis using check_stops_at_first_failure by (metis prod.collapse)
qed

section \<open>The lists of a validation\<close>

text \<open>Methods, and showing the result, leave the lists alone.\<close>

definition listed :: "ctx \<Rightarrow> doc \<Rightarrow> err list \<Rightarrow> (string, jsv) obj \<Rightarrow> vst \<Rightarrow> bool" where
  "listed cx X es m s \<longleftrightarrow> fields_kept cx X s \<and> error_list s = es \<and> error_map s = m"

lemma listed_doc: "listed cx X es m s \<Longrightarrow> cores p = cores (page_doc s) \<Longrightarrow> listed cx X es m (s\<lparr>page_doc := p\<rparr>)"
  using fields.doc [of cx X s p] by (simp add: listed_def)

interpretation lists: asking cx "listed cx X es m" for cx X es m
proof unfold_locales
  show "listed cx X es m (ask_server cx i a v q d s)" if "listed cx X es m s" for i a v q d s
    using that fields.requested [of cx X s]
    by (simp add: listed_def) (simp add: ask_server_def ajax_send_def start_request_def update_prev_def Let_def)
  show "listed cx X es m (new_previous i q s)" "listed cx X es m (borrow_message i a s)" if "listed cx X es m s" for i q a s
    using that fields.storing [of cx X s]
    by (simp_all add: listed_def) (simp_all add: new_previous_def borrow_message_def update_prev_def Let_def)
qed (auto simp: listed_doc, auto simp: listed_def fields_kept_def)

lemma call_core_listed:
  assumes "call_method (core_methods cx) m v i q s = (r, t)" "listed cx X es em s"
  shows "listed cx X es em t"
proof (cases "oget (core_methods cx) m")
  case None
  then show ?thesis using assms by (simp add: call_method_def throw_def)
next
  case (Some f)
  then show ?thesis
    using assms keepsD [OF lists.keeps_core_methods [OF Some]] by (simp add: call_method_def)
qed

text \<open>The loop adds one error for its field when it returns false, and none otherwise.\<close>

definition one_error :: "nat \<Rightarrow> doc \<Rightarrow> vst \<Rightarrow> verdict \<Rightarrow> vst \<Rightarrow> bool" where
  "one_error i p s v t \<longleftrightarrow>
     (if v = Checked False
      then \<exists>m msg. error_list t = error_list s @ [\<lparr>err_message = msg, err_elem = Some i, err_method = Some m\<rparr>] \<and>
             error_map t = oset (error_map s) (elem_name (p ! i)) msg
      else error_list t = error_list s \<and> error_map t = error_map s)"

lemma passes_listed:
  "passes (core_methods cx) i v rs s t \<Longrightarrow> listed cx X es m s \<Longrightarrow> listed cx X es m t"
  by (induction rule: passes.induct) (auto dest: call_core_listed)

lemma fields_kept_name:
  assumes "fields_kept cx (cores p) s" "i < length p"
  shows "elem_name (page_doc s ! i) = elem_name (p ! i)"
proof -
  have c: "cores (page_doc s) = cores p" using assms(1) by (simp add: fields_kept_def)
  have "i < length (page_doc s)" using assms(2) cores_length [OF c] by simp
  then show ?thesis by (intro core_of_fields(1) cores_nth [OF c])
qed

lemma format_and_add_listed:
  assumes "format_and_add cx i m q w = (Inr (), t)" "listed cx (cores p) es em w" "i < length p"
  shows "fields_kept cx (cores p) t \<and> (\<exists>msg. error_list t = es @ [\<lparr>err_message = msg, err_elem = Some i, err_method = Some m\<rparr>] \<and>
    error_map t = oset em (elem_name (p ! i)) msg)"
  using assms fields_kept_name [of cx p w i]
  by (auto simp: format_and_add_def bindv_fallible change_def Let_def listed_def fields_kept_def split: sum.splits)

lemma check_loop_lists:
  assumes "check_loop cx (core_methods cx) i v n rs mm s = (Inr out, t)" "listed cx (cores p) (error_list s) (error_map s) s"
    "i < length p"
  shows "fields_kept cx (cores p) t \<and> one_error i p s (case out of Early w \<Rightarrow> w | Finished b \<Rightarrow> Unchecked) t"
proof -
  let ?L = "listed cx (cores p) (error_list s) (error_map s)"
  have spec: "loop_spec cx (core_methods cx) i v rs s out t" using check_loop_spec [OF assms(1)] .
  consider b where "out = Finished b" | "out = Early (Checked False)" | "out = Early Unchecked"
    using spec by (cases out rule: outcome.exhaust) (auto split: verdict.splits, metis (full_types) loop_spec.simps(2) verdict.exhaust)
  then show ?thesis
  proof cases
    case 1
    then have "?L t" using spec passes_listed [OF _ assms(2)] by simp
    then show ?thesis using 1 by (simp add: listed_def one_error_def)
  next
    case 2
    then obtain m q u w where "?L u" "call_method (core_methods cx) m v i q u = (Inr (Res False), w)"
      "format_and_add cx i m q w = (Inr (), t)"
      using spec passes_listed [OF _ assms(2)] unfolding 2 loop_spec.simps by blast
    then show ?thesis
      using 2 call_core_listed format_and_add_listed [OF _ _ assms(3)] by (fastforce simp: one_error_def)
  next
    case 3
    then obtain u m q w ks where "?L u" "call_method (core_methods cx) m v i q u = (Inr Pending, w)"
      "t = w\<lparr>to_hide := drop_places (to_hide w) ks\<rparr>"
      using spec passes_listed [OF _ assms(2)] unfolding 3 loop_spec.simps by blast
    then have "?L t" using call_core_listed lists.hidden by blast
    then show ?thesis using 3 by (simp add: listed_def one_error_def)
  qed
qed

lemma target_name: "target_of cx i s = Some k \<Longrightarrow> elem_name (page_doc s ! k) = elem_name (page_doc s ! i)"
  by (auto simp: target_of_def validation_target_def find_by_name_def Let_def filter_eq_Cons_iff split: if_splits list.splits)

lemma target_range: "target_of cx i s = Some k \<Longrightarrow> i < length (page_doc s) \<Longrightarrow> k < length (page_doc s)"
  by (auto simp: target_of_def validation_target_def find_by_name_def Let_def filter_eq_Cons_iff split: if_splits list.splits
      dest!: arg_cong [where f = set])

lemma finish_check_lists:
  assumes "finish_check k rs out u = (Inr v, t)" "fields_kept cx X u"
    "one_error i p s (case out of Early w \<Rightarrow> w | Finished b \<Rightarrow> Unchecked) u"
  shows "fields_kept cx X t \<and> one_error i p s v t"
proof (cases out)
  case (Early w)
  then show ?thesis using assms by (simp add: finish_check_def ret_def)
next
  case (Finished b)
  then show ?thesis
    using assms
    by (cases b; cases "0 < object_length rs")
      (auto simp: finish_check_def ret_def andthen_eq_Inr change_def one_error_def fields_kept_def)
qed

lemma run_rules_lists:
  assumes "run_rules cx (core_methods cx) i rs val s = (Inr v, t)" "listed cx (cores p) (error_list s) (error_map s) s" "i < length p"
  shows "fields_kept cx (cores p) t \<and> one_error i p s v t"
proof -
  obtain val' rs' n where "bindv (check_loop cx (core_methods cx) i val' n rs' False) (finish_check i rs') s = (Inr v, t)"
    using assms(1) by (cases "normalizer_of cx rs") (simp_all add: run_rules_def Let_def)
  then obtain out u where loop: "check_loop cx (core_methods cx) i val' n rs' False s = (Inr out, u)"
    and fin: "finish_check i rs' out u = (Inr v, t)"
    by (auto simp: bindv_eq_Inr)
  from check_loop_lists [OF loop assms(2,3)] show ?thesis using finish_check_lists [OF fin] by blast
qed

lemma check_eq_Inr:
  assumes "check cx ms i s = (Inr v, t)"
  obtains k rs u val where "target_of cx i s = Some k" "rules_of cx k s = (Inr (Some rs), u)"
    "run_rules cx ms k rs val u = (Inr v, t)"
proof (cases "target_of cx i s")
  case None
  then show ?thesis using assms by (simp add: check_def stepping)
next
  case (Some k)
  then obtain r u where u: "rules_of cx k s = (Inr r, u)"
    and rest: "bindv (fallible (\<lambda>s. element_value (cx_form cx) (page_doc s) k)) (\<lambda>val.
       case r of None \<Rightarrow> throw TypeError | Some rs \<Rightarrow> run_rules cx ms k rs val) u = (Inr v, t)"
    using assms by (auto simp: check_def bindv_eq_Inr)
  then obtain val where "(case r of None \<Rightarrow> throw TypeError | Some rs \<Rightarrow> run_rules cx ms k rs val) u = (Inr v, t)"
    by (auto simp: bindv_fallible split: sum.splits)
  then show ?thesis using that Some u by (cases r) (simp_all add: throw_def)
qed

lemma check_lists:
  assumes "check cx (core_methods cx) i s = (Inr v, t)" "fields_kept cx (cores p) s" "i < length p"
  shows "fields_kept cx (cores p) t \<and> (\<exists>k < length p. elem_name (p ! k) = elem_name (p ! i) \<and> one_error k p s v t)"
proof -
  have len: "length (page_doc s) = length p" by (rule cores_length) (use assms(2) in \<open>simp add: fields_kept_def\<close>)
  obtain k rs u val where k: "target_of cx i s = Some k" and u: "rules_of cx k s = (Inr (Some rs), u)"
    and run: "run_rules cx (core_methods cx) k rs val u = (Inr v, t)"
    using check_eq_Inr [OF assms(1)] .
  have kl: "k < length p" using target_range [OF k] assms(3) len by simp
  have name: "elem_name (p ! k) = elem_name (p ! i)"
    using target_name [OF k] fields_kept_name [OF assms(2) kl] fields_kept_name [OF assms(2,3)] by simp
  have u_eq: "u = s\<lparr>page_doc := page_doc u\<rparr>" using u by (auto simp: rules_of_def on_doc_def split: prod.splits)
  have "cores (page_doc u) = cores (page_doc s)"
    using rules_of_cores(1) [OF _ _ u] assms(2) by (simp add: fields_kept_def)
  then have L: "listed cx (cores p) (error_list s) (error_map s) u"
    using listed_doc [of cx "cores p" "error_list s" "error_map s" s "page_doc u"] assms(2) u_eq by (simp add: listed_def)
  then have "error_list u = error_list s" "error_map u = error_map s" by (simp_all add: listed_def)
  then show ?thesis
    using run_rules_lists [OF run, of p] L kl name by (auto simp: one_error_def)
qed

definition err_name :: "doc \<Rightarrow> err \<Rightarrow> string" where
  "err_name p e = (case err_elem e of None \<Rightarrow> [] | Some i \<Rightarrow> elem_name (p ! i))"

definition in_step :: "doc \<Rightarrow> vst \<Rightarrow> bool" where
  "in_step p s \<longleftrightarrow> okeys (error_map s) = map (err_name p) (error_list s) \<and> distinct (okeys (error_map s)) \<and>
     (\<forall>e \<in> set (error_list s). err_elem e \<noteq> None \<and> oget (error_map s) (err_name p e) = Some (err_message e))"

lemma in_step_one_error:
  assumes "in_step p s" "one_error k p s v t" "elem_name (p ! k) \<notin> set (okeys (error_map s))"
  shows "in_step p t \<and> set (okeys (error_map t)) \<subseteq> insert (elem_name (p ! k)) (set (okeys (error_map s)))"
proof (cases "v = Checked False")
  case True
  then obtain m msg where *: "error_list t = error_list s @ [\<lparr>err_message = msg, err_elem = Some k, err_method = Some m\<rparr>]"
    "error_map t = oset (error_map s) (elem_name (p ! k)) msg"
    using assms(2) by (auto simp: one_error_def)
  have "err_name p e \<noteq> elem_name (p ! k)" if "e \<in> set (error_list s)" for e
  proof -
    have "err_name p e \<in> set (okeys (error_map s))" using assms(1) that by (simp add: in_step_def)
    then show ?thesis using assms(3) by auto
  qed
  then show ?thesis
    using assms(1,3) * by (auto simp: in_step_def keys_oset err_name_def obj.get_put)
next
  case False
  then show ?thesis using assms(1,2) by (auto simp: one_error_def in_step_def)
qed

lemma check_each_in_step:
  assumes "check_each cx (core_methods cx) is s = (Inr (), t)" "fields_kept cx (cores p) s" "in_step p s"
    "\<And>i. i \<in> set is \<Longrightarrow> i < length p" "distinct (map (\<lambda>i. elem_name (p ! i)) is)"
    "\<And>i. i \<in> set is \<Longrightarrow> elem_name (p ! i) \<notin> set (okeys (error_map s))"
  shows "fields_kept cx (cores p) t \<and> in_step p t \<and>
    set (okeys (error_map t)) \<subseteq> set (okeys (error_map s)) \<union> (\<lambda>i. elem_name (p ! i)) ` set is"
  using assms
proof (induction "is" arbitrary: s)
  case Nil
  then show ?case by (simp add: check_each_def ret_def)
next
  case (Cons i "is")
  obtain v u where u: "check cx (core_methods cx) i s = (Inr v, u)"
    and rest: "check_each cx (core_methods cx) is u = (Inr (), t)"
    using Cons.prems(1) by (auto simp: check_each_def andthen_eq_Inr bindv_eq_Inr ret_def)
  from check_lists [OF u Cons.prems(2)] Cons.prems(4)
  obtain k where k: "fields_kept cx (cores p) u" "elem_name (p ! k) = elem_name (p ! i)" "one_error k p s v u" by auto
  have i: "in_step p u" "set (okeys (error_map u)) \<subseteq> insert (elem_name (p ! i)) (set (okeys (error_map s)))"
    using in_step_one_error [OF Cons.prems(3) k(3)] Cons.prems(6) k(2) by auto
  have new: "elem_name (p ! j) \<notin> set (okeys (error_map u))" if "j \<in> set is" for j
  proof -
    have "elem_name (p ! j) \<in> set (map (\<lambda>i. elem_name (p ! i)) is)" using that by (simp add: image_iff) blast
    then have "elem_name (p ! j) \<noteq> elem_name (p ! i)" using Cons.prems(5) by fastforce
    moreover have "elem_name (p ! j) \<notin> set (okeys (error_map s))" using Cons.prems(6) that by simp
    ultimately show ?thesis using i(2) by blast
  qed
  from Cons.IH [OF rest k(1) i(1) _ _ new] Cons.prems(4,5)
  show ?case using i(2) by auto
qed

text \<open>Listing the fields changes nothing but the page.\<close>

definition off_page :: "vst \<Rightarrow> vst" where
  "off_page s = s\<lparr>page_doc := []\<rparr>"

lemma frame_elements: "frame off_page (elements cx)"
proof -
  have "keeps (\<lambda>t. off_page t = x) (elements_loop cx is cache)" for x "is" cache
    by (induction "is" arbitrary: cache)
      (auto simp: rules_of_def off_page_def intro!: keeping keeps_change keeps_on_doc)
  then show ?thesis unfolding elements_def frame_iff_keeps by (intro allI keeping)
qed

lemma cache_name_of_elem_name:
  assumes "elem_name d = elem_name e" "elem_name d = [] \<Longrightarrow> oget (elem_attrs d) ''name'' = None \<and> oget (elem_attrs e) ''name'' = None"
  shows "cache_name d = cache_name e"
  using assms by (cases "elem_name d = []") (simp_all add: cache_name_def)

text \<open>What \<open>checkForm\<close> leaves, when no \<open>name\<close> attribute is empty.\<close>

definition names_reflected :: "doc \<Rightarrow> bool" where
  "names_reflected p \<longleftrightarrow> list_all (\<lambda>e. elem_name e = [] \<longrightarrow> oget (elem_attrs e) ''name'' = None) p"

lemma check_form_in_step:
  assumes "check_form cx (core_methods cx) s = (Inr ok, t)" "default_hooks cx" "settled (page_doc s)" "names_reflected (page_doc s)"
  shows "ok = valid_now t \<and> in_step (page_doc s) t"
proof -
  let ?p = "page_doc s" and ?s = "prepare_form cx s"
  have s: "page_doc ?s = ?p" "error_list ?s = []" "error_map ?s = []"
    by (simp_all add: prepare_form_def reset_lists_def reset_internals_def Let_def)
  obtain "is" u v where el: "elements cx ?s = (Inr is, u)"
    and ce: "check_each cx (core_methods cx) is (u\<lparr>current_elements := is\<rparr>) = (Inr (), t)" and ok: "ok = valid_now t"
    using assms(1) by (auto simp: check_form_def bindv_eq_Inr change_def reading_def)
  have "elements_loop cx (candidates cx ?p) [] ?s = (Inr is, u)" using el by (simp add: elements_def s(1))
  from elements_loop_names [OF this assms(2), of "\<lambda>i. cache_name (?p ! i)" "\<lambda>i. elem_form (?p ! i)"] assms(3)
  have sub: "set is \<subseteq> set (candidates cx ?p)" "distinct (map (\<lambda>i. cache_name (?p ! i)) is)"
    by (auto simp: s(1) candidates_def)
  have range: "i \<in> set is \<Longrightarrow> i < length ?p" for i using sub(1) by (auto simp: candidates_def)
  have dist: "distinct (map (\<lambda>i. elem_name (?p ! i)) is)"
  proof -
    have "inj_on (\<lambda>i. elem_name (?p ! i)) (set is)"
    proof (rule inj_onI)
      fix i j assume ij: "i \<in> set is" "j \<in> set is" "elem_name (?p ! i) = elem_name (?p ! j)"
      have "cache_name (?p ! i) = cache_name (?p ! j)"
        using assms(4) range [OF ij(1)] range [OF ij(2)] ij(3)
        by (intro cache_name_of_elem_name) (auto simp: names_reflected_def list_all_length)
      then show "i = j" using sub(2) ij(1,2) by (auto simp: distinct_map dest: inj_onD)
    qed
    then show ?thesis using sub(2) by (simp add: distinct_map)
  qed
  have k: "fields_kept cx (cores ?p) ?s" using assms(2,3) by (simp add: fields_kept_def s(1))
  have u: "fields_kept cx (cores ?p) u" by (rule keepsD [OF fields.keeps_elements k el])
  have q: "off_page u = off_page ?s" by (rule frameD [OF frame_elements el])
  let ?u = "u\<lparr>current_elements := is\<rparr>"
  have u': "fields_kept cx (cores ?p) ?u" using fields.current [OF u] .
  have "error_list ?u = []" "error_map ?u = []"
    using arg_cong [OF q, of error_list] arg_cong [OF q, of error_map] s by (simp_all add: off_page_def)
  then show ?thesis
    using check_each_in_step [OF ce u' _ range dist] ok by (auto simp: in_step_def)
qed

lemma in_step_lists: "error_list s = error_list t \<Longrightarrow> error_map s = error_map t \<Longrightarrow> in_step p s = in_step p t"
  by (simp add: in_step_def)

text \<open>Showing the result leaves the lists and the table of invalid fields alone.\<close>

definition books :: "ctx \<Rightarrow> vst \<Rightarrow> vst \<Rightarrow> bool" where
  "books cx s t \<longleftrightarrow> default_hooks cx \<and> error_list t = error_list s \<and> error_map t = error_map s \<and>
     invalid t = invalid s"

interpretation ledgers: presentation cx "books cx s" for cx s
  by unfold_locales (auto simp: books_def)

text \<open>C2: After a validation of the whole form its books agree, on a page where no element has an empty \<open>name\<close> attribute
  (and where editable elements have got their name and form, and the default callbacks are used): \<open>form()\<close> returns true
  exactly when no error is listed; the map of errors has exactly one entry for each listed error, under the name of
  the error's field and in the order of the list, with the listed message; no two errors have the same
  name; and the table of invalid fields is a copy of this map. (With an empty \<open>name\<close> attribute beside a field without one
  both are listed, under the same empty name.)\<close>

theorem form_books:
  assumes "form cx (core_methods cx) s = (Inr ok, t)" "default_hooks cx" "settled (page_doc s)" "names_reflected (page_doc s)"
  shows "(ok \<longleftrightarrow> error_list t = []) \<and> in_step (page_doc s) t \<and> invalid t = jextend [] (error_map t)"
proof -
  obtain ok' u v w where u: "check_form cx (core_methods cx) s = (Inr ok', u)"
    and v: "whenv (\<not> valid_now (note_errors u)) (trigger_invalid cx) (note_errors u) = (Inr (), v)"
    and t: "show_errors cx None v = (Inr (), t)" and ok: "ok = valid_now t"
    using assms(1) by (auto simp: form_def bindv_eq_Inr change_def reading_def)
  have n: "books cx (note_errors u) (note_errors u)" using assms(2) by (simp add: books_def)
  have "keeps (books cx (note_errors u)) (whenv (\<not> valid_now (note_errors u)) (trigger_invalid cx))"
    unfolding trigger_invalid_def by (intro keeping) simp
  from keepsD [OF this n v] have "books cx (note_errors u) v" .
  then have b: "books cx (note_errors u) t" using keepsD [OF ledgers.keeps_show_current] t by blast
  have "in_step (page_doc s) u" using check_form_in_step [OF u assms(2-4)] ..
  then show ?thesis
    using b ok by (auto simp: books_def note_errors_def valid_now_def size_of_errors_def in_step_def)
qed

text \<open>A form with one required field, left empty.\<close>

definition empty_start :: vst where
  "empty_start = init odd_cx [] [text_field ''a'' [] []] []"

theorem form_books_witness:
  "fst (form odd_cx (core_methods odd_cx) empty_start) = Inr False \<and>
   error_list (snd (form odd_cx (core_methods odd_cx) empty_start)) \<noteq> []"
proof -
  have d: "default_hooks odd_cx" "settled (page_doc empty_start)" "names_reflected (page_doc empty_start)"
    by (simp_all add: default_hooks_def odd_cx_def sample_cx_def defaults_def empty_start_def init_def settled_def settled_field_def
        text_field_def content_editable_def names_reflected_def)
  have r: "fst (form odd_cx (core_methods odd_cx) empty_start) = Inr False" by code_simp
  then obtain t where t: "form odd_cx (core_methods odd_cx) empty_start = (Inr False, t)" by (metis prod.collapse)
  from form_books [OF t d] show ?thesis using t r by simp
qed

end
