(* ===== verification/RulesProps.thy ===== *)
theory RulesProps
  imports Sample
begin

text \<open>
  Properties of the rules of a field (their order and well-formedness, what the attribute
  \<open>maxlength\<close> gives), of the message that a remote request borrows, and of the method \<open>remote\<close>.
\<close>

section \<open>The order of the rules\<close>

lemma wf_jextend: "wf_obj m \<Longrightarrow> wf_obj (jextend m n)"
  unfolding jextend_def by (rule wf_oextend)

lemma map_of_rev_wf: "wf_obj m \<Longrightarrow> map_of (rev m) = map_of m"
  by (subst map_of_inject_set) (simp_all add: wf_obj_def rev_map [symmetric])

lemma oget_append: "oget (m @ n) k = (case oget m k of None \<Rightarrow> oget n k | Some v \<Rightarrow> Some v)"
  by (simp add: oget_def map_add_def split: option.splits)

lemma oget_jextend:
  assumes "wf_obj n"
  shows "oget (jextend m n) k =
    (case oget n k of None \<Rightarrow> oget m k | Some v \<Rightarrow> if v \<noteq> JUndef \<and> k \<noteq> ''__proto__'' then Some v else oget m k)"
proof -
  let ?n = "filter (\<lambda>(k, v). v \<noteq> JUndef \<and> k \<noteq> ''__proto__'') n"
  have d: "distinct (map fst n)" "wf_obj ?n" using assms distinct_map_filter [of fst n] by (simp_all add: wf_obj_def)
  have "map_of (rev ?n) k = map_of ?n k" using map_of_rev_wf [OF d(2)] by simp
  also have "\<dots> = (case map_of n k of None \<Rightarrow> None | Some v \<Rightarrow> if v \<noteq> JUndef \<and> k \<noteq> ''__proto__'' then Some v else None)"
    using d(1) by (induction n) (auto split: option.splits simp: map_of_eq_None_iff)
  finally show ?thesis unfolding jextend_def oget_oextend by (simp add: oget_def split: option.splits)
qed

lemma oset_new: "k \<notin> set (okeys m) \<Longrightarrow> oset m k v = m @ [(k, v)]"
  by (induction m) (auto simp: okeys_def)

lemma oextend_Cons: "k \<notin> set (okeys n) \<Longrightarrow> oextend ((k, v) # m) n = (k, v) # oextend m n"
proof (induction n arbitrary: m)
  case (Cons p n)
  then show ?case by (cases p) (simp add: oextend_def)
qed (simp add: oextend_def)

lemma resolve_rules_Cons:
  "resolve_rules cx i ((k, v) # rs) p = (Inr rs', q) \<Longrightarrow>
     (\<exists>p'. resolve_rules cx i rs p' = (Inr rs', q)) \<or>
     (\<exists>w rs''. resolve_rules cx i rs p = (Inr rs'', q) \<and> rs' = (k, w) # rs'')"
  by (auto simp: Let_def bind_res_eq_Inr split: if_splits prod.splits)

lemma resolve_rules_wf:
  "resolve_rules cx i rs p = (Inr rs', q) \<Longrightarrow>
     set (map fst rs') \<subseteq> set (map fst rs) \<and> (wf_obj rs \<longrightarrow> wf_obj rs')"
proof (induction rs arbitrary: p rs')
  case (Cons r rs)
  from resolve_rules_Cons [of cx i "fst r" "snd r" rs p rs' q] Cons.prems(1)
  consider p' where "resolve_rules cx i rs p' = (Inr rs', q)"
    | w rs'' where "resolve_rules cx i rs p = (Inr rs'', q)" "rs' = (fst r, w) # rs''" by auto
  then show ?case
  proof cases
    case 1
    then show ?thesis using Cons.IH [OF 1] by (auto simp: wf_obj_def)
  next
    case 2
    then show ?thesis using Cons.IH [OF 2(1)] by (auto simp: wf_obj_def)
  qed
qed simp

lemma wf_tidy_rules: "wf_obj rs \<Longrightarrow> wf_obj (tidy_rules env auto p i rs)"
proof -
  assume wf: "wf_obj rs"
  have e: "wf_obj (evaluate_params env p i rs)"
    using wf by (simp add: wf_obj_def evaluate_params_def comp_def case_prod_beta)
  have n: "wf_obj m \<Longrightarrow> wf_obj (clean_number m k)" for m k by (simp add: clean_number_def wf_oset)
  have r: "wf_obj m \<Longrightarrow> wf_obj (clean_range m k)" for m k
    by (simp add: clean_range_def wf_oset Let_def split: jsv.splits)
  have c: "wf_obj m \<Longrightarrow> wf_obj (create_range lo hi both m)" for m lo hi both
    by (simp add: create_range_def wf_oset wf_odel)
  show ?thesis using e by (simp add: tidy_rules_def Let_def n r c)
qed

lemma wf_merged_rules: "wf_obj (merged_rules tab sr e)"
  unfolding merged_rules_def by (intro wf_jextend) simp

lemma normalize_rules_wf:
  "normalize_rules cx i rs p = (Inr ns, q) \<Longrightarrow> wf_obj rs \<Longrightarrow> wf_obj ns"
  by (auto simp: normalize_rules_def bind_res_eq_Inr split: prod.splits intro!: wf_tidy_rules dest: resolve_rules_wf)

lemma required_first_rules:
  assumes "wf_obj ns"
  shows "wf_obj (required_first ns)" "k \<noteq> ''__proto__'' \<Longrightarrow> jget (required_first ns) k = jget ns k"
    "js_truthy (jget ns ''required'') \<Longrightarrow> \<exists>rest. required_first ns = (''required'', jget ns ''required'') # rest"
proof -
  have d: "wf_obj (odel ns ''required'')" using wf_odel [OF assms] .
  have "wf_obj [(''required'', v)]" for v :: jsv by (simp add: wf_obj_def)
  then show "wf_obj (required_first ns)" using assms by (simp add: required_first_def wf_jextend)
  show "jget (required_first ns) k = jget ns k" if "k \<noteq> ''__proto__''"
    using that by (auto simp: required_first_def jget_def oget_jextend [OF d] js_obj split: option.splits)
  have "''required'' \<notin> set (okeys (filter P (odel ns ''required'')))" for P
    by (auto simp: okeys_def odel_def)
  then show "js_truthy (jget ns ''required'') \<Longrightarrow> \<exists>rest. required_first ns = (''required'', jget ns ''required'') # rest"
    by (simp add: required_first_def jextend_def oextend_Cons)
qed

lemma remote_last_rules:
  assumes "wf_obj ns"
  shows "wf_obj (remote_last ns)" "jget (remote_last ns) k = jget ns k"
    "js_truthy (jget ns ''remote'') \<Longrightarrow> remote_last ns = odel ns ''remote'' @ [(''remote'', jget ns ''remote'')]"
proof -
  show e: "remote_last ns = odel ns ''remote'' @ [(''remote'', jget ns ''remote'')]" if "js_truthy (jget ns ''remote'')"
  proof -
    have "jget ns ''remote'' \<noteq> JUndef" using that by auto
    then show ?thesis
      using that oset_new [of "''remote''" "odel ns ''remote''"] by (simp add: remote_last_def jextend_def oextend_def okeys_odel)
  qed
  show "wf_obj (remote_last ns)" using wf_odel [OF assms] assms by (simp add: remote_last_def wf_jextend)
  show "jget (remote_last ns) k = jget ns k"
  proof (cases "js_truthy (jget ns ''remote'')")
    case True
    then have "oget ns ''remote'' \<noteq> None" by (cases "oget ns ''remote''") (auto simp: jget_def)
    then show ?thesis using e [OF True] by (auto simp: jget_def oget_append js_obj split: option.splits)
  qed (simp add: remote_last_def)
qed

text \<open>C36: The rules of a field are an object in which every rule occurs once. They are the rules that
  normalizing gave, with the same parameters, but in the order in which they have to be checked: a
  required field is tested for that first, and the server is asked last, after every
  other rule of the field has passed.\<close>

theorem rules_in_order:
  assumes "element_rules cx sr i p = (Inr (Some rs), q)"
  shows "wf_obj rs \<and> (\<exists>ns. fst (normalize_rules cx i (merged_rules (cx_tab cx) sr (update_at i adopt p ! i)) (update_at i adopt p)) = Inr ns \<and>
     (\<forall>k. k \<noteq> ''__proto__'' \<longrightarrow> jget rs k = jget ns k) \<and>
     (js_truthy (jget ns ''required'') \<longrightarrow> (\<exists>rest. rs = (''required'', jget ns ''required'') # rest)) \<and>
     (js_truthy (jget ns ''remote'') \<longrightarrow> (\<exists>front. rs = front @ [(''remote'', jget ns ''remote'')])))"
proof -
  let ?p = "update_at i adopt p"
  obtain ns where n: "normalize_rules cx i (merged_rules (cx_tab cx) sr (?p ! i)) ?p = (Inr ns, q)"
    and rs: "rs = remote_last (required_first ns)"
    using assms by (auto simp: element_rules_def Let_def bind_res_eq_Inr split: if_splits prod.splits)
  have wf: "wf_obj ns" using normalize_rules_wf [OF n wf_merged_rules] .
  note f = required_first_rules [OF wf] and l = remote_last_rules [OF required_first_rules(1) [OF wf]]
  have get: "jget rs k = jget ns k" if "k \<noteq> ''__proto__''" for k using f(2) [OF that] l(2) rs by simp
  have req: "\<exists>rest. rs = (''required'', jget ns ''required'') # rest" if r: "js_truthy (jget ns ''required'')"
  proof (cases "js_truthy (jget ns ''remote'')")
    case True
    then have "rs = odel (required_first ns) ''remote'' @ [(''remote'', jget ns ''remote'')]"
      using l(3) f(2) [of "''remote''"] rs by simp
    then show ?thesis using f(3) [OF r] by (auto simp: odel_def)
  next
    case False
    then have "rs = required_first ns" using rs f(2) [of "''remote''"] by (simp add: remote_last_def)
    then show ?thesis using f(3) [OF r] by simp
  qed
  have "\<exists>front. rs = front @ [(''remote'', jget ns ''remote'')]" if "js_truthy (jget ns ''remote'')"
    using l(3) f(2) [of "''remote''"] that rs by auto
  then show ?thesis using n req get l(1) rs by auto
qed

theorem rules_in_order_witness:
  "\<exists>rs q. element_rules login_cx [(''user'', JObj [(''remote'', JStr ''/free''), (''email'', JBool True), (''required'', JBool True)])] 0 login_page
      = (Inr (Some rs), q) \<and> wf_obj rs"
proof -
  let ?r = "[(''user'', JObj [(''remote'', JStr ''/free''), (''email'', JBool True), (''required'', JBool True)])]"
  have "fst (element_rules login_cx ?r 0 login_page) = Inr (Some [(''required'', JBool True), (''email'', JBool True), (''remote'', JStr ''/free'')])"
    by code_simp
  then obtain rs q where "element_rules login_cx ?r 0 login_page = (Inr (Some rs), q)" by (metis prod.collapse)
  then show ?thesis using rules_in_order by blast
qed

section \<open>The attribute maxlength\<close>

lemma jget_normalize_maxlength:
  assumes "get_attribute e ''type'' = JNull"
  shows "jget (normalize_attribute_rule rs (get_attribute e ''type'') m (attribute_value e m)) ''maxlength'' =
    (if m = ''maxlength'' \<and> js_number (attr e ''maxlength'') \<noteq> NaN then JNum (js_number (attr e ''maxlength'')) else jget rs ''maxlength'')"
proof -
  have n: "numeric_method ''maxlength'' JNull" by code_simp
  show ?thesis using assms n
    by (auto simp: normalize_attribute_rule_def attribute_value_def jget_def js_obj Let_def split: option.splits)
qed

lemma jget_attributes_maxlength:
  assumes "get_attribute e ''type'' = JNull"
  shows "jget (foldl (\<lambda>rs m. normalize_attribute_rule rs (get_attribute e ''type'') m (attribute_value e m)) rs ms) ''maxlength'' =
    (if ''maxlength'' \<in> set ms \<and> js_number (attr e ''maxlength'') \<noteq> NaN then JNum (js_number (attr e ''maxlength'')) else jget rs ''maxlength'')"
  by (induction ms arbitrary: rs) (auto simp: jget_normalize_maxlength [OF assms])

lemma no_maxlength_iff:
  "no_maxlength v \<longleftrightarrow> js_truthy v \<and>
     (\<exists>a m b. js_text v = a @ m @ b \<and> m \<in> {''-1'', ''2147483647'', ''524288''})"
proof -
  have r: "regular (ralt [lit ''-1'', lit ''2147483647'', lit ''524288''])" by code_simp
  show ?thesis
    unfolding no_maxlength_def rx_test_infix [OF r] by (simp add: mem_lit del: lang.simps add: lang_simps)
qed

text \<open>The attribute \<open>maxlength\<close> of a field without a type gives the rule with its number, unless
  the decimal text of the number contains one of three numbers that old browsers report for a missing
  attribute: these are looked for anywhere in the text, so a limit of 5242880, say, is dropped.\<close>

theorem attribute_maxlength:
  assumes "''maxlength'' \<in> set methods" "get_attribute e ''type'' = JNull" "js_number (attr e ''maxlength'') = x" "x \<noteq> NaN"
  shows "jget (attribute_rules methods e) ''maxlength'' =
    (if js_truthy (JNum x) \<and> (\<exists>a m b. number_text x = a @ m @ b \<and> m \<in> {''-1'', ''2147483647'', ''524288''})
     then JUndef else JNum x)"
proof -
  let ?rs = "foldl (\<lambda>rs m. normalize_attribute_rule rs (get_attribute e ''type'') m (attribute_value e m)) [] methods"
  have g: "jget ?rs ''maxlength'' = JNum x"
    unfolding jget_attributes_maxlength [OF assms(2)] using assms(1,3,4) by simp
  have d: "jget (odel ?rs ''maxlength'') ''maxlength'' = JUndef" by (simp add: jget_def js_obj)
  have "jget (attribute_rules methods e) ''maxlength'' = (if no_maxlength (JNum x) then JUndef else JNum x)"
    unfolding attribute_rules_def Let_def g using d g by simp
  then show ?thesis unfolding no_maxlength_iff by simp
qed

theorem attribute_maxlength_witness:
  "jget (attribute_rules core_method_names ((text_field ''a'' [] [])\<lparr>elem_attrs := [(''maxlength'', ''5242880'')]\<rparr>)) ''maxlength'' = JUndef \<and>
   jget (attribute_rules core_method_names ((text_field ''a'' [] [])\<lparr>elem_attrs := [(''maxlength'', ''100'')]\<rparr>)) ''maxlength'' = JNum (Fin 100)"
proof -
  let ?f = "\<lambda>s. (text_field ''a'' [] [])\<lparr>elem_attrs := [(''maxlength'', s)]\<rparr>"
  have m: "''maxlength'' \<in> set core_method_names" by code_simp
  have "number_text (Fin 5242880) = [] @ ''524288'' @ ''0''"
    by (simp add: number_text_def rat_text_def nat_str.simps digit_char_def Let_def, code_simp)
  then have bad: "\<exists>a m b. number_text (Fin 5242880) = a @ m @ b \<and> m \<in> {''-1'', ''2147483647'', ''524288''}" by blast
  have "\<not> no_maxlength (JNum (Fin 100))" by code_simp
  then have good: "\<not> (\<exists>a m b. number_text (Fin 100) = a @ m @ b \<and> m \<in> {''-1'', ''2147483647'', ''524288''})"
    by (simp add: no_maxlength_iff)
  have x: "js_number (attr (?f ''5242880'') ''maxlength'') = Fin 5242880" "js_number (attr (?f ''100'') ''maxlength'') = Fin 100"
    by code_simp+
  have t: "get_attribute (?f s) ''type'' = JNull" for s by (simp add: get_attribute_def)
  show ?thesis
    using attribute_maxlength [OF m t x(1)] attribute_maxlength [OF m t x(2)] bad good by simp
qed

section \<open>The message of a remote request\<close>

lemma custom_message_oset:
  "custom_message (oset m n c) n' k = (if n' = n then (case c of CText t \<Rightarrow> MVal (JStr t) | CEach ms \<Rightarrow> mget ms k) else custom_message m n' k)"
  by (simp add: custom_message_def js_obj)

lemma custom_message_ensure:
  "oget m n \<noteq> Some (CText []) \<Longrightarrow> custom_message (ensure_messages n m) n' k = custom_message m n' k"
  by (auto simp: ensure_messages_def custom_message_def js_obj mget_def split: option.splits custom.splits list.splits)

lemma custom_message_set:
  "custom_message (set_message n k v m) n' k' =
     (if n' = n \<and> k' = k \<and> (\<exists>ms. oget m n = Some (CEach ms)) then v else custom_message m n' k')"
  by (auto simp: set_message_def custom_message_def js_obj mget_def split: option.splits custom.splits)

lemma get_message_ensure: "get_message n k (ensure_messages n m) = get_message n k m"
  by (auto simp: get_message_def ensure_messages_def js_obj mget_def split: option.splits custom.splits list.splits)

lemma get_message_custom: "oget m n = Some (CEach ms) \<Longrightarrow> get_message n k m = custom_message m n k"
  by (simp add: get_message_def custom_message_def)

lemma set_message_each: "(\<exists>ms. oget (set_message n k v m) n' = Some (CEach ms)) = (\<exists>ms. oget m n' = Some (CEach ms))"
  by (auto simp: set_message_def js_obj split: option.splits custom.splits)

lemma borrowed:
  assumes "a < length (prevs s)"
  shows "now_messages (borrow_message i a s) =
      set_message (name_of i s) ''remote'' (MVal (prev_message (prevs s ! a))) (ensure_messages (name_of i s) (now_messages s))"
    "prevs (borrow_message i a s) ! a = (prevs s ! a)\<lparr>original_message :=
      (if msg_truthy (original_message (prevs s ! a)) then original_message (prevs s ! a)
       else get_message (name_of i s) ''remote'' (now_messages s))\<rparr>"
    "length (prevs (borrow_message i a s)) = length (prevs s)"
    "name_of i (borrow_message i a s) = name_of i s"
  using assms by (simp_all add: borrow_message_def update_prev_def update_at_def Let_def get_message_ensure name_of_def)

text \<open>While a field waits for the server its own message for \<open>remote\<close> is replaced by the
  remembered one; the answer puts it back: after one request all custom messages of all fields are what they were.\<close>

theorem message_roundtrip:
  assumes "a < length (prevs s)" "oget (now_messages s) (name_of i s) \<noteq> Some (CText [])"
    and "msg_truthy (original_message (prevs s ! a)) \<Longrightarrow>
      original_message (prevs s ! a) = get_message (name_of i s) ''remote'' (now_messages s)"
  shows "custom_message (now_messages (restore_message i a (borrow_message i a s))) n k = custom_message (now_messages s) n k"
proof -
  let ?n = "name_of i s" and ?m = "ensure_messages (name_of i s) (now_messages s)"
  have orig: "original_message (prevs (borrow_message i a s) ! a) = get_message ?n ''remote'' ?m"
    using assms(3) by (simp add: borrowed [OF assms(1)] get_message_ensure)
  have "get_message ?n ''remote'' ?m = custom_message (now_messages s) ?n ''remote''" if "\<exists>ms. oget ?m ?n = Some (CEach ms)"
    using that get_message_custom custom_message_ensure [OF assms(2)] by metis
  then show ?thesis
    by (auto simp: restore_message_def orig borrowed(1,4) [OF assms(1)] custom_message_set set_message_each
        custom_message_ensure [OF assms(2)])
qed

theorem message_roundtrip_witness:
  "custom_message (now_messages (restore_message 0 0 (borrow_message 0 0 (login_waiting\<lparr>now_messages := []\<rparr>)))) ''user'' ''remote''
     = MVal JUndef"
  by (subst message_roundtrip) (simp_all add: login_waiting_def custom_message_def)

text \<open>When a second request is made for a field before the first one was answered, the first one is
  aborted and its answer never puts the message back. For a field without a message of its own the
  second request then takes the borrowed message for the field's own one, and the answer makes it
  permanent.\<close>

theorem borrowed_message_stays:
  assumes "a < length (prevs s)" "name_of i s \<notin> set prototype_names"
    and "oget (now_messages s) (name_of i s) = None" "\<not> msg_truthy (original_message (prevs s ! a))"
  shows "custom_message (now_messages s) (name_of i s) ''remote'' = MVal JUndef \<and>
    custom_message (now_messages (restore_message i a (borrow_message i a (borrow_message i a s)))) (name_of i s) ''remote'' =
      MVal (prev_message (prevs s ! a))"
proof -
  let ?n = "name_of i s" and ?b = "borrow_message i a s" and ?v = "MVal (prev_message (prevs s ! a))"
  have len: "a < length (prevs ?b)" using assms(1) by (simp add: borrowed)
  have m: "\<exists>ms. oget (now_messages ?b) ?n = Some (CEach ms) \<and> mget ms ''remote'' = ?v"
    using assms(2,3) by (simp add: borrowed(1) [OF assms(1)] ensure_messages_def set_message_def js_obj mget_def)
  then obtain ms where ms: "oget (now_messages ?b) ?n = Some (CEach ms)" "mget ms ''remote'' = ?v" by blast
  have "original_message (prevs ?b ! a) = MVal JUndef"
    using assms(3,4) by (simp add: borrowed [OF assms(1)] get_message_def)
  then have orig: "original_message (prevs (borrow_message i a ?b) ! a) = ?v"
    using ms by (simp add: borrowed(2) [OF len] borrowed(4) [OF assms(1)] get_message_def)
  have "\<exists>ms'. oget (now_messages (borrow_message i a ?b)) ?n = Some (CEach ms')"
    using ms by (simp add: borrowed(1) [OF len] borrowed(4) [OF assms(1)] ensure_messages_def set_message_def js_obj)
  then have "custom_message (now_messages (restore_message i a (borrow_message i a ?b))) ?n ''remote'' = ?v"
    using orig by (simp add: restore_message_def borrowed(4) [OF len] borrowed(4) [OF assms(1)] custom_message_set)
  then show ?thesis using assms(3) by (simp add: custom_message_def)
qed

theorem borrowed_message_stays_witness:
  "custom_message (now_messages (restore_message 0 0 (borrow_message 0 0 (borrow_message 0 0
      (login_waiting\<lparr>now_messages := []\<rparr>))))) ''user'' ''remote'' = MVal (JStr ''Please fix this field.'')"
  using borrowed_message_stays [of 0 "login_waiting\<lparr>now_messages := []\<rparr>" 0]
  by (simp add: login_waiting_def name_of_def text_field_def prototype_names_def)

section \<open>When the server is asked\<close>

lemma previous_value_stored:
  assumes "previous_value cx i s = (Inr a, t)" "\<And>b. oget (previous s) i = Some b \<Longrightarrow> b < length (prevs s)"
  shows "oget (previous t) i = Some a \<and> a < length (prevs t) \<and> page_doc t = page_doc s \<and> effects t = effects s \<and>
    pending_request t = pending_request s \<and>
    (case oget (previous s) i of Some b \<Rightarrow> a = b \<and> prevs t = prevs s | None \<Rightarrow> old_value (prevs t ! a) = None)"
  using assms
  by (auto simp: previous_value_def stepping bindv_eq_Inr andthen_eq_Inr new_previous_def js_obj split: option.splits sum.splits)

lemma borrow_message_off:
  "previous (borrow_message i a s) = previous s" "page_doc (borrow_message i a s) = page_doc s"
  "effects (borrow_message i a s) = effects s" "pending_request (borrow_message i a s) = pending_request s"
  by (simp_all add: borrow_message_def update_prev_def Let_def)

lemma ask_server_effects:
  "\<exists>aborts. effects (ask_server cx i a v q d s) = effects s @ aborts @ [AjaxSend i a v q] \<and> set aborts \<subseteq> range AjaxAbort"
  "previous (ask_server cx i a v q d s) = previous s"
  "a < length (prevs s) \<Longrightarrow> old_value (prevs (ask_server cx i a v q d s) ! a) = Some d"
  by (auto simp: ask_server_def ajax_send_def start_request_def update_prev_def update_at_def Let_def)

lemma remote_answers:
  assumes "remote cx v i q s = (Inr r, t)" "r \<noteq> Mismatch" "\<And>b. oget (previous s) i = Some b \<Longrightarrow> b < length (prevs s)"
    and "d = data_string (call_data (cx_env cx) (page_doc s)) v (member (remote_param q) ''data'')"
  shows "\<exists>a. oget (previous t) i = Some a \<and> old_value (prevs t ! a) = Some d \<and>
    (case oget (previous s) i of
       Some b \<Rightarrow> a = b \<and>
         (if old_value (prevs s ! b) = Some d then r = Res (prev_valid (prevs s ! b)) \<and> effects t = effects s \<and> pending_request t = pending_request s
          else r = Pending \<and> (\<exists>aborts. effects t = effects s @ aborts @ [AjaxSend i a v (remote_param q)] \<and> set aborts \<subseteq> range AjaxAbort))
     | None \<Rightarrow> r = Pending \<and> (\<exists>aborts. effects t = effects s @ aborts @ [AjaxSend i a v (remote_param q)] \<and> set aborts \<subseteq> range AjaxAbort))"
proof -
  let ?q = "remote_param q"
  let ?F = "\<lambda>a. andthen (change (borrow_message i a))
           (bindv (reading (\<lambda>s. (prevs s ! a, data_string (call_data (cx_env cx) (page_doc s)) v (member ?q ''data''))))
             (\<lambda>(pv, data).
                if old_value pv = Some data then ret (Res (prev_valid pv))
                else andthen (change (ask_server cx i a v ?q data)) (ret Pending)))"
  obtain opt where "(if opt then ret Mismatch else bindv (previous_value cx i) ?F) s = (Inr r, t)"
    using assms(1) by (auto simp: remote_def bindv_fallible split: sum.splits)
  then have "bindv (previous_value cx i) ?F s = (Inr r, t)" using assms(2) by (simp add: ret_def split: if_splits)
  then obtain a u where u: "previous_value cx i s = (Inr a, u)" and rest: "?F a u = (Inr r, t)"
    unfolding bindv_eq_Inr by blast
  note p = previous_value_stored [OF u assms(3)]
  let ?b = "borrow_message i a u"
  have a: "a < length (prevs u)" using p by blast
  have b: "prevs ?b ! a = (prevs u ! a)\<lparr>original_message := original_message (prevs ?b ! a)\<rparr>" "a < length (prevs ?b)"
    using a by (simp_all add: borrowed)
  have old: "old_value (prevs ?b ! a) = old_value (prevs u ! a)" "prev_valid (prevs ?b ! a) = prev_valid (prevs u ! a)"
    by (subst b(1), simp)+
  have run: "(if old_value (prevs u ! a) = Some d then ret (Res (prev_valid (prevs u ! a)))
      else andthen (change (ask_server cx i a v ?q d)) (ret Pending)) ?b = (Inr r, t)"
    using rest p by (cases "old_value (prevs u ! a) = Some d") (simp_all add: old borrow_message_off assms(4))
  have same: "oget (previous ?b) i = Some a" "effects ?b = effects s" "pending_request ?b = pending_request s"
    using p by (simp_all add: borrow_message_off)
  show ?thesis
  proof (cases "old_value (prevs u ! a) = Some d")
    case True
    then have "t = ?b" "r = Res (prev_valid (prevs u ! a))" using run by (simp_all add: ret_def)
    then show ?thesis using True p same old by (auto split: option.splits)
  next
    case False
    then have "t = ask_server cx i a v ?q d ?b" "r = Pending" using run by (simp_all add: ret_def)
    then show ?thesis using False p same ask_server_effects(1,2) [of cx i a v ?q d ?b]
      ask_server_effects(3) [OF b(2), of cx i v ?q d] by (auto split: option.splits)
  qed
qed

text \<open>The method \<open>remote\<close> of a field that is not optionally empty remembers the data it last sent to the server.
  For the same data it answers with the remembered verdict and sends nothing (also while that request is
  still under way); for other data it sends exactly one request, aborting the field's previous one,
  and tells \<open>check\<close> to wait.\<close>

theorem remote_asks_for_new_data:
  assumes "remote cx v i q s = (Inr r, t)" "r \<noteq> Mismatch" "\<And>b. oget (previous s) i = Some b \<Longrightarrow> b < length (prevs s)"
    and "d = data_string (call_data (cx_env cx) (page_doc s)) v (member (remote_param q) ''data'')"
  shows "\<exists>a. oget (previous t) i = Some a \<and> old_value (prevs t ! a) = Some d \<and>
    (case oget (previous s) i of
       Some b \<Rightarrow> a = b \<and>
         (if old_value (prevs s ! b) = Some d then r = Res (prev_valid (prevs s ! b)) \<and> effects t = effects s \<and> pending_request t = pending_request s
          else r = Pending \<and> (\<exists>aborts. effects t = effects s @ aborts @ [AjaxSend i a v (remote_param q)] \<and> set aborts \<subseteq> range AjaxAbort))
     | None \<Rightarrow> r = Pending \<and> (\<exists>aborts. effects t = effects s @ aborts @ [AjaxSend i a v (remote_param q)] \<and> set aborts \<subseteq> range AjaxAbort))"
  by (rule remote_answers [OF assms])

theorem remote_asks_for_new_data_witness:
  "\<exists>t. remote login_cx (JStr ''ann'') 0 (JStr ''/free'') login_waiting = (Inr (Res True), t) \<and> effects t = effects login_waiting"
proof -
  have "fst (remote login_cx (JStr ''ann'') 0 (JStr ''/free'') login_waiting) = Inr (Res True)" by code_simp
  then obtain t where t: "remote login_cx (JStr ''ann'') 0 (JStr ''/free'') login_waiting = (Inr (Res True), t)"
    by (metis prod.collapse)
  have p: "previous login_waiting = [(0, 0)]" "length (prevs login_waiting) = 1" by (simp_all add: login_waiting_def)
  have d: "old_value (prevs login_waiting ! 0) =
      Some (data_string (call_data (cx_env login_cx) (page_doc login_waiting)) (JStr ''ann'') (member (remote_param (JStr ''/free'')) ''data''))"
    by code_simp
  have "oget (previous login_waiting) 0 = Some b \<Longrightarrow> b < length (prevs login_waiting)" for b using p by simp
  from remote_asks_for_new_data [OF t _ this refl] have "effects t = effects login_waiting" using p d by simp
  then show ?thesis using t by blast
qed

text \<open>For a text field that is not left out as empty and optional, and when the request's own data has no member
  called \<open>data\<close> and its functions give what they gave at the last request, the server is asked exactly when the text
  differs from the one last sent; when it does not, the remembered verdict is the answer. (A member called \<open>data\<close>
  replaces the value in the text that is compared, so that changes are not noticed; when a function of the data gives
  another result, an unchanged text is asked about again.)\<close>

theorem remote_notices_changes:
  assumes "remote cx (JStr v) i q s = (Inr r, t)" "r \<noteq> Mismatch" "oget (previous s) i = Some b" "b < length (prevs s)"
    and "''data'' \<notin> fst ` set (own_members (member (remote_param q) ''data''))"
    and "old_value (prevs s ! b) = Some (data_string (call_data (cx_env cx) (page_doc s)) (JStr w) (member (remote_param q) ''data''))"
  shows "(r = Pending \<longleftrightarrow> v \<noteq> w) \<and> (v = w \<longrightarrow> r = Res (prev_valid (prevs s ! b)) \<and> effects t = effects s)"
proof -
  have "oget (previous s) i = Some c \<Longrightarrow> c < length (prevs s)" for c using assms(3,4) by simp
  from remote_answers [OF assms(1,2) this refl] show ?thesis
    using assms(3,6) data_string_inj [OF assms(5), of "call_data (cx_env cx) (page_doc s)" v w]
    by (auto split: if_splits)
qed

theorem remote_notices_changes_witness:
  "fst (remote login_cx (JStr ''bob'') 0 (JStr ''/free'') login_waiting) = Inr Pending"
proof -
  have "fst (remote login_cx (JStr ''bob'') 0 (JStr ''/free'') login_waiting) = Inr Pending"
    by code_simp
  then obtain t where r: "remote login_cx (JStr ''bob'') 0 (JStr ''/free'') login_waiting = (Inr Pending, t)"
    by (metis prod.collapse)
  have d: "member (remote_param (JStr ''/free'')) ''data'' = JUndef" by code_simp
  have o: "old_value (prevs login_waiting ! 0) =
      Some (data_string (call_data (cx_env login_cx) (page_doc login_waiting)) (JStr ''ann'') (member (remote_param (JStr ''/free'')) ''data''))"
    by code_simp
  have p: "oget (previous login_waiting) 0 = Some 0" "0 < length (prevs login_waiting)" by (simp_all add: login_waiting_def)
  show ?thesis
    using remote_notices_changes [OF r _ p _ o] r d by (simp add: own_members_def)
qed

end
