(* ===== verification/Unobtrusive.thy ===== *)
theory Unobtrusive
  imports Plugin
begin

text \<open>
  \<open>jquery.validate.unobtrusive.js\<close>: adapters turn \<open>data-val-*\<close> attributes into rules and messages;
  the callbacks it passes to the validator put error labels into the page's message containers.
\<close>

section \<open>Texts\<close>

definition split_and_trim :: "string \<Rightarrow> string list" where
  "split_and_trim value =
     rx_split (rseq [rstar rspace, lit '','', rstar rspace])
       (rx_delete (Alt (Seq Bol (rplus rspace)) (Seq (rplus rspace) Eol)) value)"

definition attribute_meta :: string where
  "attribute_meta = ''!'' @ [CHR 0x22] @ ''#$%&'' @ [CHR 0x27] @ ''()*+,./:;<=>?@['' @ [CHR 0x5C] @ '']^`{|}~''"

definition escape_attribute_value :: "string \<Rightarrow> string" where
  "escape_attribute_value value = rx_replace_all (cls [] attribute_meta) (\<lambda>m. CHR 0x5C # m) value"

definition get_model_prefix :: "string \<Rightarrow> string" where
  "get_model_prefix fieldName =
     substr fieldName 0 (case last_index_of fieldName (CHR ''.'') of None \<Rightarrow> 0 | Some i \<Rightarrow> i + 1)"

text \<open>The replacement text of \<open>replace\<close> may refer to the match and to what surrounds it.\<close>

fun expand_replacement :: "string \<Rightarrow> string \<Rightarrow> string \<Rightarrow> string \<Rightarrow> string" where
  "expand_replacement m before after [] = []"
| "expand_replacement m before after [c] = [c]"
| "expand_replacement m before after (c # d # cs) =
     (if c \<noteq> CHR ''$'' then c # expand_replacement m before after (d # cs)
      else if d = CHR ''$'' then CHR ''$'' # expand_replacement m before after cs
      else if d = CHR ''&'' then m @ expand_replacement m before after cs
      else if d = CHR ''`'' then before @ expand_replacement m before after cs
      else if d = CHR 0x27 then after @ expand_replacement m before after cs
      else c # expand_replacement m before after (d # cs))"

definition append_model_prefix :: "string \<Rightarrow> string \<Rightarrow> string" where
  "append_model_prefix value prefix =
     (if index_of value ''*.'' = Some 0
      then expand_replacement ''*.'' [] (drop 2 value) prefix @ drop 2 value else value)"

section \<open>Message containers\<close>

text \<open>\<open>json\<close> is \<open>$.parseJSON\<close>.\<close>

definition containers_for :: "nodes \<Rightarrow> string \<Rightarrow> nat list" where
  "containers_for ns name =
     filter (\<lambda>k. n_in_form (ns ! k) \<and> oget (n_attrs (ns ! k)) ''data-valmsg-for'' = Some name) [0..<length ns]"

definition first_attr :: "nodes \<Rightarrow> nat list \<Rightarrow> string \<Rightarrow> string option" where
  "first_attr ns ks a = (case ks of [] \<Rightarrow> None | k # _ \<Rightarrow> oget (n_attrs (ns ! k)) a)"

definition replace_flag :: "(string \<Rightarrow> jsv result) \<Rightarrow> string option \<Rightarrow> jsv option result" where
  \<comment> \<open>the parsed attribute, nothing when it is missing or empty\<close>
  "replace_flag json flag =
     (case flag of None \<Rightarrow> Inr None | Some s \<Rightarrow> if s = [] then Inr None else bind_res (json s) (\<lambda>v. Inr (Some v)))"

definition empty_nodes :: "nat list \<Rightarrow> nodes \<Rightarrow> nodes" where
  \<comment> \<open>\<open>empty()\<close>: the children leave the page and lose their data\<close>
  "empty_nodes ks ns =
     map (\<lambda>n. case n_home n of
                Inside c \<Rightarrow> if c \<in> set ks then n\<lparr>n_home := Gone, n_in_form := False, n_container := None\<rparr> else n
              | _ \<Rightarrow> n) (update_all ks (set_text []) ns)"

text \<open>\<open>appendTo\<close> several places: copies go to all but the last.\<close>

definition append_to :: "nat list \<Rightarrow> nat \<Rightarrow> nodes \<Rightarrow> nodes" where
  "append_to ks k ns =
     (if ks = [] then ns
      else foldl (\<lambda>m c. put_inside c (length m) (m @ [m ! k])) (put_inside (last ks) k ns) (butlast ks))"

definition show_message_error :: "node \<Rightarrow> node" where
  "show_message_error n = node_add_class ''field-validation-error'' (node_remove_class ''field-validation-valid'' n)"

definition show_message_valid :: "node \<Rightarrow> node" where
  "show_message_valid n = node_remove_class ''field-validation-error'' (node_add_class ''field-validation-valid'' n)"

definition on_error :: "(string \<Rightarrow> jsv result) \<Rightarrow> string \<Rightarrow> nat \<Rightarrow> nodes \<Rightarrow> nodes result" where
  "on_error json name k ns =
     (let container = containers_for ns name
      in bind_res (replace_flag json (first_attr ns container ''data-valmsg-replace'')) (\<lambda>flag.
           let m = update_at k (\<lambda>n. n\<lparr>n_container := Some container\<rparr>) (update_all container show_message_error ns)
           in if flag \<noteq> None \<and> flag \<noteq> Some (JBool False)
              then Inr (append_to container k (update_at k (node_remove_class ''input-validation-error'') (empty_nodes container m)))
              else Inr (update_at k (\<lambda>n. n\<lparr>n_shown := False\<rparr>) m)))"

definition summary_containers :: "nodes \<Rightarrow> nat list" where
  "summary_containers ns =
     filter (\<lambda>k. n_in_form (ns ! k) \<and> oget (n_attrs (ns ! k)) ''data-valmsg-summary'' = Some ''true'') [0..<length ns]"

definition summary_lists :: "nodes \<Rightarrow> nat list" where
  "summary_lists ns =
     filter (\<lambda>k. n_tag (ns ! k) = ''ul'' \<and> n_home (ns ! k) \<in> Inside ` set (summary_containers ns)) [0..<length ns]"

definition list_item :: "jsv \<Rightarrow> node" where
  "list_item message =
     \<lparr>n_tag = ''li'', n_id = [], n_for = None, n_in_label = None, n_attrs = [], n_classes = [],
      n_html = (if message = JUndef then [] else js_text message), n_shown = True, n_wrapper = None, n_home = Gone,
      n_in_form = False, n_container = None\<rparr>"

definition on_errors :: "err list \<Rightarrow> nodes \<Rightarrow> nodes" where
  "on_errors errs ns =
     (let lists = summary_lists ns; container = summary_containers ns
      in if lists = [] \<or> errs = [] then ns
         else foldl (\<lambda>m e. append_to lists (length m) (m @ [list_item (err_message e)]))
                (update_all container (\<lambda>n. node_remove_class ''validation-summary-valid''
                                              (node_add_class ''validation-summary-errors'' n)) (empty_nodes lists ns))
                errs)"

definition on_success :: "(string \<Rightarrow> jsv result) \<Rightarrow> nat list \<Rightarrow> nodes \<Rightarrow> nodes result" where
  "on_success json ks ns =
     (case ks of
        [] \<Rightarrow> Inr ns
      | k # _ \<Rightarrow>
          (case n_container (ns ! k) of
             None \<Rightarrow> Inr ns
           | Some container \<Rightarrow>
               bind_res (replace_flag json (first_attr ns container ''data-valmsg-replace'')) (\<lambda>flag.
                 let m = update_all ks (\<lambda>n. n\<lparr>n_container := None\<rparr>) (update_all container show_message_valid ns)
                 in Inr (if flag \<noteq> None \<and> js_truthy (the flag) then empty_nodes container m else m))))"

definition reset_node :: "nodes \<Rightarrow> node \<Rightarrow> node" where
  "reset_node ns n =
     (let m = (if ''validation-summary-errors'' \<in> set (n_classes n)
               then node_remove_class ''validation-summary-errors'' (node_add_class ''validation-summary-valid'' n) else n);
          r = (if ''field-validation-error'' \<in> set (n_classes n) then (show_message_valid m)\<lparr>n_container := None\<rparr> else m);
          up = (case n_home n of Inside c \<Rightarrow> ''field-validation-error'' \<in> set (n_classes (ns ! c)) | _ \<Rightarrow> False)
      in if \<not> n_in_form n then n else if up then r\<lparr>n_container := None\<rparr> else r)"

text \<open>\<open>resetting\<close> is the flag that the form carries while it is reset.\<close>

definition on_reset :: "ctx \<Rightarrow> bool \<Rightarrow> unit vm" where
  "on_reset cx resetting =
     (if resetting then ret ()
      else andthen (reset_form cx) (on_nodes (\<lambda>ns. map (reset_node ns) ns)))"

section \<open>The options given to the validator\<close>

definition unobtrusive_settings :: "string \<Rightarrow> string \<Rightarrow> settings" where
  \<comment> \<open>\<open>errorClass\<close> and \<open>errorElement\<close> of the page's defaults, empty when there are none\<close>
  "unobtrusive_settings ecls elt =
     defaults\<lparr>error_class := (if ecls = [] then ''input-validation-error'' else ecls),
              error_element := (if elt = [] then ''span'' else elt),
              error_placement := Some 0, invalid_handler := Some 0, success := Some (SuccessFun 0)\<rparr>"

definition keep_on_throw :: "nodes \<Rightarrow> nodes result \<Rightarrow> nodes" where
  "keep_on_throw ns r = (case r of Inl _ \<Rightarrow> ns | Inr m \<Rightarrow> m)"

text \<open>The callbacks, each followed by the function of the same name in the page's options.\<close>

definition unobtrusive_env :: "(string \<Rightarrow> jsv result) \<Rightarrow> env \<Rightarrow> env" where
  "unobtrusive_env json page =
     page\<lparr>call_place := (\<lambda>f p ns k i. call_place page f p (keep_on_throw ns (on_error json (elem_name (p ! i)) k ns)) k i),
          call_invalid := (\<lambda>f ns errs. call_invalid page f (on_errors errs ns) errs),
          call_success := (\<lambda>f ns ks i. call_success page f (keep_on_throw ns (on_success json ks ns)) ks i)\<rparr>"

section \<open>Adapters\<close>

type_synonym messages = "(string, msg) obj"

text \<open>What an adapter is called with.\<close>

record adapt_call =
  ac_doc :: doc
  ac_form :: nat
  ac_elem :: nat
  ac_message :: string
  ac_params :: "(string, jsv) obj"

type_synonym adapt = "adapt_call \<Rightarrow> rules \<times> messages \<Rightarrow> rules \<times> messages"

record adapter =
  ad_name :: string
  ad_params :: "string list"
  ad_adapt :: adapt

definition set_validation_values :: "string \<Rightarrow> jsv \<Rightarrow> adapt" where
  "set_validation_values ruleName value c rm =
     (oset (fst rm) ruleName value,
      if ac_message c \<noteq> [] then oset (snd rm) ruleName (MVal (JStr (ac_message c))) else snd rm)"

definition add_adapter :: "string \<Rightarrow> string list \<Rightarrow> adapt \<Rightarrow> adapter list \<Rightarrow> adapter list" where
  "add_adapter name params fn ads = ads @ [\<lparr>ad_name = name, ad_params = params, ad_adapt = fn\<rparr>]"

definition or_name :: "string option \<Rightarrow> string \<Rightarrow> string" where
  \<comment> \<open>\<open>x || name\<close> for a text that may be missing\<close>
  "or_name x name = (case x of Some (c # cs) \<Rightarrow> c # cs | _ \<Rightarrow> name)"

definition as_key :: "string option \<Rightarrow> string" where
  \<comment> \<open>a missing argument used as the name of a property\<close>
  "as_key x = (case x of None \<Rightarrow> ''undefined'' | Some s \<Rightarrow> s)"

definition add_bool :: "string \<Rightarrow> string option \<Rightarrow> adapter list \<Rightarrow> adapter list" where
  "add_bool name ruleName = add_adapter name [] (set_validation_values (or_name ruleName name) (JBool True))"

definition min_max_adapt :: "string option \<Rightarrow> string option \<Rightarrow> string option \<Rightarrow> adapt" where
  "min_max_adapt minRule maxRule minMaxRule c rm =
     (let lo = jget (ac_params c) ''min''; hi = jget (ac_params c) ''max''
      in if js_truthy lo \<and> js_truthy hi then set_validation_values (as_key minMaxRule) (JArr [lo, hi]) c rm
         else if js_truthy lo then set_validation_values (as_key minRule) lo c rm
         else if js_truthy hi then set_validation_values (as_key maxRule) hi c rm
         else rm)"

definition add_min_max :: "string \<Rightarrow> string option \<Rightarrow> string option \<Rightarrow> string option \<Rightarrow> string option \<Rightarrow> string option
    \<Rightarrow> adapter list \<Rightarrow> adapter list" where
  "add_min_max name minRule maxRule minMaxRule minAttribute maxAttribute =
     add_adapter name [or_name minAttribute ''min'', or_name maxAttribute ''max''] (min_max_adapt minRule maxRule minMaxRule)"

definition add_single_val :: "string \<Rightarrow> string option \<Rightarrow> string option \<Rightarrow> adapter list \<Rightarrow> adapter list" where
  "add_single_val name attribute ruleName =
     add_adapter name [or_name attribute ''val'']
       (\<lambda>c. set_validation_values (or_name ruleName name) (jget (ac_params c) (as_key attribute)) c)"

definition input_named :: "nat \<Rightarrow> doc \<Rightarrow> string \<Rightarrow> nat list" where
  \<comment> \<open>\<open>$( form ).find( ":input" ).filter( "[name='...']" )\<close>\<close>
  "input_named f p name =
     filter (\<lambda>k. node_name (p ! k) \<in> {''input'', ''select'', ''textarea'', ''button''}) (find_by_name f p name)"

definition equalto_adapt :: adapt where
  "equalto_adapt c rm =
     (let prefix = get_model_prefix (elem_name (ac_doc c ! ac_elem c));
          other = js_text (jget (ac_params c) ''other'');
          target = (case input_named (ac_form c) (ac_doc c) (append_model_prefix other prefix) of
                      [] \<Rightarrow> JUndef | k # _ \<Rightarrow> JElem k)
      in set_validation_values ''equalTo'' target c rm)"

definition required_adapt :: adapt where
  "required_adapt c rm =
     (let e = ac_doc c ! ac_elem c
      in if to_upper (node_name e) \<noteq> ''INPUT'' \<or> to_upper (elem_type e) \<noteq> ''CHECKBOX''
         then set_validation_values ''required'' (JBool True) c rm else rm)"

text \<open>The function that reads a field when the request is made: of check boxes and radio buttons only
  checked ones count.\<close>

definition first_val :: "doc \<Rightarrow> nat list \<Rightarrow> jsv" where
  "first_val p ks = (case ks of [] \<Rightarrow> JUndef | k # _ \<Rightarrow> elem_val (p ! k))"

definition read_field :: "env \<Rightarrow> nat \<Rightarrow> doc \<Rightarrow> string \<Rightarrow> jsv" where
  "read_field env f p name =
     (let field = input_named f p name;
          checked = first_val p (filter (\<lambda>k. elem_checked (p ! k)) field);
          hidden = first_val p (filter (\<lambda>k. matches env p '':hidden'' k) field)
      in if list_ex (\<lambda>k. node_name (p ! k) = ''input'' \<and> elem_type (p ! k) = ''checkbox'') field
         then (if js_truthy checked then checked else if js_truthy hidden then hidden else JStr [])
         else if list_ex (\<lambda>k. node_name (p ! k) = ''input'' \<and> elem_type (p ! k) = ''radio'') field
         then (if js_truthy checked then checked else JStr [])
         else first_val p field)"

definition reading_env :: "nat \<Rightarrow> env \<Rightarrow> env" where
  \<comment> \<open>what the functions in the data of such a request return\<close>
  "reading_env f page =
     page\<lparr>call_data := (\<lambda>p v. case v of JReader name \<Rightarrow> read_field page f p name | _ \<Rightarrow> call_data page p v)\<rparr>"

definition remote_adapt :: adapt where
  "remote_adapt c rm =
     (let name = elem_name (ac_doc c ! ac_elem c);
          prefix = get_model_prefix name;
          type = jget (ac_params c) ''type'';
          extra = jget (ac_params c) ''additionalfields'';
          names = map (\<lambda>n. append_model_prefix n prefix) (split_and_trim (if js_truthy extra then js_text extra else name));
          data = foldl (\<lambda>m n. oset m n (JReader n)) [] names
      in set_validation_values ''remote''
           (JObj [(''url'', jget (ac_params c) ''url''),
                  (''type'', if js_truthy type then type else JStr ''GET''),
                  (''data'', JObj data)]) c rm)"

definition set_if_given :: "string \<Rightarrow> string \<Rightarrow> adapt" where
  "set_if_given param ruleName c rm =
     (let v = jget (ac_params c) param in if js_truthy v then set_validation_values ruleName v c rm else rm)"

definition password_adapt :: adapt where
  "password_adapt c rm =
     set_if_given ''regex'' ''regex'' c (set_if_given ''nonalphamin'' ''nonalphamin'' c (set_if_given ''min'' ''minlength'' c rm))"

definition fileextensions_adapt :: adapt where
  "fileextensions_adapt c = set_validation_values ''extension'' (jget (ac_params c) ''extensions'') c"

definition default_adapters :: "bool \<Rightarrow> adapter list" where
  \<comment> \<open>\<open>has_extension\<close>: the method \<open>extension\<close> is loaded\<close>
  "default_adapters has_extension =
     foldl (\<lambda>ads f. f ads) []
       ((if has_extension
         then [add_single_val ''accept'' (Some ''mimtype'') None, add_single_val ''extension'' (Some ''extension'') None]
         else [add_single_val ''extension'' (Some ''extension'') (Some ''accept'')]) @
        [add_single_val ''regex'' (Some ''pattern'') None,
         add_bool ''creditcard'' None, add_bool ''date'' None, add_bool ''digits'' None, add_bool ''email'' None,
         add_bool ''number'' None, add_bool ''url'' None,
         add_min_max ''length'' (Some ''minlength'') (Some ''maxlength'') (Some ''rangelength'') None None,
         add_min_max ''range'' (Some ''min'') (Some ''max'') (Some ''range'') None None,
         add_min_max ''minlength'' (Some ''minlength'') None None None None,
         add_min_max ''maxlength'' (Some ''minlength'') (Some ''maxlength'') None None None,
         add_adapter ''equalto'' [''other''] equalto_adapt,
         add_adapter ''required'' [] required_adapt,
         add_adapter ''remote'' [''url'', ''type'', ''additionalfields''] remote_adapt,
         add_adapter ''password'' [''min'', ''nonalphamin'', ''regex''] password_adapt,
         add_adapter ''fileextensions'' [''extensions''] fileextensions_adapt])"

section \<open>Parsing the page\<close>

definition run_adapter :: "doc \<Rightarrow> nat \<Rightarrow> nat \<Rightarrow> rules \<times> messages \<Rightarrow> adapter \<Rightarrow> rules \<times> messages" where
  "run_adapter p f i rm a =
     (let prefix = ''data-val-'' @ ad_name a
      in case oget (elem_attrs (p ! i)) prefix of
           None \<Rightarrow> rm
         | Some message \<Rightarrow>
             ad_adapt a
               \<lparr>ac_doc = p, ac_form = f, ac_elem = i, ac_message = message,
                ac_params = foldl (\<lambda>m q. oset m q (attr (p ! i) (prefix @ ''-'' @ q))) [] (ad_params a)\<rparr> rm)"

definition parse_rules :: "adapter list \<Rightarrow> doc \<Rightarrow> nat \<Rightarrow> nat \<Rightarrow> rules \<times> messages" where
  "parse_rules ads p f i =
     (let (rs, ms) = foldl (run_adapter p f i) ([], []) ads in (jextend rs [(''__dummy__'', JBool True)], ms))"

text \<open>The options of the forms' validators, by form.\<close>

record vinfo =
  info_rules :: rules
  info_messages :: "(string, custom) obj"

definition validation_info :: "(nat, vinfo) obj \<Rightarrow> nat \<Rightarrow> vinfo" where
  "validation_info infos f =
     (case oget infos f of Some i \<Rightarrow> i | None \<Rightarrow> \<lparr>info_rules = [], info_messages = []\<rparr>)"

definition parse_element :: "adapter list \<Rightarrow> doc \<Rightarrow> (nat, vinfo) obj \<Rightarrow> nat \<Rightarrow> (nat, vinfo) obj" where
  "parse_element ads p infos i =
     (case elem_within (p ! i) of
        [] \<Rightarrow> infos
      | f # _ \<Rightarrow>
          (let info = validation_info infos f; (rs, ms) = parse_rules ads p f i; name = elem_name (p ! i)
           in oset infos f
                \<lparr>info_rules = oset (info_rules info) name (JObj rs),
                 info_messages = oset (info_messages info) name (CEach ms)\<rparr>))"

text \<open>\<open>parse( selector )\<close> for the fields and the forms that the selection gives.\<close>

definition marked :: "doc \<Rightarrow> nat \<Rightarrow> bool" where
  "marked p i \<longleftrightarrow> oget (elem_attrs (p ! i)) ''data-val'' = Some ''true''"

definition parse :: "adapter list \<Rightarrow> doc \<Rightarrow> nat list \<Rightarrow> nat list \<Rightarrow> (nat, vinfo) obj \<Rightarrow> (nat, vinfo) obj \<times> nat list" where
  "parse ads p selected forms infos =
     (foldl (parse_element ads p) infos (filter (marked p) selected),
      filter (\<lambda>f. list_ex (\<lambda>i. marked p i \<and> f \<in> set (elem_within (p ! i))) [0..<length p]) forms)"

text \<open>\<open>attachValidation\<close>: the validator of the form, made with the options if it has none.\<close>

definition attach_validation :: "ctx \<Rightarrow> (nat, vinfo) obj \<Rightarrow> doc \<Rightarrow> nodes \<Rightarrow> vst option \<Rightarrow> vst" where
  "attach_validation cx infos p ns registered =
     (let info = validation_info infos (cx_form cx)
      in validate_call (cx\<lparr>cx_set := (cx_set cx)\<lparr>set_rules := info_rules info\<rparr>\<rparr>) (info_messages info) p ns registered)"

section \<open>Methods\<close>

definition dummy_method :: vmethod where
  "dummy_method value i param = ret (Res True)"

definition regex_matches :: "string \<Rightarrow> string \<Rightarrow> bool result" where
  \<comment> \<open>the leftmost match is the whole value\<close>
  "regex_matches params value =
     bind_res (new_regexp False params)
       (\<lambda>re. Inr (case rx_exec re value of None \<Rightarrow> False | Some (idx, len) \<Rightarrow> idx = 0 \<and> len = length value))"

definition regex_method :: "ctx \<Rightarrow> vmethod" where
  "regex_method cx value i param =
     bindv (opt_of cx i) (\<lambda>opt.
       if opt then ret (Res True)
       else fallible (\<lambda>s. bind_res (regex_matches (js_text param) (js_text value)) (\<lambda>b. Inr (Res b))))"

definition nonalphamin :: "string \<Rightarrow> jsv \<Rightarrow> bool" where
  "nonalphamin value least =
     (js_truthy least \<and>
      (case rx_match_all rnonword value of
         None \<Rightarrow> False | Some ms \<Rightarrow> js_ge (JNum (Fin (of_nat (length ms)))) least))"

definition nonalphamin_method :: vmethod where
  "nonalphamin_method value i param = ret (Res (nonalphamin (js_text value) param))"

definition unobtrusive_methods :: "ctx \<Rightarrow> methods" where
  "unobtrusive_methods cx =
     core_methods cx @ [(''__dummy__'', dummy_method), (''regex'', regex_method cx), (''nonalphamin'', nonalphamin_method)]"

definition unobtrusive_tables :: tables where
  "unobtrusive_tables =
     foldl (\<lambda>t n. add_method n 3 None t) core_tables [''__dummy__'', ''regex'', ''nonalphamin'']"

end
