(* ===== verification/UnobtrusiveProps.thy ===== *)
theory UnobtrusiveProps
  imports Unobtrusive Sample
begin

text \<open>
  Properties of the adapters: what \<open>parse\<close> collects for the fields of the forms, and the
  attribute names that the registration functions do not use.
\<close>

section \<open>Collecting the rules\<close>

text \<open>The rules and messages that the options of a form hold for a name.\<close>

definition collected :: "(nat, vinfo) obj \<Rightarrow> nat \<Rightarrow> string \<Rightarrow> jsv option \<times> custom option" where
  "collected infos f n =
     (oget (info_rules (validation_info infos f)) n, oget (info_messages (validation_info infos f)) n)"

definition field_options :: "adapter list \<Rightarrow> doc \<Rightarrow> nat \<Rightarrow> nat \<Rightarrow> jsv option \<times> custom option" where
  "field_options ads p f i = (Some (JObj (fst (parse_rules ads p f i))), Some (CEach (snd (parse_rules ads p f i))))"

definition field_key :: "doc \<Rightarrow> nat \<Rightarrow> nat option \<times> string" where
  "field_key p i = (case elem_within (p ! i) of [] \<Rightarrow> None | f # _ \<Rightarrow> Some f, elem_name (p ! i))"

lemma collected_parse_element:
  "collected (parse_element ads p infos i) f n =
     (if field_key p i = (Some f, n) then field_options ads p f i else collected infos f n)"
  by (auto simp: parse_element_def collected_def field_options_def field_key_def validation_info_def js_obj Let_def
      split: list.splits prod.splits option.splits)

lemma collected_fold:
  assumes "distinct (map (field_key p) is)"
  shows "collected (foldl (parse_element ads p) infos is) f n =
    (case find (\<lambda>i. field_key p i = (Some f, n)) is of Some i \<Rightarrow> field_options ads p f i | None \<Rightarrow> collected infos f n)"
  using assms
proof (induction "is" arbitrary: infos)
  case (Cons i "is")
  show ?case
  proof (cases "field_key p i = (Some f, n)")
    case True
    then have "field_key p j \<noteq> (Some f, n)" if "j \<in> set is" for j
      using Cons.prems that by (metis distinct.simps(2) imageI list.set_map list.simps(9))
    then have "find (\<lambda>i. field_key p i = (Some f, n)) is = None" by (simp add: find_None_iff)
    then show ?thesis using Cons True by (simp add: collected_parse_element)
  next
    case False
    then show ?thesis using Cons by (simp add: collected_parse_element split: option.split)
  qed
qed simp

text \<open>C37: When the fields to parse have different names within their forms, \<open>parse\<close> gives the options of
  the innermost form around every field marked with \<open>data-val="true"\<close> exactly the rules and messages that
  the adapters read from the attributes of this field, and leaves what the options hold for all other names and forms.\<close>

theorem parse_collects:
  assumes "distinct (map (field_key p) (filter (marked p) sel))"
  shows "collected (fst (parse ads p sel forms infos)) f n =
    (case find (\<lambda>i. field_key p i = (Some f, n)) (filter (marked p) sel) of
       Some i \<Rightarrow> field_options ads p f i | None \<Rightarrow> collected infos f n)"
  using collected_fold [OF assms] by (simp add: parse_def)

definition marked_field :: "string \<Rightarrow> elem" where
  "marked_field name = (text_field name [] [])\<lparr>elem_attrs := [(''data-val'', ''true''), (''data-val-required'', ''Name?'')]\<rparr>"

theorem parse_collects_witness:
  "fst (collected (fst (parse (default_adapters False) [marked_field ''a'', text_field ''b'' [] []] [0, 1] [0] [])) 0 ''a'') =
     Some (JObj [(''required'', JBool True), (''__dummy__'', JBool True)]) \<and>
   fst (collected (fst (parse (default_adapters False) [marked_field ''a'', text_field ''b'' [] []] [0, 1] [0] [])) 0 ''b'') = None"
proof -
  let ?p = "[marked_field ''a'', text_field ''b'' [] []]"
  have m: "filter (marked ?p) [0, 1] = [0]" by (simp add: marked_def marked_field_def text_field_def)
  have r: "fst (parse_rules (default_adapters False) ?p 0 0) = [(''required'', JBool True), (''__dummy__'', JBool True)]"
    by code_simp
  have k: "field_key ?p 0 = (Some 0, ''a'')" by (simp add: field_key_def marked_field_def text_field_def)
  have "distinct (map (field_key ?p) (filter (marked ?p) [0, 1]))" by (simp only: m) simp
  note c = parse_collects [OF this, of "default_adapters False" "[0]" "[]" 0]
  have "collected (fst (parse (default_adapters False) ?p [0, 1] [0] [])) 0 ''a'' = field_options (default_adapters False) ?p 0 0"
    unfolding c m by (simp add: k)
  moreover have "collected (fst (parse (default_adapters False) ?p [0, 1] [0] [])) 0 ''b'' = collected [] 0 ''b''"
    unfolding c m by (simp add: k)
  ultimately show ?thesis using r by (simp add: field_options_def collected_def validation_info_def)
qed

section \<open>Attribute names\<close>

text \<open>An adapter made by \<open>addSingleVal\<close> without an attribute name collects the attribute \<open>val\<close> but
  reads a parameter named by the missing argument, so its rule always has the value
  undefined; an adapter made by \<open>addMinMax\<close> with attribute names of its own collects these
  but reads \<open>min\<close> and \<open>max\<close>, so it never sets a rule.\<close>

theorem adapter_attributes_ignored:
  assumes "oget (elem_attrs (p ! i)) (''data-val-'' @ name) = Some message"
    and "a \<noteq> []" "b \<noteq> []" "a \<notin> {''min'', ''max''}" "b \<notin> {''min'', ''max''}"
  shows "jget (fst (run_adapter p f i rm (last (add_single_val name None rule ads)))) (or_name rule name) = JUndef \<and>
    run_adapter p f i rm (last (add_min_max name lo hi both (Some a) (Some b) ads)) = rm"
proof -
  have ab: "or_name (Some a) m = a" "or_name (Some b) m = b" for m
    using assms(2,3) by (simp_all add: or_name_def split: list.split)
  have none: "jget (oset (oset [] a x) b y) ''min'' = JUndef" "jget (oset (oset [] a x) b y) ''max'' = JUndef" for x y :: jsv
    using assms(4,5) by (auto simp: jget_def obj.get_put)
  have "jget (fst (run_adapter p f i rm (last (add_single_val name None rule ads)))) (or_name rule name) = JUndef"
    using assms(1)
    by (simp add: run_adapter_def add_single_val_def add_adapter_def set_validation_values_def as_key_def or_name_def jget_def js_obj Let_def)
  moreover have "run_adapter p f i rm (last (add_min_max name lo hi both (Some a) (Some b) ads)) = rm"
    using assms(1) by (simp add: run_adapter_def add_min_max_def add_adapter_def min_max_adapt_def ab none Let_def del: oset.simps)
  ultimately show ?thesis ..
qed

theorem adapter_attributes_ignored_witness:
  "run_adapter [marked_field ''a''] 0 0 ([], []) (last (add_min_max ''required'' None None None (Some ''from'') (Some ''to'') [])) = ([], [])"
proof -
  have "oget (elem_attrs ([marked_field ''a''] ! 0)) (''data-val-'' @ ''required'') = Some ''Name?''"
    by (simp add: marked_field_def)
  from adapter_attributes_ignored [OF this, of "''from''" "''to''" 0 "([], [])" None "[]" None None None] show ?thesis by simp
qed

end
