(* ===== verification/Callbacks.thy ===== *)
theory Callbacks
  imports Dom
begin

text \<open>
  \<open>jQuery.Callbacks\<close>: a list of functions that is called with data, with the flags \<open>once\<close>,
  \<open>memory\<close>, \<open>unique\<close> and \<open>stopOnFalse\<close>. A function may change the list or fire it again while it is
  called; what the functions do is a parameter. Firing may never end, so it is a partial function.
\<close>

section \<open>The list\<close>

record options =
  once :: bool
  remember :: bool  \<comment> \<open>the flag \<open>memory\<close>\<close>
  unique :: bool
  stop_on_false :: bool

definition create_options :: "string \<Rightarrow> options" where
  "create_options s =
     (let flags = class_words s
      in \<lparr>once = ''once'' \<in> set flags, remember = ''memory'' \<in> set flags, unique = ''unique'' \<in> set flags,
          stop_on_false = ''stopOnFalse'' \<in> set flags\<rparr>)"

text \<open>A call is the context with the arguments. \<open>next_index\<close> is \<open>firingIndex + 1\<close>; a list that is
  spent or disabled (the empty text in the code) is nothing. \<open>calls\<close> is the history of the calls made.\<close>

type_synonym call = "jsv \<times> jsv list"

record cbs =
  firing :: bool
  memory :: "call option"
  fired :: bool
  locked :: bool
  flist :: "nat list option"
  queue :: "call list"
  next_index :: nat
  calls :: "(nat \<times> call) list"

definition callbacks :: cbs where
  "callbacks = \<lparr>firing = False, memory = None, fired = False, locked = False, flist = Some [], queue = [],
     next_index = 0, calls = []\<rparr>"

definition fn_list :: "cbs \<Rightarrow> nat list" where
  "fn_list s = (case flist s of None \<Rightarrow> [] | Some fs \<Rightarrow> fs)"

definition has :: "nat option \<Rightarrow> cbs \<Rightarrow> bool" where
  "has f s = (case f of Some f \<Rightarrow> f \<in> set (fn_list s) | None \<Rightarrow> fn_list s \<noteq> [])"

definition disabled :: "cbs \<Rightarrow> bool" where
  "disabled s \<longleftrightarrow> flist s = None"

text \<open>An argument of \<open>add\<close> is a function, a collection, or something else that is passed over.\<close>

datatype item = Fn nat | Group "item list" | Junk

fun item_functions :: "item \<Rightarrow> nat list" where
  "item_functions (Fn f) = [f]"
| "item_functions (Group is) = concat (map item_functions is)"
| "item_functions Junk = []"

definition push_function :: "options \<Rightarrow> nat \<Rightarrow> cbs \<Rightarrow> cbs" where
  "push_function opts f s = (if \<not> unique opts \<or> \<not> has (Some f) s then s\<lparr>flist := Some (fn_list s @ [f])\<rparr> else s)"

definition push_items :: "options \<Rightarrow> item list \<Rightarrow> cbs \<Rightarrow> cbs" where
  "push_items opts is s = foldl (\<lambda>s f. push_function opts f s) s (concat (map item_functions is))"

text \<open>Removing every occurrence from an index on; the index of the next call moves along.\<close>

fun remove_from :: "nat \<Rightarrow> nat \<Rightarrow> nat list \<Rightarrow> nat \<Rightarrow> nat list \<times> nat" where
  "remove_from f i [] n = ([], n)"
| "remove_from f i (g # gs) n =
     (if g = f then remove_from f i gs (if i < n then n - 1 else n)
      else (let (hs, n') = remove_from f (Suc i) gs n in (g # hs, n')))"

definition remove_function :: "nat \<Rightarrow> cbs \<Rightarrow> cbs" where
  "remove_function f s =
     (case flist s of
        None \<Rightarrow> s
      | Some fs \<Rightarrow> (let (gs, n) = remove_from f 0 fs (next_index s) in s\<lparr>flist := Some gs, next_index := n\<rparr>))"

section \<open>Operations\<close>

datatype cb_op =
    Add "item list"
  | Remove "nat list"
  | Clear  \<comment> \<open>\<open>empty\<close>\<close>
  | Disable
  | Lock
  | FireWith call

text \<open>The effect of an operation on the list, and whether it calls \<open>fire\<close> at its end.\<close>

definition add_op :: "options \<Rightarrow> item list \<Rightarrow> cbs \<Rightarrow> cbs \<times> bool" where
  "add_op opts is s =
     (if disabled s then (s, False)
      else case (if firing s then None else memory s) of
             None \<Rightarrow> (push_items opts is s, False)
           | Some m \<Rightarrow> (push_items opts is (s\<lparr>next_index := length (fn_list s), queue := queue s @ [m]\<rparr>), True))"

definition lock_op :: "cbs \<Rightarrow> cbs" where
  "lock_op s =
     (let t = s\<lparr>locked := True, queue := []\<rparr>
      in if memory s = None \<and> \<not> firing s then t\<lparr>flist := None, memory := None\<rparr> else t)"

fun apply_op :: "options \<Rightarrow> cb_op \<Rightarrow> cbs \<Rightarrow> cbs \<times> bool" where
  "apply_op opts (Add is) s = add_op opts is s"
| "apply_op opts (Remove fs) s = (foldl (\<lambda>s f. remove_function f s) s fs, False)"
| "apply_op opts Clear s = (if disabled s then s else s\<lparr>flist := Some []\<rparr>, False)"
| "apply_op opts Disable s = (s\<lparr>locked := True, queue := [], flist := None, memory := None\<rparr>, False)"
| "apply_op opts Lock s = (lock_op s, False)"
| "apply_op opts (FireWith m) s = (if locked s then (s, False) else (s\<lparr>queue := queue s @ [m]\<rparr>, \<not> firing s))"

section \<open>Firing\<close>

text \<open>What a function does when it is called: operations on the list, and how it ends.\<close>

datatype reply = Returns_false | Returns | Throws

type_synonym behaviour = "nat \<Rightarrow> call \<Rightarrow> cbs \<Rightarrow> cb_op list \<times> reply"

definition call_data :: "cbs \<Rightarrow> call" where
  "call_data s = (case memory s of None \<Rightarrow> (JUndef, []) | Some m \<Rightarrow> m)"

definition call_function :: "behaviour \<Rightarrow> options \<Rightarrow> nat \<Rightarrow> cbs \<Rightarrow> bool \<times> cbs" where
  \<comment> \<open>whether it threw, and the state after it; while firing no operation fires by itself\<close>
  "call_function body opts f s =
     (let (ops, r) = body f (call_data s) s;
          t = foldl (\<lambda>t x. fst (apply_op opts x t)) (s\<lparr>calls := calls s @ [(f, call_data s)]\<rparr>) ops
      in (r = Throws,
          if r = Returns_false \<and> stop_on_false opts
          then t\<lparr>next_index := Suc (length (fn_list t)), memory := None\<rparr> else t))"

partial_function (option) run_list :: "behaviour \<Rightarrow> options \<Rightarrow> cbs \<Rightarrow> (bool \<times> cbs) option" where
  "run_list body opts s =
     (let i = next_index s; t = s\<lparr>next_index := Suc i\<rparr>
      in if i < length (fn_list s)
         then (let r = call_function body opts (fn_list s ! i) t
               in if fst r then Some r else run_list body opts (snd r))
         else Some (False, t))"

partial_function (option) run_queue :: "behaviour \<Rightarrow> options \<Rightarrow> cbs \<Rightarrow> (bool \<times> cbs) option" where
  "run_queue body opts s =
     (case queue s of
        [] \<Rightarrow> Some (False, s)
      | m # q \<Rightarrow>
          Option.bind (run_list body opts (s\<lparr>queue := q, memory := Some m\<rparr>)) (\<lambda>r.
            if fst r then Some r else run_queue body opts ((snd r)\<lparr>next_index := 0\<rparr>)))"

declare run_list.simps [code] run_queue.simps [code]

definition finish_firing :: "options \<Rightarrow> cbs \<Rightarrow> cbs" where
  "finish_firing opts s =
     (let t = s\<lparr>memory := (if remember opts then memory s else None), firing := False\<rparr>
      in if locked t then t\<lparr>flist := (if memory t = None then None else Some [])\<rparr> else t)"

definition fire :: "behaviour \<Rightarrow> options \<Rightarrow> cbs \<Rightarrow> (bool \<times> cbs) option" where
  "fire body opts s =
     Option.bind (run_queue body opts (s\<lparr>locked := locked s \<or> once opts, fired := True, firing := True\<rparr>)) (\<lambda>r.
       Some (if fst r then r else (False, finish_firing opts (snd r))))"

definition perform :: "behaviour \<Rightarrow> options \<Rightarrow> cb_op \<Rightarrow> cbs \<Rightarrow> (bool \<times> cbs) option" where
  \<comment> \<open>an operation from outside: whether an exception came out of it, and the state after it\<close>
  "perform body opts x s =
     (let (t, fires) = apply_op opts x s in if fires then fire body opts t else Some (False, t))"

end
