(* ===== verification/CallbackProps.thy ===== *)
theory CallbackProps
  imports Callbacks
begin

text \<open>
  Properties of \<open>jQuery.Callbacks\<close>: what the flags guarantee whatever the functions do, in which order
  functions are called, when firing ends, and what an exception leaves behind.
\<close>

section \<open>Single operations\<close>

lemma fn_list_off [simp]:
  "fn_list (s\<lparr>firing := a\<rparr>) = fn_list s" "fn_list (s\<lparr>memory := b\<rparr>) = fn_list s" "fn_list (s\<lparr>fired := a\<rparr>) = fn_list s"
  "fn_list (s\<lparr>locked := a\<rparr>) = fn_list s" "fn_list (s\<lparr>queue := q\<rparr>) = fn_list s" "fn_list (s\<lparr>next_index := n\<rparr>) = fn_list s"
  "fn_list (s\<lparr>calls := c\<rparr>) = fn_list s" "fn_list (s\<lparr>flist := Some fs\<rparr>) = fs" "fn_list (s\<lparr>flist := None\<rparr>) = []"
  by (simp_all add: fn_list_def)

text \<open>Adding and removing change nothing but the list and the index.\<close>

definition off_list :: "cbs \<Rightarrow> cbs" where
  "off_list s = s\<lparr>flist := None, next_index := 0\<rparr>"

lemma off_push: "off_list (push_items opts is s) = off_list s"
proof -
  have "off_list (foldl (\<lambda>s f. push_function opts f s) s fs) = off_list s" for fs
    by (induction fs arbitrary: s) (simp_all add: push_function_def off_list_def)
  then show ?thesis by (simp add: push_items_def)
qed

lemma off_remove: "off_list (foldl (\<lambda>s f. remove_function f s) s fs) = off_list s"
  by (induction fs arbitrary: s) (simp_all add: remove_function_def off_list_def split: option.splits prod.splits)

lemma off_listD:
  assumes "off_list s = off_list t"
  shows "firing s = firing t" "memory s = memory t" "fired s = fired t" "locked s = locked t" "queue s = queue t" "calls s = calls t"
  using arg_cong [OF assms, of firing] arg_cong [OF assms, of memory] arg_cong [OF assms, of fired]
    arg_cong [OF assms, of locked] arg_cong [OF assms, of queue] arg_cong [OF assms, of calls]
  by (simp_all add: off_list_def)

lemmas push_same = off_listD [OF off_push]
lemmas remove_same = off_listD [OF off_remove]

lemma apply_op_same:
  "firing (fst (apply_op opts x s)) = firing s" "calls (fst (apply_op opts x s)) = calls s"
  "fired (fst (apply_op opts x s)) = fired s" "locked s \<Longrightarrow> locked (fst (apply_op opts x s))"
  "snd (apply_op opts x s) \<Longrightarrow> \<not> firing s"
  by (cases x; auto simp: add_op_def lock_op_def Let_def push_same remove_same split: option.splits if_splits)+

lemma fold_ops_same:
  "firing (foldl (\<lambda>t x. fst (apply_op opts x t)) s xs) = firing s" "calls (foldl (\<lambda>t x. fst (apply_op opts x t)) s xs) = calls s"
  by (induction xs arbitrary: s) (simp_all add: apply_op_same)

section \<open>What every operation keeps\<close>

text \<open>
  The interface for properties of a list that hold whatever its functions do: the single operations and the
  bookkeeping of a call keep the predicate; for a whole operation also the beginning and end of firing.
\<close>

locale list_invariant =
  fixes opts :: options and I :: "cbs \<Rightarrow> bool"
  assumes operation: "I s \<Longrightarrow> I (fst (apply_op opts x s))"
    and called: "I s \<Longrightarrow> I (s\<lparr>calls := c\<rparr>)"
    and moved: "I s \<Longrightarrow> I (s\<lparr>next_index := n\<rparr>)"
    and stopped: "I s \<Longrightarrow> I (s\<lparr>next_index := n, memory := None\<rparr>)"
    and taken: "I s \<Longrightarrow> I (s\<lparr>queue := q, memory := Some m\<rparr>)"
begin

lemma call_keeps: "I s \<Longrightarrow> I (snd (call_function body opts f s))"
proof -
  assume s: "I s"
  have "I (foldl (\<lambda>t x. fst (apply_op opts x t)) t xs)" if "I t" for t xs
    using that by (induction xs arbitrary: t) (simp_all add: operation)
  then show ?thesis using called [OF s] by (simp add: call_function_def Let_def stopped split: prod.splits)
qed

lemma run_list_keeps:
  assumes "run_list body opts s = Some r"
  shows "I s \<longrightarrow> I (snd r)"
proof (rule run_list.raw_induct [OF _ assms, where P = "\<lambda>b q s r. b = body \<longrightarrow> q = opts \<longrightarrow> I s \<longrightarrow> I (snd r)", THEN mp, THEN mp])
  fix run b q s r
  assume IH: "\<And>b q s r. run b q s = Some r \<Longrightarrow> b = body \<longrightarrow> q = opts \<longrightarrow> I s \<longrightarrow> I (snd r)"
    and eq: "(let i = next_index s; t = s\<lparr>next_index := Suc i\<rparr>
      in if i < length (fn_list s)
         then (let r = call_function b q (fn_list s ! i) t in if fst r then Some r else run b q (snd r))
         else Some (False, t)) = Some r"
  show "b = body \<longrightarrow> q = opts \<longrightarrow> I s \<longrightarrow> I (snd r)"
    using eq IH by (auto simp: Let_def moved call_keeps split: if_splits)
qed simp_all

lemma run_queue_keeps:
  assumes "run_queue body opts s = Some r"
  shows "I s \<longrightarrow> I (snd r)"
proof (rule run_queue.raw_induct [OF _ assms, where P = "\<lambda>b q s r. b = body \<longrightarrow> q = opts \<longrightarrow> I s \<longrightarrow> I (snd r)", THEN mp, THEN mp])
  fix run b q s r
  assume IH: "\<And>b q s r. run b q s = Some r \<Longrightarrow> b = body \<longrightarrow> q = opts \<longrightarrow> I s \<longrightarrow> I (snd r)"
    and eq: "(case queue s of
        [] \<Rightarrow> Some (False, s)
      | m # u \<Rightarrow>
          Option.bind (run_list b q (s\<lparr>queue := u, memory := Some m\<rparr>)) (\<lambda>r.
            if fst r then Some r else run b q ((snd r)\<lparr>next_index := 0\<rparr>))) = Some r"
  show "b = body \<longrightarrow> q = opts \<longrightarrow> I s \<longrightarrow> I (snd r)"
  proof (intro impI)
    assume *: "b = body" "q = opts" "I s"
    show "I (snd r)"
    proof (cases "queue s")
      case Nil
      then show ?thesis using eq * by auto
    next
      case (Cons m u)
      then obtain r' where r': "run_list body opts (s\<lparr>queue := u, memory := Some m\<rparr>) = Some r'"
        and rest: "(if fst r' then Some r' else run body opts ((snd r')\<lparr>next_index := 0\<rparr>)) = Some r"
        using eq * by (auto simp: bind_eq_Some_conv)
      have "I (snd r')" using run_list_keeps [OF r'] taken [OF *(3)] by blast
      then show ?thesis using rest IH moved by (auto split: if_splits)
    qed
  qed
qed simp_all

end

locale kept_by_all = list_invariant +
  assumes begins: "I s \<Longrightarrow> I (s\<lparr>locked := locked s \<or> once opts, fired := True, firing := True\<rparr>)"
    and ends: "I s \<Longrightarrow> I (finish_firing opts s)"
begin

lemma perform_keeps:
  assumes "perform body opts x s = Some r" "I s"
  shows "I (snd r)"
proof (cases "snd (apply_op opts x s)")
  case False
  then show ?thesis using assms operation [OF assms(2), of x] by (auto simp: perform_def split: prod.splits)
next
  case True
  let ?t = "fst (apply_op opts x s)"
  obtain r' where r': "run_queue body opts (?t\<lparr>locked := locked ?t \<or> once opts, fired := True, firing := True\<rparr>) = Some r'"
    and r: "r = (if fst r' then r' else (False, finish_firing opts (snd r')))"
    using assms(1) True by (auto simp: perform_def fire_def bind_eq_Some_conv split: prod.splits)
  have "I (snd r')" using run_queue_keeps [OF r'] begins [OF operation [OF assms(2)]] by blast
  then show ?thesis using r ends by simp
qed

end

text \<open>The states of a list that is operated from outside, from its beginning.\<close>

inductive reached :: "behaviour \<Rightarrow> options \<Rightarrow> cbs \<Rightarrow> bool" for body opts where
  start: "reached body opts callbacks"
| more: "reached body opts s \<Longrightarrow> perform body opts x s = Some (b, t) \<Longrightarrow> reached body opts t"

section \<open>What the flags guarantee\<close>

interpretation active: list_invariant opts firing for opts
  by unfold_locales (simp_all add: apply_op_same)

lemma remove_from_subset: "remove_from f i fs n = (gs, n') \<Longrightarrow> set gs \<subseteq> set fs \<and> (distinct fs \<longrightarrow> distinct gs)"
proof (induction f i fs n arbitrary: gs n' rule: remove_from.induct)
  case (2 f i g gs n)
  then show ?case by (fastforce split: if_splits prod.splits)
qed simp

definition no_repeats :: "options \<Rightarrow> cbs \<Rightarrow> bool" where
  "no_repeats opts s \<longleftrightarrow> (unique opts \<longrightarrow> distinct (fn_list s))"

lemma no_repeats_push: "no_repeats opts s \<Longrightarrow> no_repeats opts (push_items opts is s)"
proof -
  have "no_repeats opts s \<Longrightarrow> no_repeats opts (foldl (\<lambda>s f. push_function opts f s) s fs)" for fs
    by (induction fs arbitrary: s) (auto simp: push_function_def no_repeats_def has_def)
  then show "no_repeats opts s \<Longrightarrow> no_repeats opts (push_items opts is s)" by (simp add: push_items_def)
qed

lemma no_repeats_remove: "no_repeats opts s \<Longrightarrow> no_repeats opts (foldl (\<lambda>s f. remove_function f s) s fs)"
proof (induction fs arbitrary: s)
  case (Cons f fs)
  have "no_repeats opts (remove_function f s)"
    using Cons.prems remove_from_subset
    by (fastforce simp: remove_function_def no_repeats_def fn_list_def split: option.splits prod.splits)
  then show ?case using Cons.IH by simp
qed simp

interpretation repeats: kept_by_all opts "no_repeats opts" for opts
proof unfold_locales
  show "no_repeats opts (fst (apply_op opts x s))" if "no_repeats opts s" for x s
    using that no_repeats_push [of opts] no_repeats_remove [OF that]
    by (cases x) (auto simp: add_op_def lock_op_def Let_def split: option.splits, auto simp: no_repeats_def)
qed (auto simp: no_repeats_def finish_firing_def Let_def)

text \<open>A spent list stays locked and empty; with \<open>once\<close> a list that has fired is locked.\<close>

definition spent_locked :: "options \<Rightarrow> cbs \<Rightarrow> bool" where
  "spent_locked opts s \<longleftrightarrow> (disabled s \<longrightarrow> locked s) \<and> (once opts \<and> fired s \<longrightarrow> locked s)"

lemma disabled_push: "disabled (push_items opts is s) \<Longrightarrow> disabled s"
proof -
  have "disabled (foldl (\<lambda>s f. push_function opts f s) s fs) \<Longrightarrow> disabled s" for fs
  proof (induction fs arbitrary: s)
    case (Cons f fs)
    then have "disabled (push_function opts f s)" by simp
    then show ?case by (auto simp: push_function_def disabled_def split: if_splits)
  qed simp
  then show "disabled (push_items opts is s) \<Longrightarrow> disabled s" by (simp add: push_items_def)
qed

lemma disabled_remove: "disabled (foldl (\<lambda>s f. remove_function f s) s fs) = disabled s"
  by (induction fs arbitrary: s) (simp_all add: remove_function_def disabled_def split: option.splits prod.splits)

lemma op_disables: "disabled (fst (apply_op opts x s)) \<Longrightarrow> disabled s \<or> locked (fst (apply_op opts x s))"
proof (cases x)
  case (Add ys)
  assume d: "disabled (fst (apply_op opts x s))"
  have "disabled s"
  proof (rule ccontr)
    assume n: "\<not> disabled s"
    let ?t = "\<lambda>m. s\<lparr>next_index := length (fn_list s), queue := queue s @ [m]\<rparr>"
    have "fst (add_op opts ys s) = push_items opts ys s \<or> (\<exists>m. fst (add_op opts ys s) = push_items opts ys (?t m))"
      using n by (cases "if firing s then None else memory s") (auto simp: add_op_def)
    moreover have "\<not> disabled (push_items opts ys s)" using n disabled_push [of opts ys s] by blast
    moreover have "\<not> disabled (push_items opts ys (?t m))" for m
    proof
      assume "disabled (push_items opts ys (?t m))"
      then have "disabled (?t m)" by (rule disabled_push)
      then show False using n by (simp add: disabled_def)
    qed
    ultimately show False using d Add by auto
  qed
  then show ?thesis ..
qed (simp_all add: disabled_remove lock_op_def Let_def, auto simp: disabled_def split: if_splits)

interpretation spent: kept_by_all opts "spent_locked opts" for opts
proof unfold_locales
  show "spent_locked opts (fst (apply_op opts x s))" if "spent_locked opts s" for x s
    using that op_disables [of opts x s] apply_op_same(3) [of opts x s] apply_op_same(4) [of s opts x] by (auto simp: spent_locked_def)
qed (auto simp: spent_locked_def finish_firing_def Let_def disabled_def)

text \<open>C24: Whatever the functions of a list do when they are called, and whatever is done to it from
  outside: with \<open>unique\<close> it never holds a function twice; with \<open>once\<close>, after it has fired, firing it
  again changes nothing; and a list that is spent or disabled stays so and calls nothing more.\<close>

theorem flags_hold:
  assumes "reached body opts s"
  shows "(unique opts \<longrightarrow> distinct (fn_list s)) \<and>
    (once opts \<and> fired s \<longrightarrow> (\<forall>m. perform body opts (FireWith m) s = Some (False, s))) \<and>
    (disabled s \<longrightarrow> (\<forall>x. \<exists>t. perform body opts x s = Some (False, t) \<and> calls t = calls s \<and> disabled t))"
proof -
  have "no_repeats opts s \<and> spent_locked opts s"
    using assms
  proof (induction rule: reached.induct)
    case start
    then show ?case by (simp add: no_repeats_def spent_locked_def callbacks_def disabled_def fn_list_def)
  next
    case (more s x b t)
    then show ?case using repeats.perform_keeps spent.perform_keeps by fastforce
  qed
  then have r: "unique opts \<longrightarrow> distinct (fn_list s)" and l: "disabled s \<longrightarrow> locked s" "once opts \<and> fired s \<longrightarrow> locked s"
    by (auto simp: no_repeats_def spent_locked_def)
  have "\<exists>t. perform body opts x s = Some (False, t) \<and> calls t = calls s \<and> disabled t" if d: "disabled s" for x
  proof -
    have "\<not> snd (apply_op opts x s) \<and> disabled (fst (apply_op opts x s))"
      using d l(1) by (cases x) (auto simp: add_op_def lock_op_def Let_def disabled_remove, auto simp: disabled_def)
    then show ?thesis using apply_op_same(2) [of opts x s] by (auto simp: perform_def split: prod.splits)
  qed
  then show ?thesis using r l(2) by (simp add: perform_def)
qed

text \<open>A function that throws while the list fires leaves the list marked as firing for good:
  from then on no operation from outside calls any function of the list again.\<close>

theorem exception_silences:
  assumes "perform body opts x s = Some (True, t)"
  shows "\<exists>u. perform body opts y t = Some (False, u) \<and> calls u = calls t \<and> firing u"
proof -
  obtain q r where q: "run_queue body opts q = Some r" "firing q" and r: "(True, t) = (if fst r then r else (False, finish_firing opts (snd r)))"
    using assms by (auto simp: perform_def fire_def bind_eq_Some_conv split: prod.splits if_splits)
  then have "firing t" using active.run_queue_keeps [OF q(1)] q(2) by (metis Pair_inject snd_conv)
  then have "firing (fst (apply_op opts y t))" "\<not> snd (apply_op opts y t)" using apply_op_same(1) [of opts y t] apply_op_same(5) [of opts y t] by auto
  then show ?thesis using apply_op_same(2) [of opts y t] by (auto simp: perform_def split: prod.splits)
qed

section \<open>A list at rest\<close>

lemma remove_from_0: "snd (remove_from f i fs 0) = 0"
  by (induction fs arbitrary: i) (simp_all add: case_prod_beta)

lemma next_push: "next_index (push_items opts is s) = next_index s"
proof -
  have "next_index (foldl (\<lambda>s f. push_function opts f s) s fs) = next_index s" for fs
    by (induction fs arbitrary: s) (simp_all add: push_function_def)
  then show ?thesis by (simp add: push_items_def)
qed

lemma next_remove: "next_index s = 0 \<Longrightarrow> next_index (foldl (\<lambda>s f. remove_function f s) s fs) = 0"
proof (induction fs arbitrary: s)
  case (Cons f fs)
  have "next_index (remove_function f s) = 0"
    using Cons.prems remove_from_0 [of f 0] by (simp add: remove_function_def case_prod_beta split: option.splits)
  then show ?case using Cons.IH by simp
qed simp

definition at_rest :: "cbs \<Rightarrow> bool" where
  "at_rest s \<longleftrightarrow> queue s = [] \<and> next_index s = 0"

lemma op_at_rest:
  assumes "at_rest s" "\<not> snd (apply_op opts x s)"
  shows "firing (fst (apply_op opts x s)) \<or> at_rest (fst (apply_op opts x s))"
  using assms by (cases x)
    (auto simp: at_rest_def add_op_def lock_op_def Let_def push_same remove_same next_push next_remove split: option.splits if_splits)

lemma run_queue_at_rest:
  assumes "run_queue body opts s = Some r"
  shows "fst r \<or> (queue (snd r) = [] \<and> (queue s \<noteq> [] \<or> next_index s = 0 \<longrightarrow> next_index (snd r) = 0))"
proof (rule run_queue.raw_induct [OF _ assms, where
      P = "\<lambda>b q s r. fst r \<or> (queue (snd r) = [] \<and> (queue s \<noteq> [] \<or> next_index s = 0 \<longrightarrow> next_index (snd r) = 0))"])
  fix run b q s r
  assume IH: "\<And>b q s r. run b q s = Some r \<Longrightarrow> fst r \<or> (queue (snd r) = [] \<and> (queue s \<noteq> [] \<or> next_index s = 0 \<longrightarrow> next_index (snd r) = 0))"
    and eq: "(case queue s of
        [] \<Rightarrow> Some (False, s)
      | m # u \<Rightarrow>
          Option.bind (run_list b q (s\<lparr>queue := u, memory := Some m\<rparr>)) (\<lambda>r.
            if fst r then Some r else run b q ((snd r)\<lparr>next_index := 0\<rparr>))) = Some r"
  show "fst r \<or> (queue (snd r) = [] \<and> (queue s \<noteq> [] \<or> next_index s = 0 \<longrightarrow> next_index (snd r) = 0))"
  proof (cases "queue s")
    case Nil
    then show ?thesis using eq by auto
  next
    case (Cons m u)
    then obtain r' where "(if fst r' then Some r' else run b q ((snd r')\<lparr>next_index := 0\<rparr>)) = Some r"
      using eq by (auto simp: bind_eq_Some_conv)
    then show ?thesis using IH [of b q "(snd r')\<lparr>next_index := 0\<rparr>" r] by (auto split: if_splits)
  qed
qed

lemma perform_cases:
  assumes "perform body opts x s = Some (b, t)"
  obtains (plain) "\<not> snd (apply_op opts x s)" "b = False" "t = fst (apply_op opts x s)"
    | (fires) r where "snd (apply_op opts x s)"
      "run_queue body opts ((fst (apply_op opts x s))\<lparr>locked := locked (fst (apply_op opts x s)) \<or> once opts, fired := True, firing := True\<rparr>) = Some r"
      "(b, t) = (if fst r then r else (False, finish_firing opts (snd r)))"
  using assms by (auto simp: perform_def fire_def bind_eq_Some_conv split: prod.splits if_splits)

lemma op_queues: "snd (apply_op opts x s) \<Longrightarrow> queue (fst (apply_op opts x s)) \<noteq> []"
  by (cases x) (auto simp: add_op_def push_same split: option.splits if_splits)

lemma reached_at_rest: "reached body opts s \<Longrightarrow> firing s \<or> at_rest s"
proof (induction rule: reached.induct)
  case start
  then show ?case by (simp add: callbacks_def at_rest_def)
next
  case (more s x b t)
  from more.hyps(2) show ?case
  proof (cases rule: perform_cases)
    case plain
    then show ?thesis using more.IH apply_op_same(1) [of opts x s] op_at_rest by auto
  next
    case (fires r)
    let ?q = "(fst (apply_op opts x s))\<lparr>locked := locked (fst (apply_op opts x s)) \<or> once opts, fired := True, firing := True\<rparr>"
    have "firing (snd r)" using active.run_queue_keeps [OF fires(2)] by simp
    moreover have "fst r \<or> at_rest (snd r)"
      using run_queue_at_rest [OF fires(2)] op_queues [OF fires(1)] by (auto simp: at_rest_def)
    ultimately show ?thesis
      using fires(3) by (auto simp: finish_firing_def at_rest_def Let_def split: if_splits prod.splits)
  qed
qed

section \<open>Order of the calls\<close>

text \<open>The functions that hear a call when none of them touches the list: all, or those up to the first
  that returns false when that stops the list.\<close>

fun heard :: "options \<Rightarrow> (nat \<Rightarrow> call \<Rightarrow> reply) \<Rightarrow> call \<Rightarrow> nat list \<Rightarrow> nat list" where
  "heard opts reply m [] = []"
| "heard opts reply m (f # fs) = f # (if reply f m = Returns_false \<and> stop_on_false opts then [] else heard opts reply m fs)"

definition halted :: "options \<Rightarrow> (nat \<Rightarrow> call \<Rightarrow> reply) \<Rightarrow> call \<Rightarrow> nat list \<Rightarrow> bool" where
  "halted opts reply m fs \<longleftrightarrow> stop_on_false opts \<and> (\<exists>f \<in> set fs. reply f m = Returns_false)"

definition quiet :: "behaviour \<Rightarrow> (nat \<Rightarrow> call \<Rightarrow> reply) \<Rightarrow> bool" where
  "quiet body reply \<longleftrightarrow> (\<forall>f m s. body f m s = ([], reply f m) \<and> reply f m \<noteq> Throws)"

lemma cbs_order:
  "s\<lparr>calls := c, next_index := n\<rparr> = s\<lparr>next_index := n, calls := c\<rparr>" "s\<lparr>memory := k, next_index := n\<rparr> = s\<lparr>next_index := n, memory := k\<rparr>"
  by (cases s; simp)+

lemma run_list_quiet:
  assumes "quiet body reply"
  shows "memory s = Some m \<Longrightarrow> \<exists>n. run_list body opts s =
    Some (False, s\<lparr>next_index := n, calls := calls s @ map (\<lambda>f. (f, m)) (heard opts reply m (drop (next_index s) (fn_list s))),
      memory := (if halted opts reply m (drop (next_index s) (fn_list s)) then None else Some m)\<rparr>)"
proof (induction "length (fn_list s) - next_index s" arbitrary: s rule: less_induct)
  case less
  show ?case
  proof (cases "next_index s < length (fn_list s)")
    case False
    then show ?thesis using less.prems by (subst run_list.simps) (auto simp: halted_def Let_def intro!: exI [of _ "Suc (next_index s)"])
  next
    case True
    let ?f = "fn_list s ! next_index s" and ?i = "Suc (next_index s)"
    have d: "drop (next_index s) (fn_list s) = ?f # drop ?i (fn_list s)" using Cons_nth_drop_Suc [OF True] by simp
    let ?s = "s\<lparr>next_index := ?i, calls := calls s @ [(?f, m)]\<rparr>"
    have call: "call_function body opts ?f (s\<lparr>next_index := ?i\<rparr>) =
        (False, if reply ?f m = Returns_false \<and> stop_on_false opts
                then ?s\<lparr>next_index := Suc (length (fn_list s)), memory := None\<rparr> else ?s)"
    proof -
      have "body ?f m t = ([], reply ?f m)" "reply ?f m \<noteq> Throws" for t using assms unfolding quiet_def by blast+
      then show ?thesis using less.prems by (auto simp: call_function_def call_data_def Let_def)
    qed
    show ?thesis
    proof (cases "reply ?f m = Returns_false \<and> stop_on_false opts")
      case stop: True
      have "run_list body opts s = run_list body opts (?s\<lparr>next_index := Suc (length (fn_list s)), memory := None\<rparr>)"
        using True stop call by (subst run_list.simps) simp
      also have "\<dots> = Some (False, ?s\<lparr>next_index := Suc (Suc (length (fn_list s))), memory := None\<rparr>)"
        by (subst run_list.simps) simp
      finally show ?thesis using stop by (auto simp: d halted_def cbs_order)
    next
      case go: False
      have "run_list body opts s = run_list body opts ?s" using True go call by (subst run_list.simps) (auto simp: Let_def)
      moreover have "length (fn_list ?s) - next_index ?s < length (fn_list s) - next_index s" using True by simp
      from less.hyps [OF this] less.prems obtain n where "run_list body opts ?s =
        Some (False, ?s\<lparr>next_index := n, calls := calls ?s @ map (\<lambda>f. (f, m)) (heard opts reply m (drop ?i (fn_list s))),
          memory := (if halted opts reply m (drop ?i (fn_list s)) then None else Some m)\<rparr>)" by auto
      moreover have "heard opts reply m (drop (next_index s) (fn_list s)) = ?f # heard opts reply m (drop ?i (fn_list s))"
        "halted opts reply m (drop (next_index s) (fn_list s)) = halted opts reply m (drop ?i (fn_list s))"
        unfolding d using go by (auto simp: halted_def)
      ultimately show ?thesis by (intro exI [of _ n]) simp
    qed
  qed
qed

lemma fire_quiet:
  assumes "quiet body reply" "queue s = [m]"
  shows "fire body opts s = Some (False, finish_firing opts
    (s\<lparr>locked := locked s \<or> once opts, fired := True, firing := True, queue := [], next_index := 0,
      calls := calls s @ map (\<lambda>f. (f, m)) (heard opts reply m (drop (next_index s) (fn_list s))),
      memory := (if halted opts reply m (drop (next_index s) (fn_list s)) then None else Some m)\<rparr>))"
proof -
  let ?s = "s\<lparr>locked := locked s \<or> once opts, fired := True, firing := True, queue := [], memory := Some m\<rparr>"
  define c where "c = calls s @ map (\<lambda>f. (f, m)) (heard opts reply m (drop (next_index s) (fn_list s)))"
  define k where "k = (if halted opts reply m (drop (next_index s) (fn_list s)) then None else Some m)"
  obtain n where n: "run_list body opts ?s = Some (False, ?s\<lparr>next_index := n, calls := c, memory := k\<rparr>)"
    using run_list_quiet [OF assms(1), of ?s m opts] by (auto simp: c_def k_def)
  let ?t = "s\<lparr>locked := locked s \<or> once opts, fired := True, firing := True, queue := [], next_index := 0, calls := c, memory := k\<rparr>"
  have "run_queue body opts ?t = Some (False, ?t)" by (subst run_queue.simps) simp
  then have "run_queue body opts (s\<lparr>locked := locked s \<or> once opts, fired := True, firing := True\<rparr>) = Some (False, ?t)"
    by (subst run_queue.simps) (simp add: assms(2) n cbs_order)
  then show ?thesis unfolding c_def [symmetric] k_def [symmetric] by (simp add: fire_def)
qed

text \<open>C23: When the functions of a list leave it alone and do not throw, firing it calls them in
  the order of the list, each once with the given data, up to the first that returns false if that
  stops the list, and ends. With \<open>memory\<close> (and no stop) a function that is added later is called at once
  with the same data, and only it.\<close>

theorem calls_in_order:
  assumes "reached body opts s" "\<not> firing s" "\<not> locked s" "quiet body reply"
  shows "\<exists>t. perform body opts (FireWith m) s = Some (False, t) \<and> \<not> firing t \<and> fired t \<and>
    calls t = calls s @ map (\<lambda>f. (f, m)) (heard opts reply m (fn_list s)) \<and>
    (\<not> once opts \<longrightarrow> flist t = flist s) \<and>
    (remember opts \<and> \<not> halted opts reply m (fn_list s) \<and> flist s \<noteq> None \<and> f \<notin> set (fn_list s) \<longrightarrow>
      (\<exists>u. perform body opts (Add [Fn f]) t = Some (False, u) \<and> calls u = calls t @ [(f, m)]))"
proof -
  have r: "queue s = []" "next_index s = 0" using reached_at_rest [OF assms(1)] assms(2) by (auto simp: at_rest_def)
  let ?t = "finish_firing opts (s\<lparr>locked := once opts, fired := True, firing := True, queue := [], next_index := 0,
      calls := calls s @ map (\<lambda>f. (f, m)) (heard opts reply m (fn_list s)),
      memory := (if halted opts reply m (fn_list s) then None else Some m)\<rparr>)"
  have t: "perform body opts (FireWith m) s = Some (False, ?t)"
    using fire_quiet [OF assms(4), of "s\<lparr>queue := [m]\<rparr>" m opts] assms(2,3) r by (simp add: perform_def)
  have facts: "\<not> firing ?t" "fired ?t" "calls ?t = calls s @ map (\<lambda>f. (f, m)) (heard opts reply m (fn_list s))"
    "\<not> once opts \<longrightarrow> flist ?t = flist s"
    by (simp_all add: finish_firing_def Let_def)
  have "\<exists>u. perform body opts (Add [Fn f]) ?t = Some (False, u) \<and> calls u = calls ?t @ [(f, m)]"
    if c: "remember opts" "\<not> halted opts reply m (fn_list s)" "flist s \<noteq> None" "f \<notin> set (fn_list s)"
  proof -
    have mem: "memory ?t = Some m" "queue ?t = []" "flist ?t \<noteq> None" "f \<notin> set (fn_list ?t)"
      using c by (auto simp: finish_firing_def Let_def fn_list_def)
    let ?a = "?t\<lparr>next_index := length (fn_list ?t), queue := [m], flist := Some (fn_list ?t @ [f])\<rparr>"
    have "apply_op opts (Add [Fn f]) ?t = (?a, True)"
      using mem facts(1) by (simp add: add_op_def disabled_def push_items_def push_function_def has_def)
    then have "perform body opts (Add [Fn f]) ?t = fire body opts ?a" by (simp add: perform_def)
    then show ?thesis
      using fire_quiet [OF assms(4), of ?a m opts] by (simp add: finish_firing_def Let_def)
  qed
  then show ?thesis using t facts by blast
qed

section \<open>Firing ends\<close>

lemma remove_from_progress:
  "remove_from f i fs n = (gs, n') \<Longrightarrow> i + length gs - n' \<le> i + length fs - n"
proof (induction fs arbitrary: i n gs n')
  case (Cons g fs)
  show ?case
  proof (cases "g = f")
    case True
    then show ?thesis using Cons.IH [of i "if i < n then n - 1 else n" gs n'] Cons.prems by (auto split: if_splits)
  next
    case False
    then obtain hs where "remove_from f (Suc i) fs n = (hs, n')" "gs = g # hs"
      using Cons.prems by (auto split: prod.splits)
    then show ?thesis using Cons.IH [of "Suc i" n hs n'] by simp
  qed
qed simp

definition left_to_call :: "cbs \<Rightarrow> nat" where
  "left_to_call s = length (fn_list s) - next_index s"

fun shrinks :: "cb_op \<Rightarrow> bool" where
  "shrinks (Add is) = False"
| "shrinks (FireWith m) = False"
| "shrinks _ = True"

lemma remove_progress: "left_to_call (foldl (\<lambda>s f. remove_function f s) s fs) \<le> left_to_call s"
proof (induction fs arbitrary: s)
  case (Cons f fs)
  have "left_to_call (remove_function f s) \<le> left_to_call s"
    using remove_from_progress [of f 0 "fn_list s" "next_index s"]
    by (auto simp: remove_function_def left_to_call_def fn_list_def split: option.splits prod.splits)
  then show ?case using Cons.IH [of "remove_function f s"] by simp
qed simp

lemma shrinking_ops:
  assumes "list_all shrinks xs"
  shows "left_to_call (foldl (\<lambda>t x. fst (apply_op opts x t)) s xs) \<le> left_to_call s \<and>
    length (queue (foldl (\<lambda>t x. fst (apply_op opts x t)) s xs)) \<le> length (queue s)"
  using assms
proof (induction xs arbitrary: s)
  case (Cons x xs)
  let ?t = "fst (apply_op opts x s)"
  have "left_to_call ?t \<le> left_to_call s \<and> length (queue ?t) \<le> length (queue s)"
  proof (cases x)
    case (Remove fs)
    then show ?thesis by (simp add: remove_progress remove_same)
  qed (use Cons.prems in \<open>simp_all add: lock_op_def Let_def left_to_call_def\<close>)
  then show ?case using Cons.IH [of ?t] Cons.prems by simp
qed simp

text \<open>The functions only shrink the list.\<close>

definition shrinking :: "behaviour \<Rightarrow> bool" where
  "shrinking body \<longleftrightarrow> (\<forall>f m s. list_all shrinks (fst (body f m s)))"

lemma call_progress:
  assumes "shrinking body"
  shows "left_to_call (snd (call_function body opts f s)) \<le> left_to_call s \<and>
    length (queue (snd (call_function body opts f s))) \<le> length (queue s)"
proof -
  obtain ops r where b: "body f (call_data s) s = (ops, r)" by (cases "body f (call_data s) s")
  have "list_all shrinks ops" using assms b unfolding shrinking_def by (metis fst_conv)
  from shrinking_ops [OF this, of opts "s\<lparr>calls := calls s @ [(f, call_data s)]\<rparr>"]
  show ?thesis by (auto simp: call_function_def b Let_def left_to_call_def)
qed

lemma run_list_ends:
  assumes "shrinking body"
  shows "\<exists>r. run_list body opts s = Some r \<and> length (queue (snd r)) \<le> length (queue s)"
proof (induction "left_to_call s" arbitrary: s rule: less_induct)
  case less
  show ?case
  proof (cases "next_index s < length (fn_list s)")
    case False
    then show ?thesis by (subst run_list.simps) simp
  next
    case True
    let ?t = "s\<lparr>next_index := Suc (next_index s)\<rparr>"
    let ?c = "call_function body opts (fn_list s ! next_index s) ?t"
    note p = call_progress [OF assms, of opts "fn_list s ! next_index s" ?t]
    have "left_to_call ?t < left_to_call s" using True by (simp add: left_to_call_def)
    then have "left_to_call (snd ?c) < left_to_call s" using p by simp
    from less.hyps [OF this] obtain r where r: "run_list body opts (snd ?c) = Some r" "length (queue (snd r)) \<le> length (queue (snd ?c))"
      by blast
    have "run_list body opts s = (if fst ?c then Some ?c else Some r)"
      using True r(1) by (subst run_list.simps) (simp add: Let_def)
    moreover have "length (queue (snd ?c)) \<le> length (queue s)" using p by simp
    ultimately show ?thesis using r(2) by (cases "fst ?c") (auto intro: le_trans)
  qed
qed

text \<open>C25: Firing ends, normally or with an exception, whenever the functions of the list only remove
  functions, empty, lock or disable it (they may change the list in any other way that adds
  nothing): every operation from outside returns.\<close>

theorem firing_ends:
  assumes "shrinking body"
  shows "\<exists>r. perform body opts x s = Some r"
proof -
  have "\<exists>r. run_queue body opts t = Some r" for t
  proof (induction "length (queue t)" arbitrary: t rule: less_induct)
    case less
    show ?case
    proof (cases "queue t")
      case Nil
      then show ?thesis by (subst run_queue.simps) auto
    next
      case (Cons m q)
      obtain r where r: "run_list body opts (t\<lparr>queue := q, memory := Some m\<rparr>) = Some r" "length (queue (snd r)) \<le> length q"
        using run_list_ends [OF assms, of opts "t\<lparr>queue := q, memory := Some m\<rparr>"] by auto
      then have "length (queue ((snd r)\<lparr>next_index := 0\<rparr>)) < length (queue t)" using Cons by simp
      from less.hyps [OF this] show ?thesis using Cons r(1) by (subst run_queue.simps) auto
    qed
  qed
  then have "\<exists>r. fire body opts t = Some r" for t
  proof -
    from \<open>\<And>t. \<exists>r. run_queue body opts t = Some r\<close>
    obtain r where "run_queue body opts (t\<lparr>locked := locked t \<or> once opts, fired := True, firing := True\<rparr>) = Some r" ..
    then show ?thesis by (simp add: fire_def)
  qed
  then show ?thesis by (auto simp: perform_def split: prod.splits)
qed

section \<open>Instances\<close>

text \<open>A list with two functions, added twice; what its functions do varies.\<close>

definition all_flags :: options where
  "all_flags = create_options ''once memory unique stopOnFalse''"

definition doing :: "cb_op list \<Rightarrow> reply \<Rightarrow> behaviour" where
  "doing ops r = (\<lambda>f m s. (ops, r))"

definition two_functions :: cbs where
  "two_functions = callbacks\<lparr>flist := Some [1, 2]\<rparr>"

lemma two_functions_added: "perform body all_flags (Add [Fn 1, Group [Fn 2, Fn 1], Junk]) callbacks = Some (False, two_functions)"
  by code_simp

lemma two_functions_reached: "reached body all_flags two_functions"
  using more [OF start two_functions_added] .

theorem flags_hold_witness: "distinct (fn_list two_functions)"
proof -
  have "unique all_flags" by code_simp
  then show ?thesis using flags_hold [OF two_functions_reached] by blast
qed

theorem exception_silences_witness:
  "\<exists>t u. perform (doing [] Throws) all_flags (FireWith (JUndef, [])) two_functions = Some (True, t) \<and>
     perform (doing [] Throws) all_flags (Add [Fn 3]) t = Some (False, u) \<and> calls u = [(1, (JUndef, []))]"
proof -
  have "perform (doing [] Throws) all_flags (FireWith (JUndef, [])) two_functions =
      Some (True, two_functions\<lparr>locked := True, fired := True, firing := True, memory := Some (JUndef, []), next_index := 1,
        calls := [(1, (JUndef, []))]\<rparr>)" by code_simp
  then show ?thesis using exception_silences by fastforce
qed

theorem calls_in_order_witness:
  "\<exists>t. perform (doing [] Returns) all_flags (FireWith (JNull, [])) two_functions = Some (False, t) \<and>
     map fst (calls t) = [1, 2]"
proof -
  have q: "quiet (doing [] Returns) (\<lambda>f m. Returns)" by (simp add: quiet_def doing_def)
  have s: "\<not> firing two_functions" "\<not> locked two_functions" by (simp_all add: two_functions_def callbacks_def)
  have h: "calls two_functions = []" "heard all_flags (\<lambda>f m. Returns) m (fn_list two_functions) = [1, 2]" for m
    by (simp_all add: two_functions_def callbacks_def fn_list_def)
  from calls_in_order [OF two_functions_reached s q, of "(JNull, [])" 3]
  show ?thesis unfolding h by auto
qed

theorem firing_ends_witness:
  "\<exists>r. perform (doing [Remove [1], Clear] Returns) all_flags (FireWith (JNull, [])) two_functions = Some r"
  by (rule firing_ends) (simp add: shrinking_def doing_def)

end
