(* ===== verification/TaskQueue.thy ===== *)
theory TaskQueue
  imports Prelude
begin

text \<open>
  The queue of functions that jQuery keeps for an element and a type: \<open>queue\<close>, \<open>dequeue\<close> with the
  sentinel \<open>inprogress\<close> of the type \<open>fx\<close>, the hooks whose list \<open>empty\<close> is fired once nothing is left, and
  waiting for that. A function that is started may call \<open>next\<close> at any time, also before it returns: that is
  a \<open>dequeue\<close>, after which nothing of the calling \<open>dequeue\<close> remains to be done.
\<close>

section \<open>State\<close>

datatype entry = Task nat | In_progress

text \<open>\<open>waiters\<close> are the functions added to the hooks' list \<open>empty\<close> (behind the one that removes the
  data); nothing when there are no hooks. \<open>started\<close> and \<open>notified\<close> are the calls made so far.\<close>

record task_queue =
  entries :: "entry list option"
  waiters :: "nat list option"
  started :: "nat list"
  notified :: "nat list"

definition new_queue :: task_queue where
  "new_queue = \<lparr>entries = None, waiters = None, started = [], notified = []\<rparr>"

definition queue_list :: "task_queue \<Rightarrow> entry list" where
  "queue_list s = (case entries s of None \<Rightarrow> [] | Some q \<Rightarrow> q)"

section \<open>Operations\<close>

definition push_task :: "nat \<Rightarrow> task_queue \<Rightarrow> task_queue" where
  "push_task f s = s\<lparr>entries := Some (queue_list s @ [Task f])\<rparr>"

definition replace_tasks :: "nat list \<Rightarrow> task_queue \<Rightarrow> task_queue" where
  "replace_tasks fs s = s\<lparr>entries := Some (map Task fs)\<rparr>"

definition queue_hooks :: "task_queue \<Rightarrow> task_queue" where
  "queue_hooks s = (if waiters s = None then s\<lparr>waiters := Some []\<rparr> else s)"

definition fire_empty :: "task_queue \<Rightarrow> task_queue" where
  "fire_empty s =
     s\<lparr>entries := None, waiters := None, notified := notified s @ (case waiters s of None \<Rightarrow> [] | Some ws \<Rightarrow> ws)\<rparr>"

definition shift_entry :: "entry list \<Rightarrow> entry option \<times> entry list" where
  "shift_entry q = (case q of [] \<Rightarrow> (None, []) | e # r \<Rightarrow> (Some e, r))"

definition store_list :: "entry list \<Rightarrow> task_queue \<Rightarrow> task_queue" where
  \<comment> \<open>the array is changed in place; one that was made for the lookup is forgotten\<close>
  "store_list q s = (if entries s = None then s else s\<lparr>entries := Some q\<rparr>)"

definition dequeue :: "bool \<Rightarrow> task_queue \<Rightarrow> task_queue" where
  "dequeue fx s =
     (let q0 = queue_list s;
          (e1, q1) = shift_entry q0;
          (e, q) = (if e1 = Some In_progress then shift_entry q1 else (e1, q1));
          start_length = (if e1 = Some In_progress then length q0 - 1 else length q0);
          t = queue_hooks s;
          u = (case e of
                 Some (Task f) \<Rightarrow> (store_list (if fx then In_progress # q else q) t)\<lparr>started := started t @ [f]\<rparr>
               | _ \<Rightarrow> store_list q t)
      in if start_length = 0 then fire_empty u else u)"

definition start_if_idle :: "bool \<Rightarrow> task_queue \<Rightarrow> task_queue" where
  "start_if_idle fx s =
     (let t = queue_hooks s
      in if fx \<and> (case queue_list t of In_progress # _ \<Rightarrow> False | _ \<Rightarrow> True) then dequeue fx t else t)"

definition enqueue :: "bool \<Rightarrow> nat \<Rightarrow> task_queue \<Rightarrow> task_queue" where
  "enqueue fx f s = start_if_idle fx (push_task f s)"

definition set_queue :: "bool \<Rightarrow> nat list \<Rightarrow> task_queue \<Rightarrow> task_queue" where
  "set_queue fx fs s = start_if_idle fx (replace_tasks fs s)"

definition clear_queue :: "bool \<Rightarrow> task_queue \<Rightarrow> task_queue" where
  "clear_queue fx = set_queue fx []"

definition wait_empty :: "nat \<Rightarrow> task_queue \<Rightarrow> task_queue" where
  \<comment> \<open>\<open>promise( type )\<close> of one element: called at once when there are no hooks\<close>
  "wait_empty w s =
     (case waiters s of None \<Rightarrow> s\<lparr>notified := notified s @ [w]\<rparr> | Some ws \<Rightarrow> s\<lparr>waiters := Some (ws @ [w])\<rparr>)"

section \<open>Events\<close>

datatype queue_event = Enqueue nat | Replace "nat list" | Next | Await nat

fun queue_step :: "bool \<Rightarrow> queue_event \<Rightarrow> task_queue \<Rightarrow> task_queue" where
  "queue_step fx (Enqueue f) s = enqueue fx f s"
| "queue_step fx (Replace fs) s = set_queue fx fs s"
| "queue_step fx Next s = dequeue fx s"
| "queue_step fx (Await w) s = wait_empty w s"

definition queue_run :: "bool \<Rightarrow> queue_event list \<Rightarrow> task_queue" where
  "queue_run fx es = foldl (\<lambda>s e. queue_step fx e s) new_queue es"

end
