(* ===== verification/TaskQueueProps.thy ===== *)
theory TaskQueueProps
  imports TaskQueue
begin

text \<open>
  The queue of an element refines a list of tasks with a flag for a task under way; everything that waits
  is started in order, and who awaits the end is told then.
\<close>

section \<open>The queue as a list of tasks\<close>

fun tasks_of :: "entry list \<Rightarrow> nat list" where
  "tasks_of [] = []"
| "tasks_of (Task f # q) = f # tasks_of q"
| "tasks_of (In_progress # q) = tasks_of q"

definition waiting :: "task_queue \<Rightarrow> nat list" where
  "waiting s = tasks_of (queue_list s)"

text \<open>The sentinel is at most at the head; without it nothing waits in an \<open>fx\<close> queue.\<close>

definition orderly :: "bool \<Rightarrow> task_queue \<Rightarrow> bool" where
  "orderly fx s \<longleftrightarrow>
     (\<exists>fs. queue_list s = map Task fs \<and> (fx \<longrightarrow> fs = []) \<or> fx \<and> queue_list s = In_progress # map Task fs) \<and>
     (entries s \<noteq> None \<longrightarrow> waiters s \<noteq> None)"

definition busy :: "task_queue \<Rightarrow> bool" where
  "busy s \<longleftrightarrow> (case queue_list s of In_progress # _ \<Rightarrow> True | _ \<Rightarrow> False)"

text \<open>The abstract queue: whether a task is taken to be under way (only in a queue \<open>fx\<close>), a list that is filled at
  its end and emptied at its front, and what has left it. A queue \<open>fx\<close> that is replaced starts its new first function
  at once, also when a task is under way, and an empty new queue ends the mark although that task may still run.\<close>

type_synonym plain_queue = "bool \<times> nat list \<times> nat list"

fun abstract_step :: "bool \<Rightarrow> queue_event \<Rightarrow> plain_queue \<Rightarrow> plain_queue" where
  "abstract_step fx (Enqueue f) (b, q, out) = (if fx \<and> \<not> b then (True, q, out @ [f]) else (b, q @ [f], out))"
| "abstract_step fx (Replace fs) (b, q, out) = (if fx then (fs \<noteq> [], tl fs, out @ take 1 fs) else (b, fs, out))"
| "abstract_step fx Next (b, q, out) = (fx \<and> q \<noteq> [], tl q, out @ take 1 q)"
| "abstract_step fx (Await w) (b, q, out) = (b, q, out)"

definition plain_of :: "task_queue \<Rightarrow> plain_queue" where
  "plain_of s = (busy s, waiting s, started s)"

lemma tasks_of_map [simp]: "tasks_of (map Task fs) = fs"
  by (induction fs) simp_all

lemma queue_list_upd [simp]: "queue_list (s\<lparr>entries := Some q\<rparr>) = q" "queue_list (s\<lparr>entries := None\<rparr>) = []"
  "queue_list (s\<lparr>waiters := w\<rparr>) = queue_list s" "queue_list (s\<lparr>started := a\<rparr>) = queue_list s" "queue_list (s\<lparr>notified := a\<rparr>) = queue_list s"
  by (simp_all add: queue_list_def)

lemma hooks_off [simp]: "queue_list (queue_hooks s) = queue_list s" "entries (queue_hooks s) = entries s"
  "started (queue_hooks s) = started s" "waiters (queue_hooks s) \<noteq> None" "notified (queue_hooks s) = notified s"
  by (simp_all add: queue_hooks_def)

text \<open>One dequeue, by the contents of the list.\<close>

lemma dequeue_idle:
  assumes "queue_list s = [] \<or> queue_list s = [In_progress]"
  shows "dequeue fx s = s\<lparr>entries := None, waiters := None,
    notified := notified s @ (case waiters s of None \<Rightarrow> [] | Some ws \<Rightarrow> ws)\<rparr>"
  using assms
  by (auto simp: dequeue_def shift_entry_def store_list_def fire_empty_def queue_hooks_def Let_def split: option.split)

lemma dequeue_task:
  assumes "queue_list s = b @ map Task (f # fs)" "b = [] \<or> b = [In_progress]" "waiters s \<noteq> None"
  shows "dequeue fx s = s\<lparr>entries := Some ((if fx then [In_progress] else []) @ map Task fs), started := started s @ [f]\<rparr>"
proof -
  have "entries s \<noteq> None" using assms(1) by (cases "entries s") (simp_all add: queue_list_def)
  then show ?thesis
    using assms by (auto simp: dequeue_def shift_entry_def store_list_def queue_hooks_def Let_def)
qed

definition sentinel :: "bool \<Rightarrow> entry list" where
  "sentinel fx = (if fx then [In_progress] else [])"

lemma orderlyE:
  assumes "orderly fx s"
  obtains (idle) "queue_list s = []" "waiting s = []" | (ended) "fx" "queue_list s = [In_progress]" "waiting s = []"
    | (more) f fs where "queue_list s = sentinel fx @ map Task (f # fs)" "waiting s = f # fs" "waiters s \<noteq> None"
proof -
  obtain fs where q: "queue_list s = map Task fs \<and> (fx \<longrightarrow> fs = []) \<or> fx \<and> queue_list s = In_progress # map Task fs"
    using assms by (auto simp: orderly_def)
  then have w: "waiting s = fs" by (auto simp: waiting_def)
  show thesis
  proof (cases fs)
    case Nil
    then show thesis using q w idle ended by auto
  next
    case (Cons f r)
    then have "entries s \<noteq> None" using q by (cases "entries s") (simp_all add: queue_list_def)
    then have "waiters s \<noteq> None" using assms by (simp add: orderly_def)
    then show thesis using q w Cons more [of f r] by (auto simp: sentinel_def split: if_splits)
  qed
qed

lemma dequeue_cases:
  assumes "orderly fx s"
  shows "queue_list (dequeue fx s) = (case waiting s of [] \<Rightarrow> [] | f # fs \<Rightarrow> sentinel fx @ map Task fs)"
    "started (dequeue fx s) = started s @ take 1 (waiting s)" "orderly fx (dequeue fx s)"
    "waiting s = [] \<Longrightarrow> entries (dequeue fx s) = None \<and> waiters (dequeue fx s) = None \<and>
       notified (dequeue fx s) = notified s @ (case waiters s of None \<Rightarrow> [] | Some ws \<Rightarrow> ws)"
    "waiting s \<noteq> [] \<Longrightarrow> notified (dequeue fx s) = notified s \<and> waiters (dequeue fx s) = waiters s"
proof -
  have "queue_list (dequeue fx s) = (case waiting s of [] \<Rightarrow> [] | f # fs \<Rightarrow> sentinel fx @ map Task fs) \<and>
    started (dequeue fx s) = started s @ take 1 (waiting s) \<and> orderly fx (dequeue fx s) \<and>
    (waiting s = [] \<longrightarrow> entries (dequeue fx s) = None \<and> waiters (dequeue fx s) = None \<and>
       notified (dequeue fx s) = notified s @ (case waiters s of None \<Rightarrow> [] | Some ws \<Rightarrow> ws)) \<and>
    (waiting s \<noteq> [] \<longrightarrow> notified (dequeue fx s) = notified s \<and> waiters (dequeue fx s) = waiters s)"
    using assms
  proof (cases rule: orderlyE)
    case (more f fs)
    then have d: "dequeue fx s = s\<lparr>entries := Some (sentinel fx @ map Task fs), started := started s @ [f]\<rparr>"
      using dequeue_task [of s "sentinel fx" f fs fx] by (auto simp: sentinel_def)
    show ?thesis using more unfolding d by (auto simp: orderly_def sentinel_def)
  qed (simp_all add: dequeue_idle orderly_def)
  then show "queue_list (dequeue fx s) = (case waiting s of [] \<Rightarrow> [] | f # fs \<Rightarrow> sentinel fx @ map Task fs)"
    "started (dequeue fx s) = started s @ take 1 (waiting s)" "orderly fx (dequeue fx s)"
    "waiting s = [] \<Longrightarrow> entries (dequeue fx s) = None \<and> waiters (dequeue fx s) = None \<and>
       notified (dequeue fx s) = notified s @ (case waiters s of None \<Rightarrow> [] | Some ws \<Rightarrow> ws)"
    "waiting s \<noteq> [] \<Longrightarrow> notified (dequeue fx s) = notified s \<and> waiters (dequeue fx s) = waiters s"
    by blast+
qed

section \<open>Refinement\<close>

lemma orderlyI: "queue_list s = sentinel fx @ map Task fs \<Longrightarrow> waiters s \<noteq> None \<Longrightarrow> orderly fx s"
  by (auto simp: orderly_def sentinel_def)

lemma start_if_idle_cases:
  assumes "queue_list s = sentinel b @ map Task fs" "b \<longrightarrow> fx"
  shows "plain_of (start_if_idle fx s) =
      (if fx \<and> \<not> b then (fs \<noteq> [], tl fs, started s @ take 1 fs) else (b, fs, started s)) \<and>
    orderly fx (start_if_idle fx s)"
proof -
  define t where "t = queue_hooks s"
  have t: "queue_list t = sentinel b @ map Task fs" "waiters t \<noteq> None" "started t = started s"
    using assms by (simp_all add: t_def)
  show ?thesis
  proof (cases "fx \<and> \<not> b")
    case True
    then have q: "queue_list t = map Task fs" using t by (simp add: sentinel_def)
    then have "\<not> (case queue_list t of In_progress # _ \<Rightarrow> True | _ \<Rightarrow> False)"
      by (cases fs) simp_all
    then have d: "start_if_idle fx s = dequeue fx t"
      using True by (auto simp: start_if_idle_def t_def [symmetric] Let_def split: list.splits entry.splits)
    show ?thesis
    proof (cases fs)
      case Nil
      then show ?thesis
        using True q t unfolding d
        by (simp add: dequeue_idle plain_of_def busy_def waiting_def orderly_def)
    next
      case (Cons f r)
      then have "dequeue fx t = t\<lparr>entries := Some ([In_progress] @ map Task r), started := started t @ [f]\<rparr>"
        using dequeue_task [of t "[]" f r fx] q t True by simp
      then show ?thesis
        using True Cons t unfolding d
        by (auto simp: plain_of_def busy_def waiting_def sentinel_def intro!: orderlyI [where fs = r])
    qed
  next
    case False
    then have d: "start_if_idle fx s = t"
      using t assms by (auto simp: start_if_idle_def t_def [symmetric] sentinel_def Let_def)
    have b: "b = fx" using False assms(2) by auto
    then have "orderly fx t" using t by (auto intro!: orderlyI [where fs = fs])
    moreover have "plain_of t = (b, fs, started s)"
      using t b by (cases fs) (auto simp: plain_of_def busy_def waiting_def sentinel_def)
    ultimately show ?thesis using b unfolding d by simp
  qed
qed

lemma queue_step_refines:
  assumes "orderly fx s"
  shows "plain_of (queue_step fx e s) = abstract_step fx e (plain_of s) \<and> orderly fx (queue_step fx e s)"
proof (cases e)
  case (Enqueue f)
  obtain b fs where q: "queue_list s = sentinel b @ map Task fs" "b \<longrightarrow> fx" "fx \<and> \<not> b \<longrightarrow> fs = []"
  proof -
    obtain fs where "queue_list s = map Task fs \<and> (fx \<longrightarrow> fs = []) \<or> fx \<and> queue_list s = In_progress # map Task fs"
      using assms by (auto simp: orderly_def)
    then show thesis using that [of False fs] that [of True fs] by (auto simp: sentinel_def)
  qed
  have p: "plain_of s = (b, fs, started s)"
    using q by (cases fs) (auto simp: plain_of_def busy_def waiting_def sentinel_def)
  have "queue_list (push_task f s) = sentinel b @ map Task (fs @ [f])" "started (push_task f s) = started s"
    using q by (simp_all add: push_task_def)
  then show ?thesis
    using start_if_idle_cases [of "push_task f s" b "fs @ [f]" fx] q
    by (auto simp: Enqueue enqueue_def p)
next
  case (Replace fs)
  have "queue_list (replace_tasks fs s) = sentinel False @ map Task fs" "started (replace_tasks fs s) = started s"
    by (simp_all add: replace_tasks_def sentinel_def)
  moreover have "\<not> fx \<longrightarrow> \<not> busy s" using assms by (auto simp: orderly_def busy_def split: list.split entry.split)
  ultimately show ?thesis
    using start_if_idle_cases [of "replace_tasks fs s" False fs fx]
    by (auto simp: Replace set_queue_def plain_of_def)
next
  case Next
  have "busy (dequeue fx s) = (fx \<and> waiting s \<noteq> [])" "waiting (dequeue fx s) = tl (waiting s)"
    using dequeue_cases(1) [OF assms]
    by (auto simp: busy_def waiting_def sentinel_def split: list.splits)
  then show ?thesis
    using dequeue_cases(2,3) [OF assms] by (simp add: Next plain_of_def)
next
  case (Await w)
  have "entries (wait_empty w s) = entries s" "started (wait_empty w s) = started s"
    "waiters s \<noteq> None \<Longrightarrow> waiters (wait_empty w s) \<noteq> None"
    by (auto simp: wait_empty_def split: option.split)
  then show ?thesis
    using assms by (simp add: Await plain_of_def busy_def waiting_def orderly_def queue_list_def)
qed

lemma queue_run_refines:
  "plain_of (queue_run fx es) = foldl (\<lambda>p e. abstract_step fx e p) (False, [], []) es \<and> orderly fx (queue_run fx es)"
proof (induction es rule: rev_induct)
  case Nil
  then show ?case
    by (simp add: queue_run_def new_queue_def plain_of_def busy_def waiting_def orderly_def queue_list_def)
next
  case (snoc e es)
  then show ?case
    using queue_step_refines [of fx "queue_run fx es" e] by (simp add: queue_run_def)
qed

text \<open>C34: Whatever calls are made to the queue of an element and to \<open>next\<close>, the functions that wait and those that were started
  are those of a plain first-in first-out queue with a mark for a task under way, which is the sentinel \<open>inprogress\<close>
  of the code. In a queue \<open>fx\<close> a function that is added is started by itself exactly when there is no mark, and one that
  was taken out by \<open>next\<close> leaves the mark. When an array replaces a queue \<open>fx\<close>, its first function is started at once,
  whether a task is under way or not, and when the array is empty the mark is gone although a task may still run; no
  other queue starts anything by itself.\<close>

theorem queue_refines:
  "(busy (queue_run fx es), waiting (queue_run fx es), started (queue_run fx es)) =
     foldl (\<lambda>p e. abstract_step fx e p) (False, [], []) es"
  using queue_run_refines by (simp add: plain_of_def)

section \<open>The end of a queue\<close>

lemma dequeues_empty:
  "orderly fx s \<Longrightarrow> waiting s = fs \<Longrightarrow>
   (let t = (dequeue fx ^^ Suc (length fs)) s
    in started t = started s @ fs \<and> entries t = None \<and> waiters t = None \<and>
       notified t = notified s @ (case waiters s of None \<Rightarrow> [] | Some ws \<Rightarrow> ws))"
proof (induction fs arbitrary: s)
  case Nil
  then show ?case using dequeue_cases(2,4) [OF Nil(1)] by simp
next
  case (Cons f fs)
  have w: "waiting (dequeue fx s) = fs"
    using dequeue_cases(1) [OF Cons.prems(1)] Cons.prems(2) by (simp add: waiting_def sentinel_def)
  have "(dequeue fx ^^ Suc (length (f # fs))) s = (dequeue fx ^^ Suc (length fs)) (dequeue fx s)"
    by (simp only: funpow_Suc_right o_def list.size add_0_right add_Suc_right)
  then show ?case
    using Cons.IH [OF dequeue_cases(3) [OF Cons.prems(1)] w] dequeue_cases(2,5) [OF Cons.prems(1)] Cons.prems(2)
    by (simp add: Let_def)
qed

text \<open>C35: In every state that calls can lead to, as many calls of \<open>next\<close> as functions wait and one more start all
  of them in their order, call everyone who waits for the end, once, and leave no data behind.\<close>

theorem queue_drains:
  "let s = queue_run fx es; t = (dequeue fx ^^ Suc (length (waiting s))) s
   in started t = started s @ waiting s \<and> entries t = None \<and> waiters t = None \<and>
      notified t = notified s @ (case waiters s of None \<Rightarrow> [] | Some ws \<Rightarrow> ws)"
  using dequeues_empty [of fx "queue_run fx es" "waiting (queue_run fx es)"] queue_run_refines by (simp add: Let_def)

end
