(* ===== verification/ElementData.thy ===== *)
theory ElementData
  imports Dom
begin

text \<open>
  The data that jQuery keeps for an element: keys in camel case, the cache object (\<open>Data\<close>), and
  the attributes \<open>data-*\<close> that are read when nothing is stored. Parameters are \<open>JSON.parse\<close> and what a name
  gives that a plain object inherits (a function, as values go); the name \<open>__proto__\<close> is left out.
\<close>

section \<open>Names\<close>

definition rdash_alpha :: rx where
  "rdash_alpha = rseq [lit ''-'', cls ''az'' []]"

definition fcamel_case :: "string \<Rightarrow> string" where
  \<comment> \<open>of the match, without its dash\<close>
  "fcamel_case m = to_upper (drop 1 m)"

definition camel_case :: "string \<Rightarrow> string" where
  "camel_case s = rx_replace_all rdash_alpha fcamel_case (rx_replace (Seq Bol (lit ''-ms-'')) ''ms-'' s)"

definition dash_upper :: "string \<Rightarrow> string" where
  "dash_upper key = rx_replace_all (cls ''AZ'' []) (\<lambda>m. ''-'' @ m) key"

definition data_attribute :: "string \<Rightarrow> string" where
  "data_attribute key = ''data-'' @ to_lower (dash_upper key)"

section \<open>The cache\<close>

text \<open>An owner has a cache object or none (also when it was set to undefined), and is a node of some type or another
  object. The attributes are those of an element.\<close>

type_synonym cache = "(string, jsv) obj"

record owner =
  node_type :: "nat option"
  stored :: "cache option"
  attributes :: "(string, string) obj"

definition accept_data :: "owner \<Rightarrow> bool" where
  "accept_data w \<longleftrightarrow> node_type w \<in> {None, Some 0, Some 1, Some 9}"

definition cache_of :: "owner \<Rightarrow> cache \<times> owner" where
  "cache_of w =
     (case stored w of
        Some c \<Rightarrow> (c, w)
      | None \<Rightarrow> ([], if accept_data w then w\<lparr>stored := Some []\<rparr> else w))"

text \<open>Writing to the cache of an owner that accepts no data is lost.\<close>

definition update_cache :: "(cache \<Rightarrow> cache) \<Rightarrow> owner \<Rightarrow> owner" where
  "update_cache f w =
     (let (c, u) = cache_of w in if stored u = None then u else u\<lparr>stored := Some (f c)\<rparr>)"

definition data_set :: "string \<Rightarrow> jsv \<Rightarrow> owner \<Rightarrow> owner" where
  "data_set key v = update_cache (\<lambda>c. oset c (camel_case key) v)"

definition data_set_all :: "(string, jsv) obj \<Rightarrow> owner \<Rightarrow> owner" where
  "data_set_all m = update_cache (\<lambda>c. foldl (\<lambda>c (k, v). oset c (camel_case k) v) c m)"

definition cache_member :: "(string \<Rightarrow> jsv) \<Rightarrow> cache \<Rightarrow> string \<Rightarrow> jsv" where
  "cache_member inherited c k =
     (case oget c k of Some v \<Rightarrow> v | None \<Rightarrow> if k \<in> set prototype_names then inherited k else JUndef)"

definition data_get :: "(string \<Rightarrow> jsv) \<Rightarrow> owner \<Rightarrow> string \<Rightarrow> jsv" where
  "data_get inherited w key = (case stored w of None \<Rightarrow> JUndef | Some c \<Rightarrow> cache_member inherited c (camel_case key))"

definition data_access :: "(string \<Rightarrow> jsv) \<Rightarrow> string \<Rightarrow> jsv \<Rightarrow> owner \<Rightarrow> jsv \<times> owner" where
  \<comment> \<open>with a name: reading, or writing and returning the value\<close>
  "data_access inherited key v w =
     (if key \<noteq> [] \<and> v = JUndef then (data_get inherited w key, w)
      else (if v \<noteq> JUndef then v else JStr key, data_set key v w))"

datatype removal = Everything | Named string | Listed "string list"

definition removed_keys :: "removal \<Rightarrow> cache \<Rightarrow> string list" where
  "removed_keys r c =
     (case r of
        Everything \<Rightarrow> []
      | Listed ks \<Rightarrow> map camel_case ks
      | Named k \<Rightarrow> if js_in (camel_case k) c then [camel_case k] else class_words (camel_case k))"

definition data_remove :: "removal \<Rightarrow> owner \<Rightarrow> owner" where
  "data_remove r w =
     (case stored w of
        None \<Rightarrow> w
      | Some c \<Rightarrow>
          (let d = foldl odel c (rev (removed_keys r c))
           in w\<lparr>stored := (if r = Everything \<or> d = [] then None else Some d)\<rparr>))"

definition has_data :: "owner \<Rightarrow> bool" where
  "has_data w \<longleftrightarrow> (case stored w of None \<Rightarrow> False | Some c \<Rightarrow> c \<noteq> [])"

section \<open>Attributes\<close>

definition rbrace :: rx where
  "rbrace = anchored (ralt [rseq [lit ''{'', rstar (ncls [] []), lit ''}''], rseq [lit ''['', rstar (ncls [] []), lit '']'']])"

definition get_data :: "(string \<Rightarrow> jsv result) \<Rightarrow> string \<Rightarrow> jsv result" where
  "get_data json s =
     (if s = ''true'' then Inr (JBool True)
      else if s = ''false'' then Inr (JBool False)
      else if s = ''null'' then Inr JNull
      else if s = number_text (to_number s) then Inr (JNum (to_number s))
      else if rx_test rbrace s then json s
      else Inr (JStr s))"

definition data_attr :: "(string \<Rightarrow> jsv result) \<Rightarrow> string \<Rightarrow> owner \<Rightarrow> jsv \<times> owner" where
  \<comment> \<open>when nothing was found internally; a text that cannot be read stays a text\<close>
  "data_attr json key w =
     (case (if node_type w = Some 1 then oget (attributes w) (data_attribute key) else None) of
        None \<Rightarrow> (JUndef, w)
      | Some s \<Rightarrow>
          (let v = (case get_data json s of Inl e \<Rightarrow> JStr s | Inr v \<Rightarrow> v)
           in (v, data_set key v w)))"

definition element_data :: "(string \<Rightarrow> jsv) \<Rightarrow> (string \<Rightarrow> jsv result) \<Rightarrow> string \<Rightarrow> owner \<Rightarrow> jsv \<times> owner" where
  \<comment> \<open>\<open>$( el ).data( key )\<close>\<close>
  "element_data inherited json key w =
     (let v = data_get inherited w key in if v \<noteq> JUndef then (v, w) else data_attr json key w)"

text \<open>\<open>$( el ).data()\<close>: every data attribute is read, from the last one, but only once for an element
  (\<open>seen\<close> is the private mark). The result is the cache itself.\<close>

definition read_attribute :: "(string \<Rightarrow> jsv) \<Rightarrow> (string \<Rightarrow> jsv result) \<Rightarrow> string \<Rightarrow> owner \<Rightarrow> owner" where
  "read_attribute inherited json n w =
     (if take 5 n = ''data-''
      then (let key = camel_case (drop 5 n)
            in if cache_member inherited (fst (cache_of w)) key = JUndef then snd (data_attr json key w) else w)
      else w)"

definition data_all :: "(string \<Rightarrow> jsv) \<Rightarrow> (string \<Rightarrow> jsv result) \<Rightarrow> bool \<Rightarrow> owner \<Rightarrow> owner \<times> bool" where
  "data_all inherited json seen w =
     (let u = snd (cache_of w)
      in if node_type u = Some 1 \<and> \<not> seen
         then (foldl (\<lambda>u n. read_attribute inherited json n u) u (rev (okeys (attributes u))), True)
         else (u, seen))"

end
