(* ===== verification/ElementDataProps.thy ===== *)
theory ElementDataProps
  imports ElementData Rules
begin

text \<open>
  Properties of element data: names in attributes and in the cache translate into each other, a value
  read from an attribute stays, and which attribute a data rule of the validator is read from.
\<close>

section \<open>Camel case\<close>

definition is_upper :: "char \<Rightarrow> bool" where
  "is_upper c \<longleftrightarrow> CHR ''A'' \<le> c \<and> c \<le> CHR ''Z''"

definition is_lower :: "char \<Rightarrow> bool" where
  "is_lower c \<longleftrightarrow> CHR ''a'' \<le> c \<and> c \<le> CHR ''z''"

fun camel :: "string \<Rightarrow> string" where
  "camel [] = []"
| "camel [c] = [c]"
| "camel (c # d # s) = (if c = CHR ''-'' \<and> is_lower d then up_char d @ camel s else c # camel (d # s))"

lemma rx_dash_alpha:
  "rxm rdash_alpha (p, s) =
     (case s of c # d # t \<Rightarrow> if c = CHR ''-'' \<and> is_lower d then [(Some d, t)] else [] | _ \<Rightarrow> [])"
  by (auto simp: rdash_alpha_def rseq_def lit_def cls_def in_cls_def in_ranges_def is_lower_def split: list.split)

lemma subst_dash_alpha: "rx_subst rdash_alpha fcamel_case (p, s) = camel s"
proof (induction s arbitrary: p rule: camel.induct)
  case (3 c d s)
  have "fcamel_case [c, d] = up_char d" by (simp add: fcamel_case_def to_upper_def)
  then show ?case using 3 by (subst rx_subst.simps) (auto simp: rx_dash_alpha)
qed (subst rx_subst.simps; simp add: rx_dash_alpha; subst rx_subst.simps; simp add: rx_dash_alpha)+

lemma camel_plain: "c \<noteq> CHR ''-'' \<Longrightarrow> camel (c # s) = c # camel s"
  by (cases s) simp_all

lemma dash_upper_map: "dash_upper key = concat (map (\<lambda>c. if is_upper c then [CHR ''-'', c] else [c]) key)"
proof -
  have "rx_subst (cls ''AZ'' []) (\<lambda>m. ''-'' @ m) (p, s) = concat (map (\<lambda>c. if is_upper c then [CHR ''-'', c] else [c]) s)" for p s
    by (induction s arbitrary: p; subst rx_subst.simps) (simp_all add: cls_def in_cls_def in_ranges_def is_upper_def)
  then show ?thesis by (simp add: dash_upper_def rx_replace_all_def)
qed

definition dashed :: "string \<Rightarrow> string" where
  "dashed key = concat (map (\<lambda>c. if is_upper c then [CHR ''-'', low_char c] else [low_char c]) key)"

lemma data_attribute_dashed: "data_attribute key = ''data-'' @ dashed key"
proof -
  have "low_char (CHR ''-'') = CHR ''-''" by code_simp
  then have "to_lower (concat (map (\<lambda>c. if is_upper c then [CHR ''-'', c] else [c]) key)) = dashed key"
    by (induction key) (simp_all add: to_lower_def dashed_def)
  then show ?thesis by (simp add: data_attribute_def dash_upper_map)
qed

text \<open>The names that survive: no dashes, letters that change case only from A to Z, and not \<open>Ms\<close> before
  another capital letter.\<close>

definition plain_key :: "string \<Rightarrow> bool" where
  "plain_key key \<longleftrightarrow> list_all (\<lambda>c. c \<noteq> CHR ''-'' \<and> (is_upper c \<or> low_char c = c)) key \<and>
     (\<forall>c r. key = ''Ms'' @ c # r \<longrightarrow> \<not> is_upper c)"

lemma upper_code: "is_upper c \<longleftrightarrow> 65 \<le> (of_char c :: nat) \<and> of_char c \<le> (90 :: nat)"
  by (simp add: is_upper_def char_le_nat)

lemma low_upper:
  assumes "is_upper c"
  shows "is_lower (low_char c)" "up_char (low_char c) = [c]" "low_char c \<noteq> CHR ''-''"
proof -
  have n: "65 \<le> (of_char c :: nat)" "of_char c \<le> (90 :: nat)" using assms by (simp_all add: upper_code)
  have l: "low_char c = char_of (of_char c + 32 :: nat)" using assms by (simp add: low_char_def is_upper_def)
  have o: "(of_char (low_char c) :: nat) = of_char c + 32" using n by (simp add: l)
  show w: "is_lower (low_char c)" using n o by (simp add: is_lower_def char_le_nat)
  then show "up_char (low_char c) = [c]" using o by (simp add: up_char_def is_lower_def)
  show "low_char c \<noteq> CHR ''-''" using o n by auto
qed

lemma camel_dashed: "list_all (\<lambda>c. c \<noteq> CHR ''-'' \<and> (is_upper c \<or> low_char c = c)) key \<Longrightarrow> camel (dashed key) = key"
proof (induction key)
  case (Cons c key)
  then show ?case
    using low_upper [of c] by (cases "is_upper c") (auto simp: dashed_def camel_plain)
qed (simp add: dashed_def)

lemma replace_prefix_absent:
  assumes "\<nexists>v. s = ''-ms-'' @ v"
  shows "rx_replace (Seq Bol (lit ''-ms-'')) t s = s"
proof -
  have "regular (lit ''-ms-'')" by code_simp
  then have "\<not> rx_test (Seq Bol (lit ''-ms-'')) s" using assms by (simp add: rx_test_prefix mem_lit del: lang.simps)
  then have "rx_exec (Seq Bol (lit ''-ms-'')) s = None" by (simp only: rx_test_def) blast
  then show ?thesis by (simp add: rx_replace_def)
qed

lemma dashed_ms:
  assumes "plain_key key"
  shows "\<nexists>v. dashed key = ''-ms-'' @ v"
proof
  assume "\<exists>v. dashed key = ''-ms-'' @ v"
  then obtain v where v: "dashed key = ''-ms-'' @ v" ..
  have p: "list_all (\<lambda>c. c \<noteq> CHR ''-'' \<and> (is_upper c \<or> low_char c = c)) key" using assms by (simp add: plain_key_def)
  have "key = camel (''-ms-'' @ v)" using camel_dashed [OF p] v by simp
  moreover have "is_lower (CHR ''m'')" "up_char (CHR ''m'') = ''M''" by code_simp+
  ultimately have k: "key = CHR ''M'' # CHR ''s'' # camel (CHR ''-'' # v)" by (simp add: camel_plain)
  show False
  proof (cases v)
    case Nil
    then show False using p k by simp
  next
    case (Cons d w)
    show False
    proof (cases "is_lower d")
      case True
      have "up_char d = [char_of (of_char d - 32 :: nat)]" using True by (simp add: up_char_def is_lower_def)
      moreover have "is_upper (char_of (of_char d - 32 :: nat))"
        using True by (auto simp: upper_code is_lower_def char_le_nat)
      ultimately show False using k Cons True assms by (simp add: plain_key_def)
    next
      case False
      then show False using p k Cons by simp
    qed
  qed
qed

lemma camel_case_dashed: "plain_key key \<Longrightarrow> camel_case (dashed key) = key"
  using camel_dashed [of key] replace_prefix_absent [OF dashed_ms]
  by (simp add: camel_case_def rx_replace_all_def subst_dash_alpha plain_key_def)

section \<open>Reading and writing\<close>

lemma stored_update_cache:
  "stored (update_cache f w) = (case stored w of Some c \<Rightarrow> Some (f c) | None \<Rightarrow> if accept_data w then Some (f []) else None)"
  by (simp add: update_cache_def cache_of_def Let_def split: option.split)

lemma data_get_set:
  assumes "accept_data w \<or> stored w \<noteq> None"
  shows "data_get inherited (data_set k v w) k = v"
  using assms by (auto simp: data_get_def data_set_def stored_update_cache cache_member_def js_obj split: option.splits)

text \<open>Without a stored value \<open>data( key )\<close> reads the attribute that \<open>key\<close> names, and \<open>camelCase\<close> takes
  the attribute's name back to the key (for keys of letters without dashes that do not begin with
  \<open>Ms\<close> and a capital). The value is then stored: whatever becomes of the attribute, reading again gives the same.\<close>

theorem data_attribute_sticks:
  assumes "plain_key key" "node_type w = Some 1" "data_get inherited w key = JUndef"
    and "oget (attributes w) (data_attribute key) = Some s" "get_data json s = Inr v" "v \<noteq> JUndef"
  shows "camel_case (drop 5 (data_attribute key)) = key \<and> fst (element_data inherited json key w) = v \<and>
    element_data inherited json key ((snd (element_data inherited json key w))\<lparr>attributes := any\<rparr>) = (v, (snd (element_data inherited json key w))\<lparr>attributes := any\<rparr>)"
proof -
  have r: "element_data inherited json key w = (v, data_set key v w)"
    using assms(2-5) by (simp add: element_data_def data_attr_def)
  have "data_get inherited ((data_set key v w)\<lparr>attributes := any\<rparr>) key = v"
    using data_get_set [of w inherited key v] assms(2) by (simp add: data_get_def accept_data_def)
  then show ?thesis
    using r camel_case_dashed [OF assms(1)] assms(6) by (simp add: element_data_def data_attribute_dashed Let_def)
qed

definition plain_owner :: owner where
  "plain_owner = \<lparr>node_type = Some 1, stored = None, attributes = [(''data-rule-min-length'', ''true'')]\<rparr>"

theorem data_attribute_sticks_witness:
  "fst (element_data (\<lambda>k. JFun 0) (\<lambda>s. Inl SyntaxError) ''ruleMinLength''
     ((snd (element_data (\<lambda>k. JFun 0) (\<lambda>s. Inl SyntaxError) ''ruleMinLength'' plain_owner))\<lparr>attributes := []\<rparr>)) = JBool True"
proof -
  have k: "plain_key ''ruleMinLength''"
    by (simp add: plain_key_def, code_simp)
  have a: "oget (attributes plain_owner) (data_attribute ''ruleMinLength'') = Some ''true''" by code_simp
  have g: "get_data (\<lambda>s. Inl SyntaxError) ''true'' = Inr (JBool True)" by (simp add: get_data_def)
  have w: "node_type plain_owner = Some 1" "data_get (\<lambda>k. JFun 0) plain_owner ''ruleMinLength'' = JUndef"
    by (simp_all add: plain_owner_def data_get_def)
  show ?thesis using data_attribute_sticks [OF k w a g, of "[]"] by simp
qed

text \<open>The parameter of a rule that is given on the field itself is read from the attribute named
  \<open>data-rule-\<close> and the method's name in small letters (for method names of letters and digits).\<close>

theorem rule_attribute_name:
  assumes "name \<noteq> []" "list_all (\<lambda>c. is_upper c \<or> is_lower c \<or> is_digit c) name" "is_lower (hd name)"
  shows "data_attribute (data_key ''rule'' name) = ''data-rule-'' @ to_lower name"
proof -
  obtain c cs where m: "name = c # cs" using assms(1) by (cases name) auto
  have low: "\<not> is_upper d \<and> low_char d = d" if "is_lower d \<or> is_digit d" for d
    using that by (auto simp: is_upper_def is_lower_def is_digit_def low_char_def char_le_nat)
  have lowlow: "\<not> is_upper (low_char d) \<and> low_char (low_char d) = low_char d" if "is_upper d \<or> is_lower d \<or> is_digit d" for d
    using that low [of d] low [of "low_char d"] low_upper [of d] by auto
  have d: "dashed (map low_char ds) = map low_char ds" if "list_all (\<lambda>c. is_upper c \<or> is_lower c \<or> is_digit c) ds" for ds
    using that lowlow by (induction ds) (simp_all add: dashed_def)
  have c: "up_char c = [char_of (of_char c - 32 :: nat)]" "is_upper (char_of (of_char c - 32 :: nat))"
    "low_char (char_of (of_char c - 32 :: nat)) = c" "low_char c = c"
    using assms(3) low [of c]
    by (auto simp: m up_char_def is_lower_def upper_code char_le_nat low_char_def)
  have pre: "dashed (''rule'' @ s) = ''rule'' @ dashed s" for s
    by (simp add: dashed_def is_upper_def low_char_def char_le_nat)
  have key: "data_key ''rule'' name = ''rule'' @ char_of (of_char c - 32 :: nat) # map low_char cs"
    using c(1) by (simp add: data_key_def m char_at_def substr_from_def to_upper_def to_lower_def)
  have "dashed (char_of (of_char c - 32 :: nat) # map low_char cs) = CHR ''-'' # c # dashed (map low_char cs)"
    using c by (simp add: dashed_def)
  then show ?thesis
    unfolding data_attribute_dashed key pre using d [of cs] assms(2) c(4) by (simp add: m to_lower_def)
qed

theorem rule_attribute_name_witness: "data_attribute (data_key ''rule'' ''dateISO'') = ''data-rule-dateiso''"
proof -
  have "list_all (\<lambda>c. is_upper c \<or> is_lower c \<or> is_digit c) ''dateISO''" "is_lower (hd ''dateISO'')" "to_lower ''dateISO'' = ''dateiso''"
    by code_simp+
  then show ?thesis using rule_attribute_name [of "''dateISO''"] by simp
qed

end
