(* ===== verification/EventHandlers.thy ===== *)
theory EventHandlers
  imports Dom RegexParse "HOL-Library.List_Lexorder"
begin

text \<open>
  Event handlers of one element: \<open>jQuery.event\<close> with \<open>add\<close>, \<open>remove\<close>, \<open>handlers\<close> and \<open>dispatch\<close>, and
  \<open>on\<close>, \<open>one\<close> and \<open>off\<close> in front of them. The selector engine and what the called functions do are
  parameters. Synthetic events (\<open>trigger\<close>, \<open>simulate\<close>) are outside: here the handler that \<open>leverageNative\<close> claims has no
  effect.
\<close>

section \<open>Handlers\<close>

text \<open>A function comes with its \<open>guid\<close>, by which it is found again; \<open>one\<close> wraps it and keeps the guid.\<close>

datatype callee =
    Function nat nat
  | Return_false
  | Once callee
  | Native  \<comment> \<open>made by \<open>leverageNative\<close>; nobody else has its guid\<close>

fun guid_of :: "callee \<Rightarrow> nat" where
  "guid_of Native = 0"
| "guid_of Return_false = 1"
| "guid_of (Function f g) = g + 2"
| "guid_of (Once c) = guid_of c"

fun original :: "callee \<Rightarrow> callee" where
  "original (Once c) = original c"
| "original c = c"

text \<open>An absent selector is the empty text; the namespace false is \<open>None\<close>.\<close>

record handle_obj =
  ho_type :: string
  orig_type :: string
  ho_data :: jsv
  handler :: callee
  ho_selector :: string
  needs_context :: bool
  namespace :: "string option"

record handler_list =
  hlist :: "handle_obj list"
  delegate_count :: nat

record engine =
  valid_selector :: "string \<Rightarrow> bool"
  context_selector :: "string \<Rightarrow> bool"
  found :: "bool \<Rightarrow> string \<Rightarrow> nat \<Rightarrow> bool"
  contains :: "nat \<Rightarrow> nat \<Rightarrow> bool"

text \<open>The element with its listeners, and the document's listeners (those that capture) for browsers without \<open>focusin\<close> and
  \<open>focusout\<close>, with the number of elements that need them.\<close>

record event_data =
  accepts :: bool
  checkable :: bool
  no_focusin :: bool  \<comment> \<open>not \<open>support.focusin\<close>\<close>
  events :: "(string, handler_list) obj option"
  listening :: "string list"
  captures :: "(string, int) obj"
  capturing :: "string list"

section \<open>Types and namespaces\<close>

definition types_of :: "string \<Rightarrow> string list" where
  "types_of types = (let ws = class_words types in if ws = [] then [[]] else ws)"

definition type_part :: "string \<Rightarrow> string" where
  "type_part t = takeWhile (\<lambda>c. c \<noteq> CHR ''.'') t"

definition namespace_part :: "string \<Rightarrow> string" where
  "namespace_part t = drop 1 (dropWhile (\<lambda>c. c \<noteq> CHR ''.'') t)"

definition namespaces_of :: "string \<Rightarrow> string list" where
  "namespaces_of t = sort (split_on (CHR ''.'') (namespace_part t))"

text \<open>The pattern, with a backslash before the dots.\<close>

definition dot_text :: string where
  "dot_text = [CHR 0x5C, CHR ''.'']"

definition namespace_pattern :: "string list \<Rightarrow> string" where
  "namespace_pattern ns =
     ''(^|'' @ dot_text @ '')'' @ join (dot_text @ ''(?:.*'' @ dot_text @ ''|)'') ns @ ''('' @ dot_text @ ''|$)''"

definition mouse_types :: "(string, string) obj" where
  "mouse_types = [(''mouseenter'', ''mouseover''), (''mouseleave'', ''mouseout''),
     (''pointerenter'', ''pointerover''), (''pointerleave'', ''pointerout'')]"

definition focus_types :: "(string, string) obj" where
  "focus_types = [(''focus'', ''focusin''), (''blur'', ''focusout'')]"

definition special_type :: "bool \<Rightarrow> string \<Rightarrow> string" where
  "special_type delegated t =
     (case oget (if delegated then mouse_types @ focus_types else mouse_types) t of None \<Rightarrow> t | Some u \<Rightarrow> u)"

section \<open>Adding\<close>

definition empty_list :: handler_list where
  "empty_list = \<lparr>hlist = [], delegate_count = 0\<rparr>"

definition insert_handler :: "handle_obj \<Rightarrow> handler_list \<Rightarrow> handler_list" where
  "insert_handler h l =
     (if ho_selector h \<noteq> []
      then l\<lparr>hlist := take (delegate_count l) (hlist l) @ h # drop (delegate_count l) (hlist l),
             delegate_count := delegate_count l + 1\<rparr>
      else l\<lparr>hlist := hlist l @ [h]\<rparr>)"

definition claims_native :: "event_data \<Rightarrow> string \<Rightarrow> bool" where
  \<comment> \<open>\<open>setup\<close> of the special types\<close>
  "claims_native w t \<longleftrightarrow> t = ''focus'' \<or> t = ''blur'' \<or> t = ''click'' \<and> checkable w"

definition native_handler :: "string \<Rightarrow> handle_obj" where
  "native_handler t =
     \<lparr>ho_type = t, orig_type = t, ho_data = JUndef, handler = Native, ho_selector = [], needs_context = False,
      namespace = None\<rparr>"

text \<open>\<open>focusin\<close> and \<open>focusout\<close> are made of \<open>focus\<close> and \<open>blur\<close> when the browser has no such events.\<close>

definition own_setup :: "event_data \<Rightarrow> string \<Rightarrow> string option" where
  "own_setup w t =
     (if no_focusin w then oget [(''focusin'', ''focus''), (''focusout'', ''blur'')] t else None)"

definition capture :: "string \<Rightarrow> string \<Rightarrow> event_data \<Rightarrow> event_data" where
  "capture t source w =
     (let n = (case oget (captures w) t of None \<Rightarrow> 0 | Some n \<Rightarrow> n)
      in w\<lparr>capturing := (if n = 0 \<and> source \<notin> set (capturing w) then capturing w @ [source] else capturing w),
           captures := oset (captures w) t (n + 1)\<rparr>)"

definition release :: "string \<Rightarrow> string \<Rightarrow> event_data \<Rightarrow> event_data" where
  "release t source w =
     (let n = (case oget (captures w) t of None \<Rightarrow> 0 | Some n \<Rightarrow> n - 1)
      in if n = 0 then w\<lparr>capturing := filter (\<lambda>u. u \<noteq> source) (capturing w), captures := odel (captures w) t\<rparr>
         else w\<lparr>captures := oset (captures w) t n\<rparr>)"

definition attach_type :: "string \<Rightarrow> event_data \<Rightarrow> event_data" where
  "attach_type t w =
     (case own_setup w t of None \<Rightarrow> w\<lparr>listening := listening w @ [t]\<rparr> | Some u \<Rightarrow> capture t u w)"

definition detach_type :: "string \<Rightarrow> event_data \<Rightarrow> event_data" where
  "detach_type t w =
     (case own_setup w t of None \<Rightarrow> w\<lparr>listening := filter (\<lambda>u. u \<noteq> t) (listening w)\<rparr> | Some u \<Rightarrow> release t u w)"

definition handlers_for :: "event_data \<Rightarrow> string \<Rightarrow> handler_list \<times> event_data" where
  "handlers_for w t =
     (case oget (case events w of None \<Rightarrow> [] | Some m \<Rightarrow> m) t of
        Some l \<Rightarrow> (l, w)
      | None \<Rightarrow> (if claims_native w t then insert_handler (native_handler t) empty_list else empty_list,
                attach_type t w))"

definition new_handler :: "engine \<Rightarrow> string \<Rightarrow> jsv \<Rightarrow> callee \<Rightarrow> string \<Rightarrow> handle_obj" where
  "new_handler eng sel d f t =
     \<lparr>ho_type = special_type (sel \<noteq> []) (type_part t), orig_type = type_part t, ho_data = d, handler = f, ho_selector = sel,
      needs_context = (sel \<noteq> [] \<and> context_selector eng sel), namespace = Some (join ''.'' (namespaces_of t))\<rparr>"

definition add_type :: "engine \<Rightarrow> string \<Rightarrow> jsv \<Rightarrow> callee \<Rightarrow> string \<Rightarrow> event_data \<Rightarrow> event_data" where
  "add_type eng sel d f t w =
     (if type_part t = [] then w
      else (let h = new_handler eng sel d f t;
                (l, u) = handlers_for w (ho_type h)
            in u\<lparr>events := Some (oset (case events w of None \<Rightarrow> [] | Some m \<Rightarrow> m) (ho_type h) (insert_handler h l))\<rparr>))"

definition event_add :: "engine \<Rightarrow> string \<Rightarrow> callee \<Rightarrow> jsv \<Rightarrow> string \<Rightarrow> event_data \<Rightarrow> bool \<times> event_data" where
  \<comment> \<open>whether it threw, and the data after it\<close>
  "event_add eng types f d sel w =
     (if \<not> accepts w then (False, w)
      else if sel \<noteq> [] \<and> \<not> valid_selector eng sel then (True, w)
      else (False, foldr (add_type eng sel d f) (types_of types)
                     (w\<lparr>events := Some (case events w of None \<Rightarrow> [] | Some m \<Rightarrow> m)\<rparr>)))"

section \<open>Removing\<close>

definition removable :: "bool \<Rightarrow> string \<Rightarrow> callee option \<Rightarrow> rx option \<Rightarrow> string \<Rightarrow> handle_obj \<Rightarrow> bool" where
  \<comment> \<open>\<open>test( false )\<close> sees the text of false\<close>
  "removable mapped t f r sel h \<longleftrightarrow>
     (mapped \<or> t = orig_type h) \<and>
     (case f of None \<Rightarrow> True | Some g \<Rightarrow> guid_of g = guid_of (handler h)) \<and>
     (case r of None \<Rightarrow> True | Some p \<Rightarrow> rx_test p (case namespace h of None \<Rightarrow> ''false'' | Some n \<Rightarrow> n)) \<and>
     (sel = [] \<or> sel = ho_selector h \<or> sel = ''**'' \<and> ho_selector h \<noteq> [])"

fun remove_loop :: "(handle_obj \<Rightarrow> bool) \<Rightarrow> nat \<Rightarrow> handler_list \<Rightarrow> handler_list" where
  "remove_loop P 0 l = l"
| "remove_loop P (Suc j) l =
     (let h = hlist l ! j
      in remove_loop P j
           (if P h
            then l\<lparr>hlist := take j (hlist l) @ drop (Suc j) (hlist l),
                   delegate_count := (if ho_selector h \<noteq> [] then delegate_count l - 1 else delegate_count l)\<rparr>
            else l))"

definition remove_handlers :: "(handle_obj \<Rightarrow> bool) \<Rightarrow> string \<Rightarrow> event_data \<Rightarrow> event_data" where
  "remove_handlers P t w =
     (case events w of
        None \<Rightarrow> w
      | Some m \<Rightarrow>
          (case oget m t of
             None \<Rightarrow> w
           | Some l \<Rightarrow>
               (let k = remove_loop P (length (hlist l)) l
                in if hlist l \<noteq> [] \<and> hlist k = []
                   then (detach_type t w)\<lparr>events := Some (odel m t)\<rparr>
                   else w\<lparr>events := Some (oset m t k)\<rparr>)))"

definition remove_named :: "bool \<Rightarrow> callee option \<Rightarrow> string \<Rightarrow> rx option \<Rightarrow> string \<Rightarrow> event_data \<Rightarrow> event_data" where
  "remove_named mapped f sel r t = remove_handlers (removable mapped t f r sel) (special_type (sel \<noteq> []) t)"

definition event_keys :: "event_data \<Rightarrow> string list" where
  "event_keys w = (case events w of None \<Rightarrow> [] | Some m \<Rightarrow> okeys m)"

definition namespace_test :: "string \<Rightarrow> rx option result" where
  \<comment> \<open>none without a namespace\<close>
  "namespace_test t =
     (if namespace_part t = [] then Inr None
      else (case new_regexp False (namespace_pattern (namespaces_of t)) of Inl e \<Rightarrow> Inl e | Inr r \<Rightarrow> Inr (Some r)))"

definition remove_type :: "callee option \<Rightarrow> string \<Rightarrow> string \<Rightarrow> event_data \<Rightarrow> bool \<times> event_data" where
  "remove_type f sel t w =
     (if type_part t = [] \<and> event_keys w = [] then (False, w)
      else (case namespace_test t of
              Inl e \<Rightarrow> (True, w)
            | Inr r \<Rightarrow>
                (False, if type_part t = [] then foldl (\<lambda>w k. remove_named True f sel r k w) w (event_keys w)
                        else remove_named False f sel r (type_part t) w)))"

fun remove_types :: "callee option \<Rightarrow> string \<Rightarrow> string list \<Rightarrow> event_data \<Rightarrow> bool \<times> event_data" where
  "remove_types f sel [] w = (False, w)"
| "remove_types f sel (t # ts) w =
     (let (threw, u) = remove_type f sel t w in if threw then (True, u) else remove_types f sel ts u)"

definition forget_empty :: "event_data \<Rightarrow> event_data" where
  "forget_empty w = (if events w = Some [] then w\<lparr>events := None\<rparr> else w)"

definition event_remove :: "string \<Rightarrow> callee option \<Rightarrow> string \<Rightarrow> event_data \<Rightarrow> bool \<times> event_data" where
  "event_remove types f sel w =
     (if events w = None then (False, w)
      else (let (threw, u) = remove_types f sel (rev (types_of types)) w
            in (threw, if threw then u else forget_empty u)))"

section \<open>Dispatching\<close>

text \<open>\<open>path\<close> are the nodes from the target to the element that listens, without that one.\<close>

record jq_event =
  ev_type :: string
  path :: "nat list"
  on_node :: bool
  button :: nat
  rnamespace :: "rx option"
  related :: "nat option"

record page_nodes =
  element_node :: "nat \<Rightarrow> bool"
  disabled_node :: "nat \<Rightarrow> bool"

fun matched_handlers :: "engine \<Rightarrow> nat \<Rightarrow> (string, bool) obj \<Rightarrow> handle_obj list \<Rightarrow> handle_obj list" where
  "matched_handlers eng cur cache [] = []"
| "matched_handlers eng cur cache (h # hs) =
     (let sel = ho_selector h @ '' '';
          cache' = (if oget cache sel = None then oset cache sel (found eng (needs_context h) sel cur) else cache)
      in (if oget cache' sel = Some True then [h] else []) @ matched_handlers eng cur cache' hs)"

definition delegating :: "jq_event \<Rightarrow> handler_list \<Rightarrow> bool" where
  "delegating ev l \<longleftrightarrow> 0 < delegate_count l \<and> on_node ev \<and> \<not> (ev_type ev = ''click'' \<and> 1 \<le> button ev)"

definition delegates_at :: "engine \<Rightarrow> page_nodes \<Rightarrow> jq_event \<Rightarrow> handler_list \<Rightarrow> nat \<Rightarrow> (nat \<times> handle_obj list) list" where
  "delegates_at eng pg ev l cur =
     (if element_node pg cur \<and> \<not> (ev_type ev = ''click'' \<and> disabled_node pg cur)
      then (let ms = matched_handlers eng cur [] (take (delegate_count l) (hlist l))
            in if ms \<noteq> [] then [(cur, ms)] else [])
      else [])"

definition handler_queue ::
    "engine \<Rightarrow> page_nodes \<Rightarrow> nat \<Rightarrow> jq_event \<Rightarrow> handler_list \<Rightarrow> (nat \<times> handle_obj list) list" where
  "handler_queue eng pg this ev l =
     (if delegating ev l then concat (map (delegates_at eng pg ev l) (path ev)) else []) @
     (if delegate_count l < length (hlist l) then [(this, drop (delegate_count l) (hlist l))] else [])"

text \<open>\<open>off( event )\<close> for the handler that is being called.\<close>

definition off_handled :: "handle_obj \<Rightarrow> event_data \<Rightarrow> bool \<times> event_data" where
  "off_handled h w =
     event_remove (case namespace h of None \<Rightarrow> orig_type h | Some n \<Rightarrow> if n = [] then orig_type h else orig_type h @ ''.'' @ n)
       (Some (handler h)) (ho_selector h) w"

text \<open>What a function does when it is called: the value it returns, what it does to the event, whether it throws; it may
  change the handlers of the element and the rest of the page.\<close>

record reply =
  returned :: jsv
  stops :: bool
  stops_now :: bool
  prevents :: bool
  throws :: bool

type_synonym 's bodies = "handle_obj \<Rightarrow> nat \<Rightarrow> event_data \<times> 's \<Rightarrow> reply \<times> event_data \<times> 's"

record 's progress =
  stopped :: bool
  stopped_now :: bool
  prevented :: bool
  result_value :: jsv
  called :: "(nat \<times> handle_obj) list"
  threw :: bool
  now :: event_data
  page :: 's

definition invited :: "engine \<Rightarrow> jq_event \<Rightarrow> nat \<Rightarrow> handle_obj \<Rightarrow> bool" where
  \<comment> \<open>the namespace of the event, and \<open>handle\<close> of mouseenter and the like\<close>
  "invited eng ev n h \<longleftrightarrow>
     (case rnamespace ev of None \<Rightarrow> True
      | Some r \<Rightarrow> (case namespace h of None \<Rightarrow> True | Some s \<Rightarrow> rx_test r s)) \<and>
     handler h \<noteq> Native \<and>
     (case oget mouse_types (orig_type h) of None \<Rightarrow> True
      | Some _ \<Rightarrow> (case related ev of None \<Rightarrow> True | Some x \<Rightarrow> x \<noteq> n \<and> \<not> contains eng n x))"

definition plain_reply :: "jsv \<Rightarrow> bool \<Rightarrow> reply" where
  "plain_reply v err = \<lparr>returned = v, stops = False, stops_now = False, prevents = False, throws = err\<rparr>"

definition run_callee :: "'s bodies \<Rightarrow> nat \<Rightarrow> handle_obj \<Rightarrow> event_data \<times> 's \<Rightarrow> reply \<times> event_data \<times> 's" where
  \<comment> \<open>\<open>one\<close> first takes the handler off\<close>
  "run_callee body n h ws =
     (let (bad, w) = (case handler h of Once c \<Rightarrow> off_handled h (fst ws) | _ \<Rightarrow> (False, fst ws))
      in if bad then (plain_reply JUndef True, w, snd ws)
         else if original (handler h) = Return_false then (plain_reply (JBool False) False, w, snd ws)
         else body (h\<lparr>handler := original (handler h)\<rparr>) n (w, snd ws))"

definition call_handler :: "'s bodies \<Rightarrow> nat \<Rightarrow> handle_obj \<Rightarrow> 's progress \<Rightarrow> 's progress" where
  "call_handler body n h p =
     (let (r, w, s) = run_callee body n h (now p, page p);
          no = (\<not> throws r \<and> returned r = JBool False)
      in p\<lparr>now := w, page := s, called := called p @ [(n, h)], threw := throws r,
           stopped := stopped p \<or> stops r \<or> stops_now r \<or> no,
           stopped_now := stopped_now p \<or> stops_now r,
           prevented := prevented p \<or> prevents r \<or> no,
           result_value := (if throws r \<or> returned r = JUndef then result_value p else returned r)\<rparr>)"

fun run_handlers :: "engine \<Rightarrow> 's bodies \<Rightarrow> jq_event \<Rightarrow> nat \<Rightarrow> handle_obj list \<Rightarrow> 's progress \<Rightarrow> 's progress" where
  "run_handlers eng body ev n [] p = p"
| "run_handlers eng body ev n (h # hs) p =
     (if stopped_now p \<or> threw p then p
      else run_handlers eng body ev n hs (if invited eng ev n h then call_handler body n h p else p))"

fun run_matched :: "engine \<Rightarrow> 's bodies \<Rightarrow> jq_event \<Rightarrow> (nat \<times> handle_obj list) list \<Rightarrow> 's progress \<Rightarrow> 's progress" where
  "run_matched eng body ev [] p = p"
| "run_matched eng body ev ((n, hs) # q) p =
     (if stopped p \<or> threw p then p else run_matched eng body ev q (run_handlers eng body ev n hs p))"

definition fresh_progress :: "event_data \<Rightarrow> 's \<Rightarrow> 's progress" where
  "fresh_progress w s =
     \<lparr>stopped = False, stopped_now = False, prevented = False, result_value = JUndef, called = [], threw = False,
      now = w, page = s\<rparr>"

definition event_dispatch ::
    "engine \<Rightarrow> page_nodes \<Rightarrow> 's bodies \<Rightarrow> nat \<Rightarrow> jq_event \<Rightarrow> event_data \<Rightarrow> 's \<Rightarrow> 's progress" where
  "event_dispatch eng pg body this ev w s =
     (let l = (case oget (case events w of None \<Rightarrow> [] | Some m \<Rightarrow> m) (ev_type ev) of None \<Rightarrow> empty_list | Some l \<Rightarrow> l)
      in run_matched eng body ev (handler_queue eng pg this ev l) (fresh_progress w s))"

section \<open>Arguments\<close>

text \<open>What may stand in the place of a selector, of data or of a function. (For a function only functions, false and
  nothing are passed.)\<close>

datatype arg =
    Absent
  | Text string
  | Callee nat nat
  | Bare_false
  | Other jsv  \<comment> \<open>null, an object or another value\<close>

definition is_nothing :: "arg \<Rightarrow> bool" where
  "is_nothing a \<longleftrightarrow> a = Absent \<or> a = Other JNull"

definition on_args :: "arg \<Rightarrow> arg \<Rightarrow> arg \<Rightarrow> arg \<times> arg \<times> arg" where
  \<comment> \<open>selector, data and function\<close>
  "on_args sel d f =
     (if is_nothing d \<and> is_nothing f then (Absent, Absent, sel)
      else if is_nothing f then (case sel of Text s \<Rightarrow> (sel, Absent, d) | _ \<Rightarrow> (Absent, sel, d))
      else (sel, d, f))"

fun arg_value :: "arg \<Rightarrow> jsv" where
  "arg_value (Text s) = JStr s"
| "arg_value Bare_false = JBool False"
| "arg_value (Other v) = v"
| "arg_value (Callee f g) = JFun f"
| "arg_value Absent = JUndef"

fun arg_selector :: "arg \<Rightarrow> string" where
  "arg_selector (Text s) = s"
| "arg_selector _ = []"

definition arg_handler :: "bool \<Rightarrow> arg \<Rightarrow> callee option" where
  "arg_handler once a =
     (case a of Callee f g \<Rightarrow> Some ((if once then Once else id) (Function f g))
      | Bare_false \<Rightarrow> Some ((if once then Once else id) Return_false)
      | _ \<Rightarrow> None)"

definition event_on :: "engine \<Rightarrow> bool \<Rightarrow> string \<Rightarrow> arg \<Rightarrow> arg \<Rightarrow> arg \<Rightarrow> event_data \<Rightarrow> bool \<times> event_data" where
  "event_on eng once types sel d f w =
     (let (sel', d', f') = on_args sel d f
      in case arg_handler once f' of
           None \<Rightarrow> (False, w)
         | Some h \<Rightarrow> event_add eng types h (arg_value d') (arg_selector sel') w)"

definition event_off :: "string \<Rightarrow> arg \<Rightarrow> arg \<Rightarrow> event_data \<Rightarrow> bool \<times> event_data" where
  "event_off types sel f w =
     (let (sel', f') = (case sel of Bare_false \<Rightarrow> (Absent, sel) | Callee g i \<Rightarrow> (Absent, sel) | _ \<Rightarrow> (sel, f))
      in event_remove types (arg_handler False f') (arg_selector sel') w)"

fun arg_truthy :: "arg \<Rightarrow> bool" where
  "arg_truthy (Text s) = (s \<noteq> [])"
| "arg_truthy (Callee f g) = True"
| "arg_truthy (Other v) = js_truthy v"
| "arg_truthy _ = False"

text \<open>An object of types and functions; nothing more is done once a call threw.\<close>

fun each_type :: "(string \<Rightarrow> arg \<Rightarrow> event_data \<Rightarrow> bool \<times> event_data) \<Rightarrow> (string, arg) obj \<Rightarrow> event_data \<Rightarrow> bool \<times> event_data" where
  "each_type g [] w = (False, w)"
| "each_type g ((t, f) # m) w = (let (bad, u) = g t f w in if bad then (True, u) else each_type g m u)"

definition event_on_map ::
    "engine \<Rightarrow> bool \<Rightarrow> (string, arg) obj \<Rightarrow> arg \<Rightarrow> arg \<Rightarrow> event_data \<Rightarrow> bool \<times> event_data" where
  "event_on_map eng once m sel d =
     (let (sel', d') = (case sel of Text s \<Rightarrow> (sel, d) | _ \<Rightarrow> (Absent, if arg_truthy d then d else sel))
      in each_type (\<lambda>t f. event_on eng once t sel' d' f) m)"

definition event_off_map :: "(string, arg) obj \<Rightarrow> arg \<Rightarrow> event_data \<Rightarrow> bool \<times> event_data" where
  "event_off_map m sel = each_type (\<lambda>t f. event_off t sel f) m"

end
