(* ===== verification/EventNamespaces.thy ===== *)
theory EventNamespaces
  imports EventHandlers MethodBase "HOL-Library.Sublist" "HOL-Library.Multiset"
begin

text \<open>
  Namespaces of event handlers: the pattern that \<open>off\<close> builds from the names asked for is parsed and matched as
  a test whether a handler has all of them.
\<close>

section \<open>The pattern of namespaces\<close>

definition plain_name :: "string \<Rightarrow> bool" where
  "plain_name n \<longleftrightarrow> n \<noteq> [] \<and> list_all plain_char n"

definition dot :: rx where
  "dot = cls [] ''.''"

definition between :: rx where
  "between = Alt (rseq [Rep 0 None True rany, dot]) (rseq [])"

fun name_factors :: "string list \<Rightarrow> rx list" where
  "name_factors [] = []"
| "name_factors [n] = map (\<lambda>c. cls [] [c]) n @ [Alt (rseq [dot]) (rseq [Eol])]"
| "name_factors (n # m # ns) = map (\<lambda>c. cls [] [c]) n @ [dot, between] @ name_factors (m # ns)"

lemma scan_dot: "scan Plain (dot_text @ cs) ts = scan Plain cs (TAtom dot # ts)"
  "scan AfterOpen (dot_text @ cs) ts = scan Plain cs (TAtom dot # TOpen Capture # ts)"
  by (simp_all add: dot_text_def dot_def esc_class_def esc_char_def is_digit_def)

lemma scan_between:
  "scan Plain ((dot_text @ ''(?:.*'' @ dot_text @ ''|)'') @ cs) ts =
   scan Plain cs ([TClose, TBar, TAtom dot, TQuant 0 None, TAtom rany, TOpen Capture, TAtom dot] @ ts)"
proof -
  have b: "scan Plain (''|)'' @ cs) us = scan Plain cs (TClose # TBar # us)" for us
    by (simp add: plain_token_def)
  have o: "scan Plain (''(?:.*'' @ s) us = scan Plain s (TQuant 0 None # TAtom rany # TOpen Capture # us)" for s us
    by (simp add: plain_token_def)
  show ?thesis unfolding append_assoc scan_dot o b by simp
qed

lemma scan_end:
  "scan Plain (CHR ''('' # dot_text @ ''|$)'') ts = Some (rev ts @ [TOpen Capture, TAtom dot, TBar, TAtom Eol, TClose])"
proof -
  have "scan Plain (CHR ''('' # dot_text @ ''|$)'') ts = scan AfterOpen (dot_text @ ''|$)'') ts" by simp
  then show ?thesis unfolding scan_dot by (simp add: plain_token_def)
qed

fun name_tokens :: "string list \<Rightarrow> rx_token list" where
  "name_tokens [] = []"
| "name_tokens [n] = atoms n @ [TOpen Capture, TAtom dot, TBar, TAtom Eol, TClose]"
| "name_tokens (n # m # ns) =
     atoms n @ [TAtom dot, TOpen Capture, TAtom rany, TQuant 0 None, TAtom dot, TBar, TClose] @ name_tokens (m # ns)"

lemma scan_names:
  "list_all plain_name ns \<Longrightarrow> ns \<noteq> [] \<Longrightarrow>
   scan Plain (join (dot_text @ ''(?:.*'' @ dot_text @ ''|)'') ns @ ''('' @ dot_text @ ''|$)'') ts =
     Some (rev ts @ name_tokens ns)"
proof (induction ns arbitrary: ts rule: name_tokens.induct)
  case (2 n)
  then show ?case by (simp add: scan_plain scan_end plain_name_def del: scan.simps)
next
  case (3 n m ns)
  have "list_all plain_char n" using 3(2) by (simp add: plain_name_def)
  then have "scan Plain (join (dot_text @ ''(?:.*'' @ dot_text @ ''|)'') (n # m # ns) @ ''('' @ dot_text @ ''|$)'') ts =
      scan Plain ((dot_text @ ''(?:.*'' @ dot_text @ ''|)'') @
        join (dot_text @ ''(?:.*'' @ dot_text @ ''|)'') (m # ns) @ ''('' @ dot_text @ ''|$)'') (rev (atoms n) @ ts)"
    by (simp only: join.simps append_assoc scan_plain)
  then show ?case using 3 unfolding scan_between by (simp del: scan.simps)
qed simp

lemma reduce_names:
  "ns \<noteq> [] \<Longrightarrow> reduce (name_tokens ns) [(Capture, alts, facs)] = Some (close_frame alts (rev (name_factors ns) @ facs))"
proof (induction ns arbitrary: facs rule: name_tokens.induct)
  case (2 n)
  then show ?case by (simp add: reduce_atoms close_frame_def Let_def)
next
  case (3 n m ns)
  have q: "quantifiable rany" by (simp add: rany_def ncls_def)
  have b: "close_frame [rseq [Rep 0 None True rany, dot]] [] = between"
    by (simp add: close_frame_def between_def)
  show ?case using 3 q by (simp add: reduce_atoms b Let_def)
qed simp

lemma namespace_regexp:
  assumes "list_all plain_name ns" "ns \<noteq> []"
  shows "new_regexp False (namespace_pattern ns) = Inr (rseq (Alt (rseq [Bol]) (rseq [dot]) # name_factors ns))"
proof -
  let ?rest = "join (dot_text @ ''(?:.*'' @ dot_text @ ''|)'') ns @ ''('' @ dot_text @ ''|$)''"
  have close: "scan Plain ('')'' @ s) ts = scan Plain s (TClose # ts)" for s ts
    by (simp add: plain_token_def)
  have open_: "scan Plain (''(^|'' @ s) [] = scan Plain s [TBar, TAtom Bol, TOpen Capture]" for s
    by (simp add: plain_token_def)
  have "scan Plain (namespace_pattern ns) [] =
      scan Plain ?rest [TClose, TAtom dot, TBar, TAtom Bol, TOpen Capture]"
    unfolding namespace_pattern_def open_ scan_dot close ..
  also have "\<dots> = Some ([TOpen Capture, TAtom Bol, TBar, TAtom dot, TClose] @ name_tokens ns)"
    unfolding scan_names [OF assms] by simp
  finally show ?thesis
    using reduce_names [OF assms(2)]
    by (simp add: new_regexp_def compile_rx_def close_frame_def Let_def)
qed

section \<open>What the pattern matches\<close>

lemma rxm_rseq_append: "rxm (rseq (a @ b)) x = concat (map (rxm (rseq b)) (rxm (rseq a) x))"
proof (induction a arbitrary: x)
  case (Cons r a)
  have "concat (map (\<lambda>y. concat (map (rxm (rseq b)) (f y))) ys) = concat (map (rxm (rseq b)) (concat (map f ys)))" for f and ys :: "pos list"
    by (induction ys) simp_all
  moreover have "rxm (rseq (a @ b)) = (\<lambda>x. concat (map (rxm (rseq b)) (rxm (rseq a) x)))"
    using Cons by blast
  ultimately show ?case by (simp add: rseq_def)
qed (simp add: rseq_def)

lemma rxm_literal:
  "rxm (rseq (map (\<lambda>c. cls [] [c]) n)) (p, s) = (if take (length n) s = n then [(adv p n, drop (length n) s)] else [])"
proof (induction n arbitrary: p s)
  case (Cons c n)
  show ?case
  proof (cases s)
    case (Cons d t)
    then show ?thesis
      using Cons.IH [of "Some c" t] by (auto simp: rseq_def cls_def in_cls_def in_ranges_def)
  qed (simp add: rseq_def cls_def)
qed (simp add: rseq_def)

lemma rxm_dot: "rxm dot (p, s) = (case s of c # t \<Rightarrow> if c = CHR ''.'' then [(Some c, t)] else [] | [] \<Rightarrow> [])"
  by (auto simp: dot_def cls_def in_cls_def in_ranges_def split: list.split)

definition one_line :: "string \<Rightarrow> bool" where
  "one_line s \<longleftrightarrow> list_all (\<lambda>c. c \<noteq> CHR 0x0A \<and> c \<noteq> CHR 0x0D) s"

lemma rxm_between:
  assumes "one_line s"
  shows "y \<in> set (rxm between (p, s)) \<longleftrightarrow> y = (p, s) \<or> (\<exists>w v. s = w @ CHR ''.'' # v \<and> y = (Some (CHR ''.''), v))"
proof -
  have r: "regular (rseq [Rep 0 None True rany, dot])" by (simp add: dot_def regular_def rany_def ncls_def cls_def rseq_def in_bounds_def)
  have l: "w \<in> lang (Rep 0 None True rany) \<longleftrightarrow> one_line w" for w
    unfolding rany_def ncls_def mem_Rep_Cls by (auto simp: one_line_def in_bounds_def in_cls_def in_ranges_def list_all_iff)
  have "lang (rseq [Rep 0 None True rany, dot]) = {w @ ''.'' | w. one_line w}"
    using l by (auto simp: mem_rseq_Cons mem_rseq_Nil dot_def mem_cls)
  then have "y \<in> set (rxm (rseq [Rep 0 None True rany, dot]) (p, s)) \<longleftrightarrow>
      (\<exists>w. one_line w \<and> s = w @ CHR ''.'' # snd y \<and> fst y = Some (CHR ''.''))"
    unfolding rxm_lang [OF r] reads_def by (auto simp: adv_def)
  moreover have "s = w @ v \<Longrightarrow> one_line w" for w v using assms by (simp add: one_line_def)
  ultimately show ?thesis by (cases y) (auto simp: between_def rseq_def)
qed

lemma rseq_Cons: "rxm (rseq (r # rs)) x = concat (map (rxm (rseq rs)) (rxm r x))"
  by (simp add: rseq_def)

lemma take_prefix: "take (length n) s = n \<longleftrightarrow> (\<exists>t. s = n @ t)"
  by (metis append_eq_conv_conj append_take_drop_id)

lemma literal_then:
  "rxm (rseq (map (\<lambda>c. cls [] [c]) n @ rs)) (p, s) \<noteq> [] \<longleftrightarrow> (\<exists>t. s = n @ t \<and> rxm (rseq rs) (adv p n, t) \<noteq> [])"
  unfolding rxm_rseq_append rxm_literal by (auto simp: take_prefix)

lemma dot_then:
  "rxm (rseq (dot # rs)) (p, s) \<noteq> [] \<longleftrightarrow> (\<exists>t. s = CHR ''.'' # t \<and> rxm (rseq rs) (Some (CHR ''.''), t) \<noteq> [])"
  unfolding rseq_Cons rxm_dot by (auto split: list.split)

lemma between_then:
  "one_line s \<Longrightarrow> rxm (rseq (between # rs)) (p, s) \<noteq> [] \<longleftrightarrow>
     rxm (rseq rs) (p, s) \<noteq> [] \<or> (\<exists>w v. s = w @ CHR ''.'' # v \<and> rxm (rseq rs) (Some (CHR ''.''), v) \<noteq> [])"
proof -
  assume s: "one_line s"
  have "rxm (rseq (between # rs)) (p, s) \<noteq> [] \<longleftrightarrow> (\<exists>y \<in> set (rxm between (p, s)). rxm (rseq rs) y \<noteq> [])"
    unfolding rseq_Cons by auto
  also have "\<dots> \<longleftrightarrow> rxm (rseq rs) (p, s) \<noteq> [] \<or> (\<exists>w v. s = w @ CHR ''.'' # v \<and> rxm (rseq rs) (Some (CHR ''.''), v) \<noteq> [])"
    unfolding Bex_def rxm_between [OF s] by blast
  finally show ?thesis .
qed

lemma plain_name_dot: "plain_name n \<Longrightarrow> CHR ''.'' \<notin> set n"
  by (auto simp: plain_name_def list_all_iff plain_char_def word_char_def is_digit_def)

lemma subseq_Cons_iff: "subseq (m # ns) l \<longleftrightarrow> (\<exists>q r. l = q @ m # r \<and> subseq ns r)"
proof
  assume "subseq (m # ns) l"
  then obtain q r where "l = q @ m # r" "subseq ns r" using list_emb_ConsD [of "(=)" m ns l] by auto
  then show "\<exists>q r. l = q @ m # r \<and> subseq ns r" by blast
next
  assume "\<exists>q r. l = q @ m # r \<and> subseq ns r"
  then show "subseq (m # ns) l" by (auto simp: list_emb_append2)
qed

text \<open>From the beginning of a name on.\<close>

lemma names_from:
  assumes "list_all plain_name ns" "ns \<noteq> []" "one_line s"
  shows "rxm (rseq (name_factors ns)) (p, s) \<noteq> [] \<longleftrightarrow>
    (\<exists>r. split_on (CHR ''.'') s = hd ns # r \<and> subseq (tl ns) r)"
  using assms
proof (induction ns arbitrary: p s rule: name_factors.induct)
  case (2 n)
  have n: "CHR ''.'' \<notin> set n" using 2 by (simp add: plain_name_dot)
  have e: "rxm (rseq [Alt (rseq [dot]) (rseq [Eol])]) (q, t) \<noteq> [] \<longleftrightarrow> t = [] \<or> (\<exists>v. t = CHR ''.'' # v)" for q t
    by (cases t) (simp_all add: rseq_def rxm_dot)
  have "(\<exists>t. s = n @ t \<and> (t = [] \<or> (\<exists>v. t = CHR ''.'' # v))) \<longleftrightarrow> (\<exists>r. split_on (CHR ''.'') s = n # r)"
  proof
    assume "\<exists>r. split_on (CHR ''.'') s = n # r"
    then obtain r where r: "split_on (CHR ''.'') s = n # r" ..
    then show "\<exists>t. s = n @ t \<and> (t = [] \<or> (\<exists>v. t = CHR ''.'' # v))"
      using join_split_on [of "CHR ''.''" s] by (cases r) auto
  qed (use n in \<open>auto simp: split_on_append split_on_absent\<close>)
  then show ?case unfolding name_factors.simps literal_then e by simp
next
  case (3 n m ns)
  have n: "CHR ''.'' \<notin> set n" using 3 by (simp add: plain_name_dot)
  have ih: "rxm (rseq (name_factors (m # ns))) (q, v) \<noteq> [] \<longleftrightarrow> (\<exists>r. split_on (CHR ''.'') v = m # r \<and> subseq ns r)"
    if "one_line v" for q v
    using 3 that by simp
  have b: "rxm (rseq (between # name_factors (m # ns))) (q, v) \<noteq> [] \<longleftrightarrow> subseq (m # ns) (split_on (CHR ''.'') v)"
    if v: "one_line v" for q v
  proof -
    have o: "v = w @ CHR ''.'' # u \<Longrightarrow> one_line u" for w u using v by (simp add: one_line_def)
    have "rxm (rseq (between # name_factors (m # ns))) (q, v) \<noteq> [] \<longleftrightarrow>
        (\<exists>r. split_on (CHR ''.'') v = m # r \<and> subseq ns r) \<or>
        (\<exists>w u. v = w @ CHR ''.'' # u \<and> (\<exists>r. split_on (CHR ''.'') u = m # r \<and> subseq ns r))"
      unfolding between_then [OF v] using ih o v by blast
    also have "\<dots> \<longleftrightarrow> (\<exists>q r. split_on (CHR ''.'') v = q @ m # r \<and> subseq ns r)"
    proof
      assume "\<exists>q r. split_on (CHR ''.'') v = q @ m # r \<and> subseq ns r"
      then obtain q r where r: "split_on (CHR ''.'') v = q @ m # r" "subseq ns r" by blast
      show "(\<exists>r. split_on (CHR ''.'') v = m # r \<and> subseq ns r) \<or>
          (\<exists>w u. v = w @ CHR ''.'' # u \<and> (\<exists>r. split_on (CHR ''.'') u = m # r \<and> subseq ns r))"
        using r split_on_cut [OF r(1)] by (cases "q = []") auto
    qed (use split_on_at in \<open>metis append_Nil\<close>)
    finally show ?thesis by (simp add: subseq_Cons_iff)
  qed
  have "rxm (rseq (name_factors (n # m # ns))) (p, s) \<noteq> [] \<longleftrightarrow>
      (\<exists>v. s = n @ CHR ''.'' # v \<and> subseq (m # ns) (split_on (CHR ''.'') v))"
  proof -
    have "one_line (n @ CHR ''.'' # v) \<Longrightarrow> one_line v" for v by (simp add: one_line_def)
    then show ?thesis
      using 3(4) b unfolding name_factors.simps literal_then by (auto simp: dot_then)
  qed
  also have "\<dots> \<longleftrightarrow> (\<exists>r. split_on (CHR ''.'') s = n # r \<and> subseq (m # ns) r)"
  proof
    assume "\<exists>r. split_on (CHR ''.'') s = n # r \<and> subseq (m # ns) r"
    then obtain r where r: "split_on (CHR ''.'') s = n # r" "subseq (m # ns) r" by blast
    then have "r \<noteq> []" by auto
    then obtain w u where wu: "s = w @ CHR ''.'' # u" "split_on (CHR ''.'') u = r"
      using split_on_cut [of "CHR ''.''" s "[n]" r] r by auto
    then have "split_on (CHR ''.'') w = [n]" using r(1) by (simp add: split_on_at)
    then have "w = n" using join_split_on [of "CHR ''.''" w] by simp
    then show "\<exists>v. s = n @ CHR ''.'' # v \<and> subseq (m # ns) (split_on (CHR ''.'') v)" using wu r by blast
  qed (use n in \<open>auto simp: split_on_append\<close>)
  finally show ?case by simp
qed simp

lemma concat_map_single: "concat (map (rxm Emp) ys) = ys"
  by (induction ys) simp_all

lemma namespace_rx_test:
  assumes "list_all plain_name ns" "ns \<noteq> []" "one_line s"
  shows "rx_test (rseq (Alt (rseq [Bol]) (rseq [dot]) # name_factors ns)) s \<longleftrightarrow> subseq ns (split_on (CHR ''.'') s)"
proof -
  obtain n ms where ns: "ns = n # ms" using assms(2) by (cases ns) auto
  have start: "rxm (Alt (rseq [Bol]) (rseq [dot])) (p, v) =
      (if p = None then [(p, v)] else []) @ rxm dot (p, v)" for p v
    using concat_map_single by (simp add: rseq_def)
  have f: "rxm (rseq (name_factors ns)) (p, v) \<noteq> [] \<longleftrightarrow> (\<exists>r. split_on (CHR ''.'') v = n # r \<and> subseq ms r)"
    if "s = w @ v" for w v p
    using names_from [OF assms(1,2), of v p] assms(3) that by (simp add: ns one_line_def)
  have "rx_test (rseq (Alt (rseq [Bol]) (rseq [dot]) # name_factors ns)) s \<longleftrightarrow>
      rxm (rseq (name_factors ns)) (None, s) \<noteq> [] \<or>
      (\<exists>w v. s = w @ CHR ''.'' # v \<and> rxm (rseq (name_factors ns)) (Some (CHR ''.''), v) \<noteq> [])"
    unfolding rx_test_iff rseq_Cons start by (auto simp: rxm_dot split: list.splits if_splits)
  also have "\<dots> \<longleftrightarrow> (\<exists>r. split_on (CHR ''.'') s = n # r \<and> subseq ms r) \<or>
      (\<exists>w v. s = w @ CHR ''.'' # v \<and> (\<exists>r. split_on (CHR ''.'') v = n # r \<and> subseq ms r))"
  proof -
    have "s = w @ CHR ''.'' # v \<Longrightarrow>
        rxm (rseq (name_factors ns)) (p, v) \<noteq> [] \<longleftrightarrow> (\<exists>r. split_on (CHR ''.'') v = n # r \<and> subseq ms r)" for w v p
      using f [of "w @ ''.''" v] by simp
    then have "(\<exists>w v. s = w @ CHR ''.'' # v \<and> rxm (rseq (name_factors ns)) (Some (CHR ''.''), v) \<noteq> []) \<longleftrightarrow>
        (\<exists>w v. s = w @ CHR ''.'' # v \<and> (\<exists>r. split_on (CHR ''.'') v = n # r \<and> subseq ms r))"
      by (intro iff_exI conj_cong refl)
    then show ?thesis using f [of "[]" s None] by simp
  qed
  also have "\<dots> \<longleftrightarrow> (\<exists>q r. split_on (CHR ''.'') s = q @ n # r \<and> subseq ms r)"
  proof
    assume "\<exists>q r. split_on (CHR ''.'') s = q @ n # r \<and> subseq ms r"
    then obtain q r where r: "split_on (CHR ''.'') s = q @ n # r" "subseq ms r" by blast
    show "(\<exists>r. split_on (CHR ''.'') s = n # r \<and> subseq ms r) \<or>
        (\<exists>w v. s = w @ CHR ''.'' # v \<and> (\<exists>r. split_on (CHR ''.'') v = n # r \<and> subseq ms r))"
      using r split_on_cut [OF r(1)] by (cases "q = []") auto
  qed (use split_on_at in \<open>metis append_Nil\<close>)
  finally show ?thesis by (simp add: subseq_Cons_iff ns)
qed

section \<open>Having namespaces\<close>

lemma subseq_sorted:
  "sorted xs \<Longrightarrow> sorted ys \<Longrightarrow> subseq xs ys \<longleftrightarrow> mset xs \<subseteq># mset ys"
proof (induction ys arbitrary: xs)
  case Nil
  then show ?case by (cases xs) simp_all
next
  case (Cons y ys)
  show ?case
  proof (cases xs)
    case xs: (Cons x zs)
    show ?thesis
    proof (cases "x = y")
      case True
      then show ?thesis using Cons by (simp add: xs)
    next
      case False
      have "mset xs \<subseteq># mset (y # ys) \<longleftrightarrow> mset xs \<subseteq># mset ys"
      proof
        assume m: "mset xs \<subseteq># mset (y # ys)"
        then have "x \<in> set ys" using False mset_subset_eqD [OF m, of x] by (simp add: xs)
        then have "y < x" using Cons.prems(2) False by (simp add: order_less_le)
        then have z: "count (mset xs) y = 0" using Cons.prems(1) by (auto simp: xs count_eq_zero_iff)
        have "count (mset xs) a \<le> count (mset ys) a" for a
        proof (cases "a = y")
          case True
          show ?thesis unfolding True z by (rule le0)
        next
          case False
          then show ?thesis using mset_subset_eq_count [OF m, of a] by simp
        qed
        then show "mset xs \<subseteq># mset ys" by (rule mset_subset_eqI)
      qed (simp add: subset_mset.order_trans)
      then show ?thesis using Cons False by (simp add: xs)
    qed
  qed simp
qed

text \<open>The names of a handler; those that the namespace false is taken for.\<close>

definition names_of :: "handle_obj \<Rightarrow> string list" where
  "names_of h =
     (case namespace h of None \<Rightarrow> [''false''] | Some s \<Rightarrow> if s = [] then [] else split_on (CHR ''.'') s)"

definition named_well :: "handle_obj \<Rightarrow> bool" where
  "named_well h \<longleftrightarrow> list_all plain_name (names_of h) \<and> sorted (names_of h)"

definition has_names :: "string list \<Rightarrow> handle_obj \<Rightarrow> bool" where
  "has_names ns h \<longleftrightarrow> mset ns \<subseteq># mset (names_of h)"

lemma one_line_name: "plain_name n \<Longrightarrow> one_line n"
proof -
  have "plain_char c \<Longrightarrow> c \<noteq> CHR 0x0A \<and> c \<noteq> CHR 0x0D" for c
    by (auto simp: plain_char_def word_char_def is_digit_def)
  then show "plain_name n \<Longrightarrow> one_line n" by (auto simp: one_line_def plain_name_def list_all_iff)
qed

lemma one_line_plain: "list_all plain_name ns \<Longrightarrow> one_line (join ''.'' ns)"
proof (induction ns rule: name_tokens.induct)
  case (3 n m ns)
  then show ?case using one_line_name [of n] by (simp add: one_line_def)
qed (simp_all add: one_line_name, simp add: one_line_def)

lemma namespaces_of_join:
  assumes "list_all plain_name ns" "ns \<noteq> []" "CHR ''.'' \<notin> set ty"
  shows "namespaces_of (ty @ ''.'' @ join ''.'' ns) = sort ns" "type_part (ty @ ''.'' @ join ''.'' ns) = ty"
    "namespace_part (ty @ ''.'' @ join ''.'' ns) = join ''.'' ns"
proof -
  have d: "takeWhile (\<lambda>c. c \<noteq> CHR ''.'') ty = ty" "dropWhile (\<lambda>c. c \<noteq> CHR ''.'') ty = []"
    using assms(3) by (auto simp: takeWhile_eq_all_conv dropWhile_eq_Nil_conv)
  show n: "namespace_part (ty @ ''.'' @ join ''.'' ns) = join ''.'' ns"
    using assms(3) by (simp add: namespace_part_def dropWhile_append d)
  show "type_part (ty @ ''.'' @ join ''.'' ns) = ty"
    using assms(3) by (simp add: type_part_def takeWhile_append d)
  have "\<forall>n \<in> set ns. CHR ''.'' \<notin> set n" using assms(1) plain_name_dot by (auto simp: list_all_iff)
  then show "namespaces_of (ty @ ''.'' @ join ''.'' ns) = sort ns"
    unfolding namespaces_of_def n using split_on_join [OF assms(2)] by simp
qed

lemma join_not_Nil: "list_all plain_name ns \<Longrightarrow> ns \<noteq> [] \<Longrightarrow> join ''.'' ns \<noteq> []"
  by (cases ns; cases "tl ns") (simp_all add: plain_name_def)

lemma namespace_test_names:
  assumes "list_all plain_name ns" "ns \<noteq> []" "CHR ''.'' \<notin> set ty"
  obtains r where "namespace_test (ty @ ''.'' @ join ''.'' ns) = Inr (Some r)"
    "\<And>h. named_well h \<Longrightarrow> rx_test r (case namespace h of None \<Rightarrow> ''false'' | Some n \<Rightarrow> n) \<longleftrightarrow> has_names ns h"
proof -
  let ?r = "rseq (Alt (rseq [Bol]) (rseq [dot]) # name_factors (sort ns))"
  have s: "list_all plain_name (sort ns)" "sort ns \<noteq> []"
    using assms(1,2) by (simp_all add: list_all_iff) (metis mset_sort mset_zero_iff)
  have "namespace_test (ty @ ''.'' @ join ''.'' ns) = Inr (Some ?r)"
    using namespaces_of_join [OF assms] join_not_Nil [OF assms(1,2)] namespace_regexp [OF s] by (simp add: namespace_test_def)
  moreover have "rx_test ?r (case namespace h of None \<Rightarrow> ''false'' | Some n \<Rightarrow> n) \<longleftrightarrow> has_names ns h"
    if h: "named_well h" for h
  proof -
    let ?s = "case namespace h of None \<Rightarrow> ''false'' | Some n \<Rightarrow> n"
    have f: "split_on (CHR ''.'') ''false'' = [''false'']" by code_simp
    have j: "join ''.'' (names_of h) = ?s"
      by (auto simp: names_of_def join_split_on split: option.split)
    have "one_line ?s" using one_line_plain [of "names_of h"] h j by (simp add: named_well_def)
    then have "rx_test ?r ?s \<longleftrightarrow> subseq (sort ns) (split_on (CHR ''.'') ?s)" using namespace_rx_test [OF s] by blast
    also have "\<dots> \<longleftrightarrow> subseq (sort ns) (names_of h)"
    proof (cases "?s = []")
      case True
      then have "names_of h = []" by (auto simp: names_of_def split: option.splits)
      then show ?thesis using s by (cases "sort ns") (auto simp: True plain_name_def)
    next
      case False
      then have "split_on (CHR ''.'') ?s = names_of h" using f by (auto simp: names_of_def split: option.splits)
      then show ?thesis by simp
    qed
    also have "\<dots> \<longleftrightarrow> has_names ns h"
      using subseq_sorted [of "sort ns" "names_of h"] h by (simp add: has_names_def named_well_def)
    finally show ?thesis .
  qed
  ultimately show thesis by (rule that)
qed

end
