(* ===== verification/EventHandlerProps.thy ===== *)
theory EventHandlerProps
  imports EventNamespaces
begin

text \<open>
  Properties of event handlers: how their lists are kept, what \<open>off\<close> leaves, that \<open>on\<close> and \<open>off\<close> undo each
  other, and the order in which \<open>dispatch\<close> calls.
\<close>

section \<open>The lists of handlers\<close>

lemma oset_same: "oget m k = Some v \<Longrightarrow> oset m k v = m"
  by (induction m k v rule: oset.induct) (auto simp: oget_def)

lemma oset_oset: "oset (oset m k x) k v = oset m k v"
  by (induction m k v rule: oset.induct) auto

lemma odel_new: "oget m k = None \<Longrightarrow> odel (oset m k v) k = m"
  unfolding odel_def by (induction m k v rule: oset.induct) (auto simp: oget_def map_of_eq_None_iff filter_id_conv)

definition table :: "event_data \<Rightarrow> (string, handler_list) obj" where
  "table w = (case events w of None \<Rightarrow> [] | Some m \<Rightarrow> m)"

definition handlers_at :: "event_data \<Rightarrow> string \<Rightarrow> handle_obj list" where
  "handlers_at w t = (case oget (table w) t of None \<Rightarrow> [] | Some l \<Rightarrow> hlist l)"

abbreviation delegated :: "handle_obj \<Rightarrow> bool" where
  "delegated h \<equiv> ho_selector h \<noteq> []"

text \<open>Delegated handlers come first, and their number is known.\<close>

definition in_order :: "handler_list \<Rightarrow> bool" where
  "in_order l \<longleftrightarrow> delegate_count l \<le> length (hlist l) \<and>
     list_all delegated (take (delegate_count l) (hlist l)) \<and>
     list_all (\<lambda>h. \<not> delegated h) (drop (delegate_count l) (hlist l))"

definition list_kept :: "string \<Rightarrow> handler_list \<Rightarrow> bool" where
  "list_kept t l \<longleftrightarrow> hlist l \<noteq> [] \<and> in_order l \<and>
     list_all (\<lambda>h. ho_type h = t \<and> special_type (delegated h) (orig_type h) = t) (hlist l)"

text \<open>The counts of the document are positive, and it captures what is counted.\<close>

definition captures_kept :: "event_data \<Rightarrow> bool" where
  "captures_kept w \<longleftrightarrow>
     wf_obj (captures w) \<and> (\<forall>t n. oget (captures w) t = Some n \<longrightarrow> 0 < n) \<and>
     (\<forall>t u. own_setup w t = Some u \<longrightarrow> (u \<in> set (capturing w) \<longleftrightarrow> oget (captures w) t \<noteq> None))"

text \<open>No list is empty, the element listens to the types that have a list, and the document captures for the others.\<close>

definition well_kept :: "event_data \<Rightarrow> bool" where
  "well_kept w \<longleftrightarrow> wf_obj (table w) \<and> listening w = filter (\<lambda>t. own_setup w t = None) (okeys (table w)) \<and>
     captures_kept w \<and> (\<forall>t. own_setup w t \<noteq> None \<and> t \<in> set (okeys (table w)) \<longrightarrow> oget (captures w) t \<noteq> None) \<and>
     (\<forall>t l. oget (table w) t = Some l \<longrightarrow> list_kept t l)"

lemma in_order_iff:
  "in_order l \<longleftrightarrow> (\<exists>ds rs. hlist l = ds @ rs \<and> delegate_count l = length ds \<and> list_all delegated ds \<and>
     list_all (\<lambda>h. \<not> delegated h) rs)"
proof
  assume "in_order l"
  then show "\<exists>ds rs. hlist l = ds @ rs \<and> delegate_count l = length ds \<and> list_all delegated ds \<and>
     list_all (\<lambda>h. \<not> delegated h) rs"
    unfolding in_order_def
    by (intro exI [of _ "take (delegate_count l) (hlist l)"] exI [of _ "drop (delegate_count l) (hlist l)"]) simp
qed (auto simp: in_order_def)

lemma in_order_insert: "in_order l \<Longrightarrow> in_order (insert_handler h l)"
proof -
  assume "in_order l"
  then obtain ds rs where l: "hlist l = ds @ rs" "delegate_count l = length ds" "list_all delegated ds"
    "list_all (\<lambda>h. \<not> delegated h) rs" by (auto simp: in_order_iff)
  show ?thesis
  proof (cases "delegated h")
    case True
    then have "hlist (insert_handler h l) = (ds @ [h]) @ rs" "delegate_count (insert_handler h l) = length (ds @ [h])"
      using l by (simp_all add: insert_handler_def)
    then show ?thesis using l True unfolding in_order_iff by (intro exI [of _ "ds @ [h]"] exI [of _ rs]) simp
  next
    case False
    then have "hlist (insert_handler h l) = ds @ (rs @ [h])" "delegate_count (insert_handler h l) = length ds"
      using l by (simp_all add: insert_handler_def)
    then show ?thesis using l False unfolding in_order_iff by (intro exI [of _ ds] exI [of _ "rs @ [h]"]) simp
  qed
qed

lemma set_insert_handler [simp]: "set (hlist (insert_handler h l)) = insert h (set (hlist l))"
proof -
  have "set (take n xs) \<union> set (drop n xs) = set xs" for n and xs :: "handle_obj list"
    by (metis append_take_drop_id set_append)
  then show ?thesis by (auto simp: insert_handler_def)
qed

lemma insert_handler_not_Nil [simp]: "hlist (insert_handler h l) \<noteq> []"
  by (simp add: insert_handler_def)

lemma remove_loop_filter:
  "j \<le> length (hlist l) \<Longrightarrow>
   hlist (remove_loop P j l) = filter (\<lambda>h. \<not> P h) (take j (hlist l)) @ drop j (hlist l) \<and>
   delegate_count (remove_loop P j l) = delegate_count l - length (filter (\<lambda>h. P h \<and> delegated h) (take j (hlist l)))"
proof (induction j arbitrary: l)
  case (Suc j)
  define h where "h = hlist l ! j"
  have j: "j < length (hlist l)" using Suc.prems by simp
  then have t: "take (Suc j) (hlist l) = take j (hlist l) @ [h]" "drop j (hlist l) = h # drop (Suc j) (hlist l)"
    by (simp_all add: h_def take_Suc_conv_app_nth Cons_nth_drop_Suc)
  show ?case
  proof (cases "P h")
    case True
    let ?m = "l\<lparr>hlist := take j (hlist l) @ drop (Suc j) (hlist l),
                delegate_count := (if delegated h then delegate_count l - 1 else delegate_count l)\<rparr>"
    have "remove_loop P (Suc j) l = remove_loop P j ?m" using True by (simp add: h_def Let_def)
    then show ?thesis using Suc.IH [of ?m] j True unfolding t by (simp add: min_absorb2)
  next
    case False
    then have "remove_loop P (Suc j) l = remove_loop P j l" by (simp add: h_def Let_def)
    then show ?thesis using Suc.IH [of l] j False unfolding t by simp
  qed
qed simp

definition without :: "(handle_obj \<Rightarrow> bool) \<Rightarrow> handler_list \<Rightarrow> handler_list" where
  "without P l = remove_loop P (length (hlist l)) l"

lemma hlist_without: "hlist (without P l) = filter (\<lambda>h. \<not> P h) (hlist l)"
  by (simp add: without_def remove_loop_filter)

lemma in_order_without:
  assumes "in_order l"
  shows "in_order (without P l)"
proof -
  obtain ds rs where l: "hlist l = ds @ rs" "delegate_count l = length ds" "list_all delegated ds"
    "list_all (\<lambda>h. \<not> delegated h) rs" using assms by (auto simp: in_order_iff)
  have "filter (\<lambda>h. P h \<and> delegated h) ds = filter P ds" using l(3) by (intro filter_cong refl) (auto simp: list_all_iff)
  moreover have "filter (\<lambda>h. P h \<and> delegated h) rs = []" using l(4) by (auto simp: list_all_iff filter_empty_conv)
  ultimately have "delegate_count (without P l) = length ds - length (filter P ds)"
    using remove_loop_filter [of "length (hlist l)" l P] by (simp add: without_def l)
  also have "\<dots> = length (filter (\<lambda>h. \<not> P h) ds)" using sum_length_filter_compl [of P ds] by simp
  finally show ?thesis
    using l unfolding in_order_iff hlist_without
    by (intro exI [of _ "filter (\<lambda>h. \<not> P h) ds"] exI [of _ "filter (\<lambda>h. \<not> P h) rs"]) (auto simp: list_all_iff)
qed

lemma remove_handlers_cases:
  "remove_handlers P t w =
     (case oget (table w) t of
        None \<Rightarrow> w
      | Some l \<Rightarrow> if hlist l \<noteq> [] \<and> hlist (without P l) = []
                then (detach_type t w)\<lparr>events := Some (odel (table w) t)\<rparr>
                else w\<lparr>events := Some (oset (table w) t (without P l))\<rparr>)"
  by (auto simp: remove_handlers_def table_def without_def Let_def split: option.split)

lemma table_upd [simp]: "table (w\<lparr>events := Some m\<rparr>) = m" "table (w\<lparr>events := None\<rparr>) = []"
  "table (w\<lparr>listening := ls\<rparr>) = table w" "table (w\<lparr>captures := cs\<rparr>) = table w" "table (w\<lparr>capturing := ls\<rparr>) = table w"
  by (simp_all add: table_def)

text \<open>Listeners.\<close>

lemma own_setup_upd [simp]:
  "own_setup (w\<lparr>events := m\<rparr>) = own_setup w" "own_setup (w\<lparr>listening := ls\<rparr>) = own_setup w"
  "own_setup (w\<lparr>captures := cs\<rparr>) = own_setup w" "own_setup (w\<lparr>capturing := ls\<rparr>) = own_setup w"
  by (simp_all add: own_setup_def fun_eq_iff)

lemma own_setup_inj: "own_setup w t = Some u \<Longrightarrow> own_setup w t' = Some u \<Longrightarrow> t = t'"
  by (auto simp: own_setup_def oget_def split: if_splits)

lemma capture_simps [simp]:
  "own_setup (capture t u w) = own_setup w" "own_setup (release t u w) = own_setup w"
  "table (capture t u w) = table w" "table (release t u w) = table w"
  "events (capture t u w) = events w" "events (release t u w) = events w"
  "listening (capture t u w) = listening w" "listening (release t u w) = listening w"
  by (simp_all add: capture_def release_def Let_def)

lemma captures_kept_upd [simp]:
  "captures_kept (w\<lparr>events := m\<rparr>) = captures_kept w" "captures_kept (w\<lparr>listening := ls\<rparr>) = captures_kept w"
  by (simp_all add: captures_kept_def)

lemma capture_kept:
  assumes "captures_kept w" "own_setup w t = Some u"
  shows "captures_kept (capture t u w)" "oget (captures (capture t u w)) t' = None \<longleftrightarrow> t' \<noteq> t \<and> oget (captures w) t' = None"
proof -
  show "oget (captures (capture t u w)) t' = None \<longleftrightarrow> t' \<noteq> t \<and> oget (captures w) t' = None"
    by (simp add: capture_def Let_def obj.get_put)
  have c: "u \<in> set (capturing (capture t u w))"
    using assms by (cases "oget (captures w) t") (auto simp: capture_def captures_kept_def)
  have d: "u' \<in> set (capturing (capture t u w)) \<longleftrightarrow> u' = u \<or> u' \<in> set (capturing w)" for u'
    using c by (auto simp: capture_def Let_def)
  have "u' \<in> set (capturing (capture t u w)) \<longleftrightarrow> oget (captures (capture t u w)) t' \<noteq> None" if "own_setup w t' = Some u'" for t' u'
  proof (cases "t' = t")
    case True
    then show ?thesis using that assms(2) c by (simp add: capture_def Let_def obj.get_put)
  next
    case False
    then have "u' \<noteq> u" using that assms(2) own_setup_inj by blast
    then show ?thesis using False d that assms(1) by (simp add: capture_def Let_def obj.get_put captures_kept_def)
  qed
  moreover have "0 < n" if "oget (captures (capture t u w)) t' = Some n" for t' n
    using that assms(1) by (fastforce simp: capture_def Let_def obj.get_put captures_kept_def split: option.splits if_splits)
  moreover have "wf_obj (captures (capture t u w))" using assms(1) by (simp add: capture_def Let_def captures_kept_def wf_oset)
  ultimately show "captures_kept (capture t u w)" unfolding captures_kept_def by simp
qed

lemma release_kept:
  assumes "captures_kept w" "own_setup w t = Some u" "oget (captures w) t = Some n"
  shows "captures_kept (release t u w)"
    "oget (captures (release t u w)) t' = (if t' = t then if n = 1 then None else Some (n - 1) else oget (captures w) t')"
proof -
  have n: "0 < n" using assms(1,3) by (simp add: captures_kept_def)
  show g: "oget (captures (release t u w)) t' = (if t' = t then if n = 1 then None else Some (n - 1) else oget (captures w) t')" for t'
    using assms(1,3) by (simp add: release_def Let_def js_obj captures_kept_def)
  have c: "u' \<in> set (capturing (release t u w)) \<longleftrightarrow> u' \<in> set (capturing w) \<and> (u' = u \<longrightarrow> n \<noteq> 1)" for u'
    using assms(3) by (auto simp: release_def Let_def)
  have "u' \<in> set (capturing (release t u w)) \<longleftrightarrow> oget (captures (release t u w)) t' \<noteq> None" if "own_setup w t' = Some u'" for t' u'
  proof (cases "t' = t")
    case True
    then show ?thesis using that assms unfolding g c captures_kept_def by auto
  next
    case False
    then have "u' \<noteq> u" using that assms(2) own_setup_inj by blast
    then show ?thesis using False that assms(1) unfolding g c captures_kept_def by simp
  qed
  moreover have "wf_obj (captures (release t u w))" using assms(1) by (simp add: release_def Let_def captures_kept_def wf_oset wf_odel)
  moreover have "0 < m" if "oget (captures (release t u w)) t' = Some m" for t' m
    using that assms(1) n unfolding g by (auto simp: captures_kept_def split: if_splits)
  ultimately show "captures_kept (release t u w)" unfolding captures_kept_def by simp
qed

lemma attach_simps [simp]:
  "own_setup (attach_type t w) = own_setup w" "own_setup (detach_type t w) = own_setup w"
  "table (attach_type t w) = table w" "table (detach_type t w) = table w"
  "events (attach_type t w) = events w" "events (detach_type t w) = events w"
  by (simp_all add: attach_type_def detach_type_def split: option.split)

lemma detach_events: "detach_type t (w\<lparr>events := m\<rparr>) = (detach_type t w)\<lparr>events := m\<rparr>"
  by (simp add: detach_type_def release_def Let_def split: option.split)

text \<open>What taking up a type and giving it up again leaves.\<close>

lemma detach_attach:
  assumes "captures_kept w" "t \<notin> set (listening w)"
  shows "detach_type t (attach_type t w) = w"
proof (cases "own_setup w t")
  case None
  have "filter (\<lambda>u. u \<noteq> t) (listening w) = listening w" using assms(2) by (auto simp: filter_id_conv)
  then show ?thesis using None by (simp add: attach_type_def detach_type_def)
next
  case (Some u)
  have "release t u (capture t u w) = w"
  proof (cases "oget (captures w) t")
    case None
    then have "u \<notin> set (capturing w)" using assms(1) Some by (simp add: captures_kept_def)
    then have "filter (\<lambda>v. v \<noteq> u) (capturing w) = capturing w" by (auto simp: filter_id_conv)
    then show ?thesis using None \<open>u \<notin> set (capturing w)\<close> by (simp add: capture_def release_def obj.get_put odel_new)
  next
    case (Some n)
    then have "0 < n" using assms(1) by (simp add: captures_kept_def)
    then show ?thesis using Some by (simp add: capture_def release_def obj.get_put oset_oset oset_same)
  qed
  then show ?thesis using Some by (simp add: attach_type_def detach_type_def)
qed

lemma well_kept_remove:
  assumes "well_kept w"
  shows "well_kept (remove_handlers P t w)"
proof (cases "oget (table w) t")
  case None
  then show ?thesis using assms by (simp add: remove_handlers_cases)
next
  case (Some l)
  then have l: "list_kept t l" using assms by (simp add: well_kept_def)
  show ?thesis
  proof (cases "hlist (without P l) = []")
    case True
    have e: "remove_handlers P t w = (detach_type t w)\<lparr>events := Some (odel (table w) t)\<rparr>"
      using True Some l by (simp add: remove_handlers_cases list_kept_def)
    have k: "t \<in> set (okeys (table w))" using Some obj.keys_get [of t "table w"] by simp
    have c: "captures_kept (detach_type t w) \<and> (\<forall>t'. t' \<noteq> t \<longrightarrow> oget (captures (detach_type t w)) t' = oget (captures w) t')"
    proof (cases "own_setup w t")
      case None
      then show ?thesis using assms by (simp add: detach_type_def well_kept_def)
    next
      case (Some u)
      then obtain n where "oget (captures w) t = Some n" using assms k unfolding well_kept_def by (metis option.exhaust option.distinct(1))
      then show ?thesis using assms Some release_kept [of w t u n] by (simp add: detach_type_def well_kept_def)
    qed
    have li: "listening (detach_type t w) = filter (\<lambda>t. own_setup w t = None) (okeys (odel (table w) t))"
      using assms by (cases "own_setup w t") (auto simp: detach_type_def well_kept_def obj.keys_del intro!: filter_cong)
    show ?thesis
      using assms c li unfolding e by (auto simp: well_kept_def wf_odel js_obj)
  next
    case False
    then have "list_kept t (without P l)"
      using l in_order_without by (auto simp: list_kept_def hlist_without list_all_iff)
    moreover have "okeys (oset (table w) t (without P l)) = okeys (table w)"
      using Some obj.keys_get [of t "table w"] by (simp add: keys_oset)
    moreover have "remove_handlers P t w = w\<lparr>events := Some (oset (table w) t (without P l))\<rparr>"
      using Some False by (simp add: remove_handlers_cases)
    ultimately show ?thesis
      using assms by (simp add: well_kept_def wf_oset obj.get_put)
  qed
qed

lemma handlers_at_remove:
  assumes "well_kept w"
  shows "handlers_at (remove_handlers P t w) u = (if u = t then filter (\<lambda>h. \<not> P h) (handlers_at w u) else handlers_at w u)"
proof (cases "oget (table w) t")
  case None
  then show ?thesis by (simp add: remove_handlers_cases handlers_at_def)
next
  case (Some l)
  then show ?thesis
    by (cases "hlist (without P l) = []") (auto simp: remove_handlers_cases handlers_at_def js_obj hlist_without)
qed

section \<open>Adding and removing keep the lists\<close>

lemma well_kept_handlers:
  "well_kept w \<Longrightarrow> h \<in> set (handlers_at w t) \<Longrightarrow> ho_type h = t \<and> special_type (delegated h) (orig_type h) = t"
proof (cases "oget (table w) t")
  case (Some l)
  assume "well_kept w" "h \<in> set (handlers_at w t)"
  then have "list_kept t l" "h \<in> set (hlist l)" using Some by (auto simp: handlers_at_def well_kept_def)
  then show ?thesis by (simp add: list_kept_def list_all_iff)
qed (simp add: handlers_at_def)

lemma handlers_for_table:
  "handlers_for w t =
     (case oget (table w) t of Some l \<Rightarrow> (l, w)
      | None \<Rightarrow> (if claims_native w t then insert_handler (native_handler t) empty_list else empty_list,
                attach_type t w))"
  by (simp add: handlers_for_def table_def)

lemma native_type: "claims_native w t \<Longrightarrow> special_type False t = t"
proof -
  have "special_type False ''focus'' = ''focus''" "special_type False ''blur'' = ''blur''" "special_type False ''click'' = ''click''"
    by code_simp+
  then show "claims_native w t \<Longrightarrow> special_type False t = t" by (auto simp: claims_native_def)
qed

lemma list_kept_insert:
  assumes "l = empty_list \<or> list_kept t l" "ho_type h = t" "special_type (delegated h) (orig_type h) = t"
  shows "list_kept t (insert_handler h l)"
proof -
  have "in_order l" "list_all (\<lambda>h. ho_type h = t \<and> special_type (delegated h) (orig_type h) = t) (hlist l)"
    using assms(1) by (auto simp: list_kept_def in_order_def empty_list_def)
  then show ?thesis using assms(2,3) in_order_insert by (simp add: list_kept_def list_all_iff)
qed

lemma attach_kept:
  assumes "well_kept w" "oget (table w) t = None"
  shows "captures_kept (attach_type t w)" "own_setup w t' \<noteq> None \<and> (t' = t \<or> oget (captures w) t' \<noteq> None) \<longrightarrow> oget (captures (attach_type t w)) t' \<noteq> None"
    "listening (attach_type t w) = filter (\<lambda>t. own_setup w t = None) (okeys (table w) @ [t])"
proof -
  have k: "captures_kept w" "listening w = filter (\<lambda>t. own_setup w t = None) (okeys (table w))" using assms(1) by (simp_all add: well_kept_def)
  show "captures_kept (attach_type t w)" using k capture_kept(1) [OF k(1)] by (simp add: attach_type_def split: option.split)
  show "own_setup w t' \<noteq> None \<and> (t' = t \<or> oget (captures w) t' \<noteq> None) \<longrightarrow> oget (captures (attach_type t w)) t' \<noteq> None"
    using capture_kept(2) [OF k(1), of t _ t'] by (auto simp: attach_type_def split: option.splits)
  show "listening (attach_type t w) = filter (\<lambda>t. own_setup w t = None) (okeys (table w) @ [t])"
    using k(2) by (simp add: attach_type_def split: option.split)
qed

lemma handlers_for_kept:
  assumes "well_kept w" "handlers_for w t = (l, u)"
  shows "(l = empty_list \<or> list_kept t l) \<and> u = (if oget (table w) t = None then attach_type t w else w)"
proof (cases "oget (table w) t")
  case None
  have "list_kept t (insert_handler (native_handler t) empty_list)" if "claims_native w t"
    using native_type [OF that] by (intro list_kept_insert) (simp_all add: native_handler_def)
  then show ?thesis using assms(2) None by (auto simp: handlers_for_table)
next
  case (Some m)
  then have "l = m" "u = w" using assms(2) by (simp_all add: handlers_for_table)
  then show ?thesis using assms(1) Some by (simp add: well_kept_def)
qed

lemma well_kept_add_type:
  assumes "well_kept w"
  shows "well_kept (add_type eng sel d f t w)"
proof (cases "type_part t = []")
  case False
  define h where "h = new_handler eng sel d f t"
  define ty where "ty = ho_type h"
  have ty: "special_type (delegated h) (orig_type h) = ty" by (simp add: ty_def h_def new_handler_def)
  obtain l u where lu: "handlers_for w ty = (l, u)" by (cases "handlers_for w ty")
  note u = handlers_for_kept [OF assms lu]
  have kept: "list_kept ty (insert_handler h l)"
    using u ty by (intro list_kept_insert) (simp_all add: ty_def)
  have r: "add_type eng sel d f t w = u\<lparr>events := Some (oset (table w) ty (insert_handler h l))\<rparr>"
    using False lu by (simp add: add_type_def h_def [symmetric] ty_def [symmetric] table_def Let_def)
  have k: "okeys (oset (table w) ty (insert_handler h l)) = (if oget (table w) ty = None then okeys (table w) @ [ty] else okeys (table w))"
    using obj.keys_get [of ty "table w"] by (auto simp: keys_oset)
  have lists: "\<forall>t l'. oget (oset (table w) ty (insert_handler h l)) t = Some l' \<longrightarrow> list_kept t l'"
    using assms kept by (auto simp: well_kept_def obj.get_put)
  show ?thesis
  proof (cases "oget (table w) ty")
    case None
    then have e: "u = attach_type ty w" using u by simp
    show ?thesis
      using assms None lists attach_kept(1,3) [OF assms None] attach_kept(2) [OF assms None] unfolding r e well_kept_def
      by (auto simp: k wf_oset)
  next
    case (Some m)
    then have e: "u = w" using u by simp
    show ?thesis using assms Some lists unfolding r e well_kept_def by (simp add: k wf_oset)
  qed
qed (simp add: add_type_def assms)

lemma well_kept_event_add:
  assumes "well_kept w"
  shows "well_kept (snd (event_add eng types f d sel w))"
proof -
  have "well_kept (w\<lparr>events := Some (table w)\<rparr>)" using assms by (simp add: well_kept_def)
  then have "well_kept (foldr (add_type eng sel d f) ts (w\<lparr>events := Some (table w)\<rparr>))" for ts
    by (induction ts) (simp_all add: well_kept_add_type)
  then show ?thesis using assms by (simp add: event_add_def table_def)
qed

lemma well_kept_forget: "well_kept w \<Longrightarrow> well_kept (forget_empty w)" "handlers_at (forget_empty w) t = handlers_at w t"
  by (auto simp: forget_empty_def well_kept_def handlers_at_def table_def)

lemma well_kept_named: "well_kept w \<Longrightarrow> well_kept (remove_named mapped f sel r t w)"
  by (simp add: remove_named_def well_kept_remove)

lemma well_kept_remove_type:
  assumes "well_kept w"
  shows "well_kept (snd (remove_type f sel t w))"
proof -
  have "well_kept v \<Longrightarrow> well_kept (foldl (\<lambda>w k. remove_named True f sel r k w) v ks)" for v r ks
    by (induction ks arbitrary: v) (simp_all add: well_kept_named)
  then show ?thesis using assms by (simp add: remove_type_def well_kept_named split: sum.split)
qed

lemma well_kept_event_remove:
  assumes "well_kept w"
  shows "well_kept (snd (event_remove types f sel w))"
proof -
  have "well_kept v \<Longrightarrow> well_kept (snd (remove_types f sel ts v))" for v ts
  proof (induction ts arbitrary: v)
    case (Cons t ts)
    show ?case
      using Cons.IH [OF well_kept_remove_type [OF Cons.prems, of f sel t]] well_kept_remove_type [OF Cons.prems, of f sel t]
      by (cases "remove_type f sel t v") simp
  qed simp
  then show ?thesis
    using assms well_kept_forget(1) by (simp add: event_remove_def Let_def case_prod_beta)
qed

text \<open>What \<open>on\<close>, \<open>one\<close> and \<open>off\<close> can make of an element without handlers, also when they throw.\<close>

inductive listened :: "engine \<Rightarrow> event_data \<Rightarrow> bool" for eng where
  fresh: "listened eng \<lparr>accepts = a, checkable = c, no_focusin = nf, events = None, listening = [], captures = [], capturing = []\<rparr>"
| added: "listened eng w \<Longrightarrow> listened eng (snd (event_add eng types f d sel w))"
| removed: "listened eng w \<Longrightarrow> listened eng (snd (event_remove types g sel w))"
| elsewhere: "listened eng w \<Longrightarrow> own_setup w t = Some u \<Longrightarrow> listened eng (capture t u w)"  \<comment> \<open>another element\<close>
| no_more: "listened eng w \<Longrightarrow> own_setup w t = Some u \<Longrightarrow> oget (captures w) t = Some n \<Longrightarrow>
    (if oget (table w) t = None then 0 else 1) < n \<Longrightarrow> listened eng (release t u w)"

lemma listened_kept: "listened eng w \<Longrightarrow> well_kept w"
proof (induction rule: listened.induct)
  case (fresh a c nf)
  show ?case by (simp add: well_kept_def captures_kept_def table_def wf_obj_def)
next
  case (elsewhere w t u)
  then show ?case using capture_kept [of w t u] by (simp add: well_kept_def)
next
  case (no_more w t u n)
  have "captures_kept w" using no_more(5) by (simp add: well_kept_def)
  note k = release_kept [OF this no_more(2,3)]
  have "oget (captures (release t u w)) t' \<noteq> None" if "own_setup w t' \<noteq> None" "t' \<in> set (okeys (table w))" for t'
  proof -
    have "oget (captures w) t' \<noteq> None" using that no_more(5) unfolding well_kept_def by blast
    then show ?thesis using that(2) no_more(4) obj.keys_get [of t "table w"] by (auto simp: k(2))
  qed
  then show ?case using no_more(5) k(1) unfolding well_kept_def by simp
qed (simp_all add: well_kept_event_add well_kept_event_remove)

lemma listened_on: "listened eng w \<Longrightarrow> listened eng (snd (event_on eng once types sel d f w))"
  by (auto simp: event_on_def Let_def case_prod_beta intro: listened.added split: option.split)

lemma listened_off: "listened eng w \<Longrightarrow> listened eng (snd (event_off types sel f w))"
  by (simp add: event_off_def Let_def case_prod_beta listened.removed)


section \<open>Taking off by namespace\<close>

lemma special_type_idem: "special_type False (special_type b t) = special_type b t"
  by (simp add: special_type_def mouse_types_def focus_types_def oget_def)

lemma no_space_split:
  assumes "list_all (\<lambda>c. \<not> in_cls False False rs c) s"
  shows "rx_split_from (Cls False False rs) acc (p, s) = [acc @ s]"
  using assms by (induction s arbitrary: acc p) (subst rx_split_from.simps; simp)+

lemma types_of_single:
  assumes "t \<noteq> []" "list_all (\<lambda>c. plain_char c \<or> c = CHR ''.'') t"
  shows "types_of t = [t]"
proof -
  have "list_all (\<lambda>c. \<not> in_cls False False (ranges [] @ map (\<lambda>c. (c, c)) [CHR 0x20, CHR 0x09, CHR 0x0A, CHR 0x0C, CHR 0x0D]) c) t"
    using assms(2) by (rule list.pred_mono_strong) (auto simp: plain_char_def word_char_def is_digit_def)
  then have "class_words t = [t]"
    using no_space_split assms(1) by (simp add: class_words_def rx_split_def cls_def del: in_cls_case)
  then show ?thesis by (simp add: types_of_def)
qed

lemma handlers_at_named:
  assumes "well_kept w"
  shows "handlers_at (foldl (\<lambda>w k. remove_named True None [] r k w) w ks) t =
    (if t \<in> special_type False ` set ks then filter (\<lambda>h. \<not> removable True [] None r [] h) (handlers_at w t) else handlers_at w t)"
  using assms
proof (induction ks arbitrary: w)
  case (Cons k ks)
  have "removable True k None r [] = removable True [] None r []" by (simp add: removable_def fun_eq_iff)
  then have "handlers_at (remove_named True None [] r k w) t =
      (if t = special_type False k then filter (\<lambda>h. \<not> removable True [] None r [] h) (handlers_at w t) else handlers_at w t)"
    using handlers_at_remove [OF Cons.prems] by (simp add: remove_named_def)
  then show ?case
    using Cons.IH [OF well_kept_named [OF Cons.prems], of True None "[]" r k] by auto
qed simp

text \<open>C27: Taking off handlers by namespaces alone (as \<open>off( ".validate" )\<close> of the validator's \<open>destroy\<close> does) leaves,
  for every type and in their order, exactly the handlers that lack one of the namespaces (for names of letters, digits,
  underscores and dashes): the pattern that is built from the names tests for just that.\<close>

theorem off_by_namespace:
  assumes "listened eng w" "list_all plain_name ns" "ns \<noteq> []"
    and "\<forall>t. list_all named_well (handlers_at w t)"
  shows "\<exists>u. event_off (''.'' @ join ''.'' ns) Absent Absent w = (False, u) \<and>
    (\<forall>t. handlers_at u t = filter (\<lambda>h. \<not> has_names ns h) (handlers_at w t))"
proof -
  define tt where "tt = ''.'' @ join ''.'' ns"
  have w: "well_kept w" using assms(1) by (rule listened_kept)
  obtain r where r: "namespace_test tt = Inr (Some r)"
    "\<And>h. named_well h \<Longrightarrow> rx_test r (case namespace h of None \<Rightarrow> ''false'' | Some n \<Rightarrow> n) \<longleftrightarrow> has_names ns h"
    using namespace_test_names [OF assms(2,3), of "[]"] by (auto simp: tt_def)
  have same: "filter (\<lambda>h. \<not> removable True [] None (Some r) [] h) (handlers_at w t) = filter (\<lambda>h. \<not> has_names ns h) (handlers_at w t)" for t
    using assms(4) r(2) by (intro filter_cong refl) (auto simp: removable_def list_all_iff)
  have "list_all (\<lambda>c. plain_char c \<or> c = CHR ''.'') (join ''.'' ns)"
    using assms(2) by (induction ns rule: name_tokens.induct) (auto simp: plain_name_def list_all_iff)
  then have ty: "types_of tt = [tt]" by (intro types_of_single) (simp_all add: tt_def)
  have part: "type_part tt = []" by (simp add: type_part_def tt_def)
  define u where "u = foldl (\<lambda>w k. remove_named True None [] (Some r) k w) w (event_keys w)"
  have keys: "event_keys w = okeys (table w)" by (simp add: event_keys_def table_def split: option.split)
  have u: "handlers_at u t = filter (\<lambda>h. \<not> has_names ns h) (handlers_at w t)" for t
  proof (cases "t \<in> special_type False ` set (event_keys w)")
    case True
    then show ?thesis unfolding u_def handlers_at_named [OF w] same by simp
  next
    case False
    have "handlers_at w t = []"
    proof (rule ccontr)
      assume "handlers_at w t \<noteq> []"
      then obtain h where h: "h \<in> set (handlers_at w t)" by (cases "handlers_at w t") auto
      then have "t \<in> set (event_keys w)" using obj.keys_get [of t "table w"] by (auto simp: keys handlers_at_def split: option.splits)
      moreover have "special_type False t = t" using well_kept_handlers [OF w h] special_type_idem by metis
      ultimately show False using False by (metis imageI)
    qed
    then show ?thesis unfolding u_def handlers_at_named [OF w] same by simp
  qed
  have "event_off tt Absent Absent w = event_remove tt None [] w"
    by (simp add: event_off_def arg_handler_def)
  moreover have "\<exists>v. event_remove tt None [] w = (False, v) \<and> (\<forall>t. handlers_at v t = handlers_at u t)"
  proof (cases "event_keys w = []")
    case True
    then have "u = w" by (simp add: u_def)
    then show ?thesis
      using True by (simp add: event_remove_def ty remove_type_def part well_kept_forget(2))
  next
    case False
    then have "events w \<noteq> None" by (cases "events w") (simp_all add: event_keys_def)
    with False show ?thesis
      by (auto simp: event_remove_def ty remove_type_def part r(1) u_def [symmetric] well_kept_forget(2))
  qed
  ultimately have "\<exists>v. event_off tt Absent Absent w = (False, v) \<and>
      (\<forall>t. handlers_at v t = filter (\<lambda>h. \<not> has_names ns h) (handlers_at w t))" using u by auto
  then show ?thesis by (simp add: tt_def)
qed

section \<open>On and off again\<close>

lemma without_insert:
  assumes "in_order l" "P h" "list_all (\<lambda>h. \<not> P h) (hlist l)"
  shows "without P (insert_handler h l) = l"
proof (rule handler_list.equality)
  have all: "filter (\<lambda>h. \<not> P h) (hlist l) = hlist l" using assms(3) by (simp add: filter_id_conv list_all_iff)
  then have "filter (\<lambda>h. \<not> P h) (take n (hlist l)) @ filter (\<lambda>h. \<not> P h) (drop n (hlist l)) = hlist l" for n
    by (metis append_take_drop_id filter_append)
  then show e: "hlist (without P (insert_handler h l)) = hlist l"
    unfolding hlist_without insert_handler_def using assms(2) all by auto
  have "in_order (without P (insert_handler h l))" using assms(1) in_order_insert in_order_without by blast
  moreover have "in_order k \<Longrightarrow> delegate_count k = length (filter delegated (hlist k))" for k
    by (auto simp: in_order_iff list_all_iff filter_empty_conv filter_id_conv)
  ultimately show "delegate_count (without P (insert_handler h l)) = delegate_count l"
    using assms(1) e by metis
qed simp

lemma handlers_at_list: "oget (table w) t = Some l \<Longrightarrow> handlers_at w t = hlist l"
  by (simp add: handlers_at_def)

text \<open>Binding one type with a fresh function and taking the handlers \<open>P\<close> off again.\<close>

lemma remove_added:
  assumes "well_kept w" "type_part t \<noteq> []" and h: "h = new_handler eng sel d f t"
    and "\<not> (oget (table w) (ho_type h) = None \<and> claims_native w (ho_type h))"
    and "P h" "list_all (\<lambda>h. \<not> P h) (handlers_at w (ho_type h))"
  shows "remove_handlers P (ho_type h) (add_type eng sel d f t w) = w\<lparr>events := Some (table w)\<rparr>"
proof -
  obtain l u where lu: "handlers_for w (ho_type h) = (l, u)" by (cases "handlers_for w (ho_type h)")
  have r: "add_type eng sel d f t w = u\<lparr>events := Some (oset (table w) (ho_type h) (insert_handler h l))\<rparr>"
    using assms(2) lu by (simp add: add_type_def h table_def Let_def)
  show ?thesis
  proof (cases "oget (table w) (ho_type h)")
    case None
    then have l: "l = empty_list" "u = attach_type (ho_type h) w"
      using lu assms(4) by (auto simp: handlers_for_table)
    have "in_order empty_list" "list_all (\<lambda>h. \<not> P h) (hlist empty_list)" by (simp_all add: in_order_def empty_list_def)
    then have e: "without P (insert_handler h empty_list) = empty_list" using without_insert assms(5) by blast
    have "ho_type h \<notin> set (listening w)" using None assms(1) obj.keys_get [of "ho_type h" "table w"] by (simp add: well_kept_def)
    then have d: "detach_type (ho_type h) (attach_type (ho_type h) w) = w" using assms(1) detach_attach by (simp add: well_kept_def)
    show ?thesis
      unfolding r l remove_handlers_cases
      by (simp add: obj.get_put e odel_new [OF None] detach_events d, simp add: empty_list_def)
  next
    case (Some m)
    then have l: "l = m" "u = w" using lu by (simp_all add: handlers_for_table)
    have m: "list_kept (ho_type h) m" using assms(1) Some by (simp add: well_kept_def)
    then have "without P (insert_handler h m) = m"
      using assms(5,6) handlers_at_list [OF Some] by (intro without_insert) (simp_all add: list_kept_def)
    moreover have "oset (oset (table w) (ho_type h) x) (ho_type h) m = table w" for x
      using oset_same [OF Some] by (simp add: oset_oset)
    ultimately show ?thesis
      using m unfolding r l remove_handlers_cases by (simp add: obj.get_put list_kept_def)
  qed
qed

text \<open>A type with namespaces, as it is written.\<close>

definition token :: "string \<Rightarrow> string list \<Rightarrow> string" where
  "token ty ns = (if ns = [] then ty else ty @ ''.'' @ join ''.'' ns)"

lemma token_parts:
  assumes "ty \<noteq> []" "list_all plain_char ty" "list_all plain_name ns"
  shows "types_of (token ty ns) = [token ty ns]" "type_part (token ty ns) = ty"
    "ns \<noteq> [] \<Longrightarrow> namespaces_of (token ty ns) = sort ns" "CHR ''.'' \<notin> set ty"
proof -
  show nodot: "CHR ''.'' \<notin> set ty"
    using assms(2) by (auto simp: list_all_iff plain_char_def word_char_def is_digit_def)
  show "type_part (token ty ns) = ty"
  proof (cases "ns = []")
    case True
    then show ?thesis using nodot by (auto simp: token_def type_part_def takeWhile_eq_all_conv)
  qed (use namespaces_of_join(2) [OF assms(3) _ nodot] in \<open>auto simp: token_def\<close>)
  have "list_all (\<lambda>c. plain_char c \<or> c = CHR ''.'') (join ''.'' ns)"
    using assms(3) by (induction ns rule: name_tokens.induct) (auto simp: plain_name_def list_all_iff)
  then show "types_of (token ty ns) = [token ty ns]"
    using assms(1,2) by (intro types_of_single) (auto simp: list_all_iff token_def)
  show "ns \<noteq> [] \<Longrightarrow> namespaces_of (token ty ns) = sort ns"
    using namespaces_of_join(1) [OF assms(3) _ nodot] by (simp add: token_def)
qed

lemma token_test:
  assumes "ty \<noteq> []" "list_all plain_char ty" "list_all plain_name ns"
  obtains r where "namespace_test (token ty ns) = Inr r"
    "\<And>h. (ns \<noteq> [] \<longrightarrow> named_well h \<and> has_names ns h) \<Longrightarrow>
       (case r of None \<Rightarrow> True | Some p \<Rightarrow> rx_test p (case namespace h of None \<Rightarrow> ''false'' | Some n \<Rightarrow> n))"
proof (cases "ns = []")
  case True
  have d: "dropWhile (\<lambda>c. c \<noteq> CHR ''.'') ty = []" using token_parts(4) [OF assms] by (auto simp: dropWhile_eq_Nil_conv)
  have "namespace_test (token ty ns) = Inr None" using True by (simp add: namespace_test_def namespace_part_def token_def d)
  then show thesis using that [of None] by simp
next
  case False
  have t: "token ty ns = ty @ ''.'' @ join ''.'' ns" using False by (simp add: token_def)
  obtain r where "namespace_test (token ty ns) = Inr (Some r)"
    "\<And>h. named_well h \<Longrightarrow> rx_test r (case namespace h of None \<Rightarrow> ''false'' | Some n \<Rightarrow> n) \<longleftrightarrow> has_names ns h"
    using namespace_test_names [OF assms(3) False token_parts(4) [OF assms]] t by metis
  then show thesis using that [of "Some r"] False by simp
qed

lemma new_handler_names:
  assumes "ty \<noteq> []" "list_all plain_char ty" "list_all plain_name ns" "ns \<noteq> []"
  shows "named_well (new_handler eng sel d f (token ty ns)) \<and> has_names ns (new_handler eng sel d f (token ty ns))"
proof -
  let ?h = "new_handler eng sel d f (token ty ns)"
  have n: "namespace ?h = Some (join ''.'' (sort ns))"
    using token_parts(3) [OF assms(1-3)] assms(4) by (simp add: new_handler_def)
  have s: "list_all plain_name (sort ns)" "sort ns \<noteq> []"
    using assms(3,4) by (simp_all add: list_all_iff) (metis mset_sort mset_zero_iff)
  have "\<forall>n \<in> set (sort ns). CHR ''.'' \<notin> set n" using s(1) plain_name_dot by (auto simp: list_all_iff)
  then have "names_of ?h = sort ns"
    using join_not_Nil [OF s] split_on_join [OF s(2)] by (simp add: names_of_def n)
  then show ?thesis using s by (simp add: named_well_def has_names_def)
qed

text \<open>Binding a function that the element does not have yet to a type, with or without namespaces and selector, and
  taking it off with the same type, function and selector leaves the element as it was. (The first
  handler of \<open>focus\<close>, \<open>blur\<close> or of \<open>click\<close> on a checkable field brings a handler of jQuery's own, which stays.)\<close>

theorem on_off_roundtrip:
  assumes "listened eng w" "accepts w" "events w \<noteq> Some []" "sel = [] \<or> valid_selector eng sel"
    and "ty \<noteq> []" "list_all plain_char ty" "list_all plain_name ns"
    and "\<forall>t. list_all (\<lambda>h. guid_of (handler h) \<noteq> guid_of f) (handlers_at w t)"
    and "oget (table w) (special_type (sel \<noteq> []) ty) = None \<longrightarrow> \<not> claims_native w (special_type (sel \<noteq> []) ty)"
  shows "event_remove (token ty ns) (Some f) sel (snd (event_add eng (token ty ns) f d sel w)) = (False, w)"
proof -
  define t where "t = token ty ns"
  have w: "well_kept w" using assms(1) by (rule listened_kept)
  define h where "h = new_handler eng sel d f t"
  note single = token_parts(1) [OF assms(5-7), folded t_def] and ty = token_parts(2) [OF assms(5-7), folded t_def]
  have h: "ho_type h = special_type (sel \<noteq> []) ty" "orig_type h = ty" "handler h = f" "ho_selector h = sel"
    by (simp_all add: h_def new_handler_def ty)
  obtain r where r: "namespace_test t = Inr r" "removable False ty (Some f) r sel h"
  proof -
    obtain r where "namespace_test t = Inr r"
      "\<And>h. (ns \<noteq> [] \<longrightarrow> named_well h \<and> has_names ns h) \<Longrightarrow>
         (case r of None \<Rightarrow> True | Some p \<Rightarrow> rx_test p (case namespace h of None \<Rightarrow> ''false'' | Some n \<Rightarrow> n))"
      using token_test [OF assms(5-7)] t_def by metis
    then show thesis
      using that [of r] new_handler_names [OF assms(5-7), of eng sel d f] h by (simp add: removable_def h_def t_def)
  qed
  let ?w = "w\<lparr>events := Some (table w)\<rparr>"
  have w': "well_kept ?w" using w by (simp add: well_kept_def)
  have add: "snd (event_add eng t f d sel w) = add_type eng sel d f t ?w"
    using assms(2,4) single by (auto simp: event_add_def table_def)
  have p: "type_part t \<noteq> []" using assms(5) ty by simp
  have "remove_handlers (removable False ty (Some f) r sel) (ho_type h) (add_type eng sel d f t ?w) = ?w"
  proof -
    have "handlers_at ?w (ho_type h) = handlers_at w (ho_type h)" by (simp add: handlers_at_def)
    moreover have "list_all (\<lambda>h. guid_of (handler h) \<noteq> guid_of f) (handlers_at w (ho_type h))" using assms(8) by blast
    ultimately have a: "list_all (\<lambda>h. \<not> removable False ty (Some f) r sel h) (handlers_at ?w (ho_type h))"
      by (auto simp: removable_def elim: list.pred_mono_strong)
    have n: "\<not> (oget (table ?w) (ho_type h) = None \<and> claims_native ?w (ho_type h))"
      using assms(9) by (auto simp: h claims_native_def)
    show ?thesis using remove_added [OF w' p h_def n r(2) a] by simp
  qed
  then have "remove_type (Some f) sel t (snd (event_add eng t f d sel w)) = (False, ?w)"
    unfolding add using assms(5) r(1) by (simp add: remove_type_def ty remove_named_def h)
  moreover have "events (snd (event_add eng t f d sel w)) \<noteq> None"
    unfolding add using p by (simp add: add_type_def Let_def case_prod_beta)
  moreover have "forget_empty ?w = w"
    using assms(3) by (cases "events w") (auto simp: forget_empty_def table_def)
  ultimately show ?thesis unfolding t_def [symmetric] by (auto simp: event_remove_def single)
qed

text \<open>A handler bound with \<open>one\<close> is no longer among the handlers of the element when its function is called, whatever
  the function does: the next event of this type does not find it.\<close>

theorem one_is_taken_off:
  assumes "listened eng w" "h \<in> set (handlers_at w t)" "handler h = Once c"
    and "orig_type h \<noteq> []" "list_all plain_char (orig_type h)" "named_well h" "namespace h \<noteq> None"
  shows "\<exists>u. run_callee body n h (w, s) =
      (if original c = Return_false then (plain_reply (JBool False) False, u, s)
       else body (h\<lparr>handler := original c\<rparr>) n (u, s)) \<and>
    h \<notin> set (handlers_at u t)"
proof -
  have w: "well_kept w" using assms(1) by (rule listened_kept)
  define ns where "ns = names_of h"
  have ns: "list_all plain_name ns" using assms(6) by (simp add: named_well_def ns_def)
  have tok: "token (orig_type h) ns = (case namespace h of None \<Rightarrow> orig_type h | Some n \<Rightarrow> if n = [] then orig_type h else orig_type h @ ''.'' @ n)"
    using assms(7) by (auto simp: token_def ns_def names_of_def join_split_on split: option.splits)
  define tk where "tk = token (orig_type h) ns"
  note single = token_parts(1) [OF assms(4,5) ns, folded tk_def] and ty = token_parts(2) [OF assms(4,5) ns, folded tk_def]
  obtain r where r: "namespace_test tk = Inr r" "removable False (orig_type h) (Some (handler h)) r (ho_selector h) h"
  proof -
    obtain r where "namespace_test tk = Inr r"
      "\<And>h. (ns \<noteq> [] \<longrightarrow> named_well h \<and> has_names ns h) \<Longrightarrow>
         (case r of None \<Rightarrow> True | Some p \<Rightarrow> rx_test p (case namespace h of None \<Rightarrow> ''false'' | Some n \<Rightarrow> n))"
      using token_test [OF assms(4,5) ns] tk_def by metis
    then show thesis using that [of r] assms(6) by (simp add: removable_def has_names_def ns_def)
  qed
  let ?u = "remove_named False (Some (handler h)) (ho_selector h) r (orig_type h) w"
  have "remove_type (Some (handler h)) (ho_selector h) tk w = (False, ?u)"
    using r(1) assms(4) by (simp add: remove_type_def ty)
  moreover have "events w \<noteq> None" using assms(2) by (auto simp: handlers_at_def table_def split: option.splits)
  ultimately have off: "off_handled h w = (False, forget_empty ?u)"
    unfolding off_handled_def tok [symmetric] tk_def [symmetric] by (auto simp: event_remove_def single)
  have "special_type (delegated h) (orig_type h) = t" using well_kept_handlers [OF w assms(2)] by simp
  then have "h \<notin> set (handlers_at (forget_empty ?u) t)"
    using handlers_at_remove [OF w] r(2) by (simp add: well_kept_forget remove_named_def)
  then show ?thesis using off assms(3) by (auto simp: run_callee_def)
qed

section \<open>Every handler of an element\<close>

definition every_handler :: "(handle_obj \<Rightarrow> bool) \<Rightarrow> event_data \<Rightarrow> bool" where
  "every_handler Q w \<longleftrightarrow> (\<forall>t. list_all Q (handlers_at w t))"

lemma every_handler_add_type:
  assumes "well_kept w" "every_handler Q w" "Q (new_handler eng sel d f t)" "\<forall>ty. Q (native_handler ty)"
  shows "every_handler Q (add_type eng sel d f t w)"
proof (cases "type_part t = []")
  case False
  define h where "h = new_handler eng sel d f t"
  obtain l u where lu: "handlers_for w (ho_type h) = (l, u)" by (cases "handlers_for w (ho_type h)")
  have "handlers_at w (ho_type h) = hlist l \<or> l = empty_list \<or> l = insert_handler (native_handler (ho_type h)) empty_list"
    using lu by (auto simp: handlers_for_table handlers_at_def split: option.splits if_splits)
  moreover have "list_all Q (handlers_at w (ho_type h))" using assms(2) by (simp add: every_handler_def)
  ultimately have l: "list_all Q (hlist l)"
    using assms(4) by (auto simp: every_handler_def empty_list_def list_all_iff)
  have r: "add_type eng sel d f t w = u\<lparr>events := Some (oset (table w) (ho_type h) (insert_handler h l))\<rparr>"
    using False lu by (simp add: add_type_def h_def [symmetric] table_def Let_def)
  show ?thesis
    using assms(2,3) l unfolding every_handler_def r by (auto simp: handlers_at_def obj.get_put list_all_iff h_def)
qed (simp add: add_type_def assms)

lemma every_handler_event_add:
  assumes "well_kept w" "every_handler Q w" "\<forall>t. Q (new_handler eng sel d f t)" "\<forall>ty. Q (native_handler ty)"
  shows "every_handler Q (snd (event_add eng types f d sel w))"
proof -
  have "well_kept (foldr (add_type eng sel d f) ts (w\<lparr>events := Some (table w)\<rparr>)) \<and>
      every_handler Q (foldr (add_type eng sel d f) ts (w\<lparr>events := Some (table w)\<rparr>))" for ts
  proof (induction ts)
    case Nil
    show ?case using assms(1,2) by (simp add: well_kept_def every_handler_def handlers_at_def)
  next
    case (Cons t ts)
    then show ?case using assms(3,4) by (simp add: well_kept_add_type every_handler_add_type)
  qed
  then show ?thesis using assms(2) by (simp add: event_add_def table_def)
qed

lemma every_handler_named:
  assumes "well_kept w" "every_handler Q w"
  shows "every_handler Q (remove_named mapped f sel r t w)"
  using assms handlers_at_remove [OF assms(1)] by (auto simp: every_handler_def remove_named_def list_all_iff)

lemma every_handler_event_remove:
  assumes "well_kept w" "every_handler Q w"
  shows "every_handler Q (snd (event_remove types f sel w))"
proof -
  have fold: "well_kept v \<Longrightarrow> every_handler Q v \<Longrightarrow> every_handler Q (foldl (\<lambda>w k. remove_named True f sel r k w) v ks)" for v r ks
    by (induction ks arbitrary: v) (simp_all add: well_kept_named every_handler_named)
  have one: "well_kept v \<Longrightarrow> every_handler Q v \<Longrightarrow> every_handler Q (snd (remove_type f sel t v))" for t v
    by (simp add: remove_type_def fold every_handler_named split: sum.split)
  have "well_kept v \<Longrightarrow> every_handler Q v \<Longrightarrow> every_handler Q (snd (remove_types f sel ts v))" for v ts
  proof (induction ts arbitrary: v)
    case (Cons t ts)
    show ?case
      using Cons.IH [of "snd (remove_type f sel t v)"] well_kept_remove_type [OF Cons.prems(1), of f sel t] one [OF Cons.prems, of t]
      by (cases "remove_type f sel t v") simp
  qed simp
  then show ?thesis
    using assms well_kept_forget(2) by (simp add: event_remove_def Let_def case_prod_beta every_handler_def)
qed

lemma listened_every:
  assumes "listened eng w" "\<And>sel d f t. Q (new_handler eng sel d f t)" "\<And>t. Q (native_handler t)"
  shows "every_handler Q w"
  using assms
proof (induction rule: listened.induct)
  case (fresh a c)
  show ?case by (simp add: every_handler_def handlers_at_def table_def)
next
  case (added w types f d sel)
  then show ?case by (simp add: every_handler_event_add listened_kept)
next
  case (removed w types g sel)
  then show ?case by (simp add: every_handler_event_remove listened_kept)
qed (simp_all add: every_handler_def handlers_at_def)

section \<open>Dispatching\<close>

definition node_matches :: "engine \<Rightarrow> nat \<Rightarrow> handle_obj \<Rightarrow> bool" where
  "node_matches eng cur h \<longleftrightarrow> found eng (context_selector eng (ho_selector h)) (ho_selector h @ '' '') cur"

text \<open>The selectors are asked once for every node; this makes no difference.\<close>

lemma matched_filter:
  assumes "list_all (\<lambda>h. needs_context h = context_selector eng (ho_selector h)) hs"
    and "\<forall>k b. oget cache k = Some b \<longrightarrow> (\<exists>s. k = s @ '' '' \<and> b = found eng (context_selector eng s) k cur)"
  shows "matched_handlers eng cur cache hs = filter (node_matches eng cur) hs"
  using assms
proof (induction hs arbitrary: cache)
  case (Cons h hs)
  let ?k = "ho_selector h @ '' ''"
  let ?c = "if oget cache ?k = None then oset cache ?k (found eng (needs_context h) ?k cur) else cache"
  have "\<forall>k b. oget ?c k = Some b \<longrightarrow> (\<exists>s. k = s @ '' '' \<and> b = found eng (context_selector eng s) k cur)"
    using Cons.prems by (auto simp: obj.get_put)
  moreover have "oget ?c ?k = Some (node_matches eng cur h)"
    using Cons.prems by (auto simp: obj.get_put node_matches_def)
  ultimately show ?case using Cons by (simp add: Let_def)
qed simp

text \<open>The calls in their order: delegated handlers from the target outwards, then those of the element itself.\<close>

definition asked_nodes :: "page_nodes \<Rightarrow> jq_event \<Rightarrow> nat list" where
  "asked_nodes pg ev =
     (if on_node ev \<and> \<not> (ev_type ev = ''click'' \<and> 1 \<le> button ev)
      then filter (\<lambda>n. element_node pg n \<and> \<not> (ev_type ev = ''click'' \<and> disabled_node pg n)) (path ev) else [])"

definition expected_calls :: "engine \<Rightarrow> page_nodes \<Rightarrow> nat \<Rightarrow> jq_event \<Rightarrow> handle_obj list \<Rightarrow> (nat \<times> handle_obj) list" where
  "expected_calls eng pg this ev hs =
     concat (map (\<lambda>n. map (Pair n) (filter (\<lambda>h. delegated h \<and> node_matches eng n h \<and> invited eng ev n h) hs)) (asked_nodes pg ev)) @
     map (Pair this) (filter (\<lambda>h. \<not> delegated h \<and> invited eng ev this h) hs)"

definition queue_calls :: "engine \<Rightarrow> jq_event \<Rightarrow> (nat \<times> handle_obj list) list \<Rightarrow> (nat \<times> handle_obj) list" where
  "queue_calls eng ev q = concat (map (\<lambda>(n, hs). map (Pair n) (filter (invited eng ev n) hs)) q)"

lemma queue_calls_simps [simp]: "queue_calls eng ev [] = []"
  "queue_calls eng ev ((n, hs) # q) = map (Pair n) (filter (invited eng ev n) hs) @ queue_calls eng ev q"
  "queue_calls eng ev (p @ q) = queue_calls eng ev p @ queue_calls eng ev q"
  by (simp_all add: queue_calls_def)

lemma queue_calls_expected:
  assumes "in_order l" "list_all (\<lambda>h. delegated h \<longrightarrow> needs_context h = context_selector eng (ho_selector h)) (hlist l)"
  shows "queue_calls eng ev (handler_queue eng pg this ev l) = expected_calls eng pg this ev (hlist l)"
proof -
  obtain ds rs where l: "hlist l = ds @ rs" "delegate_count l = length ds" "list_all delegated ds"
    "list_all (\<lambda>h. \<not> delegated h) rs" using assms(1) by (auto simp: in_order_iff)
  have at: "queue_calls eng ev (delegates_at eng pg ev l n) =
      (if element_node pg n \<and> \<not> (ev_type ev = ''click'' \<and> disabled_node pg n)
       then map (Pair n) (filter (\<lambda>h. delegated h \<and> node_matches eng n h \<and> invited eng ev n h) (hlist l)) else [])" for n
  proof -
    have "list_all (\<lambda>h. needs_context h = context_selector eng (ho_selector h)) ds"
      using assms(2) l by (auto simp: list_all_iff)
    then have "matched_handlers eng n [] (take (delegate_count l) (hlist l)) = filter (node_matches eng n) ds"
      using matched_filter [of eng ds "[]" n] by (simp add: l)
    moreover have "filter (\<lambda>h. delegated h \<and> node_matches eng n h \<and> invited eng ev n h) (hlist l) =
        filter (invited eng ev n) (filter (node_matches eng n) ds)"
      using l by (auto simp: list_all_iff filter_empty_conv conj_commute intro!: filter_cong)
    ultimately show ?thesis by (auto simp: delegates_at_def Let_def simp del: filter_filter)
  qed
  have "queue_calls eng ev (concat (map (delegates_at eng pg ev l) ns)) =
      concat (map (\<lambda>n. map (Pair n) (filter (\<lambda>h. delegated h \<and> node_matches eng n h \<and> invited eng ev n h) (hlist l)))
        (filter (\<lambda>n. element_node pg n \<and> \<not> (ev_type ev = ''click'' \<and> disabled_node pg n)) ns))" for ns
    by (induction ns) (auto simp: at)
  moreover have "ds = [] \<Longrightarrow> filter (\<lambda>h. delegated h \<and> Q h) (hlist l) = []" for Q
    using l by (auto simp: list_all_iff filter_empty_conv)
  moreover have "filter (\<lambda>h. \<not> delegated h \<and> invited eng ev this h) (hlist l) = filter (invited eng ev this) rs"
    using l by (auto simp: list_all_iff filter_empty_conv intro!: filter_cong)
  ultimately show ?thesis
    by (auto simp: handler_queue_def delegating_def expected_calls_def asked_nodes_def l)
qed

lemma call_handler_progress:
  "called (call_handler body n h p) = called p @ [(n, h)]" "stopped p \<Longrightarrow> stopped (call_handler body n h p)"
  "stopped_now p \<Longrightarrow> stopped_now (call_handler body n h p)"
  "(stopped_now p \<longrightarrow> stopped p) \<Longrightarrow> stopped_now (call_handler body n h p) \<Longrightarrow> stopped (call_handler body n h p)"
  by (auto simp: call_handler_def Let_def case_prod_beta)

lemma run_handlers_calls:
  "\<exists>new rest. map (Pair n) (filter (invited eng ev n) hs) = new @ rest \<and>
     called (run_handlers eng body ev n hs p) = called p @ new \<and>
     (\<not> stopped_now (run_handlers eng body ev n hs p) \<and> \<not> threw (run_handlers eng body ev n hs p) \<longrightarrow> rest = []) \<and>
     (stopped p \<longrightarrow> stopped (run_handlers eng body ev n hs p)) \<and>
     ((stopped_now p \<longrightarrow> stopped p) \<longrightarrow> stopped_now (run_handlers eng body ev n hs p) \<longrightarrow> stopped (run_handlers eng body ev n hs p))"
proof (induction hs arbitrary: p)
  case (Cons h hs)
  show ?case
  proof (cases "stopped_now p \<or> threw p")
    case True
    then show ?thesis by (intro exI [of _ "[]"] exI [of _ "map (Pair n) (filter (invited eng ev n) (h # hs))"]) auto
  next
    case False
    let ?p = "if invited eng ev n h then call_handler body n h p else p"
    have r: "run_handlers eng body ev n (h # hs) p = run_handlers eng body ev n hs ?p" using False by simp
    obtain new rest where "map (Pair n) (filter (invited eng ev n) hs) = new @ rest \<and>
       called (run_handlers eng body ev n hs ?p) = called ?p @ new \<and>
       (\<not> stopped_now (run_handlers eng body ev n hs ?p) \<and> \<not> threw (run_handlers eng body ev n hs ?p) \<longrightarrow> rest = []) \<and>
       (stopped ?p \<longrightarrow> stopped (run_handlers eng body ev n hs ?p)) \<and>
       ((stopped_now ?p \<longrightarrow> stopped ?p) \<longrightarrow> stopped_now (run_handlers eng body ev n hs ?p) \<longrightarrow>
          stopped (run_handlers eng body ev n hs ?p))"
      using Cons.IH [of ?p] by blast
    then show ?thesis
      using False call_handler_progress [where body = body and n = n and h = h and p = p] unfolding r
      by (intro exI [of _ "(if invited eng ev n h then [(n, h)] else []) @ new"] exI [of _ rest]) auto
  qed
qed simp

lemma run_matched_calls:
  "(stopped_now p \<longrightarrow> stopped p) \<Longrightarrow>
   \<exists>new rest. queue_calls eng ev q = new @ rest \<and> called (run_matched eng body ev q p) = called p @ new \<and>
     (\<not> stopped (run_matched eng body ev q p) \<and> \<not> threw (run_matched eng body ev q p) \<longrightarrow> rest = []) \<and>
     (\<not> stopped_now (run_matched eng body ev q p) \<and> \<not> threw (run_matched eng body ev q p) \<longrightarrow>
        (\<exists>q1 q2. q = q1 @ q2 \<and> new = queue_calls eng ev q1 \<and> rest = queue_calls eng ev q2))"
proof (induction q arbitrary: p)
  case (Cons x q)
  obtain n hs where x: "x = (n, hs)" by (cases x)
  show ?case
  proof (cases "stopped p \<or> threw p")
    case True
    then have "run_matched eng body ev (x # q) p = p" by (simp add: x)
    then show ?thesis using True by (intro exI [of _ "[]"] exI [of _ "queue_calls eng ev (x # q)"]) (auto intro: exI [of _ "[]"])
  next
    case False
    let ?r = "run_handlers eng body ev n hs p"
    have r: "run_matched eng body ev (x # q) p = run_matched eng body ev q ?r" using False by (simp add: x)
    obtain n1 r1 where h: "map (Pair n) (filter (invited eng ev n) hs) = n1 @ r1" "called ?r = called p @ n1"
      "\<not> stopped_now ?r \<and> \<not> threw ?r \<longrightarrow> r1 = []" "stopped_now ?r \<longrightarrow> stopped ?r"
      using run_handlers_calls [of n eng ev hs body p] Cons.prems by blast
    show ?thesis
    proof (cases "stopped ?r \<or> threw ?r")
      case True
      then have e: "run_matched eng body ev q ?r = ?r" by (cases q) auto
      have "\<not> stopped_now ?r \<and> \<not> threw ?r \<longrightarrow> (\<exists>q1 q2. x # q = q1 @ q2 \<and> n1 = queue_calls eng ev q1 \<and>
          r1 @ queue_calls eng ev q = queue_calls eng ev q2)"
        using h(1,3) by (intro impI exI [of _ "[x]"] exI [of _ q]) (simp add: x)
      then show ?thesis unfolding r e
        using h(1,2) True by - (rule exI [of _ n1], rule exI [of _ "r1 @ queue_calls eng ev q"], simp add: x, blast)
    next
      case go: False
      then have "r1 = []" using h by blast
      obtain n2 r2 where q: "queue_calls eng ev q = n2 @ r2" "called (run_matched eng body ev q ?r) = called ?r @ n2"
        "\<not> stopped (run_matched eng body ev q ?r) \<and> \<not> threw (run_matched eng body ev q ?r) \<longrightarrow> r2 = []"
        "\<not> stopped_now (run_matched eng body ev q ?r) \<and> \<not> threw (run_matched eng body ev q ?r) \<longrightarrow>
          (\<exists>q1 q2. q = q1 @ q2 \<and> n2 = queue_calls eng ev q1 \<and> r2 = queue_calls eng ev q2)"
        using Cons.IH [OF h(4)] by blast
      have "\<not> stopped_now (run_matched eng body ev q ?r) \<and> \<not> threw (run_matched eng body ev q ?r) \<longrightarrow>
          (\<exists>q1 q2. x # q = q1 @ q2 \<and> n1 @ n2 = queue_calls eng ev q1 \<and> r2 = queue_calls eng ev q2)"
      proof
        assume "\<not> stopped_now (run_matched eng body ev q ?r) \<and> \<not> threw (run_matched eng body ev q ?r)"
        then obtain q1 q2 where "q = q1 @ q2" "n2 = queue_calls eng ev q1" "r2 = queue_calls eng ev q2" using q(4) by blast
        then show "\<exists>q1 q2. x # q = q1 @ q2 \<and> n1 @ n2 = queue_calls eng ev q1 \<and> r2 = queue_calls eng ev q2"
          using h(1) \<open>r1 = []\<close> by (intro exI [of _ "x # q1"] exI [of _ q2]) (simp add: x)
      qed
      then show ?thesis
        unfolding r using h q \<open>r1 = []\<close> by (intro exI [of _ "n1 @ n2"] exI [of _ r2]) (simp add: x)
    qed
  qed
qed simp

lemma fst_queue_calls: "fst ` set (queue_calls eng ev q) \<subseteq> fst ` set q"
  by (force simp: queue_calls_def)

lemma fst_handler_queue: "\<exists>ns. map fst (handler_queue eng pg this ev l) = ns \<and> subseq ns (path ev @ [this])"
proof -
  have "subseq (map fst (concat (map (delegates_at eng pg ev l) ns))) ns" for ns
    by (induction ns) (auto simp: delegates_at_def Let_def)
  then show ?thesis by (auto simp: handler_queue_def intro: subseq_append_le_same_iff list_emb_append_mono)
qed

text \<open>C26: A browser event calls the handlers of the element in one order: first the delegated ones, from the target outwards
  and on every node those whose selector matches it, in the order they were bound, then those of the element itself. What is
  called is a beginning of this list; it is all of it unless a handler stops the event or throws, and an event that is
  only stopped from propagating still reaches the other handlers for the same node. Asking each selector once per node makes no difference.\<close>

theorem dispatch_order:
  assumes "listened eng w"
    and "p = event_dispatch eng pg body this ev w s"
  shows "\<exists>rest. expected_calls eng pg this ev (handlers_at w (ev_type ev)) = called p @ rest \<and>
    (\<not> stopped p \<and> \<not> threw p \<longrightarrow> rest = []) \<and>
    (\<not> stopped_now p \<and> \<not> threw p \<and> distinct (path ev @ [this]) \<longrightarrow> fst ` set (called p) \<inter> fst ` set rest = {})"
proof -
  define l where "l = (case oget (table w) (ev_type ev) of None \<Rightarrow> empty_list | Some l \<Rightarrow> l)"
  have hl: "hlist l = handlers_at w (ev_type ev)" by (simp add: l_def handlers_at_def empty_list_def split: option.split)
  have "in_order l"
    using listened_kept [OF assms(1)]
    by (auto simp: l_def well_kept_def list_kept_def in_order_def empty_list_def split: option.split)
  moreover have "every_handler (\<lambda>h. delegated h \<longrightarrow> needs_context h = context_selector eng (ho_selector h)) w"
    by (rule listened_every [OF assms(1)]) (simp_all add: new_handler_def native_handler_def)
  ultimately have e: "queue_calls eng ev (handler_queue eng pg this ev l) = expected_calls eng pg this ev (handlers_at w (ev_type ev))"
    using queue_calls_expected [of l eng ev pg this] by (simp add: every_handler_def hl)
  have p: "p = run_matched eng body ev (handler_queue eng pg this ev l) (fresh_progress w s)"
    by (simp add: assms(2) event_dispatch_def l_def table_def)
  have f: "called (fresh_progress w s) = []" "stopped_now (fresh_progress w s) \<longrightarrow> stopped (fresh_progress w s)"
    by (simp_all add: fresh_progress_def)
  obtain new rest where "expected_calls eng pg this ev (handlers_at w (ev_type ev)) = new @ rest \<and> called p = new \<and>
    (\<not> stopped p \<and> \<not> threw p \<longrightarrow> rest = []) \<and>
    (\<not> stopped_now p \<and> \<not> threw p \<longrightarrow> (\<exists>q1 q2. handler_queue eng pg this ev l = q1 @ q2 \<and>
       new = queue_calls eng ev q1 \<and> rest = queue_calls eng ev q2))"
    using run_matched_calls [OF f(2), of eng ev "handler_queue eng pg this ev l" body]
    unfolding e p [symmetric] f(1) append_Nil by (elim exE)
  then have r: "expected_calls eng pg this ev (handlers_at w (ev_type ev)) = new @ rest" "called p = new"
    "\<not> stopped p \<and> \<not> threw p \<longrightarrow> rest = []"
    "\<not> stopped_now p \<and> \<not> threw p \<longrightarrow> (\<exists>q1 q2. handler_queue eng pg this ev l = q1 @ q2 \<and>
       new = queue_calls eng ev q1 \<and> rest = queue_calls eng ev q2)"
    by - (elim conjE, assumption)+
  have "fst ` set new \<inter> fst ` set rest = {}" if st: "\<not> stopped_now p \<and> \<not> threw p" and di: "distinct (path ev @ [this])"
  proof -
    obtain q1 q2 where q: "handler_queue eng pg this ev l = q1 @ q2" "new = queue_calls eng ev q1" "rest = queue_calls eng ev q2"
      using r(4) st by blast
    have "distinct (map fst (q1 @ q2))"
    proof -
      obtain ns where "map fst (handler_queue eng pg this ev l) = ns" "subseq ns (path ev @ [this])"
        using fst_handler_queue by blast
      then show ?thesis using di q(1) distinct_nthsI unfolding subseq_conv_nths by metis
    qed
    then have "fst ` set q1 \<inter> fst ` set q2 = {}" by simp
    then show ?thesis unfolding q using fst_queue_calls [of eng ev q1] fst_queue_calls [of eng ev q2] by blast
  qed
  then show ?thesis using r by auto
qed

section \<open>A form\<close>

text \<open>A form with handlers of the validator and of the page; node 1 is an input in it.\<close>

definition form_engine :: engine where
  "form_engine = \<lparr>valid_selector = (\<lambda>s. True), context_selector = (\<lambda>s. False), found = (\<lambda>c s n. n = 1), contains = (\<lambda>a b. False)\<rparr>"

definition bare_form :: event_data where
  "bare_form = \<lparr>accepts = True, checkable = False, no_focusin = True, events = None, listening = [], captures = [], capturing = []\<rparr>"

definition form_events :: event_data where
  "form_events =
     snd (event_add form_engine ''focusin.page'' (Function 3 3) JUndef []
       (snd (event_add form_engine ''focusin.validate'' (Function 2 2) JUndef ''input'' bare_form)))"

definition validate_handler :: handle_obj where
  "validate_handler = \<lparr>ho_type = ''focusin'', orig_type = ''focusin'', ho_data = JUndef, handler = Function 2 2,
     ho_selector = ''input'', needs_context = False, namespace = Some ''validate''\<rparr>"

definition page_handler :: handle_obj where
  "page_handler = \<lparr>ho_type = ''focusin'', orig_type = ''focusin'', ho_data = JUndef, handler = Function 3 3,
     ho_selector = [], needs_context = False, namespace = Some ''page''\<rparr>"

lemma form_listened: "listened form_engine form_events"
  unfolding form_events_def bare_form_def by (intro listened.added listened.fresh)

lemma form_table: "table form_events = [(''focusin'', \<lparr>hlist = [validate_handler, page_handler], delegate_count = 1\<rparr>)]"
  by code_simp


lemma form_handlers: "handlers_at form_events t = (if t = ''focusin'' then [validate_handler, page_handler] else [])"
  by (simp add: handlers_at_def form_table)

lemma plain_words: "plain_name ''validate''" "plain_name ''page''" "plain_name ''submit''" "plain_name ''focusin''"
  by code_simp+


theorem off_by_namespace_witness:
  "\<exists>u. event_off ''.validate'' Absent Absent form_events = (False, u) \<and> handlers_at u ''focusin'' = [page_handler]"
proof -
  have n: "names_of validate_handler = [''validate'']" "names_of page_handler = [''page'']" by code_simp+
  then have "\<forall>t. list_all named_well (handlers_at form_events t)"
    using plain_words by (simp add: form_handlers named_well_def)
  then show ?thesis
    using off_by_namespace [OF form_listened, of "[''validate'']"] plain_words n
    by (auto simp: form_handlers has_names_def)
qed

theorem on_off_roundtrip_witness:
  "event_remove ''submit.validate'' (Some (Function 4 4)) []
     (snd (event_add form_engine ''submit.validate'' (Function 4 4) JUndef [] form_events)) = (False, form_events)"
proof -
  have a: "accepts form_events" "events form_events \<noteq> Some []" "\<not> claims_native form_events (special_type ([] \<noteq> []) ''submit'')"
    by code_simp+
  have g: "\<forall>t. list_all (\<lambda>h. guid_of (handler h) \<noteq> guid_of (Function 4 4)) (handlers_at form_events t)"
    by (simp add: form_handlers validate_handler_def page_handler_def)
  have p: "list_all plain_char ''submit''" "list_all plain_name [''validate'']"
    using plain_words by (simp_all add: plain_name_def)
  have t: "token ''submit'' [''validate''] = ''submit.validate''" by (simp add: token_def)
  show ?thesis
    using on_off_roundtrip [OF form_listened a(1,2) _ _ p g, of "[]"] a(3) by (simp add: t)
qed

definition quiet :: "unit bodies" where
  "quiet h n ws = (plain_reply JUndef False, ws)"

definition once_handler :: handle_obj where
  "once_handler = page_handler\<lparr>handler := Once (Function 3 3)\<rparr>"

definition once_events :: event_data where
  "once_events = snd (event_on form_engine True ''focusin.page'' (Callee 3 3) Absent Absent bare_form)"

theorem one_is_taken_off_witness:
  "\<exists>u. run_callee quiet 0 once_handler (once_events, ()) = (plain_reply JUndef False, u, ()) \<and>
     once_handler \<notin> set (handlers_at u ''focusin'')"
proof -
  have l: "listened form_engine once_events"
    unfolding once_events_def bare_form_def by (intro listened_on listened.fresh)
  have m: "once_handler \<in> set (handlers_at once_events ''focusin'')" by code_simp
  have n: "names_of once_handler = [''page'']" by code_simp
  then have w: "named_well once_handler" using plain_words by (simp add: named_well_def)
  have h: "handler once_handler = Once (Function 3 3)" "orig_type once_handler = ''focusin''" "namespace once_handler \<noteq> None"
    by (simp_all add: once_handler_def page_handler_def)
  have p: "list_all plain_char (orig_type once_handler)" using plain_words by (simp add: h plain_name_def)
  show ?thesis
    using one_is_taken_off [OF l m h(1) _ p w h(3), of quiet 0 "()"] by (simp add: h(2) quiet_def)
qed

definition focus_event :: jq_event where
  "focus_event = \<lparr>ev_type = ''focusin'', path = [1, 2], on_node = True, button = 0, rnamespace = None, related = None\<rparr>"

definition all_nodes :: page_nodes where
  "all_nodes = \<lparr>element_node = (\<lambda>n. True), disabled_node = (\<lambda>n. False)\<rparr>"

theorem dispatch_order_witness:
  "called (event_dispatch form_engine all_nodes quiet 0 focus_event form_events ()) = [(1, validate_handler), (0, page_handler)]"
proof -
  have e: "expected_calls form_engine all_nodes 0 focus_event [validate_handler, page_handler] = [(1, validate_handler), (0, page_handler)]"
    by code_simp
  have q: "\<not> stopped (event_dispatch form_engine all_nodes quiet 0 focus_event form_events ())"
    "\<not> threw (event_dispatch form_engine all_nodes quiet 0 focus_event form_events ())"
    by code_simp+
  have t: "ev_type focus_event = ''focusin''" by (simp add: focus_event_def)
  show ?thesis
    using dispatch_order [OF form_listened refl, of all_nodes 0 focus_event quiet "()"] q e
    by (auto simp: t form_handlers)
qed

end
