(* ===== verification/AjaxResponses.thy ===== *)
theory AjaxResponses
  imports Dom
begin

text \<open>
  What \<open>jQuery.ajax\<close> does with prefilters, transports and the data it receives: registration and inspection,
  the choice of a data type for a response (\<open>ajaxHandleResponses\<close>), the chain of conversions (\<open>ajaxConvert\<close>) and
  reading the response headers. Functions given as options are known by numbers; what they do is a parameter.
  Data types that are names of members of \<open>Object.prototype\<close> are left out.
\<close>

section \<open>Prefilters and transports\<close>

type_synonym registry = "(string, nat list) obj"

definition register_at :: "nat \<Rightarrow> string \<Rightarrow> registry \<Rightarrow> registry" where
  \<comment> \<open>one data type: in front with a plus, else at the end\<close>
  "register_at f t m =
     (let front = (t \<noteq> [] \<and> hd t = CHR ''+''); k = (if front then (if tl t = [] then ''*'' else tl t) else t);
          fs = (case oget m k of None \<Rightarrow> [] | Some fs \<Rightarrow> fs)
      in oset m k (if front then f # fs else fs @ [f]))"

definition register :: "string option \<Rightarrow> nat option \<Rightarrow> registry \<Rightarrow> registry" where
  "register types func m =
     (case func of
        None \<Rightarrow> m
      | Some f \<Rightarrow> foldl (\<lambda>m t. register_at f t m) m (class_words (to_lower (case types of None \<Rightarrow> ''*'' | Some ts \<Rightarrow> ts))))"

text \<open>What a prefilter or the factory of a transport returns.\<close>

datatype finding = Nothing | Data_type string | Transport nat

type_synonym 'o inspector = "nat \<Rightarrow> 'o \<Rightarrow> finding \<times> 'o"

text \<open>\<open>inspect\<close> as a loop: a new data type replaces the rest of the list. \<open>unshift\<close> puts it in front of the
  data types of the options.\<close>

function inspect_list ::
    "bool \<Rightarrow> registry \<Rightarrow> 'o inspector \<Rightarrow> (string \<Rightarrow> 'o \<Rightarrow> 'o) \<Rightarrow> string set \<Rightarrow> nat list \<Rightarrow> 'o \<Rightarrow> finding \<times> string set \<times> 'o" where
  "inspect_list seeking m run unshift seen [] s = (Nothing, seen, s)"
| "inspect_list seeking m run unshift seen (f # fs) s =
     (let (r, u) = run f s
      in if seeking
         then (if r = Nothing \<or> r = Data_type [] then inspect_list seeking m run unshift seen fs u else (r, seen, u))
         else (case r of
                 Data_type t \<Rightarrow>
                   (if t \<in> seen then inspect_list seeking m run unshift seen fs u
                    else inspect_list seeking m run unshift (insert t seen) (case oget m t of None \<Rightarrow> [] | Some gs \<Rightarrow> gs) (unshift t u))
               | _ \<Rightarrow> inspect_list seeking m run unshift seen fs u))"
  by pat_completeness auto
termination
proof (relation "measures [\<lambda>(seeking, m, run, unshift, seen, fs, s). card (set (okeys m) - seen),
    \<lambda>(seeking, m, run, unshift, seen, fs, s). length fs]", goal_cases)
  case (5 seeking m run unshift seen f fs s x r u t)
  show ?case
  proof (cases "t \<in> set (okeys m)")
    case True
    moreover have "t \<notin> seen" using 5 by simp
    ultimately have "set (okeys m) - insert t seen \<subset> set (okeys m) - seen" by blast
    then have "card (set (okeys m) - insert t seen) < card (set (okeys m) - seen)"
      by (intro psubset_card_mono) simp_all
    then show ?thesis by simp
  next
    case False
    then have "oget m t = None" using obj.keys_get by metis
    moreover have "set (okeys m) - insert t seen = set (okeys m) - seen" using False by blast
    ultimately show ?thesis by simp
  qed
qed auto

definition inspect :: "bool \<Rightarrow> registry \<Rightarrow> 'o inspector \<Rightarrow> (string \<Rightarrow> 'o \<Rightarrow> 'o) \<Rightarrow> string \<Rightarrow> 'o \<Rightarrow> finding \<times> 'o" where
  "inspect seeking m run unshift t s =
     (let (r, seen, u) = inspect_list seeking m run unshift {t} (case oget m t of None \<Rightarrow> [] | Some gs \<Rightarrow> gs) s
      in if r = Nothing \<and> ''*'' \<notin> seen
         then (let (q, _, v) = inspect_list seeking m run unshift (insert ''*'' seen) (case oget m ''*'' of None \<Rightarrow> [] | Some gs \<Rightarrow> gs) u
               in (q, v))
         else (r, u))"

section \<open>Settings\<close>

text \<open>A converter is a function or true (the types are equivalent).\<close>

datatype conv = Equivalent | Convert nat

record ajax_settings =
  data_types :: "string list"
  contents :: "(string, rx) obj"
  mime_type :: string
  converters :: "(string, conv) obj"
  response_fields :: "(string, string) obj"
  data_filter :: "nat option"
  throws_errors :: bool

text \<open>The defaults; the functions 0, 1 and 2 are \<open>String\<close>, \<open>JSON.parse\<close> and \<open>jQuery.parseXML\<close>.\<close>

definition default_contents :: "(string, rx) obj" where
  "default_contents =
     [(''xml'', rseq [WordB, lit ''xml'', WordB]), (''html'', rseq [WordB, lit ''html'']), (''json'', rseq [WordB, lit ''json'', WordB])]"

definition default_fields :: "(string, string) obj" where
  "default_fields = [(''xml'', ''responseXML''), (''text'', ''responseText''), (''json'', ''responseJSON'')]"

definition default_converters :: "(string, conv) obj" where
  "default_converters =
     [(''* text'', Convert 0), (''text html'', Equivalent), (''text json'', Convert 1), (''text xml'', Convert 2)]"

definition default_settings :: "string list \<Rightarrow> ajax_settings" where
  "default_settings ts =
     \<lparr>data_types = ts, contents = default_contents, mime_type = [], converters = default_converters,
      response_fields = default_fields, data_filter = None, throws_errors = False\<rparr>"

type_synonym runner = "nat \<Rightarrow> jsv \<Rightarrow> jsv result"

section \<open>Choosing the data type\<close>

definition head_type :: "string list \<Rightarrow> string" where
  \<comment> \<open>as a key: undefined when there is none\<close>
  "head_type ts = (case ts of [] \<Rightarrow> ''undefined'' | t # _ \<Rightarrow> t)"

fun known_type :: "(string, rx) obj \<Rightarrow> string \<Rightarrow> string option" where
  "known_type [] ct = None"
| "known_type ((t, r) # m) ct = (if rx_test r ct then Some t else known_type m ct)"

definition content_types :: "ajax_settings \<Rightarrow> string option \<Rightarrow> string list" where
  \<comment> \<open>the data types after the automatic one was replaced by the type of the content\<close>
  "content_types s header =
     (let rest = dropWhile (\<lambda>t. t = ''*'') (data_types s);
          ct = (if rest = data_types s then None else if mime_type s \<noteq> [] then Some (mime_type s) else header)
      in (case ct of
            None \<Rightarrow> rest
          | Some c \<Rightarrow> if c = [] then rest else (case known_type (contents s) c of None \<Rightarrow> rest | Some t \<Rightarrow> t # rest)))"

fun convertible :: "ajax_settings \<Rightarrow> string list \<Rightarrow> string \<Rightarrow> string list \<Rightarrow> string" where
  \<comment> \<open>the first type of the responses that can be converted, or else the first one\<close>
  "convertible s ts first [] = first"
| "convertible s ts first (t # rs) =
     (if ts = [] \<or> hd ts = [] \<or> oget (converters s) (t @ '' '' @ hd ts) \<noteq> None then (if t = [] then first else t)
      else convertible s ts (if first = [] then t else first) rs)"

definition final_type :: "ajax_settings \<Rightarrow> (string, jsv) obj \<Rightarrow> string list \<Rightarrow> string" where
  "final_type s rs ts =
     (if oget rs (head_type ts) \<noteq> None then (case ts of [] \<Rightarrow> [] | t # _ \<Rightarrow> t) else convertible s ts [] (okeys rs))"

definition handle_responses :: "ajax_settings \<Rightarrow> string option \<Rightarrow> (string, jsv) obj \<Rightarrow> ajax_settings \<times> jsv" where
  "handle_responses s header rs =
     (let ts = content_types s header; t = final_type s rs ts
      in if t = [] then (s\<lparr>data_types := ts\<rparr>, JUndef)
         else (s\<lparr>data_types := (if ts = [] \<or> hd ts \<noteq> t then t # ts else ts)\<rparr>, jget rs t))"

section \<open>Converting\<close>

definition lower_converters :: "ajax_settings \<Rightarrow> (string, conv) obj" where
  "lower_converters s =
     (if 1 < length (data_types s) \<and> data_types s ! 1 \<noteq> []
      then foldl (\<lambda>m (k, c). oset m (to_lower k) c) [] (converters s) else [])"

definition direct :: "(string, conv) obj \<Rightarrow> string \<Rightarrow> string \<Rightarrow> conv option" where
  "direct cs a b = (case oget cs (a @ '' '' @ b) of Some c \<Rightarrow> Some c | None \<Rightarrow> oget cs (''* '' @ b))"

definition words_of :: "string \<Rightarrow> string list" where
  "words_of k = split_on (CHR '' '') k"

definition outputs :: "string \<Rightarrow> string \<Rightarrow> bool" where
  "outputs k b \<longleftrightarrow> 1 < length (words_of k) \<and> words_of k ! 1 = b"

text \<open>A pair of converters: the converter to apply, and the type in between if there is one.\<close>

fun seek_pair :: "(string, conv) obj \<Rightarrow> string \<Rightarrow> string \<Rightarrow> (string, conv) obj \<Rightarrow> (conv \<times> string option) option" where
  "seek_pair cs a b [] = None"
| "seek_pair cs a b ((k, c2) # m) =
     (case (if outputs k b then direct cs a (hd (words_of k)) else None) of
        None \<Rightarrow> seek_pair cs a b m
      | Some c \<Rightarrow> if c = Equivalent then Some (c2, None)
                 else Some (c, if c2 \<noteq> Equivalent then Some (hd (words_of k)) else None))"

definition find_conv :: "(string, conv) obj \<Rightarrow> string \<Rightarrow> string \<Rightarrow> (conv \<times> string option) option" where
  "find_conv cs a b = (case direct cs a b of Some c \<Rightarrow> Some (c, None) | None \<Rightarrow> seek_pair cs a b cs)"

datatype parse_error = Thrown exn | No_conversion string string

datatype conversion = Converted jsv | Parser_error parse_error | Escaped exn

text \<open>One conversion from \<open>a\<close> towards \<open>b\<close>: the value and the data types that remain, the first of them reached.\<close>

definition convert_step ::
    "ajax_settings \<Rightarrow> runner \<Rightarrow> (string, conv) obj \<Rightarrow> string \<Rightarrow> string \<Rightarrow> jsv \<Rightarrow> conversion + (jsv \<times> string \<times> string list)" where
  "convert_step s run cs a b v =
     (case find_conv cs a b of
        None \<Rightarrow> Inl (Parser_error (No_conversion a b))
      | Some (c, via) \<Rightarrow>
          (let (t, later) = (case via of None \<Rightarrow> (b, []) | Some x \<Rightarrow> (x, [b]))
           in case c of
                Equivalent \<Rightarrow> Inr (v, t, later)
              | Convert f \<Rightarrow>
                  (case run f v of
                     Inr w \<Rightarrow> Inr (w, t, later)
                   | Inl e \<Rightarrow> Inl (if throws_errors s then Escaped e else Parser_error (Thrown e)))))"

definition set_field :: "ajax_settings \<Rightarrow> string \<Rightarrow> jsv \<Rightarrow> (string, jsv) obj \<Rightarrow> (string, jsv) obj" where
  "set_field s t v flds =
     (case oget (response_fields s) t of None \<Rightarrow> flds | Some n \<Rightarrow> if n = [] then flds else oset flds n v)"

text \<open>The loop may not end when keys of converters have more than two words.\<close>

partial_function (option) convert_from ::
    "ajax_settings \<Rightarrow> runner \<Rightarrow> (string, conv) obj \<Rightarrow> string \<Rightarrow> string list \<Rightarrow> jsv \<Rightarrow> (string, jsv) obj \<Rightarrow>
     (conversion \<times> (string, jsv) obj) option" where
  "convert_from s run cs cur rest v flds =
     (case rest of
        [] \<Rightarrow> Some (Converted v, flds)
      | b # later \<Rightarrow>
          if b = [] then Some (Converted v, flds)
          else if b = ''*'' then convert_from s run cs cur later v (set_field s cur v flds)
          else if cur = ''*'' \<or> cur = b then convert_from s run cs b later v (set_field s b v flds)
          else (case convert_step s run cs cur b v of
                  Inl r \<Rightarrow> Some (r, flds)
                | Inr (w, t, ins) \<Rightarrow> if t = [] then Some (Converted w, flds)
                                      else convert_from s run cs t (ins @ later) w (set_field s t w flds)))"

declare convert_from.simps [code]

definition ajax_convert ::
    "ajax_settings \<Rightarrow> runner \<Rightarrow> bool \<Rightarrow> jsv \<Rightarrow> (string, jsv) obj \<Rightarrow> (conversion \<times> (string, jsv) obj) option" where
  "ajax_convert s run ok v flds =
     (case data_types s of
        [] \<Rightarrow> Some (Converted v, flds)
      | t # ts \<Rightarrow>
          if t = [] then Some (Converted v, flds)
          else (let flds' = set_field s t v flds
                in case (if ok then data_filter s else None) of
                     None \<Rightarrow> convert_from s run (lower_converters s) t ts v flds'
                   | Some f \<Rightarrow> (case run f v of
                                  Inl e \<Rightarrow> Some (Escaped e, flds')
                                | Inr w \<Rightarrow> convert_from s run (lower_converters s) t ts w flds')))"

section \<open>Headers\<close>

definition header_lines :: "string \<Rightarrow> string list" where
  "header_lines s = rx_split (cls [] [CHR 0x0A, CHR 0x0D]) s"

definition header_entry :: "string \<Rightarrow> (string \<times> string) list" where
  \<comment> \<open>a line with a colon: its name, and its value without leading blanks\<close>
  "header_entry l =
     (if CHR '':'' \<in> set l
      then [(to_lower (takeWhile (\<lambda>c. c \<noteq> CHR '':'') l),
             dropWhile (\<lambda>c. c = CHR '' '' \<or> c = CHR 0x09) (drop 1 (dropWhile (\<lambda>c. c \<noteq> CHR '':'') l)))]
      else [])"

definition response_header :: "string \<Rightarrow> string \<Rightarrow> string option" where
  "response_header headers key =
     (let vs = map snd (filter (\<lambda>(k, v). k = to_lower key) (concat (map header_entry (header_lines headers))))
      in if vs = [] then None else Some (join '', '' vs))"

end
