(* ===== verification/AjaxResponseProps.thy ===== *)
theory AjaxResponseProps
  imports AjaxResponses
begin

text \<open>
  Properties of the conversion of responses: it ends, it only applies converters to values of the type they
  are registered for, and the response it starts from is one that was received.
\<close>

section \<open>Converters\<close>

text \<open>Every key names two types.\<close>

definition two_words :: "(string, conv) obj \<Rightarrow> bool" where
  "two_words cs \<longleftrightarrow> list_all (\<lambda>(k, c). length (words_of k) = 2 \<and> hd (words_of k) \<noteq> []) cs"

lemma two_words_key:
  assumes "two_words cs" "(k, c) \<in> set cs" "outputs k b"
  shows "k = hd (words_of k) @ '' '' @ b"
proof -
  have "length (words_of k) = 2" using assms(1,2) by (auto simp: two_words_def list_all_iff)
  then obtain x y where w: "words_of k = [x, y]" by (cases "words_of k"; cases "tl (words_of k)") auto
  then have "y = b" using assms(3) by (simp add: outputs_def)
  then show ?thesis using w join_split_on [of "CHR '' ''" k] by (simp add: words_of_def)
qed

lemma two_words_hd: "two_words cs \<Longrightarrow> (k, c) \<in> set cs \<Longrightarrow> hd (words_of k) \<noteq> []"
  by (auto simp: two_words_def list_all_iff)

lemma low_char_space: "low_char c = CHR '' '' \<longleftrightarrow> c = CHR '' ''"
proof
  assume l: "low_char c = CHR '' ''"
  show "c = CHR '' ''"
  proof (rule ccontr)
    assume "c \<noteq> CHR '' ''"
    then have u: "(CHR ''A'' \<le> c \<and> c \<le> CHR ''Z'') \<or> (CHR 0xC0 \<le> c \<and> c \<le> CHR 0xDE \<and> c \<noteq> CHR 0xD7)"
      using l by (auto simp: low_char_def split: if_splits)
    then have n: "(of_char c :: nat) \<le> 222" "(65 :: nat) \<le> of_char c" by (auto simp: char_le_nat)
    have "low_char c = char_of (of_char c + 32 :: nat)" using u by (auto simp: low_char_def)
    then have "(of_char (low_char c) :: nat) = of_char c + 32" using n by simp
    then show False using l n by simp
  qed
qed (simp add: low_char_def char_le_nat)

lemma words_to_lower: "words_of (to_lower k) = map to_lower (words_of k)"
proof (induction k)
  case (Cons c k)
  obtain w ws where "split_on (CHR '' '') k = w # ws" by (cases "split_on (CHR '' '') k") auto
  then show ?case using Cons low_char_space [of c] by (simp add: words_of_def to_lower_def)
qed (simp add: words_of_def to_lower_def)

lemma oset_subset: "set (oset m k v) \<subseteq> insert (k, v) (set m)"
  by (induction m k v rule: oset.induct) auto

lemma lower_converters_two:
  assumes "two_words (converters s)"
  shows "two_words (lower_converters s) \<and> wf_obj (lower_converters s)"
proof -
  have "two_words m \<and> wf_obj m \<Longrightarrow> two_words cs \<Longrightarrow>
      two_words (foldl (\<lambda>m (k, c). oset m (to_lower k) c) m cs) \<and> wf_obj (foldl (\<lambda>m (k, c). oset m (to_lower k) c) m cs)" for m cs
  proof (induction cs arbitrary: m)
    case (Cons x cs)
    obtain k c where x: "x = (k, c)" by (cases x)
    have "two_words (oset m (to_lower k) c)"
    proof -
      have k: "length (words_of k) = 2" "hd (words_of k) \<noteq> []" using Cons.prems by (simp_all add: two_words_def x)
      then have "words_of k \<noteq> []" by auto
      then have "length (words_of (to_lower k)) = 2 \<and> hd (words_of (to_lower k)) \<noteq> []"
        using k unfolding words_to_lower by (simp add: hd_map, simp add: to_lower_def)
      moreover have "list_all (\<lambda>(k, c). length (words_of k) = 2 \<and> hd (words_of k) \<noteq> []) m"
        using Cons.prems by (simp add: two_words_def)
      ultimately show ?thesis
        using oset_subset [of m "to_lower k" c] unfolding two_words_def list_all_iff by blast
    qed
    moreover have "two_words cs" using Cons.prems by (simp add: two_words_def)
    ultimately show ?case using Cons by (simp add: x wf_oset)
  qed simp
  then show ?thesis using assms by (simp add: lower_converters_def two_words_def)
qed

lemma direct_key: "oget cs (a @ '' '' @ b) = Some c \<Longrightarrow> direct cs a b = Some c"
  by (simp add: direct_def)

text \<open>What a pair of converters does, by the direct converters it is made of.\<close>

lemma seek_pair_Some:
  assumes "two_words cs" "wf_obj cs" "set m \<subseteq> set cs" "seek_pair cs a b m = Some (c, via)"
  obtains (through) x where "via = Some x" "direct cs a x = Some c" "direct cs x b \<noteq> None" "x \<noteq> []"
    | (before) x where "via = None" "direct cs a x = Some Equivalent" "direct cs x b = Some c"
    | (behind) x where "via = None" "direct cs a x = Some c" "direct cs x b = Some Equivalent"
  using assms(3,4)
proof (induction m)
  case (Cons p m)
  obtain k c2 where p: "p = (k, c2)" by (cases p)
  show thesis
  proof (cases "outputs k b \<and> direct cs a (hd (words_of k)) \<noteq> None")
    case False
    then have "seek_pair cs a b m = Some (c, via)" using Cons.prems(5) by (auto simp: p split: option.splits if_splits)
    then show ?thesis using Cons.IH [OF Cons.prems(1-3)] Cons.prems(4) by simp
  next
    case True
    then obtain d where d: "direct cs a (hd (words_of k)) = Some d" by blast
    have kc: "(k, c2) \<in> set cs" using Cons.prems(4) by (simp add: p)
    then have ne: "hd (words_of k) \<noteq> []" using two_words_hd [OF assms(1)] by blast
    moreover have "oget cs k = Some c2"
      using assms(2) kc by (simp add: oget_def wf_obj_def)
    ultimately have k: "direct cs (hd (words_of k)) b = Some c2"
      using kc two_words_key [OF assms(1)] True direct_key by metis
    have r: "(if d = Equivalent then Some (c2, None) else Some (d, if c2 \<noteq> Equivalent then Some (hd (words_of k)) else None)) = Some (c, via)"
      using Cons.prems(5) True d by (simp add: p)
    show ?thesis
    proof (cases "d = Equivalent")
      case True
      then show ?thesis using r d k Cons.prems(2) by simp
    next
      case False
      then show ?thesis using r d k Cons.prems(1) [of "hd (words_of k)"] Cons.prems(3) [of "hd (words_of k)"] ne by (auto split: if_splits)
    qed
  qed
qed simp

section \<open>The conversion ends\<close>

lemma convert_step_shape:
  assumes "two_words cs" "wf_obj cs" "convert_step s run cs a b v = Inr (w, t, ins)"
  shows "t = b \<and> ins = [] \<or> direct cs a b = None \<and> ins = [b] \<and> direct cs t b \<noteq> None \<and> t \<noteq> []"
proof -
  obtain c via where f: "find_conv cs a b = Some (c, via)"
    using assms(3) by (auto simp: convert_step_def split: option.splits)
  then have t: "(t, ins) = (case via of None \<Rightarrow> (b, []) | Some x \<Rightarrow> (x, [b]))"
    using assms(3) by (auto simp: convert_step_def Let_def split: option.splits conv.splits sum.splits if_splits)
  show ?thesis
  proof (cases "direct cs a b")
    case None
    then have "seek_pair cs a b cs = Some (c, via)" using f by (simp add: find_conv_def)
    then show ?thesis
      by (cases rule: seek_pair_Some [OF assms(1,2) order_refl, consumes 1]) (use t None in auto)
  next
    case (Some d)
    then show ?thesis using f t by (simp add: find_conv_def)
  qed
qed

lemma convert_from_ends:
  assumes "two_words cs" "wf_obj cs"
  shows "\<exists>r. convert_from s run cs cur rest v flds = Some r"
proof (induction "2 * length rest + (if rest \<noteq> [] \<and> direct cs cur (hd rest) = None then 1 else 0)"
    arbitrary: cur rest v flds rule: less_induct)
  case less
  show ?case
  proof (cases rest)
    case Nil
    then show ?thesis by (simp add: convert_from.simps)
  next
    case (Cons b later)
    have ih: "\<exists>r. convert_from s run cs c later w f = Some r" for c w f
      by (rule less) (simp add: Cons)
    consider "b = []" | "b \<noteq> []" "b = ''*'' \<or> cur = ''*'' \<or> cur = b" | "b \<noteq> []" "b \<noteq> ''*''" "cur \<noteq> ''*''" "cur \<noteq> b" by blast
    then show ?thesis
    proof cases
      case 3
      show ?thesis
      proof (cases "convert_step s run cs cur b v")
        case (Inl r)
        then show ?thesis using 3 by (subst convert_from.simps) (simp add: Cons)
      next
        case (Inr y)
        obtain w t ins where y: "y = (w, t, ins)" by (cases y)
        then consider "t = b" "ins = []" | "direct cs cur b = None" "ins = [b]" "direct cs t b \<noteq> None" "t \<noteq> []"
          using convert_step_shape [OF assms, of s run cur b v w t ins] Inr by auto
        then have "\<exists>r. convert_from s run cs t (ins @ later) w f = Some r" for f
        proof cases
          case 1
          then show ?thesis using ih by simp
        next
          case 2
          then show ?thesis by (intro less) (simp add: Cons)
        qed
        then show ?thesis using 3 Inr by (subst convert_from.simps) (simp add: Cons y)
      qed
    qed (subst convert_from.simps, use ih Cons in auto)+
  qed
qed

lemma ajax_convert_total:
  assumes "two_words (converters s)"
  shows "\<exists>r. ajax_convert s run ok v flds = Some r"
proof -
  note two = lower_converters_two [OF assms]
  have "\<exists>r. convert_from s run (lower_converters s) cur rest w f = Some r" for cur rest w f
    using convert_from_ends two by blast
  then show ?thesis by (auto simp: ajax_convert_def Let_def split: list.split option.split sum.split)
qed

text \<open>Converting a response ends, whatever the data types are, when every converter names two types.\<close>

theorem ajax_convert_ends:
  assumes "two_words (converters s)"
  shows "\<exists>r. ajax_convert s run ok v flds = Some r"
  using ajax_convert_total [OF assms] .

section \<open>What was applied\<close>

text \<open>A value of type \<open>a\<close> becomes one of type \<open>b\<close> through registered converters; the type \<open>*\<close> is any type.\<close>

inductive reaches :: "runner \<Rightarrow> (string, conv) obj \<Rightarrow> string \<Rightarrow> jsv \<Rightarrow> string \<Rightarrow> jsv \<Rightarrow> bool" for run cs a v where
  start: "reaches run cs a v a v"
| unknown: "reaches run cs a v ''*'' w \<Longrightarrow> reaches run cs a v b w"
| same: "reaches run cs a v x w \<Longrightarrow> direct cs x b = Some Equivalent \<Longrightarrow> reaches run cs a v b w"
| by_function: "reaches run cs a v x w \<Longrightarrow> direct cs x b = Some (Convert f) \<Longrightarrow> run f w = Inr u \<Longrightarrow> reaches run cs a v b u"

definition goal_type :: "string \<Rightarrow> string list \<Rightarrow> string" where
  "goal_type t ts = foldl (\<lambda>c b. if b = ''*'' then c else b) t ts"

lemma goal_type_simps [simp]: "goal_type t [] = t" "goal_type t (b # ts) = goal_type (if b = ''*'' then t else b) ts"
  by (simp_all add: goal_type_def)

lemma convert_step_reaches:
  assumes "two_words cs" "wf_obj cs" "convert_step s run cs x b w = Inr (u, t, ins)" "reaches run cs a v x w"
  shows "reaches run cs a v t u"
proof -
  obtain c via where f: "find_conv cs x b = Some (c, via)"
    using assms(3) by (auto simp: convert_step_def split: option.splits)
  then have t: "(t, ins) = (case via of None \<Rightarrow> (b, []) | Some y \<Rightarrow> (y, [b]))"
    and u: "c = Equivalent \<and> u = w \<or> (\<exists>g. c = Convert g \<and> run g w = Inr u)"
    using assms(3) by (auto simp: convert_step_def Let_def split: option.splits conv.splits sum.splits if_splits)
  have apply_: "reaches run cs a v z w \<Longrightarrow> direct cs z y = Some c \<Longrightarrow> reaches run cs a v y u" for z y
    using u reaches.same reaches.by_function by metis
  show ?thesis
  proof (cases "direct cs x b")
    case None
    then have "seek_pair cs x b cs = Some (c, via)" using f by (simp add: find_conv_def)
    then show ?thesis
    proof (cases rule: seek_pair_Some [OF assms(1,2) order_refl, consumes 1, case_names through before behind])
      case (through y)
      then show ?thesis using apply_ [OF assms(4)] t by simp
    next
      case (before y)
      then show ?thesis using apply_ [OF reaches.same [OF assms(4)]] t by simp
    next
      case (behind y)
      then show ?thesis using reaches.same [OF apply_ [OF assms(4)]] t by simp
    qed
  next
    case (Some d)
    then show ?thesis using f t apply_ [OF assms(4)] by (simp add: find_conv_def)
  qed
qed

lemma convert_from_reaches:
  assumes "two_words cs" "wf_obj cs"
  shows "convert_from s run cs cur rest w flds = Some (Converted u, fl) \<Longrightarrow> [] \<notin> set rest \<Longrightarrow> cur \<noteq> [] \<Longrightarrow>
    reaches run cs a v cur w \<Longrightarrow> reaches run cs a v (goal_type cur rest) u"
proof (induction "2 * length rest + (if rest \<noteq> [] \<and> direct cs cur (hd rest) = None then 1 else 0)"
    arbitrary: cur rest w flds rule: less_induct)
  case less
  show ?case
  proof (cases rest)
    case Nil
    then show ?thesis using less.prems by (simp add: convert_from.simps)
  next
    case (Cons b later)
    have ih: "convert_from s run cs c later z f = Some (Converted u, fl) \<Longrightarrow> c \<noteq> [] \<Longrightarrow> reaches run cs a v c z \<Longrightarrow>
        reaches run cs a v (goal_type c later) u" for c z f
      by (rule less.hyps) (use less.prems Cons in auto)
    have b: "b \<noteq> []" using less.prems(2) Cons by auto
    consider "b = ''*''" | "b \<noteq> ''*''" "cur = ''*'' \<or> cur = b" | "b \<noteq> ''*''" "cur \<noteq> ''*''" "cur \<noteq> b" by blast
    then show ?thesis
    proof cases
      case 1
      then have "convert_from s run cs cur later w (set_field s cur w flds) = Some (Converted u, fl)"
        using less.prems(1) by (subst (asm) convert_from.simps) (simp add: Cons)
      then show ?thesis using ih less.prems(3,4) 1 by (simp add: Cons)
    next
      case 2
      then have "convert_from s run cs b later w (set_field s b w flds) = Some (Converted u, fl)"
        using less.prems(1) b by (subst (asm) convert_from.simps) (auto simp: Cons)
      moreover have "reaches run cs a v b w" using 2 less.prems(4) reaches.unknown by auto
      ultimately show ?thesis using ih b 2 by (simp add: Cons)
    next
      case 3
      obtain z t ins where y: "convert_step s run cs cur b w = Inr (z, t, ins)"
        using less.prems(1) 3 b by (cases "convert_step s run cs cur b w") (auto simp: Cons convert_from.simps convert_step_def Let_def split: option.splits conv.splits sum.splits if_splits)
      have r: "reaches run cs a v t z" using convert_step_reaches [OF assms y less.prems(4)] .
      consider "t = b" "ins = []" | "direct cs cur b = None" "ins = [b]" "direct cs t b \<noteq> None" "t \<noteq> []"
        using convert_step_shape [OF assms y] by auto
      then show ?thesis
      proof cases
        case 1
        then have "convert_from s run cs b later z (set_field s b z flds) = Some (Converted u, fl)"
          using less.prems(1) 3 b y by (subst (asm) convert_from.simps) (simp add: Cons)
        then show ?thesis using ih b r 1 3 by (simp add: Cons)
      next
        case 2
        then have "convert_from s run cs t (b # later) z (set_field s t z flds) = Some (Converted u, fl)"
          using less.prems(1) 3 b y by (subst (asm) convert_from.simps) (simp add: Cons)
        then have "reaches run cs a v (goal_type t (b # later)) u"
          by (rule less.hyps [rotated]) (use less.prems(2) 2 r Cons in auto)
        then show ?thesis using 3 by (simp add: Cons)
      qed
    qed
  qed
qed

lemma ajax_convert_typed:
  assumes "two_words (converters s)" "data_types s = t # ts" "[] \<notin> set (t # ts)"
    and "ajax_convert s run ok v flds = Some (Converted u, fl)"
    and "(case (if ok then data_filter s else None) of None \<Rightarrow> w = v | Some f \<Rightarrow> run f v = Inr w)"
  shows "reaches run (lower_converters s) t w (goal_type t ts) u"
proof -
  have "convert_from s run (lower_converters s) t ts w (set_field s t v flds) = Some (Converted u, fl)"
    using assms(2-5) by (auto simp: ajax_convert_def Let_def split: option.splits if_splits)
  then show ?thesis
    using convert_from_reaches [of "lower_converters s" s run t ts w _ u fl t w] lower_converters_two [OF assms(1)] assms(3)
      reaches.start [of run "lower_converters s" t w] by auto
qed

section \<open>The response it starts from\<close>

lemma convertible_in:
  "[] \<notin> set ks \<Longrightarrow> ks \<noteq> [] \<or> first \<noteq> [] \<Longrightarrow> convertible s ts first ks \<in> insert first (set ks) \<and> convertible s ts first ks \<noteq> []"
  by (induction s ts first ks rule: convertible.induct) auto

lemma known_type_in: "known_type m ct = Some t \<Longrightarrow> t \<in> set (okeys m)"
  by (induction m ct rule: known_type.induct) (auto split: if_splits)

lemma content_types_subset: "set (content_types s header) \<subseteq> set (data_types s) \<union> set (okeys (contents s))"
proof -
  have "set (dropWhile (\<lambda>t. t = ''*'') (data_types s)) \<subseteq> set (data_types s)" by (auto dest: set_dropWhileD)
  then show ?thesis by (auto simp: content_types_def Let_def dest: known_type_in split: option.splits)
qed

lemma handle_responses_received:
  assumes "rs \<noteq> []" "[] \<notin> set (okeys rs)" "''undefined'' \<notin> set (okeys rs)"
    and "handle_responses s header rs = (s', v)"
  shows "\<exists>t ts. data_types s' = t # ts \<and> oget rs t = Some v \<and> converters s' = converters s \<and> data_filter s' = data_filter s \<and>
    set ts \<subseteq> set (content_types s header)"
proof -
  define ts where "ts = content_types s header"
  define final where "final = final_type s rs ts"
  have "okeys rs \<noteq> []" using assms(1) by (simp add: okeys_def)
  then have c: "convertible s ts [] (okeys rs) \<in> set (okeys rs) \<and> convertible s ts [] (okeys rs) \<noteq> []"
    using convertible_in [OF assms(2), of "[]" s ts] assms(2) by auto
  have f: "final \<in> set (okeys rs)"
  proof (cases "oget rs (head_type ts) = None")
    case False
    then have h: "head_type ts \<in> set (okeys rs)" using obj.keys_get [of "head_type ts" rs] by simp
    then have "ts \<noteq> []" using assms(3) by (auto simp: head_type_def)
    then show ?thesis using h False by (auto simp: final_def final_type_def head_type_def split: list.split)
  qed (use c in \<open>simp add: final_def final_type_def\<close>)
  then have n: "final \<noteq> []" "oget rs final = Some (jget rs final)"
    using assms(2) obj.keys_get [of final rs] by (auto simp: jget_def)
  have "handle_responses s header rs =
      (if final = [] then (s\<lparr>data_types := ts\<rparr>, JUndef)
       else (s\<lparr>data_types := (if ts = [] \<or> hd ts \<noteq> final then final # ts else ts)\<rparr>, jget rs final))"
    by (simp only: handle_responses_def Let_def ts_def final_def)
  then have r: "s' = s\<lparr>data_types := (if ts = [] \<or> hd ts \<noteq> final then final # ts else ts)\<rparr>" "v = jget rs final"
    using n(1) assms(4) by simp_all
  show ?thesis
  proof (cases "ts = [] \<or> hd ts \<noteq> final")
    case True
    then show ?thesis using r n by (auto simp: ts_def)
  next
    case False
    then obtain us where "ts = final # us" by (cases ts) auto
    then show ?thesis using r n by (auto simp: ts_def [symmetric])
  qed
qed

text \<open>C29: When \<open>jQuery.ajax\<close> has data for its success callbacks, it has been made from one of the received responses by
  converters that are registered for the types they were applied to, from the type of that response to the last data type
  that is not automatic; the intermediate type that \<open>ajaxConvert\<close> may insert does not change this. (For
  converters whose keys name two types, and without a data filter.)\<close>

theorem ajax_data_typed:
  assumes "two_words (converters s)" "data_filter s = None" "[] \<notin> set (data_types s) \<union> set (okeys (contents s))"
    and "rs \<noteq> []" "[] \<notin> set (okeys rs)" "''undefined'' \<notin> set (okeys rs)"
    and "handle_responses s header rs = (s', v)" "ajax_convert s' run ok v flds = Some (Converted u, fl)"
  shows "\<exists>t ts. data_types s' = t # ts \<and> oget rs t = Some v \<and> reaches run (lower_converters s') t v (goal_type t ts) u"
proof -
  obtain t ts where t: "data_types s' = t # ts" "oget rs t = Some v" "converters s' = converters s" "data_filter s' = data_filter s"
    "set ts \<subseteq> set (content_types s header)"
    using handle_responses_received [OF assms(4-7)] by blast
  have "t \<in> set (okeys rs)" using t(2) obj.keys_get [of t rs] by simp
  then have "[] \<notin> set (t # ts)" using t(5) content_types_subset [of s header] assms(3,5) by auto
  then show ?thesis
    using ajax_convert_typed [of s' t ts run ok v flds u fl v] assms(1,2,8) t by auto
qed

definition sample_run :: runner where
  "sample_run f v = (if f = 1 then (if v = JStr ''{}'' then Inr (JObj []) else Inl SyntaxError) else Inr v)"

lemma default_two_words: "two_words default_converters"
  by code_simp

theorem ajax_convert_ends_witness: "\<exists>r. ajax_convert (default_settings [''text'', ''json'']) sample_run True (JStr ''{}'') [] = Some r"
  using ajax_convert_ends [of "default_settings [''text'', ''json'']"] default_two_words by (simp add: default_settings_def)

theorem ajax_data_typed_witness:
  "reaches sample_run (lower_converters (default_settings [''text'', ''json''])) ''text'' (JStr ''{}'') ''json'' (JObj [])"
proof -
  let ?s = "default_settings [''json'']" and ?t = "default_settings [''text'', ''json'']"
  have h: "handle_responses ?s (Some ''application/json'') [(''text'', JStr ''{}'')] = (?t, JStr ''{}'')"
    by code_simp
  have c: "ajax_convert ?t sample_run True (JStr ''{}'') [] = Some (Converted (JObj []), [(''responseText'', JStr ''{}''), (''responseJSON'', JObj [])])"
    by code_simp
  have "okeys default_contents = [''xml'', ''html'', ''json'']" by (simp add: default_contents_def)
  then show ?thesis
    using ajax_data_typed [OF _ _ _ _ _ _ h c] default_two_words by (auto simp: default_settings_def)
qed

end
