(* ===== verification/AjaxRequests.thy ===== *)
theory AjaxRequests
  imports AjaxResponses
begin

text \<open>
  Requests of \<open>jQuery.ajax\<close>: from the call over the prefilters, \<open>beforeSend\<close> and the transport to the end of
  \<open>done\<close>, with abort, timeout and the global counter, and the prefilter of the validator that aborts the
  previous request of a port. Functions of the page that are called in between may do anything with the requests,
  so \<open>ajax\<close>, the prefilter and \<open>done\<close> are cut there into steps, and other steps may come between them. An
  exception of such a function is a step that never comes. (The functions that make a transport do not abort.
  Ports that are names of members of \<open>Object.prototype\<close> are left out.)
\<close>

section \<open>State\<close>

text \<open>What the options say.\<close>

record ajax_options =
  opt_global :: bool
  opt_timeout :: bool  \<comment> \<open>asynchronous and with a timeout above zero\<close>
  opt_modified :: bool
  opt_head :: bool
  opt_port :: "string option"  \<comment> \<open>with the mode abort\<close>
  opt_before :: bool  \<comment> \<open>has \<open>beforeSend\<close>\<close>
  opt_settings :: ajax_settings
  cache_url :: string

datatype stage =
    Created  \<comment> \<open>in the prefilter of the port, after the abort of the previous request\<close>
  | Preparing  \<comment> \<open>after the prefilter\<close>
  | Begun  \<comment> \<open>counted, up to \<open>beforeSend\<close>\<close>
  | Opened  \<comment> \<open>with a transport\<close>
  | Launched
  | Returned  \<comment> \<open>without being sent\<close>

text \<open>How far \<open>done\<close> has come.\<close>

datatype phase = Under_way | Resolved | Told | Announced | Notified | Reported | Concluded

definition rank :: "phase \<Rightarrow> nat" where
  "rank p = (case p of Under_way \<Rightarrow> 0 | Resolved \<Rightarrow> 1 | Told \<Rightarrow> 2 | Announced \<Rightarrow> 3 | Notified \<Rightarrow> 4 | Reported \<Rightarrow> 5 | Concluded \<Rightarrow> 6)"

lemma rank_inject: "rank p = rank q \<longleftrightarrow> p = q"
  by (cases p; cases q) (simp_all add: rank_def)

instantiation phase :: linorder
begin

definition less_eq_phase :: "phase \<Rightarrow> phase \<Rightarrow> bool" where
  "p \<le> q \<longleftrightarrow> rank p \<le> rank q"

definition less_phase :: "phase \<Rightarrow> phase \<Rightarrow> bool" where
  "p < q \<longleftrightarrow> rank p < rank q"

instance
  by standard (auto simp: less_eq_phase_def less_phase_def rank_inject)

end

lemmas phase_order = less_eq_phase_def less_phase_def rank_def

record ajax_req =
  options :: ajax_options
  stage :: stage
  completed :: "bool option"
  transport :: bool
  timer :: bool
  fire_globals :: bool
  abort_text :: string
  installed :: bool  \<comment> \<open>the callbacks of the options\<close>
  late :: "phase option"  \<comment> \<open>where \<open>done\<close> was when they were installed, if it had begun\<close>
  ready_state :: nat
  status :: int
  status_text :: string
  response_values :: "(string, jsv) obj"
  outcome :: "bool \<times> string \<times> jsv"  \<comment> \<open>success or error, the text for the callbacks, and the data\<close>
  phase :: phase

datatype ajax_effect =
    Ajax_start
  | Ajax_stop
  | Ajax_send nat
  | Transmitted nat
  | Transport_abort nat string
  | Settled nat "bool \<times> string \<times> jsv"
  | Status_callbacks nat int
  | Global_result nat bool
  | Completed nat string
  | Late_result nat "bool \<times> string \<times> jsv"  \<comment> \<open>\<open>success\<close> or \<open>error\<close> of the options, installed on a settled deferred\<close>
  | Ajax_complete nat

record world =
  reqs :: "ajax_req list"
  active :: int
  by_port :: "(string, nat) obj"
  last_modified :: "(string, string) obj"
  etags :: "(string, string) obj"
  effects :: "ajax_effect list"

definition new_request :: "ajax_options \<Rightarrow> ajax_req" where
  "new_request o' =
     \<lparr>options = o', stage = Created, completed = None, transport = False, timer = False, fire_globals = False,
      abort_text = ''canceled'', installed = False, late = None, ready_state = 0, status = 0, status_text = [],
      response_values = [], outcome = (False, [], JUndef), phase = Under_way\<rparr>"

definition update_req :: "nat \<Rightarrow> (ajax_req \<Rightarrow> ajax_req) \<Rightarrow> world \<Rightarrow> world" where
  "update_req i f w = w\<lparr>reqs := (reqs w)[i := f (reqs w ! i)]\<rparr>"

definition emit :: "ajax_effect list \<Rightarrow> world \<Rightarrow> world" where
  "emit es w = w\<lparr>effects := effects w @ es\<rparr>"

section \<open>The end of a request\<close>

definition is_success :: "int \<Rightarrow> bool" where
  "is_success st \<longleftrightarrow> 200 \<le> st \<and> st < 300 \<or> st = 304"

definition with_script_noop :: "bool \<Rightarrow> ajax_settings \<Rightarrow> ajax_settings" where
  \<comment> \<open>the function 3 returns nothing\<close>
  "with_script_noop ok s =
     (if \<not> ok \<and> ''script'' \<in> set (data_types s) then s\<lparr>converters := oset (converters s) ''text script'' (Convert 3)\<rparr> else s)"

definition remember_modified :: "ajax_req \<Rightarrow> string \<Rightarrow> world \<Rightarrow> world" where
  "remember_modified r headers w =
     (let put = (\<lambda>h m. case response_header headers h of None \<Rightarrow> m | Some v \<Rightarrow> if v = [] then m else oset m (cache_url (options r)) v)
      in if opt_modified (options r)
         then w\<lparr>last_modified := put ''Last-Modified'' (last_modified w), etags := put ''etag'' (etags w)\<rparr> else w)"

text \<open>Success, the text for the callbacks, and the data, for a successful status and for another.\<close>

definition success_result :: "ajax_req \<Rightarrow> int \<Rightarrow> conversion \<Rightarrow> bool \<times> string \<times> jsv" where
  "success_result r st c =
     (if st = 204 \<or> opt_head (options r) then (True, ''nocontent'', JUndef)
      else if st = 304 then (True, ''notmodified'', JUndef)
      else (case c of Converted v \<Rightarrow> (True, ''success'', v) | _ \<Rightarrow> (False, ''parsererror'', JUndef)))"

definition error_result :: "int \<Rightarrow> string \<Rightarrow> bool \<times> string \<times> jsv" where
  "error_result st text = (False, if st \<noteq> 0 \<or> text = [] then ''error'' else text, JUndef)"

definition final_status :: "int \<Rightarrow> bool \<Rightarrow> int" where
  "final_status st ok = (if \<not> ok \<and> st < 0 then 0 else st)"

definition close_request :: "int \<Rightarrow> ajax_req \<Rightarrow> ajax_req" where
  "close_request st r =
     r\<lparr>completed := Some True, timer := False, transport := False, ready_state := (if 0 < st then 4 else 0)\<rparr>"

text \<open>\<open>done\<close> up to the resolution of the deferred; nothing when the conversion does not end. An exception
  leaves the request completed without an outcome.\<close>

definition done_settle ::
    "runner \<Rightarrow> nat \<Rightarrow> int \<Rightarrow> string \<Rightarrow> (string, jsv) obj option \<Rightarrow> string \<Rightarrow> world \<Rightarrow> world option" where
  "done_settle run i st text rs headers w =
     (let r = reqs w ! i
      in if completed r = Some True then Some w
         else
           (let u = update_req i (close_request st) w;
                ok = is_success st;
                (s, v) = (case rs of
                            None \<Rightarrow> (opt_settings (options r), JUndef)
                          | Some m \<Rightarrow> handle_responses (opt_settings (options r)) (response_header headers ''Content-Type'') m);
                s' = with_script_noop ok s
            in case ajax_convert s' run ok v (response_values r) of
                 None \<Rightarrow> None
               | Some (c, flds) \<Rightarrow>
                   (let u1 = update_req i (\<lambda>r. r\<lparr>response_values := flds\<rparr>) u
                    in case c of
                         Escaped e \<Rightarrow> Some u1
                       | _ \<Rightarrow>
                           (let (good, msg, val) = (if ok then success_result r st c else error_result st text);
                                u2 = (if ok then remember_modified r headers u1 else u1)
                            in Some (emit [Settled i (good, msg, val)]
                                 (update_req i (\<lambda>r. r\<lparr>status := final_status st ok,
                                    status_text := (if text = [] then msg else text), outcome := (good, msg, val), phase := Resolved\<rparr>) u2))))))"

text \<open>\<open>done\<close> from there on, up to the next function of the page.\<close>

definition follows :: "phase \<Rightarrow> phase" where
  "follows p = (case p of Resolved \<Rightarrow> Told | Told \<Rightarrow> Announced | Announced \<Rightarrow> Notified | Notified \<Rightarrow> Reported | _ \<Rightarrow> Concluded)"

definition phase_effects :: "nat \<Rightarrow> ajax_req \<Rightarrow> phase \<Rightarrow> ajax_effect list" where
  "phase_effects i r p =
     (case p of
        Told \<Rightarrow> [Status_callbacks i (status r)]
      | Announced \<Rightarrow> if fire_globals r then [Global_result i (fst (outcome r))] else []
      | Notified \<Rightarrow> if installed r then [Completed i (fst (snd (outcome r)))] else []
      | Reported \<Rightarrow> if fire_globals r then [Ajax_complete i] else []
      | _ \<Rightarrow> [])"

definition count_down :: "ajax_req \<Rightarrow> world \<Rightarrow> world" where
  "count_down r w =
     (if fire_globals r then emit (if active w - 1 = 0 then [Ajax_stop] else []) (w\<lparr>active := active w - 1\<rparr>) else w)"

definition go_on :: "nat \<Rightarrow> world \<Rightarrow> world" where
  "go_on i w =
     (let r = reqs w ! i; p = follows (phase r); u = emit (phase_effects i r p) (update_req i (\<lambda>r. r\<lparr>phase := p\<rparr>) w)
      in if p = Concluded then count_down r u else u)"

definition abort_request :: "runner \<Rightarrow> nat \<Rightarrow> string \<Rightarrow> world \<Rightarrow> world option" where
  "abort_request run i text w =
     (let r = reqs w ! i; final = (if text = [] then abort_text r else text);
          u = (if transport r then emit [Transport_abort i final] w else w)
      in done_settle run i 0 final None [] u)"

section \<open>The course of a request\<close>

text \<open>The prefilter of the mode abort, cut after the abort of the previous request of the port.\<close>

definition abort_previous :: "runner \<Rightarrow> ajax_options \<Rightarrow> world \<Rightarrow> world option" where
  "abort_previous run o' w =
     (case opt_port o' of
        None \<Rightarrow> Some w
      | Some p \<Rightarrow> (case oget (by_port w) p of None \<Rightarrow> Some w | Some j \<Rightarrow> abort_request run j [] w))"

definition create :: "runner \<Rightarrow> ajax_options \<Rightarrow> world \<Rightarrow> world option" where
  "create run o' w = abort_previous run o' (w\<lparr>reqs := reqs w @ [new_request o']\<rparr>)"

definition take_port :: "nat \<Rightarrow> world \<Rightarrow> world" where
  "take_port i w =
     (let u = update_req i (\<lambda>r. r\<lparr>stage := Preparing\<rparr>) w
      in case opt_port (options (reqs w ! i)) of None \<Rightarrow> u | Some p \<Rightarrow> u\<lparr>by_port := oset (by_port u) p i\<rparr>)"

definition begin_request :: "nat \<Rightarrow> world \<Rightarrow> world" where
  "begin_request i w =
     (let r = reqs w ! i
      in if completed r = Some True then update_req i (\<lambda>r. r\<lparr>stage := Returned\<rparr>) w
         else (let u = update_req i (\<lambda>r. r\<lparr>stage := Begun, fire_globals := opt_global (options r)\<rparr>) w
               in if opt_global (options r)
                  then emit (if active w = 0 then [Ajax_start] else []) (u\<lparr>active := active w + 1\<rparr>) else u))"

text \<open>The callbacks of the options are installed. Without \<open>beforeSend\<close> nothing asks whether the request was aborted before
  (by a handler of \<open>ajaxStart\<close>): then \<open>complete\<close> is called at once if its list has been fired, and so is \<open>success\<close> or
  \<open>error\<close> if the deferred is settled.\<close>

definition late_effects :: "nat \<Rightarrow> ajax_req \<Rightarrow> phase \<Rightarrow> ajax_effect list" where
  "late_effects i r p =
     (if Notified \<le> p then [Completed i (fst (snd (outcome r)))] else []) @ (if Resolved \<le> p then [Late_result i (outcome r)] else [])"

definition install :: "nat \<Rightarrow> world \<Rightarrow> world" where
  "install i w =
     (let r = reqs w ! i; over = (completed r = Some True)
      in emit (if over then late_effects i r (phase r) else [])
           (update_req i (\<lambda>r. r\<lparr>abort_text := ''abort'', installed := True, late := (if over then Some (phase r) else late r)\<rparr>) w))"

definition before_send :: "runner \<Rightarrow> nat \<Rightarrow> bool \<Rightarrow> bool \<Rightarrow> world \<Rightarrow> world option" where
  \<comment> \<open>whether \<open>beforeSend\<close> refused, and whether there is a transport\<close>
  "before_send run i refuse found w =
     (let r = reqs w ! i
      in if opt_before (options r) \<and> (refuse \<or> completed r = Some True)
         then abort_request run i [] (update_req i (\<lambda>r. r\<lparr>stage := Returned\<rparr>) w)
         else (let u = install i w
               in if \<not> found
                  then done_settle run i (-1) ''No Transport'' None [] (update_req i (\<lambda>r. r\<lparr>stage := Returned\<rparr>) u)
                  else Some (emit (if fire_globals r then [Ajax_send i] else [])
                         (update_req i (\<lambda>r. r\<lparr>stage := Opened, transport := True, ready_state := 1\<rparr>) u))))"

definition transmit :: "nat \<Rightarrow> world \<Rightarrow> world" where
  "transmit i w =
     (let r = reqs w ! i
      in if completed r = Some True then update_req i (\<lambda>r. r\<lparr>stage := Returned\<rparr>) w
         else emit [Transmitted i]
                (update_req i (\<lambda>r. r\<lparr>stage := Launched, completed := Some False, timer := opt_timeout (options r)\<rparr>) w))"

text \<open>Steps; in an undisturbed run the functions that an abort in the prefilter calls do not start a request
  themselves.\<close>

definition in_prefilter :: "world \<Rightarrow> bool" where
  "in_prefilter w \<longleftrightarrow> list_ex (\<lambda>r. stage r = Created) (reqs w)"

inductive ajax_step :: "runner \<Rightarrow> bool \<Rightarrow> world \<Rightarrow> world \<Rightarrow> bool" for run :: runner and undisturbed :: bool where
  created: "create run o' w = Some u \<Longrightarrow> \<not> (undisturbed \<and> in_prefilter w) \<Longrightarrow> ajax_step run undisturbed w u"
| ported: "i < length (reqs w) \<Longrightarrow> stage (reqs w ! i) = Created \<Longrightarrow> ajax_step run undisturbed w (take_port i w)"
| started: "i < length (reqs w) \<Longrightarrow> stage (reqs w ! i) = Preparing \<Longrightarrow> ajax_step run undisturbed w (begin_request i w)"
| asked: "i < length (reqs w) \<Longrightarrow> stage (reqs w ! i) = Begun \<Longrightarrow> before_send run i refuse found w = Some u \<Longrightarrow>
    ajax_step run undisturbed w u"
| opened: "i < length (reqs w) \<Longrightarrow> stage (reqs w ! i) = Opened \<Longrightarrow> ajax_step run undisturbed w (transmit i w)"
| answered: "i < length (reqs w) \<Longrightarrow> stage (reqs w ! i) = Launched \<Longrightarrow> done_settle run i st msg rs headers w = Some u \<Longrightarrow>
    ajax_step run undisturbed w u"
| timed: "i < length (reqs w) \<Longrightarrow> timer (reqs w ! i) \<Longrightarrow> abort_request run i ''timeout'' w = Some u \<Longrightarrow>
    ajax_step run undisturbed w u"
| aborted: "i < length (reqs w) \<Longrightarrow> abort_request run i msg w = Some u \<Longrightarrow> ajax_step run undisturbed w u"
| continued: "i < length (reqs w) \<Longrightarrow> phase (reqs w ! i) \<noteq> Under_way \<Longrightarrow> phase (reqs w ! i) \<noteq> Concluded \<Longrightarrow>
    ajax_step run undisturbed w (go_on i w)"

definition fresh_world :: "world \<Rightarrow> bool" where
  "fresh_world w \<longleftrightarrow> reqs w = [] \<and> active w = 0 \<and> by_port w = [] \<and> effects w = []"

inductive ajax_reach :: "runner \<Rightarrow> bool \<Rightarrow> world \<Rightarrow> bool" for run :: runner and undisturbed :: bool where
  fresh: "fresh_world w \<Longrightarrow> ajax_reach run undisturbed w"
| further: "ajax_reach run undisturbed w \<Longrightarrow> ajax_step run undisturbed w u \<Longrightarrow> ajax_reach run undisturbed u"

end
