(* ===== verification/AjaxRequestProps.thy ===== *)
theory AjaxRequestProps
  imports AjaxRequests AjaxResponseProps
begin

text \<open>
  Properties of requests: every step is one of a few moves of a request (\<open>req_move\<close>) or of the world (\<open>world_move\<close>),
  and the locale \<open>ajax_invariant\<close> turns what all moves keep into what all reachable states have.
\<close>

section \<open>Moves of one request\<close>

text \<open>Callbacks that were installed late.\<close>

definition late_ok :: "ajax_req \<Rightarrow> bool" where
  "late_ok r \<longleftrightarrow> (\<forall>p. late r = Some p \<longrightarrow>
     completed r = Some True \<and> installed r \<and> p \<le> phase r \<and> \<not> opt_before (options r) \<and> stage r \<noteq> Launched)"

text \<open>What every request satisfies.\<close>

definition request_ok :: "ajax_req \<Rightarrow> bool" where
  "request_ok r \<longleftrightarrow>
     (phase r \<noteq> Under_way \<longrightarrow> completed r = Some True) \<and>
     (stage r \<in> {Opened, Launched} \<longrightarrow> installed r) \<and>
     (stage r \<in> {Created, Preparing, Begun} \<longrightarrow> \<not> installed r) \<and>
     (stage r \<in> {Created, Preparing} \<longrightarrow> \<not> fire_globals r) \<and>
     (completed r = Some False \<longrightarrow> stage r = Launched) \<and>
     (stage r = Launched \<longrightarrow> completed r \<noteq> None) \<and>
     (stage r = Returned \<longrightarrow> completed r = Some True) \<and>
     late_ok r \<and>
     abort_text r = (if installed r then ''abort'' else ''canceled'')"

text \<open>\<open>done\<close> ends a request: with an outcome, or without one when it throws.\<close>

definition closes :: "ajax_req \<Rightarrow> ajax_req \<Rightarrow> bool" where
  "closes r r' \<longleftrightarrow>
     completed r \<noteq> Some True \<and> completed r' = Some True \<and> options r' = options r \<and> fire_globals r' = fire_globals r \<and>
     phase r' \<in> {Under_way, Resolved} \<and> late r' = late r \<and>
     (stage r' = stage r \<or> stage r = Begun \<and> stage r' = Returned) \<and>
     (installed r' = installed r \<and> abort_text r' = abort_text r \<or> stage r' = Returned \<and> installed r' \<and> abort_text r' = ''abort'')"

definition transport_aborts :: "nat \<Rightarrow> ajax_effect list \<Rightarrow> bool" where
  "transport_aborts i es \<longleftrightarrow> es = [] \<or> (\<exists>t. es = [Transport_abort i t])"

definition settling :: "nat \<Rightarrow> ajax_req \<Rightarrow> ajax_effect list" where
  "settling i r = (if phase r = Resolved then [Settled i (outcome r)] else [])"

inductive req_move :: "nat \<Rightarrow> ajax_req \<Rightarrow> ajax_req \<Rightarrow> ajax_effect list \<Rightarrow> bool" for i where
  close: "closes r r' \<Longrightarrow> transport_aborts i es \<Longrightarrow> req_move i r r' (es @ settling i r')"
| ignore: "completed r = Some True \<Longrightarrow> transport_aborts i es \<Longrightarrow> req_move i r r es"
| leave: "completed r = Some True \<Longrightarrow> stage r \<in> {Preparing, Begun, Opened} \<Longrightarrow> transport_aborts i es \<Longrightarrow>
    req_move i r (r\<lparr>stage := Returned\<rparr>) es"
| begin_quietly: "completed r \<noteq> Some True \<Longrightarrow> stage r = Preparing \<Longrightarrow> req_move i r (r\<lparr>stage := Begun, fire_globals := False\<rparr>) []"
| open_up: "completed r \<noteq> Some True \<Longrightarrow> stage r = Begun \<Longrightarrow>
    req_move i r (r\<lparr>abort_text := ''abort'', installed := True, stage := Opened, transport := True, ready_state := 1\<rparr>)
      (if fire_globals r then [Ajax_send i] else [])"
| open_late: "completed r = Some True \<Longrightarrow> stage r = Begun \<Longrightarrow> \<not> opt_before (options r) \<Longrightarrow>
    req_move i r (r\<lparr>abort_text := ''abort'', installed := True, late := Some (phase r), stage := Opened, transport := True, ready_state := 1\<rparr>)
      (late_effects i r (phase r) @ (if fire_globals r then [Ajax_send i] else []))"
| return_late: "completed r = Some True \<Longrightarrow> stage r = Begun \<Longrightarrow> \<not> opt_before (options r) \<Longrightarrow>
    req_move i r (r\<lparr>abort_text := ''abort'', installed := True, late := Some (phase r), stage := Returned\<rparr>) (late_effects i r (phase r))"
| launch: "completed r \<noteq> Some True \<Longrightarrow> stage r = Opened \<Longrightarrow>
    req_move i r (r\<lparr>stage := Launched, completed := Some False, timer := t\<rparr>) [Transmitted i]"
| tell: "phase r \<in> {Resolved, Told, Announced, Notified} \<Longrightarrow>
    req_move i r (r\<lparr>phase := follows (phase r)\<rparr>) (phase_effects i r (follows (phase r)))"

lemma late_under: "request_ok r \<Longrightarrow> completed r \<noteq> Some True \<Longrightarrow> late r = None"
  by (cases "late r") (simp_all add: request_ok_def late_ok_def)

lemma follows_le: "p \<le> follows p"
  by (cases p) (simp_all add: follows_def phase_order)

lemma req_move_late:
  assumes "req_move i r r' es" "request_ok r"
  shows "late_ok r'"
  using assms
proof (induction rule: req_move.induct)
  case (close r r' es)
  then have "late r' = None" using late_under by (auto simp: closes_def)
  then show ?case by (simp add: late_ok_def)
next
  case (tell r)
  then show ?case using order.trans [OF _ follows_le] by (auto simp: request_ok_def late_ok_def)
next
  case (launch r t)
  then show ?case using late_under [of r] by (simp add: late_ok_def)
qed (auto simp: request_ok_def late_ok_def)

lemma req_move_ok: "req_move i r r' es \<Longrightarrow> request_ok r \<Longrightarrow> request_ok r'"
proof (induction rule: req_move.induct)
  case (close r r' es)
  have "late_ok r'" by (rule req_move_late [OF req_move.close [OF close(1,2)] close(3)])
  then show ?case using close(1,3) by (cases "stage r") (simp_all add: request_ok_def closes_def, auto)
next
  case (tell r)
  then have "late_ok (r\<lparr>phase := follows (phase r)\<rparr>)" by (intro req_move_late [OF req_move.tell])
  then show ?case using tell by (auto simp: request_ok_def)
next
  case (ignore r es)
  then show ?case by simp
next
  case (leave r es)
  have "late_ok (r\<lparr>stage := Returned\<rparr>)" using leave by (intro req_move_late [OF req_move.leave])
  then show ?case using leave by (auto simp: request_ok_def)
next
  case (begin_quietly r)
  have "late_ok (r\<lparr>stage := Begun, fire_globals := False\<rparr>)" using begin_quietly by (intro req_move_late [OF req_move.begin_quietly])
  then show ?case using begin_quietly by (auto simp: request_ok_def)
next
  case (open_up r)
  note l = req_move_late [OF req_move.open_up [OF open_up(1,2)] open_up(3)]
  show ?case using l open_up by (auto simp: request_ok_def)
next
  case (open_late r)
  note l = req_move_late [OF req_move.open_late [OF open_late(1,2,3)] open_late(4)]
  show ?case using l open_late by (auto simp: request_ok_def)
next
  case (return_late r)
  note l = req_move_late [OF req_move.return_late [OF return_late(1,2,3)] return_late(4)]
  show ?case using l return_late by (auto simp: request_ok_def)
next
  case (launch r t)
  note l = req_move_late [OF req_move.launch [OF launch(1,2), where t = t] launch(3)]
  show ?case using l launch by (auto simp: request_ok_def)
qed

lemma req_move_options: "req_move i r r' es \<Longrightarrow> options r' = options r"
  by (induction rule: req_move.induct) (auto simp: closes_def)

lemma req_move_completed: "req_move i r r' es \<Longrightarrow> completed r = Some True \<Longrightarrow> completed r' = Some True"
  by (induction rule: req_move.induct) (auto simp: closes_def)

section \<open>Moves of the world\<close>

text \<open>Only request \<open>i\<close> changes, to \<open>r\<close>.\<close>

definition changes :: "nat \<Rightarrow> ajax_req \<Rightarrow> ajax_effect list \<Rightarrow> world \<Rightarrow> world \<Rightarrow> bool" where
  "changes i r es w u \<longleftrightarrow> i < length (reqs w) \<and> reqs u = (reqs w)[i := r] \<and> effects u = effects w @ es"

definition counts :: "int \<Rightarrow> world \<Rightarrow> world \<Rightarrow> bool" where
  "counts k w u \<longleftrightarrow> active u = active w + k"

inductive world_move :: "world \<Rightarrow> world \<Rightarrow> bool" where
  request: "req_move i (reqs w ! i) r es \<Longrightarrow> changes i r es w u \<Longrightarrow> counts 0 w u \<Longrightarrow> by_port u = by_port w \<Longrightarrow> world_move w u"
| count_up: "stage (reqs w ! i) = Preparing \<Longrightarrow> completed (reqs w ! i) \<noteq> Some True \<Longrightarrow>
    changes i ((reqs w ! i)\<lparr>stage := Begun, fire_globals := True\<rparr>) (if active w = 0 then [Ajax_start] else []) w u \<Longrightarrow>
    counts 1 w u \<Longrightarrow> by_port u = by_port w \<Longrightarrow> world_move w u"
| conclude: "phase (reqs w ! i) = Reported \<Longrightarrow>
    changes i ((reqs w ! i)\<lparr>phase := Concluded\<rparr>)
      (if fire_globals (reqs w ! i) \<and> active w = 1 then [Ajax_stop] else []) w u \<Longrightarrow>
    counts (if fire_globals (reqs w ! i) then -1 else 0) w u \<Longrightarrow> by_port u = by_port w \<Longrightarrow> world_move w u"
| take: "stage (reqs w ! i) = Created \<Longrightarrow> changes i ((reqs w ! i)\<lparr>stage := Preparing\<rparr>) [] w u \<Longrightarrow> counts 0 w u \<Longrightarrow>
    by_port u = (case opt_port (options (reqs w ! i)) of None \<Rightarrow> by_port w | Some p \<Rightarrow> oset (by_port w) p i) \<Longrightarrow> world_move w u"

text \<open>The request that holds the port of the options, if any, has ended.\<close>

definition port_free :: "ajax_options \<Rightarrow> world \<Rightarrow> bool" where
  "port_free o' w \<longleftrightarrow>
     (case opt_port o' of None \<Rightarrow> True
      | Some p \<Rightarrow> (case oget (by_port w) p of None \<Rightarrow> True | Some j \<Rightarrow> completed (reqs w ! j) = Some True))"

section \<open>Every step is a move\<close>

lemma emit_nothing [simp]: "emit [] w = w"
  by (simp add: emit_def)

lemma update_req_simps [simp]:
  "reqs (update_req i f w) = (reqs w)[i := f (reqs w ! i)]" "active (update_req i f w) = active w"
  "by_port (update_req i f w) = by_port w" "effects (update_req i f w) = effects w"
  by (simp_all add: update_req_def)

lemma emit_simps [simp]:
  "reqs (emit es w) = reqs w" "active (emit es w) = active w" "by_port (emit es w) = by_port w"
  "effects (emit es w) = effects w @ es"
  by (simp_all add: emit_def)

lemma remember_modified_simps [simp]:
  "reqs (remember_modified r h w) = reqs w" "active (remember_modified r h w) = active w"
  "by_port (remember_modified r h w) = by_port w" "effects (remember_modified r h w) = effects w"
  by (simp_all add: remember_modified_def)

text \<open>\<open>done\<close>: what it leaves of a request.\<close>

lemma done_settle_closes:
  assumes "done_settle run i st msg rs hs w = Some u" "i < length (reqs w)" "completed (reqs w ! i) \<noteq> Some True"
    "phase (reqs w ! i) = Under_way"
  shows "closes (reqs w ! i) (reqs u ! i)" "stage (reqs u ! i) = stage (reqs w ! i)" "installed (reqs u ! i) = installed (reqs w ! i)"
    "reqs u = (reqs w)[i := reqs u ! i]" "effects u = effects w @ settling i (reqs u ! i)" "active u = active w" "by_port u = by_port w"
  using assms
  by (auto simp: done_settle_def Let_def closes_def close_request_def settling_def split: option.splits conversion.splits prod.splits if_splits)

lemma done_settle_ignores: "completed (reqs w ! i) = Some True \<Longrightarrow> done_settle run i st msg rs hs w = Some w"
  by (simp add: done_settle_def Let_def)

lemma under_way: "request_ok r \<Longrightarrow> completed r \<noteq> Some True \<Longrightarrow> phase r = Under_way"
  by (auto simp: request_ok_def)

text \<open>After that the request has ended.\<close>

definition ends :: "nat \<Rightarrow> world \<Rightarrow> world \<Rightarrow> bool" where
  "ends i w u \<longleftrightarrow>
     (\<exists>r es. req_move i (reqs w ! i) r es \<and> completed r = Some True \<and> changes i r es w u \<and> counts 0 w u \<and> by_port u = by_port w)"

lemma ends_move: "ends i w u \<Longrightarrow> world_move w u"
  by (auto simp: ends_def intro: world_move.request)

text \<open>Ending a request that was first changed to \<open>r\<close>, after effects \<open>es\<close>.\<close>

lemma settle_move:
  assumes "done_settle run i st msg rs hs v = Some u" "i < length (reqs w)" "request_ok (reqs w ! i)"
    and "changes i r es w v" "counts 0 w v" "by_port v = by_port w" "transport_aborts i es"
    and "completed (reqs w ! i) \<noteq> Some True \<Longrightarrow> completed r \<noteq> Some True \<and> phase r = Under_way"
    and "completed (reqs w ! i) \<noteq> Some True \<Longrightarrow> \<forall>q. closes r q \<longrightarrow> stage q = stage r \<longrightarrow> installed q = installed r \<longrightarrow> closes (reqs w ! i) q"
    and "completed (reqs w ! i) = Some True \<Longrightarrow> completed r = Some True \<and> req_move i (reqs w ! i) r es"
  shows "ends i w u"
proof (cases "completed (reqs w ! i) = Some True")
  case True
  have "u = v" using assms(1,2,4) assms(10) [OF True] done_settle_ignores [of v i run st msg rs hs] by (simp add: changes_def)
  then show ?thesis using assms(4,5,6) assms(10) [OF True] by (auto simp: ends_def)
next
  case False
  have v: "reqs v ! i = r" "i < length (reqs v)" using assms(2,4) by (simp_all add: changes_def)
  have r: "completed (reqs v ! i) \<noteq> Some True" "phase (reqs v ! i) = Under_way" using assms(8) [OF False] v by simp_all
  note c = done_settle_closes [OF assms(1) v(2) r, unfolded v(1)]
  let ?q = "reqs u ! i"
  have "closes (reqs w ! i) ?q" using c assms(9) [OF False] by blast
  then have "req_move i (reqs w ! i) ?q (es @ settling i ?q)" using assms(7) by (rule req_move.close)
  moreover have "changes i ?q (es @ settling i ?q) w u"
    using c(4,5) assms(4) unfolding changes_def by (metis append_assoc list_update_overwrite)
  moreover have "counts 0 w u" "by_port u = by_port w" using c assms(5,6) by (simp_all add: counts_def)
  moreover have "completed ?q = Some True" using c(1) by (simp add: closes_def)
  ultimately show ?thesis unfolding ends_def by blast
qed

lemma changes_self: "i < length (reqs w) \<Longrightarrow> changes i (reqs w ! i) [] w w"
  by (simp add: changes_def)

lemma settle_ends:
  assumes "done_settle run i st msg rs hs w = Some u" "i < length (reqs w)" "request_ok (reqs w ! i)"
  shows "ends i w u"
  by (rule settle_move [OF assms changes_self [OF assms(2)]])
    (auto simp: counts_def transport_aborts_def under_way [OF assms(3)] intro: req_move.ignore)

lemma abort_ends:
  assumes "abort_request run i msg w = Some u" "i < length (reqs w)" "request_ok (reqs w ! i)"
  shows "ends i w u"
proof -
  define es where "es = (if transport (reqs w ! i) then [Transport_abort i (if msg = [] then abort_text (reqs w ! i) else msg)] else [])"
  have d: "done_settle run i 0 (if msg = [] then abort_text (reqs w ! i) else msg) None [] (emit es w) = Some u"
    using assms(1) by (simp add: abort_request_def Let_def es_def emit_def split: if_splits)
  have "changes i (reqs w ! i) es w (emit es w)" "transport_aborts i es"
    using assms(2) by (auto simp: changes_def transport_aborts_def es_def)
  then show ?thesis
    by (intro settle_move [OF d assms(2,3)]) (auto simp: counts_def under_way [OF assms(3)] intro: req_move.ignore)
qed

lemma begin_move:
  assumes "i < length (reqs w)" "stage (reqs w ! i) = Preparing"
  shows "world_move w (begin_request i w)"
proof (cases "completed (reqs w ! i) \<noteq> Some True \<and> opt_global (options (reqs w ! i))")
  case True
  then show ?thesis
    using assms by (intro world_move.count_up [of w i]) (simp_all add: begin_request_def Let_def changes_def counts_def)
next
  case False
  then have "req_move i (reqs w ! i) (reqs (begin_request i w) ! i) []"
    using assms req_move.leave [of "reqs w ! i" i "[]"] req_move.begin_quietly [of "reqs w ! i" i]
    by (cases "completed (reqs w ! i) = Some True") (simp_all add: begin_request_def Let_def transport_aborts_def)
  then show ?thesis
    by (rule world_move.request) (use False assms(1) in \<open>auto simp: begin_request_def Let_def changes_def counts_def\<close>)
qed

lemma open_move:
  assumes "i < length (reqs w)" "stage (reqs w ! i) = Opened"
  shows "world_move w (transmit i w)"
proof -
  have "req_move i (reqs w ! i) (reqs (transmit i w) ! i) (if completed (reqs w ! i) = Some True then [] else [Transmitted i])"
    using assms req_move.leave [of "reqs w ! i" i "[]"] req_move.launch [of "reqs w ! i" i]
    by (cases "completed (reqs w ! i) = Some True") (simp_all add: transmit_def Let_def transport_aborts_def)
  then show ?thesis
    by (rule world_move.request) (use assms(1) in \<open>simp_all add: transmit_def Let_def changes_def counts_def\<close>)
qed

lemma install_simps [simp]:
  "reqs (install i w) = (reqs w)[i := (reqs w ! i)\<lparr>abort_text := ''abort'', installed := True,
     late := (if completed (reqs w ! i) = Some True then Some (phase (reqs w ! i)) else late (reqs w ! i))\<rparr>]"
  "effects (install i w) = effects w @ (if completed (reqs w ! i) = Some True then late_effects i (reqs w ! i) (phase (reqs w ! i)) else [])"
  "active (install i w) = active w" "by_port (install i w) = by_port w"
  by (simp_all add: install_def Let_def)

lemma refuse_move:
  assumes "abort_request run i [] (update_req i (\<lambda>r. r\<lparr>stage := Returned\<rparr>) w) = Some u" "i < length (reqs w)"
    "stage (reqs w ! i) = Begun" "request_ok (reqs w ! i)"
  shows "world_move w u"
proof -
  let ?r = "reqs w ! i" and ?v = "update_req i (\<lambda>r. r\<lparr>stage := Returned\<rparr>) w"
  define es where "es = (if transport ?r then [Transport_abort i (abort_text ?r)] else [])"
  have d: "done_settle run i 0 (abort_text ?r) None [] (emit es ?v) = Some u"
    using assms(1,2) by (simp add: abort_request_def Let_def es_def split: if_splits)
  have "changes i (?r\<lparr>stage := Returned\<rparr>) es w (emit es ?v)" "transport_aborts i es"
    using assms(2) by (auto simp: changes_def transport_aborts_def es_def)
  then show ?thesis
    by (intro ends_move [OF settle_move [where r = "?r\<lparr>stage := Returned\<rparr>" and es = es, OF d assms(2,4)]])
      (use assms(3) under_way [OF assms(4)] in \<open>auto simp: counts_def closes_def intro: req_move.leave\<close>)
qed

lemma late_move:
  assumes "before_send run i refuse found w = Some u" "i < length (reqs w)" "stage (reqs w ! i) = Begun"
    "completed (reqs w ! i) = Some True" "\<not> opt_before (options (reqs w ! i))"
  shows "world_move w u"
proof -
  let ?r = "reqs w ! i"
  note m = req_move.open_late [of ?r i, OF assms(4,3,5)] req_move.return_late [of ?r i, OF assms(4,3,5)]
  show ?thesis
  proof (cases found)
    case True
    then show ?thesis
      using assms by (intro world_move.request [OF m(1)]) (auto simp: before_send_def Let_def changes_def counts_def)
  next
    case False
    then show ?thesis
      using assms by (intro world_move.request [OF m(2)])
        (auto simp: before_send_def Let_def changes_def counts_def done_settle_ignores)
  qed
qed

lemma ask_move:
  assumes "before_send run i refuse found w = Some u" "i < length (reqs w)" "stage (reqs w ! i) = Begun" "request_ok (reqs w ! i)"
  shows "world_move w u"
proof -
  let ?r = "reqs w ! i"
  consider "opt_before (options ?r) \<and> (refuse \<or> completed ?r = Some True)"
    | "\<not> opt_before (options ?r)" "completed ?r = Some True"
    | "\<not> (opt_before (options ?r) \<and> refuse)" "completed ?r \<noteq> Some True" "\<not> found"
    | "\<not> (opt_before (options ?r) \<and> refuse)" "completed ?r \<noteq> Some True" found
    by blast
  then show ?thesis
  proof cases
    case 1
    then show ?thesis using refuse_move [OF _ assms(2-4)] assms(1) by (simp add: before_send_def Let_def)
  next
    case 2
    then show ?thesis by (intro late_move [OF assms(1-3)])
  next
    case 3
    define r where "r = ?r\<lparr>abort_text := ''abort'', installed := True, stage := Returned\<rparr>"
    define v where "v = update_req i (\<lambda>_. r) w"
    have d: "done_settle run i (-1) ''No Transport'' None [] v = Some u"
      using assms(1,2) 3 by (auto simp: before_send_def install_def Let_def v_def r_def update_req_def)
    have "changes i r [] w v" using assms(2) by (simp add: changes_def v_def)
    then show ?thesis
      by (intro ends_move [OF settle_move [where r = r and es = "[]", OF d assms(2,4)]])
        (use 3 assms(3) under_way [OF assms(4)] in \<open>auto simp: counts_def closes_def r_def v_def transport_aborts_def\<close>)
  next
    case 4
    have u: "Some u = before_send run i refuse found w" using assms(1) by simp
    have "req_move i ?r (reqs u ! i) (if fire_globals ?r then [Ajax_send i] else [])"
      using u assms(2) 4 req_move.open_up [of ?r i, OF 4(2) assms(3)] by (auto simp: before_send_def Let_def)
    then show ?thesis
      by (rule world_move.request) (use u assms(2) 4 in \<open>auto simp: before_send_def Let_def changes_def counts_def\<close>)
  qed
qed

lemma take_move:
  assumes "i < length (reqs w)" "stage (reqs w ! i) = Created"
  shows "world_move w (take_port i w)"
  using assms by (intro world_move.take [of w i]) (simp_all add: take_port_def Let_def changes_def counts_def split: option.split)

lemma go_on_move:
  assumes "i < length (reqs w)" "phase (reqs w ! i) \<noteq> Under_way" "phase (reqs w ! i) \<noteq> Concluded"
  shows "world_move w (go_on i w)"
proof (cases "phase (reqs w ! i) = Reported")
  case True
  then show ?thesis
    using assms(1) by (intro world_move.conclude [of w i])
      (simp_all add: go_on_def Let_def follows_def phase_effects_def count_down_def changes_def counts_def)
next
  case False
  then have p: "phase (reqs w ! i) \<in> {Resolved, Told, Announced, Notified}" using assms by (cases "phase (reqs w ! i)") simp_all
  then have "follows (phase (reqs w ! i)) \<noteq> Concluded" by (auto simp: follows_def)
  then show ?thesis
    by (intro world_move.request [OF req_move.tell [OF p]]) (use assms(1) in \<open>simp_all add: go_on_def Let_def changes_def counts_def\<close>)
qed

text \<open>A call is an abort of the previous request of its port, and a new request that finds its port free.\<close>

definition grows :: "ajax_options \<Rightarrow> world \<Rightarrow> world \<Rightarrow> bool" where
  "grows o' w u \<longleftrightarrow>
     reqs u = reqs w @ [new_request o'] \<and> effects u = effects w \<and> active u = active w \<and> by_port u = by_port w"

lemma ends_grown:
  assumes "ends j (w\<lparr>reqs := reqs w @ [new_request o']\<rparr>) u" "j < length (reqs w)"
  shows "\<exists>v. ends j w v \<and> grows o' v u"
proof -
  obtain r es where r: "req_move j (reqs w ! j) r es" "completed r = Some True" "reqs u = (reqs w)[j := r] @ [new_request o']"
    "effects u = effects w @ es" "active u = active w" "by_port u = by_port w"
    using assms by (auto simp: ends_def changes_def counts_def nth_append list_update_append)
  define v where "v = w\<lparr>reqs := (reqs w)[j := r], effects := effects w @ es\<rparr>"
  have "ends j w v" using r(1,2) assms(2) by (auto simp: ends_def v_def changes_def counts_def)
  moreover have "grows o' v u" using r by (simp add: grows_def v_def)
  ultimately show ?thesis by blast
qed

text \<open>What the moves rely on.\<close>

definition ports_ok :: "world \<Rightarrow> bool" where
  "ports_ok w \<longleftrightarrow> (\<forall>p j. oget (by_port w) p = Some j \<longrightarrow> j < length (reqs w) \<and> opt_port (options (reqs w ! j)) = Some p)"

definition requests_ok :: "world \<Rightarrow> bool" where
  "requests_ok w \<longleftrightarrow> list_all request_ok (reqs w)"

lemma requests_ok_nth: "requests_ok w \<Longrightarrow> i < length (reqs w) \<Longrightarrow> request_ok (reqs w ! i)"
  by (simp add: requests_ok_def list_all_length)

lemma create_moves:
  assumes "create run o' w = Some u" "requests_ok w" "ports_ok w"
  shows "\<exists>v. (v = w \<or> (\<exists>j. ends j w v)) \<and> port_free o' v \<and> grows o' v u"
proof -
  let ?w = "w\<lparr>reqs := reqs w @ [new_request o']\<rparr>"
  have here: ?thesis if "u = ?w" "port_free o' w" using that by (auto simp: grows_def)
  show ?thesis
  proof (cases "opt_port o'")
    case None
    then show ?thesis using assms(1) by (intro here) (simp_all add: create_def abort_previous_def port_free_def)
  next
    case (Some p)
    show ?thesis
    proof (cases "oget (by_port w) p")
      case None
      then show ?thesis using assms(1) Some by (intro here) (simp_all add: create_def abort_previous_def port_free_def)
    next
      case j: (Some j)
      have l: "j < length (reqs w)" using assms(3) j by (auto simp: ports_ok_def)
      have "abort_request run j [] ?w = Some u" using assms(1) Some j by (simp add: create_def abort_previous_def)
      then have "ends j ?w u" by (rule abort_ends) (use l requests_ok_nth [OF assms(2) l] in \<open>simp_all add: nth_append\<close>)
      then obtain v where v: "ends j w v" "grows o' v u" using ends_grown l by blast
      then have "port_free o' v" using j Some by (auto simp: port_free_def ends_def changes_def)
      then show ?thesis using v by blast
    qed
  qed
qed

text \<open>Every step is a move, or a call.\<close>

lemma step_moves:
  assumes "ajax_step run undisturbed w u" "requests_ok w" "ports_ok w"
  shows "world_move w u \<or>
    (\<exists>v o'. (v = w \<or> (\<exists>j. ends j w v)) \<and> port_free o' v \<and> grows o' v u \<and> \<not> (undisturbed \<and> in_prefilter w))"
  using assms
proof (cases rule: ajax_step.cases)
  case (created o')
  obtain v where "v = w \<or> (\<exists>j. ends j w v)" "port_free o' v" "grows o' v u"
    using create_moves [OF created(1) assms(2,3)] by (elim exE conjE)
  then show ?thesis using created(2) by - (rule disjI2, intro exI [of _ v] exI [of _ o'] conjI)
next
  case (asked i refuse found)
  show ?thesis by (rule disjI1, rule ask_move [OF asked(3,1,2) requests_ok_nth [OF assms(2) asked(1)]])
next
  case (answered i st msg rs headers)
  show ?thesis by (rule disjI1, rule ends_move [OF settle_ends [OF answered(3,1) requests_ok_nth [OF assms(2) answered(1)]]])
next
  case (timed i)
  show ?thesis by (rule disjI1, rule ends_move [OF abort_ends [OF timed(3,1) requests_ok_nth [OF assms(2) timed(1)]]])
next
  case (aborted i msg)
  show ?thesis by (rule disjI1, rule ends_move [OF abort_ends [OF aborted(2,1) requests_ok_nth [OF assms(2) aborted(1)]]])
qed (simp_all add: take_move begin_move open_move go_on_move)

section \<open>From moves to reachable states\<close>

lemma changed_requests_ok:
  "changes i r es w u \<Longrightarrow> requests_ok w \<Longrightarrow> request_ok r \<Longrightarrow> requests_ok u"
  by (simp add: changes_def requests_ok_def list_all_length nth_list_update)

lemma count_up_ok:
  "request_ok r \<Longrightarrow> stage r = Preparing \<Longrightarrow> completed r \<noteq> Some True \<Longrightarrow> request_ok (r\<lparr>stage := Begun, fire_globals := True\<rparr>)"
  by (auto simp: request_ok_def late_ok_def)

lemma world_move_requests_ok: "world_move w u \<Longrightarrow> requests_ok w \<Longrightarrow> requests_ok u"
proof (induction rule: world_move.induct)
  case (request i w r es u)
  then show ?case using req_move_ok requests_ok_nth changed_requests_ok by (metis changes_def)
next
  case (count_up w i u)
  then have "request_ok (reqs w ! i)" by (simp add: changes_def requests_ok_nth)
  with count_up(1,2) have "request_ok ((reqs w ! i)\<lparr>stage := Begun, fire_globals := True\<rparr>)" by (intro count_up_ok)
  then show ?case by (rule changed_requests_ok [OF count_up(3,6)])
next
  case (conclude w i u)
  then have "request_ok (reqs w ! i)" by (simp add: changes_def requests_ok_nth)
  with conclude(1) have "request_ok ((reqs w ! i)\<lparr>phase := Concluded\<rparr>)" by (auto simp: request_ok_def late_ok_def phase_order)
  then show ?case by (rule changed_requests_ok [OF conclude(2,5)])
next
  case (take w i u)
  then have "request_ok (reqs w ! i)" by (simp add: changes_def requests_ok_nth)
  with take(1) have "request_ok ((reqs w ! i)\<lparr>stage := Preparing\<rparr>)" by (auto simp: request_ok_def late_ok_def)
  then show ?case by (rule changed_requests_ok [OF take(2,5)])
qed

lemma changed_ports_ok:
  assumes "changes i r es w u" "by_port u = by_port w" "options r = options (reqs w ! i)" "ports_ok w"
  shows "ports_ok u"
  using assms by (auto simp: changes_def ports_ok_def nth_list_update)

lemma world_move_ports_ok: "world_move w u \<Longrightarrow> ports_ok w \<Longrightarrow> ports_ok u"
proof (induction rule: world_move.induct)
  case (request i w r es u)
  then show ?case using changed_ports_ok req_move_options by metis
next
  case (take w i u)
  then show ?case by (auto simp: changes_def ports_ok_def nth_list_update obj.get_put split: option.splits if_splits)
qed (auto elim!: changed_ports_ok)

lemma grows_requests_ok: "grows o' w u \<Longrightarrow> requests_ok w \<Longrightarrow> requests_ok u"
  by (simp add: grows_def requests_ok_def new_request_def request_ok_def late_ok_def)

lemma grows_ports_ok: "grows o' w u \<Longrightarrow> ports_ok w \<Longrightarrow> ports_ok u"
  by (auto simp: grows_def ports_ok_def nth_append less_Suc_eq)

lemma ends_prefilter: "ends j w v \<Longrightarrow> in_prefilter v \<Longrightarrow> in_prefilter w"
  by (auto simp: ends_def changes_def in_prefilter_def list_ex_length nth_list_update closes_def elim!: req_move.cases split: if_splits)

locale ajax_invariant =
  fixes undisturbed :: bool and I :: "world \<Rightarrow> bool"
  assumes fresh: "fresh_world w \<Longrightarrow> I w"
    and move: "requests_ok w \<Longrightarrow> ports_ok w \<Longrightarrow> world_move w u \<Longrightarrow> I w \<Longrightarrow> I u"
    and grow: "requests_ok w \<Longrightarrow> ports_ok w \<Longrightarrow> port_free o' w \<Longrightarrow> \<not> (undisturbed \<and> in_prefilter w) \<Longrightarrow> grows o' w u \<Longrightarrow> I w \<Longrightarrow> I u"
begin

lemma step:
  assumes "ajax_step run undisturbed w u" "requests_ok w" "ports_ok w" "I w"
  shows "requests_ok u \<and> ports_ok u \<and> I u"
  using step_moves [OF assms(1-3)]
proof (elim disjE exE conjE)
  assume "world_move w u"
  then show ?thesis using assms(2-4) world_move_requests_ok world_move_ports_ok move by blast
next
  fix v o' assume v: "v = w" "port_free o' v" "grows o' v u" "\<not> (undisturbed \<and> in_prefilter w)"
  show ?thesis
    using v grows_requests_ok [OF v(3)] grows_ports_ok [OF v(3)] grow [OF _ _ v(2) _ v(3)] assms(2-4) by simp
next
  fix v o' j assume v: "ends j w v" "port_free o' v" "grows o' v u" "\<not> (undisturbed \<and> in_prefilter w)"
  have m: "requests_ok v" "ports_ok v" "I v"
    using assms(2-4) ends_move [OF v(1)] world_move_requests_ok world_move_ports_ok move by blast+
  have "\<not> (undisturbed \<and> in_prefilter v)" using v(1,4) ends_prefilter by blast
  then show ?thesis using m v(2,3) grows_requests_ok grows_ports_ok grow by blast
qed

lemma reachable: "ajax_reach run undisturbed w \<Longrightarrow> requests_ok w \<and> ports_ok w \<and> I w"
proof (induction rule: ajax_reach.induct)
  case (fresh w)
  then show ?case using ajax_invariant.fresh [OF ajax_invariant_axioms] by (simp add: fresh_world_def requests_ok_def ports_ok_def)
next
  case (further w u)
  then show ?case using step by blast
qed

end

interpretation basic: ajax_invariant undisturbed "\<lambda>w. requests_ok w \<and> ports_ok w"
proof unfold_locales
  fix w assume "fresh_world w"
  then show "requests_ok w \<and> ports_ok w" by (simp add: fresh_world_def requests_ok_def ports_ok_def)
qed (simp_all add: world_move_requests_ok world_move_ports_ok grows_requests_ok grows_ports_ok)

section \<open>The notices of a request\<close>

text \<open>What is sent and told of a request, in its order.\<close>

fun subject :: "ajax_effect \<Rightarrow> nat option" where
  "subject (Transmitted i) = Some i"
| "subject (Settled i x) = Some i"
| "subject (Status_callbacks i st) = Some i"
| "subject (Global_result i ok) = Some i"
| "subject (Completed i msg) = Some i"
| "subject (Ajax_complete i) = Some i"
| "subject (Late_result i x) = Some i"
| "subject e = None"

definition notices :: "nat \<Rightarrow> ajax_effect list \<Rightarrow> ajax_effect list" where
  "notices i es = filter (\<lambda>e. subject e = Some i) es"

definition told_by :: "nat \<Rightarrow> ajax_req \<Rightarrow> (phase \<Rightarrow> bool) \<Rightarrow> ajax_effect list" where
  "told_by i r P = concat (map (phase_effects i r) (filter P [Told, Announced, Notified, Reported]))"

text \<open>The callbacks of the options may have been installed late, when \<open>done\<close> was at \<open>q\<close>.\<close>

definition course :: "nat \<Rightarrow> ajax_req \<Rightarrow> ajax_effect list" where
  "course i r =
     (if stage r = Launched then [Transmitted i] else []) @
     (if Resolved \<le> phase r then [Settled i (outcome r)] else []) @
     (case late r of
        None \<Rightarrow> told_by i r (\<lambda>p. p \<le> phase r)
      | Some q \<Rightarrow> told_by i (r\<lparr>installed := False\<rparr>) (\<lambda>p. p \<le> q) @ late_effects i r q @ told_by i r (\<lambda>p. q < p \<and> p \<le> phase r))"

lemma notices_append [simp]: "notices i (es @ fs) = notices i es @ notices i fs"
  by (simp add: notices_def)

lemma notices_one [simp]: "notices j [] = []" "notices j [e] = (if subject e = Some j then [e] else [])"
  by (simp_all add: notices_def)

lemma notices_aborts [simp]: "transport_aborts i es \<Longrightarrow> notices j es = []"
  by (auto simp: transport_aborts_def notices_def)

lemma notices_phase: "notices j (phase_effects i r p) = (if i = j then phase_effects i r p else [])"
  by (simp add: notices_def phase_effects_def split: phase.split)

lemma course_under_way:
  "request_ok r \<Longrightarrow> phase r = Under_way \<Longrightarrow> course i r = (if stage r = Launched then [Transmitted i] else [])"
  by (cases "late r") (auto simp: course_def told_by_def late_effects_def request_ok_def late_ok_def phase_order)

lemma course_resolved:
  "late r = None \<Longrightarrow> phase r = Resolved \<Longrightarrow> course i r = (if stage r = Launched then [Transmitted i] else []) @ [Settled i (outcome r)]"
  by (simp add: course_def told_by_def phase_order)

lemma phase_effects_cong:
  "fire_globals r' = fire_globals r \<Longrightarrow> installed r' = installed r \<Longrightarrow> status r' = status r \<Longrightarrow> outcome r' = outcome r \<Longrightarrow>
     phase_effects i r' = phase_effects i r"
  by (simp add: phase_effects_def fun_eq_iff split: phase.split)

lemma concluded_silent [simp]: "phase_effects i r Concluded = []"
  by (simp add: phase_effects_def)

lemma told_next:
  assumes "p \<in> {Resolved, Told, Announced, Notified, Reported}"
  shows "told_by i r (\<lambda>x. x \<le> follows p) = told_by i r (\<lambda>x. x \<le> p) @ phase_effects i r (follows p)"
    "q \<le> p \<Longrightarrow> told_by i r (\<lambda>x. q < x \<and> x \<le> follows p) = told_by i r (\<lambda>x. q < x \<and> x \<le> p) @ phase_effects i r (follows p)"
proof -
  have p: "follows p \<noteq> Under_way" "follows p \<noteq> Resolved" using assms by (auto simp: follows_def)
  have last: "concat (map (phase_effects i r) (if follows p = Concluded then [] else [follows p])) = phase_effects i r (follows p)" by simp
  have "filter (\<lambda>x. x \<le> follows p) [Told, Announced, Notified, Reported] =
      filter (\<lambda>x. x \<le> p) [Told, Announced, Notified, Reported] @ (if follows p = Concluded then [] else [follows p])"
    using assms by (elim insertE emptyE; simp add: follows_def phase_order)
  then show "told_by i r (\<lambda>x. x \<le> follows p) = told_by i r (\<lambda>x. x \<le> p) @ phase_effects i r (follows p)"
    unfolding told_by_def by (simp only: map_append concat_append last)
  have "filter (\<lambda>x. q < x \<and> x \<le> follows p) [Told, Announced, Notified, Reported] =
      filter (\<lambda>x. q < x \<and> x \<le> p) [Told, Announced, Notified, Reported] @ (if follows p = Concluded then [] else [follows p])" if "q \<le> p"
    using assms that by (elim insertE emptyE; cases q; simp add: follows_def phase_order)
  then show "q \<le> p \<Longrightarrow> told_by i r (\<lambda>x. q < x \<and> x \<le> follows p) = told_by i r (\<lambda>x. q < x \<and> x \<le> p) @ phase_effects i r (follows p)"
    unfolding told_by_def by (simp only: map_append concat_append last)
qed

lemma course_phase:
  assumes "phase r \<in> {Resolved, Told, Announced, Notified, Reported}" "\<forall>q. late r = Some q \<longrightarrow> q \<le> phase r"
  shows "course i (r\<lparr>phase := follows (phase r)\<rparr>) = course i r @ phase_effects i r (follows (phase r))"
proof -
  have "phase_effects i (r\<lparr>phase := p\<rparr>) = phase_effects i r" "phase_effects i (r\<lparr>phase := p, installed := b\<rparr>) = phase_effects i (r\<lparr>installed := b\<rparr>)"
    "late_effects i (r\<lparr>phase := p\<rparr>) q = late_effects i r q" for p b q
    by (rule phase_effects_cong; simp)+ (simp add: late_effects_def)
  then have e: "told_by i (r\<lparr>phase := p\<rparr>) = told_by i r" "told_by i (r\<lparr>phase := p, installed := b\<rparr>) = told_by i (r\<lparr>installed := b\<rparr>)"
    "late_effects i (r\<lparr>phase := p\<rparr>) q = late_effects i r q" for p b q
    by (simp_all add: told_by_def fun_eq_iff)
  have s: "Resolved \<le> phase r" "Resolved \<le> follows (phase r)" using assms(1) by (auto simp: follows_def phase_order)
  show ?thesis
  proof (cases "late r")
    case None
    then show ?thesis using s told_next(1) [OF assms(1)] by (simp add: course_def e)
  next
    case (Some q)
    then show ?thesis using s told_next(2) [OF assms(1)] assms(2) by (simp add: course_def e)
  qed
qed

lemma course_staged [simp]:
  "stage r \<noteq> Launched \<Longrightarrow> st \<noteq> Launched \<Longrightarrow> course i (r\<lparr>stage := st\<rparr>) = course i r"
proof -
  have e: "phase_effects i (r\<lparr>stage := st\<rparr>) = phase_effects i r" "phase_effects i (r\<lparr>stage := st, installed := b\<rparr>) = phase_effects i (r\<lparr>installed := b\<rparr>)"
    "late_effects i (r\<lparr>stage := st\<rparr>) q = late_effects i r q" for b q
    by (rule phase_effects_cong; simp)+ (simp add: late_effects_def)
  show "stage r \<noteq> Launched \<Longrightarrow> st \<noteq> Launched \<Longrightarrow> course i (r\<lparr>stage := st\<rparr>) = course i r"
    by (cases "late r") (simp_all add: course_def told_by_def e)
qed

text \<open>Callbacks that are installed late.\<close>

lemma course_late:
  assumes "late r = None" "\<not> installed r" "stage r \<noteq> Launched" "st \<noteq> Launched"
    and "r' = r\<lparr>abort_text := t, installed := True, late := Some (phase r), stage := st\<rparr> \<or>
      r' = r\<lparr>abort_text := t, installed := True, late := Some (phase r), stage := st, transport := b, ready_state := n\<rparr>"
  shows "course i r' = course i r @ late_effects i r (phase r)"
proof -
  have e: "phase_effects i (r'\<lparr>installed := False\<rparr>) = phase_effects i r" "late_effects i r' q = late_effects i r q" for q
    using assms(2,5) by (auto simp: late_effects_def intro!: phase_effects_cong)
  have f: "late r' = Some (phase r)" "phase r' = phase r" "outcome r' = outcome r" "stage r' \<noteq> Launched" using assms(4,5) by auto
  have "(\<lambda>p. phase r < p \<and> p \<le> phase r) = (\<lambda>_. False)" by (auto simp: fun_eq_iff dest: leD)
  then have "told_by i r' (\<lambda>p. phase r < p \<and> p \<le> phase r) = []" by (simp add: told_by_def)
  then show ?thesis using assms(1,3) by (simp add: course_def f e told_by_def)
qed

lemma notices_late [simp]: "notices j (late_effects i r p) = (if i = j then late_effects i r p else [])"
  by (simp add: notices_def late_effects_def)

lemma req_move_course:
  "req_move i r r' es \<Longrightarrow> request_ok r \<Longrightarrow> course i r' = course i r @ notices i es \<and> (j \<noteq> i \<longrightarrow> notices j es = [])"
proof (induction rule: req_move.induct)
  case (close r r' es)
  have p: "phase r = Under_way" "stage r' = Launched \<longleftrightarrow> stage r = Launched" "late r' = None"
    using close(1) under_way [OF close(3)] late_under [OF close(3)] by (auto simp: closes_def)
  have r': "request_ok r'" by (rule req_move_ok [OF req_move.close [OF close(1,2)] close(3)])
  have "phase r' = Under_way \<or> phase r' = Resolved" using close by (auto simp: closes_def)
  then show ?case
    using close(2) course_under_way [OF close(3) p(1)] course_under_way [OF r'] course_resolved [OF p(3)] p(2)
    by (auto simp: settling_def)
next
  case (begin_quietly r)
  note m = req_move_ok [OF req_move.begin_quietly [OF begin_quietly(1,2)] begin_quietly(3)]
  show ?case
    using course_under_way [OF m] course_under_way [OF begin_quietly(3)] under_way [OF begin_quietly(3,1)] begin_quietly(2) by (simp add: notices_def)
next
  case (open_up r)
  note m = req_move_ok [OF req_move.open_up [OF open_up(1,2)] open_up(3)]
  show ?case using course_under_way [OF m] course_under_way [OF open_up(3)] under_way [OF open_up(3,1)] open_up(2) by (simp add: notices_def)
next
  case (open_late r)
  then have "late r = None" "\<not> installed r" by (cases "late r"; simp add: request_ok_def late_ok_def)+
  then show ?case using open_late(2) course_late [of r Opened, OF _ _ _ _ disjI2, OF _ _ _ _ refl] by (simp add: notices_def [of _ "[Ajax_send i]"])
next
  case (return_late r)
  then have "late r = None" "\<not> installed r" by (cases "late r"; simp add: request_ok_def late_ok_def)+
  then show ?case using return_late(2) course_late [of r Returned, OF _ _ _ _ disjI1, OF _ _ _ _ refl] by simp
next
  case (launch r t)
  note m = req_move_ok [OF req_move.launch [OF launch(1,2), where t = t] launch(3)]
  show ?case using course_under_way [OF m] course_under_way [OF launch(3)] under_way [OF launch(3,1)] launch(2) by (simp add: notices_def)
next
  case (tell r)
  then have "\<forall>q. late r = Some q \<longrightarrow> q \<le> phase r" by (simp add: request_ok_def late_ok_def)
  moreover have "phase r \<in> {Resolved, Told, Announced, Notified, Reported}" using tell(1) by blast
  ultimately show ?case using course_phase [of r i] by (simp add: notices_phase)
qed auto

definition notices_ok :: "world \<Rightarrow> bool" where
  "notices_ok w \<longleftrightarrow> (\<forall>i. notices i (effects w) = (if i < length (reqs w) then course i (reqs w ! i) else []))"

lemma changed_notices_ok:
  assumes "changes i r es w u" "notices_ok w" "course i r = course i (reqs w ! i) @ notices i es"
    "\<And>j. j \<noteq> i \<Longrightarrow> notices j es = []"
  shows "notices_ok u"
  using assms by (auto simp: changes_def notices_ok_def nth_list_update)

interpretation telling: ajax_invariant undisturbed notices_ok
proof unfold_locales
  fix w u assume w: "requests_ok w" "world_move w u" "notices_ok w"
  from w(2,1,3) show "notices_ok u"
  proof (induction rule: world_move.induct)
    case (request i w r es u)
    then have "request_ok (reqs w ! i)" by (simp add: changes_def requests_ok_nth)
    then show ?case using changed_notices_ok [OF request(2,6)] req_move_course [OF request(1)] by blast
  next
    case (count_up w i u)
    then have r: "request_ok (reqs w ! i)" by (simp add: changes_def requests_ok_nth)
    then show ?case
      using count_up(1) course_under_way [OF r] course_under_way [OF count_up_ok [OF r count_up(1,2)]] under_way [OF r count_up(2)]
      by (intro changed_notices_ok [OF count_up(3,7)]) (simp_all add: notices_def)
  next
    case (conclude w i u)
    then have "request_ok (reqs w ! i)" by (simp add: changes_def requests_ok_nth)
    then have "course i ((reqs w ! i)\<lparr>phase := Concluded\<rparr>) = course i (reqs w ! i)"
      using course_phase [of "reqs w ! i" i] conclude(1) by (auto simp: request_ok_def late_ok_def follows_def phase_effects_def)
    then show ?case by (intro changed_notices_ok [OF conclude(2,6)]) simp_all
  next
    case (take w i u)
    then show ?case by (intro changed_notices_ok [OF take(2,6)]) (simp_all add: notices_def)
  qed
qed (auto simp: fresh_world_def notices_ok_def notices_def grows_def nth_append course_def told_by_def new_request_def phase_order)

text \<open>C16: Whatever happens to the requests of a page and in whatever order, what is sent and told of each of them is
  a prefix of one sequence: it is sent (or is not), its deferred is settled, the functions for its status are called,
  the event \<open>ajaxSuccess\<close> or \<open>ajaxError\<close> is triggered, its \<open>complete\<close> callback is called and \<open>ajaxComplete\<close> is
  triggered; none of these happens twice, none after a later one, and all report the same outcome; \<open>complete\<close> is only
  called once the callbacks of the options have been installed. There is one exception: a request without the option
  \<open>beforeSend\<close> that is aborted before (by a handler of \<open>ajaxStart\<close>) is not sent, but its callbacks are still installed,
  and from where \<open>done\<close> was then: \<open>complete\<close>, if its turn was over, and \<open>success\<close> or \<open>error\<close>, if the deferred was
  settled, are called at that moment, once.\<close>

theorem request_notices:
  assumes "ajax_reach run undisturbed w" "i < length (reqs w)"
  shows "notices i (effects w) = course i (reqs w ! i) \<and>
    (late (reqs w ! i) \<noteq> None \<longrightarrow>
       \<not> opt_before (options (reqs w ! i)) \<and> stage (reqs w ! i) \<noteq> Launched \<and> completed (reqs w ! i) = Some True)"
proof -
  have "request_ok (reqs w ! i)" using basic.reachable [OF assms(1)] assms(2) requests_ok_nth by blast
  then show ?thesis using telling.reachable [OF assms(1)] assms(2) by (auto simp: notices_ok_def request_ok_def late_ok_def)
qed

section \<open>The counter\<close>

text \<open>Whether requests are under way after these effects, when start and stop alternate.\<close>

fun alternates :: "bool \<Rightarrow> ajax_effect list \<Rightarrow> bool option" where
  "alternates b [] = Some b"
| "alternates b (e # es) =
     (if e = Ajax_start then if b then None else alternates True es
      else if e = Ajax_stop then if b then alternates False es else None
      else alternates b es)"

definition counted :: "ajax_req \<Rightarrow> bool" where
  "counted r \<longleftrightarrow> fire_globals r \<and> phase r \<noteq> Concluded"

definition counter_ok :: "world \<Rightarrow> bool" where
  "counter_ok w \<longleftrightarrow>
     active w = int (length (filter counted (reqs w))) \<and> alternates False (effects w) = Some (0 < active w)"

lemma alternates_append: "alternates b (es @ fs) = (case alternates b es of None \<Rightarrow> None | Some c \<Rightarrow> alternates c fs)"
  by (induction b es rule: alternates.induct) simp_all

lemma alternates_other: "Ajax_start \<notin> set es \<Longrightarrow> Ajax_stop \<notin> set es \<Longrightarrow> alternates b es = Some b"
  by (induction es) auto

lemma filter_update_length:
  "i < length xs \<Longrightarrow> int (length (filter P (xs[i := y]))) =
     int (length (filter P xs)) + (if P y then 1 else 0) - (if P (xs ! i) then 1 else 0)"
proof (induction xs arbitrary: i)
  case (Cons x xs)
  show ?case
  proof (cases i)
    case (Suc j)
    then show ?thesis using Cons.IH [of j] Cons.prems by (cases "P x") simp_all
  qed simp
qed simp

lemma req_move_counted: "req_move i r r' es \<Longrightarrow> request_ok r \<Longrightarrow> counted r' = counted r"
proof (induction rule: req_move.induct)
  case (close r r' es)
  then have "phase r = Under_way" by (intro under_way) (simp_all add: closes_def)
  then show ?case using close(1) by (auto simp: closes_def counted_def)
next
  case (begin_quietly r)
  then show ?case by (simp add: counted_def request_ok_def)
next
  case (tell r)
  then show ?case by (auto simp: counted_def follows_def)
qed (simp_all add: counted_def)

lemma req_move_silent: "req_move i r r' es \<Longrightarrow> Ajax_start \<notin> set es \<and> Ajax_stop \<notin> set es"
  by (induction rule: req_move.induct) (auto simp: transport_aborts_def settling_def phase_effects_def late_effects_def split: phase.splits)

lemma changed_counter_ok:
  assumes "changes i r es w u" "counts k w u" "counter_ok w"
    and "k = (if counted r then 1 else 0) - (if counted (reqs w ! i) then 1 else 0)"
    and "alternates (0 < active w) es = Some (0 < active w + k)"
  shows "counter_ok u"
  using assms by (simp add: changes_def counts_def counter_ok_def filter_update_length alternates_append)

interpretation counting: ajax_invariant undisturbed counter_ok
proof unfold_locales
  fix w u assume w: "requests_ok w" "world_move w u" "counter_ok w"
  from w(2,1,3) show "counter_ok u"
  proof (induction rule: world_move.induct)
    case (request i w r es u)
    then have "request_ok (reqs w ! i)" by (simp add: changes_def requests_ok_nth)
    then show ?case
      using req_move_counted [OF request(1)] req_move_silent [OF request(1)]
      by (intro changed_counter_ok [OF request(2,3,6)]) (simp_all add: alternates_other)
  next
    case (count_up w i u)
    then have r: "request_ok (reqs w ! i)" by (simp add: changes_def requests_ok_nth)
    then have "phase (reqs w ! i) = Under_way" "\<not> fire_globals (reqs w ! i)"
      using count_up(1,2) under_way by (auto simp: request_ok_def)
    moreover have "0 \<le> active w" using count_up(7) by (simp add: counter_ok_def)
    ultimately show ?case by (intro changed_counter_ok [OF count_up(3,4,7)]) (auto simp: counted_def)
  next
    case (conclude w i u)
    then have l: "i < length (reqs w)" by (simp add: changes_def)
    have "0 < active w" if "fire_globals (reqs w ! i)"
    proof -
      have "reqs w ! i \<in> set (filter counted (reqs w))" using l that conclude(1) by (simp add: counted_def)
      then show ?thesis using length_pos_if_in_set conclude(6) by (fastforce simp: counter_ok_def)
    qed
    then show ?case using conclude(1) by (intro changed_counter_ok [OF conclude(2,3,6)]) (auto simp: counted_def)
  next
    case (take w i u)
    then show ?case by (intro changed_counter_ok [OF take(2,3,6)]) (simp_all add: counted_def)
  qed
qed (auto simp: fresh_world_def counter_ok_def grows_def new_request_def counted_def)

text \<open>C17: \<open>jQuery.active\<close> is at any time the number of requests with global events that were counted when they began and
  whose \<open>done\<close> has not run to its end; \<open>ajaxStart\<close> and \<open>ajaxStop\<close> alternate, and the last of them was \<open>ajaxStart\<close>
  exactly when a request is counted.\<close>

theorem active_counts:
  assumes "ajax_reach run undisturbed w"
  shows "active w = int (length (filter counted (reqs w))) \<and> alternates False (effects w) = Some (0 < active w)"
  using counting.reachable [OF assms] by (simp_all add: counter_ok_def)

section \<open>Ports\<close>

definition uses_port :: "string \<Rightarrow> ajax_req \<Rightarrow> bool" where
  "uses_port p r \<longleftrightarrow> opt_port (options r) = Some p"

definition exclusive_ok :: "world \<Rightarrow> bool" where
  "exclusive_ok w \<longleftrightarrow>
     (\<forall>i < length (reqs w). \<forall>p. uses_port p (reqs w ! i) \<longrightarrow> completed (reqs w ! i) \<noteq> Some True \<longrightarrow>
        stage (reqs w ! i) \<noteq> Created \<longrightarrow> oget (by_port w) p = Some i) \<and>
     (\<forall>i < length (reqs w). stage (reqs w ! i) = Created \<longrightarrow>
        (\<forall>j < length (reqs w). j \<noteq> i \<longrightarrow> stage (reqs w ! j) \<noteq> Created \<and>
           (\<forall>p. uses_port p (reqs w ! i) \<longrightarrow> uses_port p (reqs w ! j) \<longrightarrow> completed (reqs w ! j) = Some True)))"

lemma req_move_created: "req_move i r r' es \<Longrightarrow> stage r' = Created \<longleftrightarrow> stage r = Created"
  by (induction rule: req_move.induct) (auto simp: closes_def)

lemma changed_exclusive_ok:
  assumes "changes i r es w u" "by_port u = by_port w" "exclusive_ok w" "options r = options (reqs w ! i)"
    and "stage r = Created \<longleftrightarrow> stage (reqs w ! i) = Created"
    and "completed (reqs w ! i) = Some True \<Longrightarrow> completed r = Some True"
  shows "exclusive_ok u"
proof -
  have l: "length (reqs u) = length (reqs w)" using assms(1) by (simp add: changes_def)
  have "uses_port p (reqs u ! j) = uses_port p (reqs w ! j)" "stage (reqs u ! j) = Created \<longleftrightarrow> stage (reqs w ! j) = Created"
    "completed (reqs w ! j) = Some True \<longrightarrow> completed (reqs u ! j) = Some True" for j p
    using assms(1,4-6) by (cases "j = i"; simp add: changes_def uses_port_def)+
  then show ?thesis using assms(2,3) unfolding exclusive_ok_def l by metis
qed

interpretation porting: ajax_invariant True exclusive_ok
proof unfold_locales
  fix w u assume w: "requests_ok w" "world_move w u" "exclusive_ok w"
  from w(2,3) show "exclusive_ok u"
  proof (induction rule: world_move.induct)
    case (request i w r es u)
    then show ?case
      using req_move_options [OF request(1)] req_move_created [OF request(1)] req_move_completed [OF request(1)]
      by (intro changed_exclusive_ok [OF request(2,4,5)]) simp_all
  next
    case (take w i u)
    then have l: "i < length (reqs w)" "length (reqs u) = length (reqs w)" by (simp_all add: changes_def)
    have u: "reqs u ! j = (if j = i then (reqs w ! i)\<lparr>stage := Preparing\<rparr> else reqs w ! j)" for j
      using take(2) l by (simp add: changes_def)
    have others: "stage (reqs w ! j) \<noteq> Created" "uses_port p (reqs w ! i) \<longrightarrow> uses_port p (reqs w ! j) \<longrightarrow> completed (reqs w ! j) = Some True"
      if "j < length (reqs w)" "j \<noteq> i" for j p
      using take(1,5) l(1) that unfolding exclusive_ok_def by blast+
    have "oget (by_port u) p = Some j"
      if "j < length (reqs u)" "uses_port p (reqs u ! j)" "completed (reqs u ! j) \<noteq> Some True" for j p
    proof (cases "j = i")
      case True
      then show ?thesis using that take(4) u [of i] by (simp add: uses_port_def obj.get_put)
    next
      case False
      then have j: "uses_port p (reqs w ! j)" "completed (reqs w ! j) \<noteq> Some True" using that u [of j] by simp_all
      then have "\<not> uses_port p (reqs w ! i)" using others(2) that(1) l(2) False by auto
      then have "oget (by_port u) p = oget (by_port w) p"
        using take(4) by (auto simp: uses_port_def obj.get_put split: option.splits)
      then show ?thesis using take(5) j others(1) [of j] that(1) l(2) False unfolding exclusive_ok_def by auto
    qed
    moreover have "stage (reqs u ! j) \<noteq> Created" if "j < length (reqs u)" for j
      using that others(1) [of j] u [of j] l(2) by (cases "j = i") simp_all
    ultimately show ?case unfolding exclusive_ok_def by blast
  qed (auto elim!: changed_exclusive_ok)
next
  fix w o' u assume w: "requests_ok w" "ports_ok w" "port_free o' w" "\<not> (True \<and> in_prefilter w)" "grows o' w u" "exclusive_ok w"
  have u: "reqs u = reqs w @ [new_request o']" "by_port u = by_port w" using w(5) by (simp_all add: grows_def)
  have n: "stage (reqs w ! j) \<noteq> Created" if "j < length (reqs w)" for j
    using w(4) that by (auto simp: in_prefilter_def list_ex_length)
  have "completed (reqs w ! j) = Some True" if "j < length (reqs w)" "opt_port o' = Some p" "uses_port p (reqs w ! j)" for j p
  proof (rule ccontr)
    assume c: "completed (reqs w ! j) \<noteq> Some True"
    then have "oget (by_port w) p = Some j" using w(6) that n [OF that(1)] unfolding exclusive_ok_def by blast
    then show False using w(3) that(2) c by (simp add: port_free_def)
  qed
  then show "exclusive_ok u"
    using w(6) n unfolding exclusive_ok_def u by (auto simp: nth_append less_Suc_eq new_request_def uses_port_def)
qed (simp add: fresh_world_def exclusive_ok_def)

text \<open>C18: With the validator's prefilter, two requests with the mode \<open>abort\<close> and the same port are never both
  unfinished: a new request of a port ends the previous one before it is sent. (As long as no function that is called
  when the previous request is aborted makes a request of its own.)\<close>

theorem port_exclusive:
  assumes "ajax_reach run True w" "i < length (reqs w)" "j < length (reqs w)"
    and "uses_port p (reqs w ! i)" "uses_port p (reqs w ! j)"
    and "completed (reqs w ! i) \<noteq> Some True" "completed (reqs w ! j) \<noteq> Some True"
  shows "i = j"
proof -
  have "exclusive_ok w" using porting.reachable [OF assms(1)] by blast
  then have "stage (reqs w ! i) \<noteq> Created \<longrightarrow> oget (by_port w) p = Some i" "stage (reqs w ! j) \<noteq> Created \<longrightarrow> oget (by_port w) p = Some j"
    "i \<noteq> j \<longrightarrow> stage (reqs w ! i) \<noteq> Created \<and> stage (reqs w ! j) \<noteq> Created"
    using assms(2-7) unfolding exclusive_ok_def by metis+
  then show ?thesis by auto
qed

section \<open>Aborting a request\<close>

lemma noop_two_words: "two_words (converters s) \<Longrightarrow> two_words (converters (with_script_noop ok s))"
  using oset_subset [of "converters s" "''text script''" "Convert 3"]
  by (auto simp: with_script_noop_def two_words_def list_all_iff words_of_def)

lemma noop_throws [simp]: "throws_errors (with_script_noop ok s) = throws_errors s"
  by (simp add: with_script_noop_def)

lemma convert_step_caught: "\<not> throws_errors s \<Longrightarrow> convert_step s run cs a b v \<noteq> Inl (Escaped e)"
  by (auto simp: convert_step_def split: option.splits conv.splits sum.splits prod.splits)

lemma convert_from_caught:
  assumes "convert_from s run cs cur rest v flds = Some r"
  shows "\<not> throws_errors s \<longrightarrow> fst r \<noteq> Escaped e"
  by (rule convert_from.raw_induct [OF _ assms, where P = "\<lambda>s run cs cur rest v flds r. \<not> throws_errors s \<longrightarrow> fst r \<noteq> Escaped e"])
    (auto split: list.splits if_splits sum.splits prod.splits dest: convert_step_caught)

lemma abort_conversion:
  assumes "two_words (converters s)" "\<not> throws_errors s"
  shows "\<exists>c fl. ajax_convert s run False v flds = Some (c, fl) \<and> (\<forall>e. c \<noteq> Escaped e)"
proof -
  obtain c fl where r: "ajax_convert s run False v flds = Some (c, fl)" using ajax_convert_total [OF assms(1)] by (metis surj_pair)
  then have "c \<noteq> Escaped e" for e
    using convert_from_caught [of s run "lower_converters s" _ _ v _ "(c, fl)" e] assms(2)
    by (auto simp: ajax_convert_def Let_def split: list.splits if_splits)
  with r show ?thesis by blast
qed

text \<open>C19: Aborting a request that has not ended always ends it at once, with an error whose text is the one of the abort,
  or \<open>canceled\<close> before the request was let pass by \<open>beforeSend\<close> and \<open>abort\<close> from then on; no data reaches the callbacks.
  (For converters that name two types, and unless errors of converters are to be thrown.)\<close>

theorem abort_ends_request:
  assumes "ajax_reach run undisturbed w" "i < length (reqs w)" "completed (reqs w ! i) \<noteq> Some True"
    and "two_words (converters (opt_settings (options (reqs w ! i))))" "\<not> throws_errors (opt_settings (options (reqs w ! i)))"
  shows "\<exists>u. abort_request run i msg w = Some u \<and> completed (reqs u ! i) = Some True \<and> phase (reqs u ! i) = Resolved \<and>
    outcome (reqs u ! i) = (False, if msg \<noteq> [] then msg else if installed (reqs w ! i) then ''abort'' else ''canceled'', JUndef)"
proof -
  let ?r = "reqs w ! i" and ?t = "if msg = [] then abort_text (reqs w ! i) else msg"
  have r: "request_ok ?r" "phase ?r = Under_way"
    using basic.reachable [OF assms(1)] assms(2,3) under_way requests_ok_nth by auto
  obtain c fl where c: "ajax_convert (with_script_noop False (opt_settings (options ?r))) run False JUndef (response_values ?r) = Some (c, fl)"
    "\<And>e. c \<noteq> Escaped e"
    using abort_conversion [of "with_script_noop False (opt_settings (options ?r))" run JUndef "response_values ?r"] noop_two_words assms(4,5)
    by (metis noop_throws)
  have t: "?t \<noteq> []" using r(1) by (auto simp: request_ok_def)
  have s: "\<not> is_success 0" by (simp add: is_success_def)
  show ?thesis
    using assms(2,3) r c t s
    by (cases c) (auto simp: abort_request_def done_settle_def Let_def close_request_def error_result_def request_ok_def)
qed

section \<open>Exceptions in \<open>done\<close>\<close>

text \<open>A request that \<open>done\<close> left with an exception.\<close>

definition stuck :: "nat \<Rightarrow> world \<Rightarrow> bool" where
  "stuck i w \<longleftrightarrow> i < length (reqs w) \<and> completed (reqs w ! i) = Some True \<and> phase (reqs w ! i) = Under_way \<and> fire_globals (reqs w ! i)"

lemma req_move_stuck:
  "req_move i r r' es \<Longrightarrow> completed r = Some True \<Longrightarrow> phase r = Under_way \<Longrightarrow>
     completed r' = Some True \<and> phase r' = Under_way \<and> fire_globals r' = fire_globals r"
  by (induction rule: req_move.induct) (auto simp: closes_def)

lemma world_move_stuck: "world_move w u \<Longrightarrow> stuck i w \<Longrightarrow> stuck i u"
proof (induction rule: world_move.induct)
  case (request j w r es u)
  then show ?case using req_move_stuck [OF request(1)] by (cases "j = i") (auto simp: changes_def stuck_def)
next
  case (count_up w j u)
  then show ?case by (cases "j = i") (auto simp: changes_def stuck_def)
next
  case (conclude w j u)
  then show ?case by (cases "j = i") (auto simp: changes_def stuck_def)
next
  case (take w j u)
  then show ?case by (cases "j = i") (auto simp: changes_def stuck_def)
qed

lemma grows_stuck: "grows o' w u \<Longrightarrow> stuck i w \<Longrightarrow> stuck i u"
  by (simp add: grows_def stuck_def nth_append)

lemma step_stuck:
  assumes "ajax_step run undisturbed w u" "ajax_reach run undisturbed w" "stuck i w"
  shows "stuck i u"
proof -
  have "requests_ok w" "ports_ok w" using basic.reachable [OF assms(2)] by simp_all
  from step_moves [OF assms(1) this] show ?thesis
    using assms(3) world_move_stuck ends_move grows_stuck by (elim disjE exE conjE) metis+
qed

lemma steps_stuck:
  assumes "(ajax_step run undisturbed)\<^sup>*\<^sup>* w u" "ajax_reach run undisturbed w" "stuck i w"
  shows "ajax_reach run undisturbed u \<and> stuck i u"
  using assms by (induction rule: rtranclp_induct) (auto intro: ajax_reach.further step_stuck)

text \<open>C30: When the answer to a request that was sent with global events makes a data filter throw, or a converter while its
  errors are to be thrown, \<open>done\<close> ends after marking the request as completed: it is never settled, no callback of its
  options is called, and the counter of active requests never gets back to zero, so \<open>ajaxStop\<close> is not triggered as long
  as the page lives. (A request without global events is not settled either, but it does not hold the counter up.)\<close>

theorem escaped_error_blocks:
  assumes "ajax_reach run undisturbed w" "i < length (reqs w)" "stage (reqs w ! i) = Launched" "fire_globals (reqs w ! i)"
    and "completed (reqs w ! i) \<noteq> Some True" "done_settle run i st msg rs headers w = Some u" "phase (reqs u ! i) = Under_way"
    and "(ajax_step run undisturbed)\<^sup>*\<^sup>* u v"
  shows "0 < active v \<and> notices i (effects v) \<in> {[], [Transmitted i]}"
proof -
  have o: "request_ok (reqs w ! i)" using basic.reachable [OF assms(1)] assms(2) requests_ok_nth by blast
  note c = done_settle_closes [OF assms(6,2,5) under_way [OF o assms(5)]]
  have "stuck i u" using c(1,4) assms(2,4,7) by (simp add: stuck_def closes_def) (metis length_list_update)
  moreover have "ajax_reach run undisturbed u" by (rule ajax_reach.further [OF assms(1) ajax_step.answered [OF assms(2,3,6)]])
  ultimately have v: "ajax_reach run undisturbed v" "stuck i v" using steps_stuck [OF assms(8)] by blast+
  then have "reqs v ! i \<in> set (filter counted (reqs v))" by (simp add: stuck_def counted_def)
  then have "0 < active v" using length_pos_if_in_set counting.reachable [OF v(1)] by (fastforce simp: counter_ok_def)
  moreover have "notices i (effects v) = course i (reqs v ! i)"
    using telling.reachable [OF v(1)] v(2) by (simp add: notices_ok_def stuck_def)
  moreover have "request_ok (reqs v ! i)" using basic.reachable [OF v(1)] v(2) requests_ok_nth by (auto simp: stuck_def)
  ultimately show ?thesis using v(2) by (simp add: stuck_def course_under_way)
qed

section \<open>Runs\<close>

definition sample_ajax :: ajax_options where
  "sample_ajax =
     \<lparr>opt_global = True, opt_timeout = False, opt_modified = False, opt_head = False, opt_port = Some ''validatename'', opt_before = False,
      opt_settings = default_settings [''*''], cache_url = ''/check''\<rparr>"

definition empty_world :: world where
  "empty_world = \<lparr>reqs = [], active = 0, by_port = [], last_modified = [], etags = [], effects = []\<rparr>"

text \<open>The rest of \<open>ajax\<close> for a request that nothing stops.\<close>

definition launch_request :: "nat \<Rightarrow> world \<Rightarrow> world" where
  "launch_request i w = transmit i (the (before_send sample_run i False True (begin_request i (take_port i w))))"

lemma launch_reachable:
  assumes "ajax_reach sample_run b w" "i < length (reqs w)" "stage (reqs w ! i) = Created" "completed (reqs w ! i) = None"
  shows "ajax_reach sample_run b (launch_request i w)"
proof -
  let ?t = "take_port i w"
  let ?b = "begin_request i ?t"
  have t: "ajax_reach sample_run b ?t" "i < length (reqs ?t)" "stage (reqs ?t ! i) = Preparing" "completed (reqs ?t ! i) = None"
    using ajax_reach.further [OF assms(1) ajax_step.ported] assms(2-4) by (simp_all add: take_port_def Let_def split: option.split)
  have "ajax_reach sample_run b ?b" by (rule ajax_reach.further [OF t(1) ajax_step.started [OF t(2,3)]])
  then have b: "ajax_reach sample_run b ?b" "i < length (reqs ?b)" "stage (reqs ?b ! i) = Begun" "completed (reqs ?b ! i) = None"
    using t(2-4) by (simp_all add: begin_request_def Let_def)
  then obtain u where u: "before_send sample_run i False True ?b = Some u" by (simp add: before_send_def Let_def)
  have o: "i < length (reqs u)" "stage (reqs u ! i) = Opened"
    using b u by (auto simp: before_send_def Let_def)
  have "ajax_reach sample_run b u" by (rule ajax_reach.further [OF b(1) ajax_step.asked [OF b(2,3) u]])
  then have "ajax_reach sample_run b (transmit i u)" by (rule ajax_reach.further [OF _ ajax_step.opened [OF o]])
  then show ?thesis by (simp add: launch_request_def u)
qed

definition sent :: "ajax_req \<Rightarrow> ajax_req" where
  "sent r = r\<lparr>stage := Launched, completed := Some False, timer := False, transport := True, fire_globals := True, abort_text := ''abort'',
     installed := True, ready_state := 1\<rparr>"

lemma launch_value:
  assumes "i < length (reqs w)" "completed (reqs w ! i) = None" "options (reqs w ! i) = sample_ajax"
  shows "launch_request i w =
    w\<lparr>reqs := (reqs w)[i := sent (reqs w ! i)], active := active w + 1, by_port := oset (by_port w) ''validatename'' i,
      effects := effects w @ (if active w = 0 then [Ajax_start] else []) @ [Ajax_send i, Transmitted i]\<rparr>"
  using assms
  by (cases w, cases "reqs w ! i") (simp add: launch_request_def take_port_def begin_request_def before_send_def install_def transmit_def Let_def update_req_def emit_def
      sample_ajax_def sent_def)

definition next_call :: "world \<Rightarrow> world" where
  "next_call w = the (create sample_run sample_ajax w)"

lemma call_reachable:
  assumes "ajax_reach sample_run b w" "create sample_run sample_ajax w \<noteq> None" "b \<Longrightarrow> \<not> in_prefilter w"
  shows "ajax_reach sample_run b (next_call w)"
  using assms ajax_reach.further [OF assms(1) ajax_step.created] by (auto simp: next_call_def)

lemma empty_reachable: "ajax_reach sample_run b empty_world"
  by (rule ajax_reach.fresh) (simp add: fresh_world_def empty_world_def)

definition one_world :: world where
  "one_world = launch_request 0 (next_call empty_world)"

definition two_world :: world where
  "two_world = next_call one_world"

lemma one_reachable: "ajax_reach sample_run b one_world"
proof -
  have "ajax_reach sample_run b (next_call empty_world)"
    by (rule call_reachable [OF empty_reachable], code_simp, code_simp)
  then show ?thesis unfolding one_world_def by (rule launch_reachable) code_simp+
qed

definition stopped :: "ajax_req \<Rightarrow> ajax_req" where
  "stopped r = (sent r)\<lparr>completed := Some True, transport := False, ready_state := 0, status_text := ''abort'',
     outcome := (False, ''abort'', JUndef), phase := Resolved\<rparr>"

lemma two_value:
  "two_world =
     \<lparr>reqs = [stopped (new_request sample_ajax), new_request sample_ajax], active = 1, by_port = [(''validatename'', 0)],
      last_modified = [], etags = [],
      effects = [Ajax_start, Ajax_send 0, Transmitted 0, Transport_abort 0 ''abort'', Settled 0 (False, ''abort'', JUndef)]\<rparr>"
  by code_simp

lemma two_reachable: "ajax_reach sample_run b two_world"
  unfolding two_world_def by (rule call_reachable [OF one_reachable], code_simp, code_simp)

text \<open>A function that is called when the first request is aborted makes a call itself.\<close>

definition nested_world :: world where
  "nested_world = launch_request 1 (launch_request 2 (next_call two_world))"

lemma third_value:
  "next_call two_world =
     \<lparr>reqs = [stopped (new_request sample_ajax), new_request sample_ajax, new_request sample_ajax], active = 1,
      by_port = [(''validatename'', 0)], last_modified = [], etags = [],
      effects = [Ajax_start, Ajax_send 0, Transmitted 0, Transport_abort 0 ''abort'', Settled 0 (False, ''abort'', JUndef)]\<rparr>"
  unfolding two_value by code_simp

lemma new_request_simps [simp]:
  "options (new_request o') = o'" "completed (new_request o') = None" "stage (new_request o') = Created"
  by (simp_all add: new_request_def)

lemma nested_value:
  "nested_world =
     \<lparr>reqs = [stopped (new_request sample_ajax), sent (new_request sample_ajax), sent (new_request sample_ajax)], active = 3,
      by_port = [(''validatename'', 1)], last_modified = [], etags = [],
      effects = [Ajax_start, Ajax_send 0, Transmitted 0, Transport_abort 0 ''abort'', Settled 0 (False, ''abort'', JUndef),
        Ajax_send 2, Transmitted 2, Ajax_send 1, Transmitted 1]\<rparr>"
  by (simp add: nested_world_def third_value launch_value)

lemma nested_reachable: "ajax_reach sample_run False nested_world"
proof -
  have "ajax_reach sample_run False (next_call two_world)"
    by (rule call_reachable [OF two_reachable], unfold two_value, code_simp, simp)
  then have "ajax_reach sample_run False (launch_request 2 (next_call two_world))"
    by (rule launch_reachable) (simp_all add: third_value)
  then show ?thesis
    unfolding nested_world_def by (rule launch_reachable) (simp_all add: third_value launch_value)
qed

text \<open>The prefilter aborts the previous request before it notes the new one. When a function that this abort calls
  makes a request for the port itself, that request is noted first and then forgotten: it and the new one are both
  sent, neither is aborted, and nobody holds the request that was made in between.\<close>

theorem nested_call_overtakes:
  "\<exists>w. ajax_reach sample_run False w \<and> uses_port ''validatename'' (reqs w ! 1) \<and> uses_port ''validatename'' (reqs w ! 2) \<and>
     stage (reqs w ! 1) = Launched \<and> stage (reqs w ! 2) = Launched \<and>
     completed (reqs w ! 1) = Some False \<and> completed (reqs w ! 2) = Some False \<and> by_port w = [(''validatename'', 1)]"
  by (intro exI [of _ nested_world] conjI nested_reachable) (simp_all add: nested_value sent_def uses_port_def sample_ajax_def)

definition told_world :: world where
  "told_world = go_on 0 (go_on 0 (go_on 0 (go_on 0 (go_on 0 two_world))))"

text \<open>The first request of \<open>two_world\<close>, and the effects, when \<open>done\<close> has reached a phase.\<close>

definition at_phase :: "phase \<Rightarrow> int \<Rightarrow> ajax_effect list \<Rightarrow> world" where
  "at_phase p n es = two_world\<lparr>reqs := (reqs two_world)[0 := (reqs two_world ! 0)\<lparr>phase := p\<rparr>], active := n, effects := effects two_world @ es\<rparr>"

lemma go_on_at_phase:
  "go_on 0 (at_phase p n es) =
     at_phase (follows p) (if follows p = Concluded then n - 1 else n)
       (es @ phase_effects 0 (stopped (new_request sample_ajax)) (follows p) @ (if follows p = Concluded \<and> n = 1 then [Ajax_stop] else []))"
  by (simp add: go_on_def Let_def at_phase_def two_value count_down_def update_req_def emit_def stopped_def sent_def phase_effects_def
      split: phase.split)

lemma two_at_phase: "two_world = at_phase Resolved 1 []"
  by (simp add: at_phase_def two_value stopped_def)

lemma told_value:
  "told_world = at_phase Concluded 0 [Status_callbacks 0 0, Global_result 0 False, Completed 0 ''abort'', Ajax_complete 0, Ajax_stop]"
  unfolding told_world_def two_at_phase
  by (simp add: go_on_at_phase follows_def phase_effects_def stopped_def sent_def new_request_def)

lemma go_on_reachable:
  assumes "ajax_reach sample_run b (at_phase p n es)" "p \<noteq> Under_way" "p \<noteq> Concluded"
  shows "ajax_reach sample_run b (go_on 0 (at_phase p n es))"
  by (rule ajax_reach.further [OF assms(1) ajax_step.continued]) (simp_all add: at_phase_def two_value assms(2,3))

lemma told_reachable: "ajax_reach sample_run b told_world"
  unfolding told_world_def two_at_phase
  by (simp only: go_on_at_phase)
    (intro go_on_reachable [unfolded go_on_at_phase] two_reachable [unfolded two_at_phase], simp_all add: follows_def)

theorem request_notices_witness:
  "notices 0 (effects told_world) =
     [Transmitted 0, Settled 0 (False, ''abort'', JUndef), Status_callbacks 0 0, Global_result 0 False, Completed 0 ''abort'', Ajax_complete 0]"
proof -
  have "0 < length (reqs told_world)" by (simp add: told_value at_phase_def two_value)
  moreover have "course 0 (reqs told_world ! 0) =
    [Transmitted 0, Settled 0 (False, ''abort'', JUndef), Status_callbacks 0 0, Global_result 0 False, Completed 0 ''abort'', Ajax_complete 0]"
    by (simp add: told_value at_phase_def two_value course_def told_by_def phase_order phase_effects_def stopped_def sent_def new_request_def)
  ultimately show ?thesis using request_notices [OF told_reachable, of 0] by simp
qed

text \<open>A request without \<open>beforeSend\<close> is aborted by a handler of \<open>ajaxStart\<close>: all is told of its end, and then \<open>complete\<close>
  and \<open>error\<close> are called and \<open>ajaxSend\<close> is triggered for it, after \<open>ajaxStop\<close>.\<close>

definition start_world :: world where
  "start_world = begin_request 0 (take_port 0 (next_call empty_world))"

definition cancelled_world :: world where
  "cancelled_world = the (abort_request sample_run 0 [] start_world)"

definition ended_world :: world where
  "ended_world = go_on 0 (go_on 0 (go_on 0 (go_on 0 (go_on 0 cancelled_world))))"

definition late_world :: world where
  "late_world = the (before_send sample_run 0 False True ended_world)"

lemma start_reachable: "ajax_reach sample_run b start_world"
proof -
  have "ajax_reach sample_run b (next_call empty_world)" by (rule call_reachable [OF empty_reachable], code_simp, code_simp)
  then have "ajax_reach sample_run b (take_port 0 (next_call empty_world))"
    by (rule ajax_reach.further) (rule ajax_step.ported; code_simp)
  then show ?thesis unfolding start_world_def by (rule ajax_reach.further) (rule ajax_step.started; code_simp)
qed

lemma late_reachable: "ajax_reach sample_run b late_world"
proof -
  have "abort_request sample_run 0 [] start_world \<noteq> None" by code_simp
  then have "abort_request sample_run 0 [] start_world = Some cancelled_world" unfolding cancelled_world_def by simp
  moreover have "0 < length (reqs start_world)" by code_simp
  ultimately have c: "ajax_reach sample_run b cancelled_world"
    using ajax_reach.further [OF start_reachable ajax_step.aborted] by blast
  have g: "ajax_reach sample_run b (go_on 0 w)"
    if "ajax_reach sample_run b w" "0 < length (reqs w) \<and> phase (reqs w ! 0) \<noteq> Under_way \<and> phase (reqs w ! 0) \<noteq> Concluded" for w
    using that ajax_reach.further [OF that(1) ajax_step.continued] by blast
  have e: "ajax_reach sample_run b ended_world"
    unfolding ended_world_def by (rule g, rule g, rule g, rule g, rule g, rule c) code_simp+
  have "before_send sample_run 0 False True ended_world \<noteq> None" by code_simp
  then have "before_send sample_run 0 False True ended_world = Some late_world" unfolding late_world_def by simp
  moreover have "0 < length (reqs ended_world)" "stage (reqs ended_world ! 0) = Begun" by code_simp+
  ultimately show ?thesis using ajax_reach.further [OF e ajax_step.asked] by blast
qed

theorem late_callbacks:
  "\<exists>w. ajax_reach sample_run True w \<and>
     effects w = [Ajax_start, Settled 0 (False, ''canceled'', JUndef), Status_callbacks 0 0, Global_result 0 False, Ajax_complete 0, Ajax_stop,
       Completed 0 ''canceled'', Late_result 0 (False, ''canceled'', JUndef), Ajax_send 0]"
  by (intro exI [of _ late_world] conjI late_reachable) code_simp

theorem active_counts_witness: "active one_world = 1 \<and> alternates False (effects one_world) = Some True"
proof -
  have "filter counted (reqs one_world) = reqs one_world" "length (reqs one_world) = 1" by code_simp+
  then show ?thesis using active_counts [OF one_reachable] by simp
qed

theorem port_exclusive_witness: "completed (reqs two_world ! 0) = Some True"
proof (rule ccontr)
  assume c: "completed (reqs two_world ! 0) \<noteq> Some True"
  have "0 < length (reqs two_world)" "1 < length (reqs two_world)" "uses_port ''validatename'' (reqs two_world ! 0)"
    "uses_port ''validatename'' (reqs two_world ! 1)" "completed (reqs two_world ! 1) \<noteq> Some True"
    unfolding two_value by code_simp+
  then show False using port_exclusive [OF two_reachable, of 0 1 "''validatename''"] c by simp
qed

theorem abort_ends_request_witness:
  "\<exists>u. abort_request sample_run 0 [] one_world = Some u \<and> completed (reqs u ! 0) = Some True \<and> phase (reqs u ! 0) = Resolved \<and>
    outcome (reqs u ! 0) = (False, ''abort'', JUndef)"
proof -
  have "0 < length (reqs one_world)" "completed (reqs one_world ! 0) \<noteq> Some True" "installed (reqs one_world ! 0)"
    "two_words (converters (opt_settings (options (reqs one_world ! 0))))"
    "\<not> throws_errors (opt_settings (options (reqs one_world ! 0)))" by code_simp+
  then show ?thesis using abort_ends_request [OF one_reachable, of 0 "[]"] by simp
qed

definition filter_ajax :: ajax_options where
  "filter_ajax = sample_ajax\<lparr>opt_port := None, opt_settings := (default_settings [''*''])\<lparr>data_filter := Some 1\<rparr>\<rparr>"

definition filter_world :: world where
  "filter_world = launch_request 0 (the (create sample_run filter_ajax empty_world))"

theorem escaped_error_blocks_witness:
  "\<exists>u. done_settle sample_run 0 200 ''OK'' None [] filter_world = Some u \<and>
    (\<forall>v. (ajax_step sample_run True)\<^sup>*\<^sup>* u v \<longrightarrow> 0 < active v \<and> notices 0 (effects v) \<in> {[], [Transmitted 0]})"
proof -
  have c: "create sample_run filter_ajax empty_world = Some (empty_world\<lparr>reqs := [new_request filter_ajax]\<rparr>)" by code_simp
  have "ajax_reach sample_run True (empty_world\<lparr>reqs := [new_request filter_ajax]\<rparr>)"
    by (rule ajax_reach.further [OF empty_reachable ajax_step.created [OF c]]) code_simp
  then have r: "ajax_reach sample_run True filter_world"
    unfolding filter_world_def c option.sel by (rule launch_reachable) simp_all
  have w: "0 < length (reqs filter_world)" "stage (reqs filter_world ! 0) = Launched" "fire_globals (reqs filter_world ! 0)"
    "completed (reqs filter_world ! 0) \<noteq> Some True" by code_simp+
  have s: "case done_settle sample_run 0 200 ''OK'' None [] filter_world of None \<Rightarrow> False | Some u \<Rightarrow> phase (reqs u ! 0) = Under_way"
    by code_simp
  then obtain u where "done_settle sample_run 0 200 ''OK'' None [] filter_world = Some u" "phase (reqs u ! 0) = Under_way"
    by (auto split: option.splits)
  then show ?thesis using escaped_error_blocks [OF r w] by blast
qed

end
