(* ===== verification/AjaxOptions.thy ===== *)
theory AjaxOptions
  imports AjaxResponses
begin

text \<open>
  What \<open>jQuery.ajax\<close> makes of its options before the request: the URL with data, hash and the parameter against
  caching, the request headers, and the short forms \<open>get\<close>, \<open>post\<close>, \<open>getJSON\<close> and \<open>getScript\<close>. Data is the text that
  \<open>jQuery.param\<close> made of it. Header names that are names of members of \<open>Object.prototype\<close> are left out.
\<close>

section \<open>Options\<close>

record ajax_call =
  req_url :: string
  req_type :: string
  req_data :: string  \<comment> \<open>empty: none\<close>
  process_data :: bool
  content_type :: "string option"  \<comment> \<open>or false\<close>
  no_cache :: bool
  if_modified :: bool
  req_headers :: "(string, string) obj"
  accepts :: "(string, string) obj"
  call_types :: "string list"

definition default_accepts :: "(string, string) obj" where
  "default_accepts =
     [(''*'', ''*/*''), (''text'', ''text/plain''), (''html'', ''text/html''), (''xml'', ''application/xml, text/xml''),
      (''json'', ''application/json, text/javascript'')]"

definition form_type :: string where
  "form_type = ''application/x-www-form-urlencoded''"

definition first_text :: "string list \<Rightarrow> string" where
  \<comment> \<open>the operator \<open>||\<close> on texts\<close>
  "first_text ts = (case filter (\<lambda>t. t \<noteq> []) ts of [] \<Rightarrow> [] | t # _ \<Rightarrow> t)"

definition full_url :: "string \<Rightarrow> string \<Rightarrow> string \<Rightarrow> string \<Rightarrow> string" where
  \<comment> \<open>of the protocol and address of the page, the parameter and the option\<close>
  "full_url protocol href u v =
     (let t = first_text [u, v, href] in if starts_with t ''//'' then protocol @ ''//'' @ drop 2 t else t)"

definition request_type :: "string \<Rightarrow> string \<Rightarrow> string \<Rightarrow> string \<Rightarrow> string" where
  \<comment> \<open>of the members of the given options and of the settings\<close>
  "request_type given_method given_type method' type' = to_upper (first_text [given_method, given_type, method', type'])"

definition types_of_text :: "string \<Rightarrow> string list" where
  "types_of_text t = (let ws = class_words (to_lower (if t = [] then ''*'' else t)) in if ws = [] then [[]] else ws)"

text \<open>The prefilter that takes the type of the content from the headers.\<close>

definition content_prefilter :: "ajax_call \<Rightarrow> ajax_call" where
  "content_prefilter s =
     foldl (\<lambda>s (n, v). if to_lower n = ''content-type'' then s\<lparr>content_type := Some v\<rparr> else s) s (req_headers s)"

section \<open>The URL\<close>

fun cut_hash :: "string \<Rightarrow> string" where
  "cut_hash [] = []"
| "cut_hash (c # cs) = (if c = CHR ''#'' \<and> CHR 0x0A \<notin> set cs \<and> CHR 0x0D \<notin> set cs then [] else c # cut_hash cs)"

definition query_joint :: "string \<Rightarrow> string" where
  "query_joint u = (if CHR ''?'' \<in> set u then ''&'' else ''?'')"

fun drop_anti_cache :: "string \<Rightarrow> string" where
  "drop_anti_cache [] = []"
| "drop_anti_cache (c # cs) =
     (if (c = CHR ''?'' \<or> c = CHR ''&'') \<and> starts_with cs ''_='' then c # dropWhile (\<lambda>c. c \<noteq> CHR ''&'') cs
      else c # drop_anti_cache cs)"

fun spaces_to_plus :: "string \<Rightarrow> string" where
  "spaces_to_plus [] = []"
| "spaces_to_plus (c # cs) =
     (if c = CHR ''%'' \<and> starts_with cs ''20'' then CHR ''+'' # spaces_to_plus (drop 2 cs) else c # spaces_to_plus cs)"

definition has_content :: "string \<Rightarrow> bool" where
  "has_content t \<longleftrightarrow> t \<noteq> ''GET'' \<and> t \<noteq> ''HEAD''"

definition url_with_data :: "ajax_call \<Rightarrow> string" where
  "url_with_data s =
     (let base = cut_hash (req_url s) in if req_data s = [] then base else base @ query_joint base @ req_data s)"

definition plus_data :: "ajax_call \<Rightarrow> ajax_call" where
  "plus_data s =
     (if req_data s \<noteq> [] \<and> process_data s \<and> starts_with (case content_type s of None \<Rightarrow> [] | Some t \<Rightarrow> t) form_type
      then s\<lparr>req_data := spaces_to_plus (req_data s)\<rparr> else s)"

text \<open>The URL for the caches of \<open>ifModified\<close>, the options for the transport, and the next number against caching.\<close>

definition prepare_url :: "nat \<Rightarrow> ajax_call \<Rightarrow> string \<times> ajax_call \<times> nat" where
  "prepare_url guid s =
     (let base = cut_hash (req_url s); hash = drop (length base) (req_url s)
      in if has_content (req_type s) then (base, plus_data s, guid)
         else (let u = url_with_data s; d = (if no_cache s then drop_anti_cache u else u);
                   uncached = (if no_cache s then query_joint d @ ''_='' @ nat_str guid @ hash else hash)
               in (d, s\<lparr>req_url := d @ uncached, req_data := []\<rparr>, if no_cache s then Suc guid else guid)))"

section \<open>Request headers\<close>

text \<open>The names as they were first given, by their lower case form, and the headers.\<close>

type_synonym header_table = "(string, string) obj \<times> (string, string) obj"

definition set_request_header :: "string \<Rightarrow> string \<Rightarrow> header_table \<Rightarrow> header_table" where
  "set_request_header n v t =
     (let k = to_lower n; m = (case oget (fst t) k of None \<Rightarrow> n | Some m \<Rightarrow> if m = [] then n else m)
      in (oset (fst t) k m, oset (snd t) m v))"

definition accept_value :: "ajax_call \<Rightarrow> string" where
  "accept_value s =
     (let every = (case oget (accepts s) ''*'' of None \<Rightarrow> ''undefined'' | Some a \<Rightarrow> a)
      in case call_types s of
           [] \<Rightarrow> every
         | t # _ \<Rightarrow> (case (if t = [] then None else oget (accepts s) t) of
                       None \<Rightarrow> every
                     | Some a \<Rightarrow> if a = [] then every else a @ (if t \<noteq> ''*'' then '', */*; q=0.01'' else [])))"

definition conditional_header :: "string \<Rightarrow> (string, string) obj \<Rightarrow> string \<Rightarrow> header_table \<Rightarrow> header_table" where
  "conditional_header n m u t =
     (case oget m u of None \<Rightarrow> t | Some v \<Rightarrow> if v = [] then t else set_request_header n v t)"

definition content_header :: "string \<Rightarrow> ajax_call \<Rightarrow> header_table \<Rightarrow> header_table" where
  \<comment> \<open>\<open>given\<close> is the type of the content in the given options\<close>
  "content_header given s t =
     (if req_data s \<noteq> [] \<and> has_content (req_type s) \<and> content_type s \<noteq> None \<or> given \<noteq> []
      then set_request_header ''Content-Type'' (case content_type s of None \<Rightarrow> ''false'' | Some c \<Rightarrow> c) t else t)"

definition request_headers ::
    "(string, string) obj \<Rightarrow> (string, string) obj \<Rightarrow> string \<Rightarrow> string \<Rightarrow> ajax_call \<Rightarrow> header_table \<Rightarrow> header_table" where
  "request_headers modified tags u given s t =
     foldl (\<lambda>t (n, v). set_request_header n v t)
       (set_request_header ''Accept'' (accept_value s)
          (content_header given s
             (if if_modified s
              then conditional_header ''If-None-Match'' tags u (conditional_header ''If-Modified-Since'' modified u t) else t)))
       (req_headers s)"

text \<open>\<open>beforeSend\<close> may set headers too. The transport adds one in the table itself, where names differ in case, and then
  hands the browser what the table has.\<close>

definition set_headers :: "(string \<times> string) list \<Rightarrow> header_table \<Rightarrow> header_table" where
  "set_headers hs t = foldl (\<lambda>t (n, v). set_request_header n v t) t hs"

definition transport_headers :: "bool \<Rightarrow> (string, string) obj \<Rightarrow> (string, string) obj" where
  \<comment> \<open>whether the request is one to another domain\<close>
  "transport_headers cross hs =
     (if \<not> cross \<and> (case oget hs ''X-Requested-With'' of None \<Rightarrow> True | Some v \<Rightarrow> v = [])
      then oset hs ''X-Requested-With'' ''XMLHttpRequest'' else hs)"

section \<open>Short forms\<close>

text \<open>The options for \<open>ajax\<close>.\<close>

definition or_value :: "jsv \<Rightarrow> jsv \<Rightarrow> jsv" where
  "or_value a b = (if js_truthy a then a else b)"

definition short_options :: "string \<Rightarrow> jsv \<Rightarrow> jsv \<Rightarrow> jsv \<Rightarrow> jsv \<Rightarrow> (string, jsv) obj" where
  "short_options verb u data callback type' =
     (let shifted = (case data of JFun f \<Rightarrow> True | _ \<Rightarrow> False);
          (t, f, d) = (if shifted then (or_value type' callback, data, JUndef) else (type', callback, data))
      in jextend [(''url'', u), (''type'', JStr verb), (''dataType'', t), (''data'', d), (''success'', f)]
           (case u of JObj m \<Rightarrow> m | _ \<Rightarrow> []))"

definition get_json :: "jsv \<Rightarrow> jsv \<Rightarrow> jsv \<Rightarrow> (string, jsv) obj" where
  "get_json u data callback = short_options ''get'' u data callback (JStr ''json'')"

definition get_script :: "jsv \<Rightarrow> jsv \<Rightarrow> (string, jsv) obj" where
  "get_script u callback = short_options ''get'' u JUndef callback (JStr ''script'')"

end
