(* ===== verification/AjaxOptionProps.thy ===== *)
theory AjaxOptionProps
  imports AjaxOptions AjaxRequests
begin

text \<open>
  Properties of what \<open>ajax\<close> sends: header names without regard to case, the headers of a conditional request, and the
  parameters of a URL that must not come from a cache.
\<close>

section \<open>Header tables\<close>

definition table_ok :: "header_table \<Rightarrow> bool" where
  "table_ok t \<longleftrightarrow>
     (\<forall>k m. oget (fst t) k = Some m \<longrightarrow> to_lower m = k \<and> oget (snd t) m \<noteq> None) \<and>
     (\<forall>m. oget (snd t) m \<noteq> None \<longrightarrow> oget (fst t) (to_lower m) = Some m)"

text \<open>The value that is sent for a name.\<close>

definition header_value :: "header_table \<Rightarrow> string \<Rightarrow> string option" where
  "header_value t n = (case oget (fst t) (to_lower n) of None \<Rightarrow> None | Some m \<Rightarrow> oget (snd t) m)"

lemma to_lower_Nil [simp]: "to_lower n = [] \<longleftrightarrow> n = []" "to_lower [] = []"
  by (simp_all add: to_lower_def)

lemma table_ok_name: "table_ok t \<Longrightarrow> oget (fst t) k = Some m \<Longrightarrow> to_lower m = k \<and> oget (snd t) m \<noteq> None"
  and table_ok_header: "table_ok t \<Longrightarrow> oget (snd t) m \<noteq> None \<Longrightarrow> oget (fst t) (to_lower m) = Some m"
  by (auto simp: table_ok_def)

lemma set_request_header_shape:
  assumes "table_ok t"
  obtains m where "set_request_header n v t = (oset (fst t) (to_lower n) m, oset (snd t) m v)" "to_lower m = to_lower n"
    "oget (fst t) (to_lower n) \<in> {None, Some m}"
proof (cases "oget (fst t) (to_lower n)")
  case None
  then show ?thesis by (intro that [of n]) (simp_all add: set_request_header_def Let_def)
next
  case (Some m)
  then have m: "to_lower m = to_lower n" using table_ok_name [OF assms] by blast
  have "m = [] \<longleftrightarrow> n = []" using m by (metis to_lower_Nil(1))
  then show ?thesis using Some m by (intro that [of m]) (auto simp: set_request_header_def Let_def)
qed

lemma table_ok_set:
  assumes "table_ok t"
  shows "table_ok (set_request_header n v t)"
proof -
  obtain m where m: "set_request_header n v t = (oset (fst t) (to_lower n) m, oset (snd t) m v)" "to_lower m = to_lower n"
    "oget (fst t) (to_lower n) \<in> {None, Some m}"
    by (rule set_request_header_shape [OF assms])
  have "to_lower q = k \<and> oget (oset (snd t) m v) q \<noteq> None" if "oget (oset (fst t) (to_lower n) m) k = Some q" for k q
    using that m(2) table_ok_name [OF assms, of k q] by (cases "k = to_lower n") (simp_all add: obj.get_put)
  moreover have "oget (oset (fst t) (to_lower n) m) (to_lower q) = Some q" if "oget (oset (snd t) m v) q \<noteq> None" for q
  proof (cases "q = m")
    case False
    then have "oget (snd t) q \<noteq> None" using that by (simp add: obj.get_put)
    then have "oget (fst t) (to_lower q) = Some q" using table_ok_header [OF assms] by blast
    then show ?thesis using False m(3) by (auto simp: obj.get_put)
  qed (simp add: obj.get_put m(2))
  ultimately show ?thesis unfolding table_ok_def m(1) by simp
qed

lemma header_value_set:
  assumes "table_ok t"
  shows "header_value (set_request_header n v t) n' = (if to_lower n' = to_lower n then Some v else header_value t n')"
proof -
  obtain m where m: "set_request_header n v t = (oset (fst t) (to_lower n) m, oset (snd t) m v)" "to_lower m = to_lower n"
    "oget (fst t) (to_lower n) \<in> {None, Some m}"
    by (rule set_request_header_shape [OF assms])
  show ?thesis
  proof (cases "to_lower n' = to_lower n")
    case False
    have "oget (oset (snd t) m v) q = oget (snd t) q" if "oget (fst t) (to_lower n') = Some q" for q
      using that table_ok_name [OF assms that] m(2) False by (auto simp: obj.get_put)
    then show ?thesis using False by (simp add: m(1) header_value_def obj.get_put split: option.split)
  qed (simp add: m(1) header_value_def obj.get_put)
qed

lemma fold_headers:
  "table_ok t \<Longrightarrow> table_ok (foldl (\<lambda>t (n, v). set_request_header n v t) t hs) \<and>
     header_value (foldl (\<lambda>t (n, v). set_request_header n v t) t hs) n =
       (case map_of (rev (map (\<lambda>(k, v). (to_lower k, v)) hs)) (to_lower n) of None \<Rightarrow> header_value t n | Some v \<Rightarrow> Some v)"
proof (induction hs arbitrary: t)
  case (Cons h hs)
  obtain k v where h: "h = (k, v)" by (cases h)
  show ?case
    using Cons.IH [OF table_ok_set [OF Cons.prems, of k v]] header_value_set [OF Cons.prems, of k v n]
    by (auto simp: h map_add_def split: option.splits)
qed simp

section \<open>The headers of a request\<close>

lemma conditional_header_ok: "table_ok t \<Longrightarrow> table_ok (conditional_header n m u t)"
  by (simp add: conditional_header_def table_ok_set split: option.split)

lemma content_header_ok: "table_ok t \<Longrightarrow> table_ok (content_header given s t)"
  by (simp add: content_header_def table_ok_set)

lemma conditional_header_value:
  "table_ok t \<Longrightarrow> header_value (conditional_header n m u t) n' =
     (case oget m u of None \<Rightarrow> header_value t n'
      | Some v \<Rightarrow> if v \<noteq> [] \<and> to_lower n' = to_lower n then Some v else header_value t n')"
  by (auto simp: conditional_header_def header_value_set split: option.split)

text \<open>What is sent for a name: the header option if it has the name, then what \<open>ajax\<close> adds, then what the prefilters set.\<close>

definition wanted_header ::
    "(string, string) obj \<Rightarrow> (string, string) obj \<Rightarrow> string \<Rightarrow> string \<Rightarrow> ajax_call \<Rightarrow> header_table \<Rightarrow> string \<Rightarrow> string option" where
  "wanted_header modified tags u given s t n =
     (let k = to_lower n;
          cached = (\<lambda>m. if if_modified s then (case oget m u of None \<Rightarrow> None | Some v \<Rightarrow> if v = [] then None else Some v) else None);
          own = (if k = ''accept'' then Some (accept_value s)
                 else if k = ''content-type''
                 then (if req_data s \<noteq> [] \<and> has_content (req_type s) \<and> content_type s \<noteq> None \<or> given \<noteq> []
                       then Some (case content_type s of None \<Rightarrow> ''false'' | Some c \<Rightarrow> c) else None)
                 else if k = ''if-none-match'' then cached tags
                 else if k = ''if-modified-since'' then cached modified else None)
      in case map_of (rev (map (\<lambda>(k, v). (to_lower k, v)) (req_headers s))) k of
           Some v \<Rightarrow> Some v
         | None \<Rightarrow> (case own of Some v \<Rightarrow> Some v | None \<Rightarrow> header_value t n))"

lemma header_names:
  "to_lower ''Accept'' = ''accept''" "to_lower ''Content-Type'' = ''content-type''"
  "to_lower ''If-None-Match'' = ''if-none-match''" "to_lower ''If-Modified-Since'' = ''if-modified-since''"
  by code_simp+

lemma content_header_value:
  assumes "table_ok t"
  shows "header_value (content_header given s t) n =
    (if to_lower n = ''content-type'' \<and> (req_data s \<noteq> [] \<and> has_content (req_type s) \<and> content_type s \<noteq> None \<or> given \<noteq> [])
     then Some (case content_type s of None \<Rightarrow> ''false'' | Some c \<Rightarrow> c) else header_value t n)"
  using header_value_set [OF assms, of "''Content-Type''" _ n] by (auto simp: content_header_def header_names)

lemma request_headers_ok:
  assumes "table_ok t"
  shows "table_ok (request_headers modified tags u given s t) \<and>
    header_value (request_headers modified tags u given s t) n = wanted_header modified tags u given s t n"
proof -
  define d where "d = conditional_header ''If-Modified-Since'' modified u t"
  define c where "c = (if if_modified s then conditional_header ''If-None-Match'' tags u d else t)"
  define a where "a = set_request_header ''Accept'' (accept_value s) (content_header given s c)"
  have d: "table_ok d" using assms by (simp add: d_def conditional_header_ok)
  have c: "table_ok c" using assms d by (simp add: c_def conditional_header_ok)
  have a: "table_ok a" unfolding a_def by (intro table_ok_set content_header_ok c)
  have dv: "header_value d n = (case oget modified u of None \<Rightarrow> header_value t n
      | Some v \<Rightarrow> if v \<noteq> [] \<and> to_lower n = ''if-modified-since'' then Some v else header_value t n)"
    unfolding d_def using conditional_header_value [OF assms, of "''If-Modified-Since''" modified u n, unfolded header_names] .
  have cv: "header_value c n = (if if_modified s then (case oget tags u of None \<Rightarrow> header_value d n
      | Some v \<Rightarrow> if v \<noteq> [] \<and> to_lower n = ''if-none-match'' then Some v else header_value d n) else header_value t n)"
    unfolding c_def using conditional_header_value [OF d, of "''If-None-Match''" tags u n, unfolded header_names] by simp
  have "header_value a n = (if to_lower n = ''accept'' then Some (accept_value s) else header_value (content_header given s c) n)"
    unfolding a_def using header_value_set [OF content_header_ok [OF c], where given1 = given and s1 = s and n = "''Accept''" and n' = n, unfolded header_names] by blast
  then have av: "header_value a n = (case (if to_lower n = ''accept'' then Some (accept_value s)
      else if to_lower n = ''content-type'' \<and> (req_data s \<noteq> [] \<and> has_content (req_type s) \<and> content_type s \<noteq> None \<or> given \<noteq> [])
      then Some (case content_type s of None \<Rightarrow> ''false'' | Some c \<Rightarrow> c) else None) of Some v \<Rightarrow> Some v | None \<Rightarrow> header_value c n)"
    using content_header_value [OF c, where given = given and s = s and n = n] by auto
  have "request_headers modified tags u given s t = foldl (\<lambda>t (n, v). set_request_header n v t) a (req_headers s)"
    by (simp add: request_headers_def a_def c_def d_def)
  then have r: "table_ok (request_headers modified tags u given s t)"
    "header_value (request_headers modified tags u given s t) n =
      (case map_of (rev (map (\<lambda>(k, v). (to_lower k, v)) (req_headers s))) (to_lower n) of None \<Rightarrow> header_value a n | Some v \<Rightarrow> Some v)"
    using fold_headers [OF a, of "req_headers s" n] by simp_all
  show ?thesis
  proof (cases "map_of (rev (map (\<lambda>(k, v). (to_lower k, v)) (req_headers s))) (to_lower n)")
    case (Some v)
    then show ?thesis using r by (simp add: wanted_header_def Let_def)
  next
    case None
    consider "to_lower n = ''accept''" | "to_lower n = ''content-type''" | "to_lower n = ''if-none-match''" |
      "to_lower n = ''if-modified-since''" |
      "to_lower n \<noteq> ''accept''" "to_lower n \<noteq> ''content-type''" "to_lower n \<noteq> ''if-none-match''" "to_lower n \<noteq> ''if-modified-since''"
      by blast
    then show ?thesis
      by cases (use r None in \<open>simp_all add: wanted_header_def Let_def av cv dv split: option.split\<close>)
  qed
qed

lemma set_headers_later:
  "set_headers hs (request_headers modified tags u given s t) = request_headers modified tags u given (s\<lparr>req_headers := req_headers s @ hs\<rparr>) t"
proof -
  let ?s = "s\<lparr>req_headers := req_headers s @ hs\<rparr>"
  have f: "accepts ?s = accepts s" "call_types ?s = call_types s" "if_modified ?s = if_modified s" "req_headers ?s = req_headers s @ hs" by simp_all
  have g: "req_data ?s = req_data s" "req_type ?s = req_type s" "content_type ?s = content_type s" by simp_all
  have "accept_value ?s = accept_value s" unfolding accept_value_def f by (rule refl)
  moreover have "content_header given ?s t = content_header given s t" for t unfolding content_header_def g by (rule refl)
  ultimately have "request_headers modified tags u given ?s t = foldl (\<lambda>t (n, v). set_request_header n v t) (request_headers modified tags u given s t) hs"
    unfolding request_headers_def f by simp
  then show ?thesis by (simp add: set_headers_def)
qed

lemma table_value:
  assumes "table_ok t"
  shows "(\<exists>m. to_lower m = to_lower n \<and> oget (snd t) m = Some v) \<longleftrightarrow> header_value t n = Some v"
proof
  assume "\<exists>m. to_lower m = to_lower n \<and> oget (snd t) m = Some v"
  then obtain m where m: "to_lower m = to_lower n" "oget (snd t) m = Some v" by blast
  then have "oget (fst t) (to_lower n) = Some m" using table_ok_header [OF assms, of m] by simp
  then show "header_value t n = Some v" using m(2) by (simp add: header_value_def)
next
  assume "header_value t n = Some v"
  then obtain m where m: "oget (fst t) (to_lower n) = Some m" "oget (snd t) m = Some v"
    by (auto simp: header_value_def split: option.splits)
  then show "\<exists>m. to_lower m = to_lower n \<and> oget (snd t) m = Some v" using table_ok_name [OF assms m(1)] by blast
qed

lemma added_header:
  assumes "inj_on to_lower (set (okeys hs))" "oget hs x \<in> {None, Some []}"
  shows "(\<exists>m. to_lower m = to_lower n \<and> oget (oset hs x a) m = Some v) \<longleftrightarrow>
    (if to_lower n = to_lower x then v = a \<or> (\<exists>m. to_lower m = to_lower n \<and> oget hs m = Some v) \<and> oget hs x = None
     else \<exists>m. to_lower m = to_lower n \<and> oget hs m = Some v)"
proof -
  have o: "oget (oset hs x a) m = (if m = x then Some a else oget hs m)" for m by (simp add: obj.get_put)
  show ?thesis
  proof (cases "to_lower n = to_lower x")
    case True
    have "m = x" if "oget hs x = Some []" "to_lower m = to_lower x" "oget hs m = Some v" for m
      using assms(1) that obj.keys_get [of m hs] obj.keys_get [of x hs] by (auto dest: inj_onD)
    then have "(\<exists>m. m \<noteq> x \<and> to_lower m = to_lower n \<and> oget hs m = Some v) \<longleftrightarrow>
        (\<exists>m. to_lower m = to_lower n \<and> oget hs m = Some v) \<and> oget hs x = None"
      using assms(2) True by (cases "oget hs x") (simp_all, metis option.distinct(1), blast)
    moreover have "(\<exists>m. to_lower m = to_lower n \<and> (if m = x then Some a else oget hs m) = Some v) \<longleftrightarrow>
        v = a \<or> (\<exists>m. m \<noteq> x \<and> to_lower m = to_lower n \<and> oget hs m = Some v)"
      using True by (metis option.inject)
    ultimately show ?thesis using True unfolding o by simp
  next
    case False
    then show ?thesis unfolding o by metis
  qed
qed

text \<open>C32: What the browser is told to send for a name in any case, when \<open>beforeSend\<close> has set the headers \<open>extra\<close>: the last
  value that the option \<open>headers\<close> or \<open>beforeSend\<close> has for it; failing that, the accepted types, the type of the
  content (only with data in a request that has content, or when it was given with the call), or the validators of the
  last response with the same URL for a conditional request; failing that, what the prefilters have set. In the table
  there are no two names that differ only in case. Only for \<open>X-Requested-With\<close> the transport has its own way: in a request
  to the same domain \<open>XMLHttpRequest\<close> is sent unless the table has a value under just this name; a value under the
  name in another case is sent beside it.\<close>

theorem request_headers_sent:
  assumes "table_ok t" "h = set_headers extra (request_headers modified tags u given s t)"
  shows "inj_on to_lower (set (okeys (snd h))) \<and>
    ((\<exists>m. to_lower m = to_lower n \<and> oget (transport_headers cross (snd h)) m = Some v) \<longleftrightarrow>
     (let wanted = wanted_header modified tags u given (s\<lparr>req_headers := req_headers s @ extra\<rparr>) t n
      in if to_lower n = to_lower ''X-Requested-With'' \<and> \<not> cross \<and> oget (snd h) ''X-Requested-With'' \<in> {None, Some []}
         then v = ''XMLHttpRequest'' \<or> wanted = Some v \<and> oget (snd h) ''X-Requested-With'' = None
         else wanted = Some v))"
proof -
  let ?s = "s\<lparr>req_headers := req_headers s @ extra\<rparr>" and ?x = "''X-Requested-With''"
  have h: "table_ok h" "header_value h n = wanted_header modified tags u given ?s t n"
    using request_headers_ok [OF assms(1), of modified tags u given ?s n] unfolding assms(2) set_headers_later by blast+
  have "m = m'" if m: "oget (snd h) m \<noteq> None" "oget (snd h) m' \<noteq> None" "to_lower m = to_lower m'" for m m'
    using table_ok_header [OF h(1) m(1)] table_ok_header [OF h(1) m(2)] unfolding m(3) by (rule option.inject [THEN iffD1, OF trans [OF sym]])
  then have i: "inj_on to_lower (set (okeys (snd h)))"
    by (intro inj_onI) (simp only: obj.keys_get)
  note w = table_value [OF h(1), of n v, unfolded h(2)]
  have "(\<exists>m. to_lower m = to_lower n \<and> oget (transport_headers cross (snd h)) m = Some v) \<longleftrightarrow>
     (if to_lower n = to_lower ?x \<and> \<not> cross \<and> oget (snd h) ?x \<in> {None, Some []}
      then v = ''XMLHttpRequest'' \<or> wanted_header modified tags u given ?s t n = Some v \<and> oget (snd h) ?x = None
      else wanted_header modified tags u given ?s t n = Some v)"
  proof (cases "\<not> cross \<and> oget (snd h) ?x \<in> {None, Some []}")
    case True
    then have t: "transport_headers cross (snd h) = oset (snd h) ?x ''XMLHttpRequest''" by (auto simp: transport_headers_def)
    have "oget (snd h) ?x \<in> {None, Some []}" using True by blast
    from added_header [OF i this, of n _ v] show ?thesis unfolding t w using True by presburger
  next
    case False
    then have "transport_headers cross (snd h) = snd h" by (auto simp: transport_headers_def split: option.splits)
    then have "(\<exists>m. to_lower m = to_lower n \<and> oget (transport_headers cross (snd h)) m = Some v) \<longleftrightarrow> wanted_header modified tags u given ?s t n = Some v"
      using w by (simp only:)
    then show ?thesis using False by presburger
  qed
  then show ?thesis using i unfolding Let_def by (rule conjI [rotated])
qed

definition sample_call :: ajax_call where
  "sample_call =
     \<lparr>req_url = ''/a#top'', req_type = ''GET'', req_data = [], process_data = True, content_type = Some form_type, no_cache = True,
      if_modified = True, req_headers = [(''accept'', ''text/csv'')], accepts = default_accepts, call_types = [''json'']\<rparr>"

theorem request_headers_sent_witness:
  "\<exists>m. to_lower m = ''accept'' \<and>
     oget (transport_headers False (snd (set_headers [(''X-A'', ''b'')] (request_headers [] [] ''/a'' [] sample_call ([], []))))) m = Some ''text/csv''"
proof -
  have t: "table_ok ([], [])" by (simp add: table_ok_def)
  have l: "to_lower ''ACCEPT'' = ''accept''" "to_lower ''accept'' = ''accept''" "to_lower ''X-Requested-With'' = ''x-requested-with''"
    "to_lower ''X-A'' = ''x-a''" by code_simp+
  have "wanted_header [] [] ''/a'' [] (sample_call\<lparr>req_headers := req_headers sample_call @ [(''X-A'', ''b'')]\<rparr>) ([], []) ''ACCEPT'' = Some ''text/csv''"
    by (simp add: wanted_header_def Let_def sample_call_def l)
  then show ?thesis using request_headers_sent [OF t refl, of "[(''X-A'', ''b'')]" "[]" "[]" "''/a''" "[]" sample_call "''ACCEPT''" False] by (simp add: l)
qed

text \<open>A request with \<open>ifModified\<close> for the URL of an earlier one that was answered with a \<open>Last-Modified\<close> header carries the
  value of that header as \<open>If-Modified-Since\<close>, also when a parameter against caching or a hash makes the addresses
  differ. (Unless the option \<open>headers\<close> names this header itself.)\<close>

theorem conditional_request:
  assumes "table_ok t" "opt_modified (options r)" "response_header headers ''Last-Modified'' = Some v" "v \<noteq> []"
    and "prepare_url g s = (cache_url (options r), s', g')" "if_modified s"
    and "\<forall>(k, v) \<in> set (req_headers s). to_lower k \<noteq> ''if-modified-since''"
  shows "header_value (request_headers (last_modified (remember_modified r headers w)) (etags (remember_modified r headers w))
    (cache_url (options r)) given s' t) ''If-Modified-Since'' = Some v"
proof -
  have s: "req_headers s' = req_headers s" "if_modified s'"
    using assms(5,6) by (auto simp: prepare_url_def plus_data_def Let_def split: if_splits)
  have "oget (last_modified (remember_modified r headers w)) (cache_url (options r)) = Some v"
    using assms(2-4) by (simp add: remember_modified_def Let_def obj.get_put)
  moreover have "map_of (rev (map (\<lambda>(k, v). (to_lower k, v)) (req_headers s))) ''if-modified-since'' = None"
    using assms(7) by (force simp: map_of_eq_None_iff)
  ultimately show ?thesis
    using request_headers_ok [OF assms(1)] s assms(4) by (simp add: wanted_header_def Let_def header_names)
qed

section \<open>Parameters of a URL\<close>

definition params_of :: "string \<Rightarrow> string list" where
  "params_of u = filter (\<lambda>p. p \<noteq> []) (split_on (CHR ''&'') (drop 1 (dropWhile (\<lambda>c. c \<noteq> CHR ''?'') u)))"

fun without_anti :: "string list \<Rightarrow> string list" where
  "without_anti [] = []"
| "without_anti (p # ps) = (if starts_with p ''_='' then ps else p # without_anti ps)"

fun blank_anti :: "string list \<Rightarrow> string list" where
  "blank_anti [] = []"
| "blank_anti (p # ps) = (if starts_with p ''_='' then [] # ps else p # blank_anti ps)"

lemma blank_without: "filter (\<lambda>p. p \<noteq> []) (blank_anti ps) = without_anti (filter (\<lambda>p. p \<noteq> []) ps)"
  by (induction ps) auto

lemma starts_with_append: "starts_with s p \<longleftrightarrow> (\<exists>q. s = p @ q)"
  by (induction s p rule: starts_with.induct) auto

lemma split_on_first: "split_on d s = takeWhile (\<lambda>c. c \<noteq> d) s # (case dropWhile (\<lambda>c. c \<noteq> d) s of [] \<Rightarrow> [] | _ # r \<Rightarrow> split_on d r)"
  by (induction s) (auto split: list.splits)

lemma starts_with_part: "starts_with (takeWhile (\<lambda>c. c \<noteq> CHR ''&'') s) ''_='' \<longleftrightarrow> starts_with s ''_=''"
  by (cases s; cases "tl s") auto

lemma split_on_sep: "split_on d (d # s) = [] # split_on d s"
  by simp

lemma drop_anti_parts:
  "CHR ''?'' \<notin> set q \<Longrightarrow>
     split_on (CHR ''&'') (drop_anti_cache q) = (case split_on (CHR ''&'') q of [] \<Rightarrow> [] | p # ps \<Rightarrow> p # blank_anti ps)"
proof (induction q)
  case (Cons c cs)
  define p where "p = takeWhile (\<lambda>c. c \<noteq> CHR ''&'') cs"
  define ps where "ps = (case dropWhile (\<lambda>c. c \<noteq> CHR ''&'') cs of [] \<Rightarrow> [] | _ # r \<Rightarrow> split_on (CHR ''&'') r)"
  have sp: "split_on (CHR ''&'') cs = p # ps" unfolding p_def ps_def by (rule split_on_first)
  have st: "starts_with p ''_='' \<longleftrightarrow> starts_with cs ''_=''" unfolding p_def by (rule starts_with_part)
  show ?case
  proof (cases "c = CHR ''&'' \<and> starts_with cs ''_=''")
    case True
    have "split_on (CHR ''&'') (dropWhile (\<lambda>c. c \<noteq> CHR ''&'') cs) = [] # ps"
    proof (cases "dropWhile (\<lambda>c. c \<noteq> CHR ''&'') cs")
      case (Cons x r)
      then have "x = CHR ''&''" using hd_dropWhile [of "\<lambda>c. c \<noteq> CHR ''&''" cs] by simp
      then show ?thesis using Cons by (simp add: ps_def)
    next
      case Nil
      then show ?thesis unfolding ps_def Nil by simp
    qed
    then show ?thesis using True sp st by simp
  next
    case False
    then have d: "drop_anti_cache (c # cs) = c # drop_anti_cache cs" using Cons.prems by auto
    have "split_on (CHR ''&'') (drop_anti_cache cs) = p # blank_anti ps" using Cons sp by simp
    then show ?thesis using False sp st unfolding d by (cases "c = CHR ''&''") simp_all
  qed
qed simp

lemma drop_anti_leading:
  assumes "CHR ''?'' \<notin> set q"
  shows "filter (\<lambda>p. p \<noteq> []) (split_on (CHR ''&'') (drop 1 (drop_anti_cache (CHR ''?'' # q)))) =
    without_anti (filter (\<lambda>p. p \<noteq> []) (split_on (CHR ''&'') q))"
proof -
  have "drop 1 (drop_anti_cache (CHR ''?'' # q)) = drop 1 (drop_anti_cache (CHR ''&'' # q))" by simp
  moreover have "split_on (CHR ''&'') (drop_anti_cache (CHR ''&'' # q)) = [] # blank_anti (split_on (CHR ''&'') q)"
    using drop_anti_parts [of "CHR ''&'' # q"] assms by simp
  moreover have "\<exists>r. drop_anti_cache (CHR ''&'' # q) = CHR ''&'' # r" by simp
  ultimately show ?thesis by (auto simp: blank_without)
qed

lemma drop_anti_prefix:
  "CHR ''?'' \<notin> set p \<Longrightarrow> CHR ''&'' \<notin> set p \<Longrightarrow> drop_anti_cache (p @ q) = p @ drop_anti_cache q"
  by (induction p) auto

lemma takeWhile_mark: "CHR ''?'' \<notin> set p \<Longrightarrow> takeWhile (\<lambda>c. c \<noteq> CHR ''?'') (p @ CHR ''?'' # q) = p \<and>
    dropWhile (\<lambda>c. c \<noteq> CHR ''?'') (p @ CHR ''?'' # q) = CHR ''?'' # q"
  by (induction p) auto

lemma params_append:
  assumes "CHR ''&'' \<notin> set x" "x \<noteq> []"
  shows "filter (\<lambda>p. p \<noteq> []) (split_on (CHR ''&'') (q @ CHR ''&'' # x)) = filter (\<lambda>p. p \<noteq> []) (split_on (CHR ''&'') q) @ [x]"
  using assms by (simp add: split_on_at split_on_absent)

lemma digits_no_mark: "c \<in> set (nat_str n) \<Longrightarrow> c \<noteq> CHR ''&'' \<and> c \<noteq> CHR ''?''"
  using all_digits_nat_str [of n] by (auto simp: all_digits_def is_digit_def list_all_iff)

text \<open>C31: A request without content that must not come from a cache is sent to the given URL with one changed query: the
  parameters and the data in their order, without the first parameter named \<open>_\<close>, and at the end a parameter \<open>_\<close> with
  the next number; the hash of the URL follows unchanged, and the number is used up. So a URL that was already sent this way does not
  collect numbers when it is used again. (For a path without \<open>&\<close> and at most one question mark.)\<close>

theorem anti_cache_parameter:
  assumes "\<not> has_content (req_type s)" "no_cache s" "url_with_data s = p @ q" "CHR ''?'' \<notin> set p" "CHR ''&'' \<notin> set p"
    and "q = [] \<or> (\<exists>r. q = CHR ''?'' # r \<and> CHR ''?'' \<notin> set r)" "prepare_url g s = (u, s', g')"
  shows "\<exists>w. req_url s' = w @ drop (length (cut_hash (req_url s))) (req_url s) \<and> takeWhile (\<lambda>c. c \<noteq> CHR ''?'') w = p \<and>
    params_of w = without_anti (params_of (url_with_data s)) @ [''_='' @ nat_str g] \<and> g' = Suc g \<and> req_data s' = []"
proof -
  let ?n = "''_='' @ nat_str g" and ?hash = "drop (length (cut_hash (req_url s))) (req_url s)"
  have u: "req_url s' = (u @ query_joint u @ ?n) @ ?hash" "u = drop_anti_cache (p @ q)" "g' = Suc g" "req_data s' = []"
    using assms(1-3,7) by (auto simp: prepare_url_def Let_def)
  have n: "CHR ''&'' \<notin> set ?n" "?n \<noteq> []" using digits_no_mark by auto
  have up: "u = p @ drop_anti_cache q" using u(2) drop_anti_prefix [OF assms(4,5)] by simp
  have "takeWhile (\<lambda>c. c \<noteq> CHR ''?'') (u @ query_joint u @ ?n) = p \<and>
      params_of (u @ query_joint u @ ?n) = without_anti (params_of (p @ q)) @ [?n]"
  proof (cases "q = []")
    case True
    have "dropWhile (\<lambda>c. c \<noteq> CHR ''?'') p = []" using assms(4) by (auto simp: dropWhile_eq_Nil_conv)
    then have "params_of p = []" unfolding params_of_def by (simp only: drop_Nil split_on.simps) simp
    moreover have "query_joint p = ''?''" using assms(4) by (simp add: query_joint_def)
    ultimately show ?thesis
      using True up takeWhile_mark [OF assms(4), of ?n] split_on_absent [OF n(1)] by (simp add: params_of_def)
  next
    case False
    then obtain r where r: "q = CHR ''?'' # r" "CHR ''?'' \<notin> set r" using assms(6) by blast
    define z where "z = drop 1 (drop_anti_cache q)"
    have z: "drop_anti_cache q = CHR ''?'' # z" using r(1) by (simp add: z_def)
    have "query_joint u = ''&''" using up z by (simp add: query_joint_def)
    then have w: "u @ query_joint u @ ?n = p @ CHR ''?'' # (z @ CHR ''&'' # ?n)" using up z by simp
    have "params_of (u @ query_joint u @ ?n) = filter (\<lambda>p. p \<noteq> []) (split_on (CHR ''&'') z) @ [?n]"
      unfolding w params_of_def using takeWhile_mark [OF assms(4)] params_append [OF n] by simp
    also have "filter (\<lambda>p. p \<noteq> []) (split_on (CHR ''&'') z) = without_anti (params_of (p @ q))"
      unfolding z_def r(1) params_of_def using drop_anti_leading [OF r(2)] takeWhile_mark [OF assms(4), of r] by simp
    finally show ?thesis unfolding w using takeWhile_mark [OF assms(4)] by simp
  qed
  then show ?thesis using u assms(3) by (intro exI [of _ "u @ query_joint u @ ?n"]) simp
qed

definition anti_call :: ajax_call where
  "anti_call = sample_call\<lparr>req_url := ''/a?b=1&_=5#top'', req_data := ''c=2''\<rparr>"

theorem anti_cache_parameter_witness:
  "\<exists>w. req_url (fst (snd (prepare_url 9 anti_call))) = w @ ''#top'' \<and> params_of w = [''b=1'', ''c=2'', ''_=9'']"
proof -
  let ?q = "''?b=1&_=5&c=2''"
  have u: "url_with_data anti_call = ''/a'' @ ?q" by code_simp
  have h: "\<not> has_content (req_type anti_call)" "no_cache anti_call" by code_simp+
  have q: "?q = [] \<or> (\<exists>r. ?q = CHR ''?'' # r \<and> CHR ''?'' \<notin> set r)" by simp
  have d: "drop (length (cut_hash (req_url anti_call))) (req_url anti_call) = ''#top''"
    "without_anti (params_of (url_with_data anti_call)) = [''b=1'', ''c=2'']" "''_='' @ nat_str 9 = ''_=9''" by code_simp+
  have p: "prepare_url 9 anti_call =
      (fst (prepare_url 9 anti_call), fst (snd (prepare_url 9 anti_call)), snd (snd (prepare_url 9 anti_call)))" by simp
  show ?thesis using anti_cache_parameter [OF h u _ _ q p] unfolding d by auto
qed

definition modified_req :: ajax_req where
  "modified_req = new_request
     \<lparr>opt_global = True, opt_timeout = False, opt_modified = True, opt_head = False, opt_port = None, opt_before = False,
      opt_settings = default_settings [''*''], cache_url = ''/a''\<rparr>"

definition quiet_world :: world where
  "quiet_world = \<lparr>reqs = [], active = 0, by_port = [], last_modified = [], etags = [], effects = []\<rparr>"

theorem conditional_request_witness:
  "header_value (request_headers (last_modified (remember_modified modified_req ''Last-Modified: Mon'' quiet_world))
     (etags (remember_modified modified_req ''Last-Modified: Mon'' quiet_world)) ''/a'' []
     (fst (snd (prepare_url 9 sample_call))) ([], [])) ''If-Modified-Since'' = Some ''Mon''"
proof -
  have t: "table_ok ([], [])" by (simp add: table_ok_def)
  have o: "opt_modified (options modified_req)" "cache_url (options modified_req) = ''/a''" by (simp_all add: modified_req_def new_request_def)
  have h: "response_header ''Last-Modified: Mon'' ''Last-Modified'' = Some ''Mon''" by code_simp
  have "fst (prepare_url 9 sample_call) = ''/a''" by code_simp
  then have p: "prepare_url 9 sample_call =
      (cache_url (options modified_req), fst (snd (prepare_url 9 sample_call)), snd (snd (prepare_url 9 sample_call)))"
    by (simp add: o prod_eq_iff)
  have f: "if_modified sample_call" "\<forall>(k, v) \<in> set (req_headers sample_call). to_lower k \<noteq> ''if-modified-since''" by code_simp+
  show ?thesis using conditional_request [OF t o(1) h _ p f, of quiet_world "[]"] unfolding o(2) by simp
qed

end
