(* ===== verification/Deferreds.thy ===== *)
theory Deferreds
  imports Dom
begin

text \<open>
  \<open>jQuery.Deferred\<close>: settling, \<open>done\<close>, \<open>fail\<close>, \<open>then\<close> with the resolution of promises that are returned by handlers, and
  \<open>when\<close> for two or more arguments. Functions of the page run between the steps of this model and may do anything that
  other steps do; an exception in a listener is a step that never comes. The context of calls and progress
  (\<open>notify\<close>, \<open>progress\<close>, \<open>pipe\<close>) are left out, and so are thenables whose member \<open>then\<close> cannot be read.
\<close>

section \<open>State\<close>

text \<open>A value: data, the promise of a deferred, a foreign thenable, the arguments of a call as an array, or the error of
  a promise that is resolved with itself.\<close>

datatype val = Plain jsv | Promise nat | Thenable nat | Values "val list" | Self_resolution

datatype outcome = Pending | Resolved "val list" | Rejected "val list"

text \<open>A function among the listeners: one of the page, or the functions that \<open>when\<close> makes.\<close>

datatype listener = Listener nat | Slot nat nat | Reject_master nat

text \<open>\<open>thens\<close> are the calls of \<open>then\<close> that wait; \<open>ringing\<close> are the listeners that still have to be called.\<close>

record deferred =
  settled :: outcome
  dones :: "listener list"
  fails :: "listener list"
  thens :: "nat list"
  ringing :: "(listener \<times> val list) list"

text \<open>A handler of \<open>then\<close>: of the page, one of the defaults, or a function that \<open>resolve\<close> made for another call of
  \<open>then\<close> at a depth (with \<open>Identity\<close> or \<open>Thrower\<close>).\<close>

datatype handler = Page nat | Identity | Thrower | Resolver nat nat bool

record chain =
  source :: nat
  target :: nat
  on_done :: handler
  on_fail :: handler
  max_depth :: nat

record gathering =
  master :: nat
  parts :: "val list"
  remaining :: int
  slots :: "val list"

datatype deferred_effect =
    Started nat bool "val list"  \<comment> \<open>the process of a call of \<open>then\<close>\<close>
  | Handler_called nat nat "val list"
  | Listener_called nat nat "val list"
  | Then_called nat nat nat  \<comment> \<open>of a foreign thenable, with the functions of a depth\<close>
  | When_called nat nat nat

record promises =
  defs :: "deferred list"
  chains :: "chain list"
  gathers :: "gathering list"
  timers :: "(nat \<times> bool \<times> val list) list"
  awaiting :: "nat list"  \<comment> \<open>calls of \<open>then\<close> whose handler is under way\<close>
  happened :: "deferred_effect list"

definition fresh_deferred :: deferred where
  "fresh_deferred = \<lparr>settled = Pending, dones = [], fails = [], thens = [], ringing = []\<rparr>"

definition update_def :: "nat \<Rightarrow> (deferred \<Rightarrow> deferred) \<Rightarrow> promises \<Rightarrow> promises" where
  "update_def i f w = w\<lparr>defs := (defs w)[i := f (defs w ! i)]\<rparr>"

definition emit_all :: "deferred_effect list \<Rightarrow> promises \<Rightarrow> promises" where
  "emit_all es w = w\<lparr>happened := happened w @ es\<rparr>"

definition new_deferred :: "promises \<Rightarrow> promises" where
  "new_deferred w = w\<lparr>defs := defs w @ [fresh_deferred]\<rparr>"

definition first_arg :: "val list \<Rightarrow> val" where
  "first_arg vs = (case vs of [] \<Rightarrow> Plain JUndef | v # _ \<Rightarrow> v)"

section \<open>Settling and listening\<close>

definition outcome_of :: "bool \<Rightarrow> val list \<Rightarrow> outcome" where
  "outcome_of ok vs = (if ok then Resolved vs else Rejected vs)"

text \<open>\<open>resolveWith\<close> and \<open>rejectWith\<close>: the state, the handlers of \<open>then\<close> with their timers, then the listeners.\<close>

definition settle :: "bool \<Rightarrow> nat \<Rightarrow> val list \<Rightarrow> promises \<Rightarrow> promises" where
  "settle ok i vs w =
     (let d = defs w ! i
      in if settled d \<noteq> Pending then w
         else (update_def i (\<lambda>d. d\<lparr>settled := outcome_of ok vs, ringing := map (\<lambda>f. (f, vs)) (if ok then dones d else fails d),
                 dones := [], fails := [], thens := []\<rparr>) w)
                \<lparr>timers := timers w @ map (\<lambda>c. (c, ok, vs)) (thens d)\<rparr>)"

definition add_done :: "listener \<Rightarrow> nat \<Rightarrow> promises \<Rightarrow> promises" where
  "add_done f i w =
     (case settled (defs w ! i) of
        Pending \<Rightarrow> update_def i (\<lambda>d. d\<lparr>dones := dones d @ [f]\<rparr>) w
      | Resolved vs \<Rightarrow> update_def i (\<lambda>d. d\<lparr>ringing := ringing d @ [(f, vs)]\<rparr>) w
      | Rejected vs \<Rightarrow> w)"

definition add_fail :: "listener \<Rightarrow> nat \<Rightarrow> promises \<Rightarrow> promises" where
  "add_fail f i w =
     (case settled (defs w ! i) of
        Pending \<Rightarrow> update_def i (\<lambda>d. d\<lparr>fails := fails d @ [f]\<rparr>) w
      | Resolved vs \<Rightarrow> w
      | Rejected vs \<Rightarrow> update_def i (\<lambda>d. d\<lparr>ringing := ringing d @ [(f, vs)]\<rparr>) w)"

definition add_always :: "listener \<Rightarrow> nat \<Rightarrow> promises \<Rightarrow> promises" where
  "add_always f i w = add_fail f i (add_done f i w)"

section \<open>Chaining\<close>

text \<open>\<open>then\<close>; the new deferred is the last one.\<close>

definition promise_then :: "nat \<Rightarrow> handler \<Rightarrow> handler \<Rightarrow> promises \<Rightarrow> promises" where
  "promise_then i h k w =
     (let c = length (chains w);
          u = (new_deferred w)\<lparr>chains := chains w @
                [\<lparr>source = i, target = length (defs w), on_done = h, on_fail = k, max_depth = 0\<rparr>]\<rparr>
      in case settled (defs w ! i) of
           Pending \<Rightarrow> update_def i (\<lambda>d. d\<lparr>thens := thens d @ [c]\<rparr>) u
         | Resolved vs \<Rightarrow> u\<lparr>timers := timers w @ [(c, True, vs)]\<rparr>
         | Rejected vs \<Rightarrow> u\<lparr>timers := timers w @ [(c, False, vs)]\<rparr>)"

definition promise_catch :: "nat \<Rightarrow> handler \<Rightarrow> promises \<Rightarrow> promises" where
  "promise_catch i k w = promise_then i Identity k w"

text \<open>An exception at a depth, with the arguments for \<open>rejectWith\<close>.\<close>

definition thrown :: "nat \<Rightarrow> nat \<Rightarrow> val list \<Rightarrow> promises \<Rightarrow> promises" where
  "thrown c depth vs w =
     (if max_depth (chains w ! c) \<le> Suc depth then settle False (target (chains w ! c)) vs w else w)"

definition deepen :: "nat \<Rightarrow> promises \<Rightarrow> promises" where
  "deepen c w = w\<lparr>chains := (chains w)[c := (chains w ! c)\<lparr>max_depth := Suc (max_depth (chains w ! c))\<rparr>]\<rparr>"

text \<open>What follows when a handler has returned; \<open>vs\<close> are the arguments for \<open>resolveWith\<close>.\<close>

definition deliver :: "nat \<Rightarrow> nat \<Rightarrow> val \<Rightarrow> val list \<Rightarrow> promises \<Rightarrow> promises" where
  "deliver c depth v vs w =
     (let m = Suc (max_depth (chains w ! c))
      in if v = Promise (target (chains w ! c)) then thrown c depth [Self_resolution] w
         else case v of
                Promise j \<Rightarrow> promise_then j (Resolver c m True) (Resolver c m False) (deepen c w)
              | Thenable n \<Rightarrow> emit_all [Then_called c m n] (deepen c w)
              | _ \<Rightarrow> settle True (target (chains w ! c)) vs w)"

text \<open>The function made by \<open>resolve\<close> with \<open>Identity\<close> or \<open>Thrower\<close>, when it processes.\<close>

definition process_default :: "nat \<Rightarrow> nat \<Rightarrow> bool \<Rightarrow> val list \<Rightarrow> promises \<Rightarrow> promises" where
  "process_default c depth ok vs w =
     (if depth < max_depth (chains w ! c) then w
      else if ok then deliver c depth (first_arg vs) vs w else thrown c depth vs w)"

text \<open>The timer of a call of \<open>then\<close>: depth zero.\<close>

definition process :: "nat \<Rightarrow> bool \<Rightarrow> val list \<Rightarrow> promises \<Rightarrow> promises" where
  "process c ok vs w =
     (let u = emit_all [Started c ok vs] w
      in if 0 < max_depth (chains w ! c) then u
         else case (if ok then on_done (chains w ! c) else on_fail (chains w ! c)) of
                Page f \<Rightarrow> emit_all [Handler_called c f vs] (u\<lparr>awaiting := awaiting w @ [c]\<rparr>)
              | Identity \<Rightarrow> process_default c 0 True vs u
              | Thrower \<Rightarrow> process_default c 0 False vs u
              | Resolver b m good \<Rightarrow> deliver c 0 (Plain JUndef) [Plain JUndef] (process_default b m good vs u))"

section \<open>Gathering\<close>

definition call_value :: "val list \<Rightarrow> val" where
  "call_value vs = (if 1 < length vs then Values vs else first_arg vs)"

definition fill_slot :: "nat \<Rightarrow> nat \<Rightarrow> val list \<Rightarrow> promises \<Rightarrow> promises" where
  "fill_slot g i vs w =
     (let q = gathers w ! g; q' = q\<lparr>slots := (slots q)[i := call_value vs], remaining := remaining q - 1\<rparr>;
          u = w\<lparr>gathers := (gathers w)[g := q']\<rparr>
      in if remaining q' = 0 then settle True (master q') (slots q') u else u)"

definition adopt_value :: "nat \<Rightarrow> nat \<Rightarrow> val \<Rightarrow> promises \<Rightarrow> promises" where
  "adopt_value g i v w =
     (case v of
        Promise j \<Rightarrow> add_fail (Reject_master g) j (add_done (Slot g i) j w)
      | Thenable n \<Rightarrow> emit_all [When_called g i n] w
      | _ \<Rightarrow> fill_slot g i [v] w)"

primrec adopt_values :: "nat \<Rightarrow> nat \<Rightarrow> val list \<Rightarrow> promises \<Rightarrow> promises" where
  \<comment> \<open>from the last one to the first one, which is argument \<open>i\<close>\<close>
  "adopt_values g i [] w = w"
| "adopt_values g i (v # vs) w = adopt_value g i v (adopt_values g (Suc i) vs w)"

definition when_all :: "val list \<Rightarrow> promises \<Rightarrow> promises" where
  "when_all vs w =
     adopt_values (length (gathers w)) 0 vs
       ((new_deferred w)\<lparr>gathers := gathers w @
          [\<lparr>master = length (defs w), parts = vs, remaining = int (length vs), slots = vs\<rparr>]\<rparr>)"

definition ring :: "nat \<Rightarrow> promises \<Rightarrow> promises" where
  "ring i w =
     (case ringing (defs w ! i) of
        [] \<Rightarrow> w
      | (f, vs) # rs \<Rightarrow>
          (let u = update_def i (\<lambda>d. d\<lparr>ringing := rs\<rparr>) w
           in case f of
                Listener g \<Rightarrow> emit_all [Listener_called i g vs] u
              | Slot g j \<Rightarrow> fill_slot g j vs u
              | Reject_master g \<Rightarrow> settle False (master (gathers w ! g)) vs u))"

section \<open>Steps\<close>

text \<open>Deferreds that only this code can settle.\<close>

definition internal :: "promises \<Rightarrow> nat \<Rightarrow> bool" where
  "internal w i \<longleftrightarrow> i \<in> set (map target (chains w)) \<or> i \<in> set (map master (gathers w))"

definition known :: "promises \<Rightarrow> val \<Rightarrow> bool" where
  "known w v = (case v of Promise j \<Rightarrow> j < length (defs w) | _ \<Rightarrow> True)"

inductive deferred_step :: "promises \<Rightarrow> promises \<Rightarrow> bool" where
  made: "deferred_step w (new_deferred w)"
| settles: "i < length (defs w) \<Longrightarrow> \<not> internal w i \<Longrightarrow> list_all (known w) vs \<Longrightarrow> deferred_step w (settle ok i vs w)"
| on_success: "i < length (defs w) \<Longrightarrow> deferred_step w (add_done (Listener f) i w)"
| on_failure: "i < length (defs w) \<Longrightarrow> deferred_step w (add_fail (Listener f) i w)"
| chained: "i < length (defs w) \<Longrightarrow> h = Identity \<or> h = Page f \<Longrightarrow> k = Thrower \<or> k = Page e \<Longrightarrow>
    deferred_step w (promise_then i h k w)"
| timer: "timers w = (c, ok, vs) # ts \<Longrightarrow> deferred_step w (process c ok vs (w\<lparr>timers := ts\<rparr>))"
| returned: "c \<in> set (awaiting w) \<Longrightarrow> known w v \<Longrightarrow>
    deferred_step w (deliver c 0 v [v] (w\<lparr>awaiting := remove1 c (awaiting w)\<rparr>))"
| threw: "c \<in> set (awaiting w) \<Longrightarrow> known w e \<Longrightarrow> deferred_step w (thrown c 0 [e] (w\<lparr>awaiting := remove1 c (awaiting w)\<rparr>))"
| foreign: "Then_called c m n \<in> set (happened w) \<Longrightarrow> list_all (known w) vs \<Longrightarrow> deferred_step w (process_default c m ok vs w)"
| foreign_threw: "Then_called c (Suc m) n \<in> set (happened w) \<Longrightarrow> known w e \<Longrightarrow> deferred_step w (thrown c m [e] w)"
| rings: "i < length (defs w) \<Longrightarrow> ringing (defs w ! i) \<noteq> [] \<Longrightarrow> deferred_step w (ring i w)"
| gathered: "2 \<le> length vs \<Longrightarrow> list_all (known w) vs \<Longrightarrow> deferred_step w (when_all vs w)"
| filled: "When_called g i n \<in> set (happened w) \<Longrightarrow> list_all (known w) vs \<Longrightarrow> deferred_step w (fill_slot g i vs w)"
| refused: "When_called g i n \<in> set (happened w) \<Longrightarrow> list_all (known w) vs \<Longrightarrow>
    deferred_step w (settle False (master (gathers w ! g)) vs w)"

definition no_promises :: promises where
  "no_promises = \<lparr>defs = [], chains = [], gathers = [], timers = [], awaiting = [], happened = []\<rparr>"

inductive deferred_reach :: "promises \<Rightarrow> bool" where
  nothing: "deferred_reach no_promises"
| further: "deferred_reach w \<Longrightarrow> deferred_step w u \<Longrightarrow> deferred_reach u"

end
