(* ===== verification/DeferredProps.thy ===== *)
theory DeferredProps
  imports Deferreds
begin

text \<open>
  Properties of deferreds. The locale \<open>chaining_laws\<close> assumes that the updates of \<open>then\<close> and the operations of \<open>when\<close> keep
  a predicate, each where the code makes it, and shows that every step keeps it; \<open>deferred_laws\<close> assumes only elementary
  updates and is a sublocale.
\<close>

section \<open>What elementary updates do\<close>

lemma update_def_simps [simp]:
  "defs (update_def i f w) = (defs w)[i := f (defs w ! i)]" "chains (update_def i f w) = chains w"
  "gathers (update_def i f w) = gathers w" "timers (update_def i f w) = timers w"
  "awaiting (update_def i f w) = awaiting w" "happened (update_def i f w) = happened w"
  by (simp_all add: update_def_def)

lemma emit_all_simps [simp]:
  "defs (emit_all es w) = defs w" "chains (emit_all es w) = chains w" "gathers (emit_all es w) = gathers w"
  "timers (emit_all es w) = timers w" "awaiting (emit_all es w) = awaiting w" "happened (emit_all es w) = happened w @ es"
  by (simp_all add: emit_all_def)

lemma settle_simps [simp]:
  "chains (settle ok i vs w) = chains w" "gathers (settle ok i vs w) = gathers w" "awaiting (settle ok i vs w) = awaiting w"
  "happened (settle ok i vs w) = happened w" "length (defs (settle ok i vs w)) = length (defs w)"
  by (simp_all add: settle_def Let_def)

lemma deepen_nth:
  "chains (deepen c w) ! b =
     (if b = c \<and> c < length (chains w) then (chains w ! b)\<lparr>max_depth := Suc (max_depth (chains w ! b))\<rparr> else chains w ! b)"
  by (cases "b = c"; cases "c < length (chains w)") (simp_all add: deepen_def list_update_beyond)

lemma deepen_simps [simp]:
  "defs (deepen c w) = defs w" "gathers (deepen c w) = gathers w" "timers (deepen c w) = timers w"
  "awaiting (deepen c w) = awaiting w" "happened (deepen c w) = happened w" "length (chains (deepen c w)) = length (chains w)"
  by (simp_all add: deepen_def)

lemma deepen_links [simp]:
  "source (chains (deepen c w) ! b) = source (chains w ! b)" "target (chains (deepen c w) ! b) = target (chains w ! b)"
  "on_done (chains (deepen c w) ! b) = on_done (chains w ! b)" "on_fail (chains (deepen c w) ! b) = on_fail (chains w ! b)"
  by (simp_all add: deepen_nth)

text \<open>The calls of \<open>then\<close> that were processed, and those whose handler has ended or was none of the page.\<close>

fun started_of :: "deferred_effect \<Rightarrow> nat list" where
  "started_of (Started c ok vs) = [c]"
| "started_of e = []"

definition begun :: "promises \<Rightarrow> nat list" where
  "begun w = concat (map started_of (happened w))"

definition resolving :: "promises \<Rightarrow> nat \<Rightarrow> bool" where
  "resolving w c \<longleftrightarrow> c < length (chains w) \<and> c \<in> set (begun w) \<and> c \<notin> set (awaiting w)"

text \<open>A handler may be one of the page or a default, or belong to a call that is being resolved.\<close>

definition handler_ok :: "promises \<Rightarrow> handler \<Rightarrow> bool" where
  "handler_ok w h =
     (case h of Resolver b m ok \<Rightarrow> resolving w b \<and> 0 < m \<and> m \<le> max_depth (chains w ! b) | _ \<Rightarrow> True)"

definition listener_ok :: "promises \<Rightarrow> listener \<Rightarrow> bool" where
  "listener_ok w f = (case f of Listener n \<Rightarrow> True | Slot g i \<Rightarrow> g < length (gathers w) | Reject_master g \<Rightarrow> g < length (gathers w))"

section \<open>Well-formed states\<close>

definition values_ok :: "promises \<Rightarrow> bool" where
  "values_ok w \<longleftrightarrow>
     (\<forall>d \<in> set (defs w). \<forall>vs ok. settled d = outcome_of ok vs \<longrightarrow> list_all (known w) vs) \<and>
     (\<forall>d \<in> set (defs w). \<forall>(f, vs) \<in> set (ringing d). list_all (known w) vs) \<and>
     (\<forall>(c, ok, vs) \<in> set (timers w). list_all (known w) vs) \<and>
     (\<forall>q \<in> set (gathers w). list_all (known w) (slots q))"

definition listeners_ok :: "promises \<Rightarrow> bool" where
  "listeners_ok w \<longleftrightarrow>
     (\<forall>d \<in> set (defs w). list_all (listener_ok w) (dones d) \<and> list_all (listener_ok w) (fails d) \<and>
        list_all (listener_ok w) (map fst (ringing d))) \<and>
     (\<forall>g i n. When_called g i n \<in> set (happened w) \<longrightarrow> g < length (gathers w))"

definition chains_ok :: "promises \<Rightarrow> bool" where
  "chains_ok w \<longleftrightarrow>
     (\<forall>k \<in> set (chains w). source k < length (defs w) \<and> target k < length (defs w) \<and>
        handler_ok w (on_done k) \<and> handler_ok w (on_fail k)) \<and>
     (\<forall>c m n. Then_called c m n \<in> set (happened w) \<longrightarrow> resolving w c \<and> 0 < m \<and> m \<le> max_depth (chains w ! c)) \<and>
     (\<forall>i < length (defs w). \<forall>c \<in> set (thens (defs w ! i)). c < length (chains w) \<and> source (chains w ! c) = i) \<and>
     (\<forall>(c, ok, vs) \<in> set (timers w). c < length (chains w))"

definition masters_ok :: "promises \<Rightarrow> bool" where
  "masters_ok w \<longleftrightarrow>
     (\<forall>q \<in> set (gathers w). master q < length (defs w)) \<and> distinct (map target (chains w) @ map master (gathers w))"

text \<open>The calls of \<open>then\<close> on one deferred, in the order in which they are processed.\<close>

definition line :: "promises \<Rightarrow> nat \<Rightarrow> nat list" where
  "line w i = filter (\<lambda>c. source (chains w ! c) = i) (begun w @ map fst (timers w)) @ thens (defs w ! i)"

definition lines_ok :: "promises \<Rightarrow> bool" where
  "lines_ok w \<longleftrightarrow>
     (\<forall>i < length (defs w). line w i = filter (\<lambda>c. source (chains w ! c) = i) [0..<length (chains w)]) \<and>
     (\<forall>c \<in> set (begun w). c < length (chains w)) \<and>
     (\<forall>c good vs. Started c good vs \<in> set (happened w) \<or> (c, good, vs) \<in> set (timers w) \<longrightarrow>
        settled (defs w ! source (chains w ! c)) = outcome_of good vs) \<and>
     (\<forall>d \<in> set (defs w). settled d \<noteq> Pending \<longrightarrow> thens d = [])"

definition targets_ok :: "promises \<Rightarrow> bool" where
  "targets_ok w \<longleftrightarrow>
     (\<forall>c < length (chains w). settled (defs w ! target (chains w ! c)) \<noteq> Pending \<or> 0 < max_depth (chains w ! c) \<longrightarrow> resolving w c) \<and>
     distinct (awaiting w) \<and> set (awaiting w) \<subseteq> set (begun w)"

definition promises_ok :: "promises \<Rightarrow> bool" where
  "promises_ok w \<longleftrightarrow> values_ok w \<and> listeners_ok w \<and> chains_ok w \<and> masters_ok w \<and> lines_ok w \<and> targets_ok w"

lemma timer_not_begun:
  assumes "promises_ok w" "timers w = (c, good, vs) # ts"
  shows "c < length (chains w)" "c \<notin> set (begun w)"
proof -
  show l: "c < length (chains w)" using assms by (simp add: promises_ok_def chains_ok_def)
  then have "source (chains w ! c) < length (defs w)" using assms(1) by (auto simp: promises_ok_def chains_ok_def)
  then have "line w (source (chains w ! c)) = filter (\<lambda>b. source (chains w ! b) = source (chains w ! c)) [0..<length (chains w)]"
    using assms(1) by (simp add: promises_ok_def lines_ok_def)
  then have "distinct (line w (source (chains w ! c)))" by simp
  then show "c \<notin> set (begun w)" using assms(2) by (auto simp: line_def)
qed

section \<open>The laws\<close>

definition given_handler :: "handler \<Rightarrow> bool" where
  "given_handler h = (case h of Resolver b m ok \<Rightarrow> False | _ \<Rightarrow> True)"

lemma known_awaiting [simp]: "known (w\<lparr>awaiting := cs\<rparr>) = known w"
  by (simp add: known_def [abs_def])

lemma known_first: "list_all (known w) vs \<Longrightarrow> known w (first_arg vs)"
  by (cases vs) (simp_all add: first_arg_def known_def)

lemma resolving_deepen [simp]: "resolving (deepen c w) b = resolving w b"
  by (simp add: resolving_def begun_def)

lemma depth_deepen: "c < length (chains w) \<Longrightarrow> max_depth (chains (deepen c w) ! c) = Suc (max_depth (chains w ! c))"
  by (simp add: deepen_def)

locale chaining_laws =
  fixes I :: "promises \<Rightarrow> bool"
  assumes ok: "I w \<Longrightarrow> promises_ok w"
    and start: "I no_promises"
    and new: "I w \<Longrightarrow> I (new_deferred w)"
    and page_settle: "I w \<Longrightarrow> i < length (defs w) \<Longrightarrow> \<not> internal w i \<Longrightarrow> list_all (known w) vs \<Longrightarrow> I (settle good i vs w)"
    and target_settle: "I w \<Longrightarrow> resolving w c \<Longrightarrow> list_all (known w) vs \<Longrightarrow> I (settle good (target (chains w ! c)) vs w)"
    and chain: "I w \<Longrightarrow> i < length (defs w) \<Longrightarrow> handler_ok w h \<Longrightarrow> handler_ok w k \<Longrightarrow> I (promise_then i h k w)"
    and deeper: "I w \<Longrightarrow> resolving w c \<Longrightarrow> I (deepen c w)"
    and call_then: "I w \<Longrightarrow> resolving w c \<Longrightarrow> 0 < max_depth (chains w ! c) \<Longrightarrow>
      I (emit_all [Then_called c (max_depth (chains w ! c)) n] w)"
    and expire: "I w \<Longrightarrow> timers w = (c, good, vs) # ts \<Longrightarrow> I (emit_all [Started c good vs] (w\<lparr>timers := ts\<rparr>))"
    and call_handler: "I w \<Longrightarrow> resolving w c \<Longrightarrow> max_depth (chains w ! c) = 0 \<Longrightarrow> settled (defs w ! target (chains w ! c)) = Pending \<Longrightarrow>
      I (emit_all [Handler_called c f vs] (w\<lparr>awaiting := awaiting w @ [c]\<rparr>))"
    and handler_ends: "I w \<Longrightarrow> c \<in> set (awaiting w) \<Longrightarrow> I (w\<lparr>awaiting := remove1 c (awaiting w)\<rparr>)"
    and listen: "I w \<Longrightarrow> i < length (defs w) \<Longrightarrow> I (add_done (Listener f) i w) \<and> I (add_fail (Listener f) i w)"
    and ringing_one: "I w \<Longrightarrow> i < length (defs w) \<Longrightarrow> I (ring i w)"
    and all: "I w \<Longrightarrow> 2 \<le> length us \<Longrightarrow> list_all (known w) us \<Longrightarrow> I (when_all us w)"
    and fills: "I w \<Longrightarrow> When_called g i n \<in> set (happened w) \<Longrightarrow> list_all (known w) us \<Longrightarrow> I (fill_slot g i us w)"
    and refuses: "I w \<Longrightarrow> When_called g i n \<in> set (happened w) \<Longrightarrow> list_all (known w) us \<Longrightarrow> I (settle False (master (gathers w ! g)) us w)"
begin

lemma throw: "I w \<Longrightarrow> resolving w c \<Longrightarrow> list_all (known w) vs \<Longrightarrow> I (thrown c m vs w)"
  by (simp add: thrown_def target_settle)

lemma give:
  assumes "I w" "resolving w c" "known w v" "list_all (known w) vs"
  shows "I (deliver c m v vs w)"
proof -
  let ?n = "Suc (max_depth (chains w ! c))"
  have c: "c < length (chains w)" using assms(2) by (simp add: resolving_def)
  have r: "handler_ok (deepen c w) (Resolver c ?n b)" for b
    using assms(2) by (simp add: handler_ok_def depth_deepen [OF c])
  have d: "I (deepen c w)" using assms(1,2) by (rule deeper)
  have s: "known w Self_resolution" by (simp add: known_def)
  show ?thesis
  proof (cases "v = Promise (target (chains w ! c))")
    case True
    then show ?thesis using throw [OF assms(1,2)] s by (simp add: deliver_def Let_def)
  next
    case False
    show ?thesis
    proof (cases v)
      case (Promise j)
      then have "j < length (defs (deepen c w))" using assms(3) by (simp add: known_def)
      then show ?thesis using False chain [OF d _ r r] Promise by (simp add: deliver_def Let_def)
    next
      case (Thenable n)
      have "I (emit_all [Then_called c (max_depth (chains (deepen c w) ! c)) n] (deepen c w))"
        by (rule call_then [OF d]) (use assms(2) in \<open>simp_all add: depth_deepen [OF c]\<close>)
      then show ?thesis using False Thenable by (simp add: deliver_def Let_def depth_deepen [OF c])
    qed (use False target_settle [OF assms(1,2,4)] in \<open>simp_all add: deliver_def Let_def\<close>)
  qed
qed

lemma run_default: "I w \<Longrightarrow> resolving w c \<Longrightarrow> list_all (known w) vs \<Longrightarrow> I (process_default c m good vs w)"
  by (simp add: process_default_def give throw known_first)

lemma run_process:
  assumes "I w" "timers w = (c, good, vs) # ts"
  shows "I (process c good vs (w\<lparr>timers := ts\<rparr>))"
proof -
  let ?u = "emit_all [Started c good vs] (w\<lparr>timers := ts\<rparr>)"
  note p = ok [OF assms(1)]
  note t = timer_not_begun [OF p assms(2)]
  have u: "I ?u" using assms by (rule expire)
  have a: "c \<notin> set (awaiting w)" using p t(2) by (auto simp: promises_ok_def targets_ok_def)
  have n: "\<not> resolving w c" using t(2) by (simp add: resolving_def)
  then have m: "max_depth (chains w ! c) = 0" "settled (defs w ! target (chains w ! c)) = Pending"
    using p t(1) by (auto simp: promises_ok_def targets_ok_def)
  have r: "resolving ?u c" using t(1) a by (simp add: resolving_def begun_def)
  have v: "list_all (known ?u) vs" using p assms(2) by (simp add: promises_ok_def values_ok_def known_def [abs_def])
  have h: "handler_ok w (if good then on_done (chains w ! c) else on_fail (chains w ! c))"
    using p t(1) by (auto simp: promises_ok_def chains_ok_def)
  show ?thesis
  proof (cases "if good then on_done (chains w ! c) else on_fail (chains w ! c)")
    case (Page f)
    then show ?thesis using call_handler [OF u r, of f vs] m by (cases good) (simp_all add: process_def Let_def)
  next
    case (Resolver b d ok')
    then have b: "resolving ?u b" using h by (auto simp: handler_ok_def resolving_def begun_def)
    have i: "I (process_default b d ok' vs ?u)" using run_default [OF u b v] .
    have "resolving (process_default b d ok' vs ?u) c"
      using r by (simp add: process_default_def deliver_def thrown_def Let_def resolving_def begun_def promise_then_def new_deferred_def
          split: val.split outcome.split)
    then show ?thesis using give [OF i] m Resolver by (cases good) (simp_all add: process_def Let_def known_def)
  qed (use run_default [OF u r v] m in \<open>cases good; simp add: process_def Let_def\<close>)+
qed

lemma ended:
  assumes "I w" "c \<in> set (awaiting w)"
  shows "I (w\<lparr>awaiting := remove1 c (awaiting w)\<rparr>) \<and> resolving (w\<lparr>awaiting := remove1 c (awaiting w)\<rparr>) c"
proof -
  have "c \<in> set (begun w)" "distinct (awaiting w)" "c < length (chains w)"
    using ok [OF assms(1)] assms(2) by (auto simp: promises_ok_def targets_ok_def lines_ok_def)
  then show ?thesis using handler_ends [OF assms] by (simp add: resolving_def begun_def)
qed

lemma step:
  assumes "deferred_step w u" "I w"
  shows "I u"
  using assms(1)
proof cases
  case made
  then show ?thesis using new [OF assms(2)] by simp
next
  case (settles i vs good)
  then show ?thesis using page_settle [OF assms(2)] by simp
next
  case (on_success i f)
  then show ?thesis using listen [OF assms(2)] by simp
next
  case (on_failure i f)
  then show ?thesis using listen [OF assms(2)] by simp
next
  case (chained i h f k e)
  then show ?thesis using chain [OF assms(2), of i h k] by (auto simp: handler_ok_def)
next
  case (timer c good vs ts)
  then show ?thesis using run_process [OF assms(2)] by simp
next
  case (returned c v)
  then show ?thesis using ended [OF assms(2) returned(2)] give [of "w\<lparr>awaiting := remove1 c (awaiting w)\<rparr>" c v "[v]" 0] by simp
next
  case (threw c e)
  then show ?thesis using ended [OF assms(2) threw(2)] throw [of "w\<lparr>awaiting := remove1 c (awaiting w)\<rparr>" c "[e]" 0] by simp
next
  case (foreign c m n vs good)
  then have "resolving w c" using ok [OF assms(2)] unfolding promises_ok_def chains_ok_def by blast
  then show ?thesis using foreign run_default [OF assms(2)] by simp
next
  case (foreign_threw c m n e)
  then have "resolving w c" using ok [OF assms(2)] unfolding promises_ok_def chains_ok_def by blast
  then show ?thesis using foreign_threw throw [OF assms(2)] by simp
next
  case (rings i)
  then show ?thesis using ringing_one [OF assms(2)] by simp
next
  case (gathered vs)
  then show ?thesis using all [OF assms(2)] by simp
next
  case (filled g i n vs)
  then show ?thesis using fills [OF assms(2)] by simp
next
  case (refused g i n vs)
  then show ?thesis using refuses [OF assms(2)] by simp
qed

lemma reachable: "deferred_reach w \<Longrightarrow> I w"
  by (induction rule: deferred_reach.induct) (auto intro: start step)

end

text \<open>The elementary updates of listeners and of \<open>when\<close>.\<close>

locale deferred_laws =
  fixes I :: "promises \<Rightarrow> bool"
  assumes ok: "I w \<Longrightarrow> promises_ok w"
    and start: "I no_promises"
    and new: "I w \<Longrightarrow> I (new_deferred w)"
    and page_settle: "I w \<Longrightarrow> i < length (defs w) \<Longrightarrow> \<not> internal w i \<Longrightarrow> list_all (known w) vs \<Longrightarrow> I (settle good i vs w)"
    and target_settle: "I w \<Longrightarrow> resolving w c \<Longrightarrow> list_all (known w) vs \<Longrightarrow> I (settle good (target (chains w ! c)) vs w)"
    and master_settle: "I w \<Longrightarrow> g < length (gathers w) \<Longrightarrow> list_all (known w) vs \<Longrightarrow> I (settle good (master (gathers w ! g)) vs w)"
    and listen_done: "I w \<Longrightarrow> i < length (defs w) \<Longrightarrow> listener_ok w l \<Longrightarrow> I (add_done l i w)"
    and listen_fail: "I w \<Longrightarrow> i < length (defs w) \<Longrightarrow> listener_ok w l \<Longrightarrow> I (add_fail l i w)"
    and chain: "I w \<Longrightarrow> i < length (defs w) \<Longrightarrow> handler_ok w h \<Longrightarrow> handler_ok w k \<Longrightarrow> I (promise_then i h k w)"
    and deeper: "I w \<Longrightarrow> resolving w c \<Longrightarrow> I (deepen c w)"
    and call_then: "I w \<Longrightarrow> resolving w c \<Longrightarrow> 0 < max_depth (chains w ! c) \<Longrightarrow>
      I (emit_all [Then_called c (max_depth (chains w ! c)) n] w)"
    and call_when: "I w \<Longrightarrow> g < length (gathers w) \<Longrightarrow> I (emit_all [When_called g i n] w)"
    and call_listener: "I w \<Longrightarrow> I (emit_all [Listener_called i f vs] w)"
    and expire: "I w \<Longrightarrow> timers w = (c, good, vs) # ts \<Longrightarrow> I (emit_all [Started c good vs] (w\<lparr>timers := ts\<rparr>))"
    and call_handler: "I w \<Longrightarrow> resolving w c \<Longrightarrow> max_depth (chains w ! c) = 0 \<Longrightarrow> settled (defs w ! target (chains w ! c)) = Pending \<Longrightarrow>
      I (emit_all [Handler_called c f vs] (w\<lparr>awaiting := awaiting w @ [c]\<rparr>))"
    and handler_ends: "I w \<Longrightarrow> c \<in> set (awaiting w) \<Longrightarrow> I (w\<lparr>awaiting := remove1 c (awaiting w)\<rparr>)"
    and take_ringing: "I w \<Longrightarrow> i < length (defs w) \<Longrightarrow> ringing (defs w ! i) = r # rs \<Longrightarrow> I (update_def i (\<lambda>d. d\<lparr>ringing := rs\<rparr>) w)"
    and gather: "I w \<Longrightarrow> list_all (known w) vs \<Longrightarrow>
      I ((new_deferred w)\<lparr>gathers := gathers w @ [\<lparr>master = length (defs w), parts = vs, remaining = int (length vs), slots = vs\<rparr>]\<rparr>)"
    and fill: "I w \<Longrightarrow> g < length (gathers w) \<Longrightarrow> known w v \<Longrightarrow>
      I (w\<lparr>gathers := (gathers w)[g := (gathers w ! g)\<lparr>slots := (slots (gathers w ! g))[i := v], remaining := remaining (gathers w ! g) - 1\<rparr>]\<rparr>)"
begin

lemma run_fill:
  assumes "I w" "g < length (gathers w)" "list_all (known w) vs"
  shows "I (fill_slot g i vs w)"
proof -
  let ?q = "(gathers w ! g)\<lparr>slots := (slots (gathers w ! g))[i := call_value vs], remaining := remaining (gathers w ! g) - 1\<rparr>"
  let ?u = "w\<lparr>gathers := (gathers w)[g := ?q]\<rparr>"
  have "known w (call_value vs)" using known_first [OF assms(3)] by (simp add: call_value_def known_def)
  then have u: "I ?u" by (rule fill [OF assms(1,2)])
  have "?q \<in> set (gathers ?u)" using assms(2) by (simp add: set_update_memI)
  then have "list_all (known ?u) (slots ?q)" using ok [OF u] unfolding promises_ok_def values_ok_def by blast
  then have "I (settle True (master ?q) (slots ?q) ?u)" using master_settle [OF u, of g "slots ?q" True] assms(2) by simp
  with u show ?thesis
    unfolding fill_slot_def Let_def by (split if_split) blast
qed

lemma run_adopt:
  assumes "I w" "g < length (gathers w)" "known w v"
  shows "I (adopt_value g i v w)"
proof (cases v)
  case (Promise j)
  then have j: "j < length (defs w)" using assms(3) by (simp add: known_def)
  have "I (add_done (Slot g i) j w)" by (rule listen_done [OF assms(1) j]) (simp add: listener_ok_def assms(2))
  then have "I (add_fail (Reject_master g) j (add_done (Slot g i) j w))"
    by (rule listen_fail) (use j assms(2) in \<open>simp_all add: add_done_def listener_ok_def split: outcome.split\<close>)
  then show ?thesis by (simp add: adopt_value_def Promise)
next
  case (Thenable n)
  then show ?thesis using call_when [OF assms(1,2)] by (simp add: adopt_value_def)
qed (use run_fill [OF assms(1,2), of "[v]" i] assms(3) in \<open>simp_all add: adopt_value_def\<close>)

lemma adopt_same:
  "length (gathers (adopt_value g i v w)) = length (gathers w)" "length (defs (adopt_value g i v w)) = length (defs w)"
  by (simp_all add: adopt_value_def add_done_def add_fail_def fill_slot_def Let_def split: val.split outcome.split)

lemma run_adopts:
  "I w \<Longrightarrow> g < length (gathers w) \<Longrightarrow> list_all (known w) vs \<Longrightarrow>
     I (adopt_values g i vs w) \<and> length (gathers (adopt_values g i vs w)) = length (gathers w) \<and>
     length (defs (adopt_values g i vs w)) = length (defs w)"
proof (induction vs arbitrary: i)
  case (Cons v vs)
  then have "I (adopt_values g (Suc i) vs w)" "g < length (gathers (adopt_values g (Suc i) vs w))"
    "length (gathers (adopt_values g (Suc i) vs w)) = length (gathers w)"
    "length (defs (adopt_values g (Suc i) vs w)) = length (defs w)" "known w v" by simp_all
  moreover from this have "known (adopt_values g (Suc i) vs w) v" by (cases v) (simp_all add: known_def)
  ultimately show ?case using run_adopt [of "adopt_values g (Suc i) vs w" g v i] by (simp add: adopt_same)
qed simp

lemma run_ring:
  assumes "I w" "i < length (defs w)"
  shows "I (ring i w)"
proof (cases "ringing (defs w ! i)")
  case Nil
  then show ?thesis using assms(1) by (simp add: ring_def)
next
  case (Cons r rs)
  obtain f vs where r: "r = (f, vs)" by (cases r)
  let ?u = "update_def i (\<lambda>d. d\<lparr>ringing := rs\<rparr>) w"
  have u: "I ?u" by (rule take_ringing [OF assms Cons])
  have d: "defs w ! i \<in> set (defs w)" using assms(2) by simp
  have v: "list_all (known ?u) vs" and f: "listener_ok w f"
    using ok [OF assms(1)] d Cons r by (fastforce simp: promises_ok_def values_ok_def listeners_ok_def known_def [abs_def] list_all_iff)+
  show ?thesis
  proof (cases f)
    case (Listener n)
    then show ?thesis using call_listener [OF u] Cons r by (simp add: ring_def Let_def)
  next
    case (Slot g j)
    then show ?thesis using run_fill [OF u _ v] f Cons r by (simp add: ring_def Let_def listener_ok_def)
  next
    case (Reject_master g)
    then show ?thesis using master_settle [OF u _ v] f Cons r by (simp add: ring_def Let_def listener_ok_def)
  qed
qed

lemma run_when:
  assumes "I w" "list_all (known w) vs"
  shows "I (when_all vs w)"
proof -
  let ?u = "(new_deferred w)\<lparr>gathers := gathers w @ [\<lparr>master = length (defs w), parts = vs, remaining = int (length vs), slots = vs\<rparr>]\<rparr>"
  have "list_all (known ?u) vs"
    using assms(2) by (auto simp: list_all_iff known_def new_deferred_def split: val.splits)
  then show ?thesis using run_adopts [OF gather [OF assms], of "length (gathers w)" vs 0] by (simp add: when_all_def)
qed

end

sublocale deferred_laws \<subseteq> steps: chaining_laws I
proof unfold_locales
  fix w i f assume "I w" "i < length (defs w)"
  then show "I (add_done (Listener f) i w) \<and> I (add_fail (Listener f) i w)" by (simp add: listen_done listen_fail listener_ok_def)
next
  fix w g i n us assume w: "I w" "When_called g i n \<in> set (happened w)" "list_all (known w) us"
  then have "g < length (gathers w)" using ok [OF w(1)] unfolding promises_ok_def listeners_ok_def by blast
  then show "I (fill_slot g i us w)" "I (settle False (master (gathers w ! g)) us w)" using w run_fill master_settle by blast+
qed (fact ok start new page_settle target_settle chain deeper call_then expire call_handler handler_ends run_ring | (rule run_when; assumption))+

section \<open>The laws hold\<close>

lemma ball_update: "\<forall>d \<in> set xs. P d \<Longrightarrow> P x \<Longrightarrow> \<forall>d \<in> set (xs[i := x]). P d"
  using set_update_subset_insert [of xs i x] by blast

lemma known_mono: "known w v \<Longrightarrow> length (defs w) \<le> length (defs u) \<Longrightarrow> known u v"
  by (auto simp: known_def split: val.splits)

lemma knowns_mono: "list_all (known w) vs \<Longrightarrow> length (defs w) \<le> length (defs u) \<Longrightarrow> list_all (known u) vs"
  by (auto simp: list_all_iff intro: known_mono)

lemma fresh_simps [simp]:
  "settled fresh_deferred = Pending" "dones fresh_deferred = []" "fails fresh_deferred = []" "thens fresh_deferred = []"
  "ringing fresh_deferred = []"
  by (simp_all add: fresh_deferred_def)

lemma outcome_simps [simp]: "outcome_of ok vs \<noteq> Pending" "Pending \<noteq> outcome_of ok vs"
  "outcome_of ok vs = Resolved us \<longleftrightarrow> ok \<and> vs = us" "outcome_of ok vs = Rejected us \<longleftrightarrow> \<not> ok \<and> vs = us"
  "Resolved us = outcome_of ok vs \<longleftrightarrow> ok \<and> us = vs" "Rejected us = outcome_of ok vs \<longleftrightarrow> \<not> ok \<and> us = vs"
  "outcome_of ok vs = outcome_of ok' us \<longleftrightarrow> ok = ok' \<and> vs = us"
  by (auto simp: outcome_of_def)

lemma new_deferred_simps [simp]:
  "defs (new_deferred w) = defs w @ [fresh_deferred]" "chains (new_deferred w) = chains w" "gathers (new_deferred w) = gathers w"
  "timers (new_deferred w) = timers w" "awaiting (new_deferred w) = awaiting w" "happened (new_deferred w) = happened w"
  by (simp_all add: new_deferred_def)

text \<open>Values.\<close>

definition def_values :: "promises \<Rightarrow> deferred \<Rightarrow> bool" where
  "def_values w d \<longleftrightarrow>
     (\<forall>vs ok. settled d = outcome_of ok vs \<longrightarrow> list_all (known w) vs) \<and> (\<forall>(f, vs) \<in> set (ringing d). list_all (known w) vs)"

lemma values_ok_alt:
  "values_ok w \<longleftrightarrow>
     (\<forall>d \<in> set (defs w). def_values w d) \<and> (\<forall>(c, ok, vs) \<in> set (timers w). list_all (known w) vs) \<and>
     (\<forall>q \<in> set (gathers w). list_all (known w) (slots q))"
  unfolding values_ok_def def_values_def by blast

lemma def_values_mono: "def_values w d \<Longrightarrow> length (defs w) \<le> length (defs u) \<Longrightarrow> def_values u d"
  unfolding def_values_def by (fast intro: knowns_mono)

lemma values_frame:
  assumes "values_ok w" "length (defs w) \<le> length (defs u)" "\<forall>d \<in> set (defs u). d \<in> set (defs w) \<or> def_values u d"
    and "\<forall>(c, ok, vs) \<in> set (timers u). (c, ok, vs) \<in> set (timers w) \<or> list_all (known u) vs"
    and "\<forall>q \<in> set (gathers u). q \<in> set (gathers w) \<or> list_all (known u) (slots q)"
  shows "values_ok u"
proof -
  have "def_values u d" if "d \<in> set (defs w)" for d
    using assms(1,2) that def_values_mono unfolding values_ok_alt by blast
  moreover have "list_all (known u) vs" if "(c, ok, vs) \<in> set (timers w)" for c ok vs
    using assms(1,2) that knowns_mono unfolding values_ok_alt by blast
  moreover have "list_all (known u) (slots q)" if "q \<in> set (gathers w)" for q
    using assms(1,2) that knowns_mono unfolding values_ok_alt by blast
  ultimately show ?thesis using assms(3-5) unfolding values_ok_alt by blast
qed

lemma values_update:
  assumes "values_ok w" "def_values w (f (defs w ! i))"
  shows "values_ok (update_def i f w)"
proof (rule values_frame [OF assms(1)])
  have "def_values (update_def i f w) (f (defs w ! i))" using assms(2) by (rule def_values_mono) simp
  then show "\<forall>d \<in> set (defs (update_def i f w)). d \<in> set (defs w) \<or> def_values (update_def i f w) d"
    by simp (rule ball_update, simp_all)
qed auto

lemma def_values_nth: "values_ok w \<Longrightarrow> i < length (defs w) \<Longrightarrow> def_values w (defs w ! i)"
  by (simp add: values_ok_alt)

lemma values_settle:
  assumes "values_ok w" "i < length (defs w)" "list_all (known w) vs"
  shows "values_ok (settle good i vs w)"
proof (cases "settled (defs w ! i) = Pending")
  case True
  let ?f = "\<lambda>d. d\<lparr>settled := outcome_of good vs, ringing := map (\<lambda>f. (f, vs)) (if good then dones d else fails d), dones := [], fails := [], thens := []\<rparr>"
  have "values_ok (update_def i ?f w)" by (rule values_update [OF assms(1)]) (auto simp: def_values_def assms(3))
  then show ?thesis
    by (rule values_frame) (use True assms(3) in \<open>auto simp: settle_def Let_def known_def [abs_def]\<close>)
qed (use assms(1) in \<open>simp add: settle_def Let_def\<close>)

lemma values_listen:
  assumes "values_ok w" "i < length (defs w)"
  shows "values_ok (add_done l i w)" "values_ok (add_fail l i w)"
proof -
  note d = def_values_nth [OF assms]
  have "list_all (known w) vs" if "settled (defs w ! i) = Resolved vs \<or> settled (defs w ! i) = Rejected vs" for vs
    using d that unfolding def_values_def by (metis outcome_of_def)
  then show "values_ok (add_done l i w)" "values_ok (add_fail l i w)"
    using assms(1) d by (auto simp: add_done_def add_fail_def def_values_def split: outcome.split intro!: values_update)
qed

lemma settled_known:
  assumes "values_ok w" "i < length (defs w)" "settled (defs w ! i) = Resolved vs \<or> settled (defs w ! i) = Rejected vs"
  shows "list_all (known w) vs"
proof -
  have "settled (defs w ! i) = outcome_of True vs \<or> settled (defs w ! i) = outcome_of False vs" using assms(3) by (simp add: outcome_of_def)
  then show ?thesis using def_values_nth [OF assms(1,2)] unfolding def_values_def by blast
qed

lemma promise_then_simps [simp]:
  "chains (promise_then i h k w) = chains w @ [\<lparr>source = i, target = length (defs w), on_done = h, on_fail = k, max_depth = 0\<rparr>]"
  "gathers (promise_then i h k w) = gathers w" "awaiting (promise_then i h k w) = awaiting w"
  "happened (promise_then i h k w) = happened w" "length (defs (promise_then i h k w)) = Suc (length (defs w))"
  by (simp_all add: promise_then_def Let_def split: outcome.split)

lemma promise_then_defs:
  assumes "i < length (defs w)"
  shows "defs (promise_then i h k w) =
      (if settled (defs w ! i) = Pending then (defs w)[i := (defs w ! i)\<lparr>thens := thens (defs w ! i) @ [length (chains w)]\<rparr>] else defs w) @
      [fresh_deferred]"
    and "timers (promise_then i h k w) = timers w @
      (case settled (defs w ! i) of Pending \<Rightarrow> [] | Resolved vs \<Rightarrow> [(length (chains w), True, vs)] | Rejected vs \<Rightarrow> [(length (chains w), False, vs)])"
  using assms by (simp_all add: promise_then_def Let_def nth_append list_update_append split: outcome.split)

lemma values_chain:
  assumes "values_ok w" "i < length (defs w)"
  shows "values_ok (promise_then i h k w)"
proof (rule values_frame [OF assms(1)])
  let ?u = "promise_then i h k w"
  have v: "list_all (known ?u) vs" if "settled (defs w ! i) = Resolved vs \<or> settled (defs w ! i) = Rejected vs" for vs
    using settled_known [OF assms that] by (rule knowns_mono) simp
  have f: "def_values ?u fresh_deferred" by (simp add: def_values_def)
  have "def_values ?u ((defs w ! i)\<lparr>thens := cs\<rparr>)" for cs
    using def_values_mono [OF def_values_nth [OF assms], where u = ?u] by (simp add: def_values_def)
  then show "\<forall>d \<in> set (defs ?u). d \<in> set (defs w) \<or> def_values ?u d"
    unfolding promise_then_defs(1) [OF assms(2)] set_append by (auto simp: f dest!: set_update_subset_insert [THEN subsetD])
  show "\<forall>(c, ok, vs) \<in> set (timers ?u). (c, ok, vs) \<in> set (timers w) \<or> list_all (known ?u) vs"
    unfolding promise_then_defs(2) [OF assms(2)] using v by (auto split: outcome.splits)
qed simp_all

lemma values_laws:
  assumes "values_ok w"
  shows "values_ok (new_deferred w)" "values_ok (deepen c w)" "values_ok (emit_all es w)" "values_ok (w\<lparr>awaiting := cs\<rparr>)"
    "timers w = t # ts \<Longrightarrow> values_ok (w\<lparr>timers := ts\<rparr>)"
    "i < length (defs w) \<Longrightarrow> ringing (defs w ! i) = r # rs \<Longrightarrow> values_ok (update_def i (\<lambda>d. d\<lparr>ringing := rs\<rparr>) w)"
    "list_all (known w) vs \<Longrightarrow> slots q = vs \<Longrightarrow> values_ok ((new_deferred w)\<lparr>gathers := gathers w @ [q]\<rparr>)"
    "g < length (gathers w) \<Longrightarrow> known w v \<Longrightarrow> slots q = (slots (gathers w ! g))[j := v] \<Longrightarrow> values_ok (w\<lparr>gathers := (gathers w)[g := q]\<rparr>)"
proof -
  show "values_ok (new_deferred w)" by (rule values_frame [OF assms]) (auto simp: def_values_def)
  show "values_ok (deepen c w)" by (rule values_frame [OF assms]) auto
  show "values_ok (emit_all es w)" by (rule values_frame [OF assms]) auto
  show "values_ok (w\<lparr>awaiting := cs\<rparr>)" by (rule values_frame [OF assms]) auto
  show "values_ok (w\<lparr>timers := ts\<rparr>)" if "timers w = t # ts" by (rule values_frame [OF assms]) (use that in auto)
  show "values_ok (update_def i (\<lambda>d. d\<lparr>ringing := rs\<rparr>) w)" if "i < length (defs w)" "ringing (defs w ! i) = r # rs"
    using values_update [OF assms, of "\<lambda>d. d\<lparr>ringing := rs\<rparr>" i] def_values_nth [OF assms that(1)] that(2) by (auto simp: def_values_def)
  show "values_ok ((new_deferred w)\<lparr>gathers := gathers w @ [q]\<rparr>)" if "list_all (known w) vs" "slots q = vs"
    by (rule values_frame [OF assms]) (use that in \<open>auto simp: def_values_def intro: knowns_mono\<close>)
  show "values_ok (w\<lparr>gathers := (gathers w)[g := q]\<rparr>)"
    if "g < length (gathers w)" "known w v" "slots q = (slots (gathers w ! g))[j := v]"
  proof (rule values_frame [OF assms])
    have "list_all (known w) (slots (gathers w ! g))" using assms that(1) by (simp add: values_ok_alt)
    then have "list_all (known w) (slots q)"
      using that(2,3) set_update_subset_insert [of "slots (gathers w ! g)" j v] by (auto simp: list_all_iff)
    then have "list_all (known (w\<lparr>gathers := (gathers w)[g := q]\<rparr>)) (slots q)" by (rule knowns_mono) simp
    then show "\<forall>p \<in> set (gathers (w\<lparr>gathers := (gathers w)[g := q]\<rparr>)). p \<in> set (gathers w) \<or> list_all (known (w\<lparr>gathers := (gathers w)[g := q]\<rparr>)) (slots p)"
      using set_update_subset_insert [of "gathers w" g q] by auto
  qed auto
qed

text \<open>Listeners.\<close>

definition def_listeners :: "promises \<Rightarrow> deferred \<Rightarrow> bool" where
  "def_listeners w d \<longleftrightarrow>
     list_all (listener_ok w) (dones d) \<and> list_all (listener_ok w) (fails d) \<and> list_all (listener_ok w) (map fst (ringing d))"

lemma listener_mono: "listener_ok w l \<Longrightarrow> length (gathers w) \<le> length (gathers u) \<Longrightarrow> listener_ok u l"
  by (auto simp: listener_ok_def split: listener.splits)

lemma def_listeners_mono: "def_listeners w d \<Longrightarrow> length (gathers w) \<le> length (gathers u) \<Longrightarrow> def_listeners u d"
  unfolding def_listeners_def list_all_iff by (blast intro: listener_mono)

lemma listeners_frame:
  assumes "listeners_ok w" "length (gathers w) \<le> length (gathers u)" "\<forall>d \<in> set (defs u). d \<in> set (defs w) \<or> def_listeners u d"
    and "\<forall>g i n. When_called g i n \<in> set (happened u) \<longrightarrow> When_called g i n \<in> set (happened w) \<or> g < length (gathers u)"
  shows "listeners_ok u"
proof -
  have "def_listeners u d" if "d \<in> set (defs w)" for d
    using assms(1,2) that def_listeners_mono unfolding listeners_ok_def def_listeners_def by blast
  then have d: "\<forall>d \<in> set (defs u). def_listeners u d" using assms(3) by blast
  have "g < length (gathers u)" if "When_called g i n \<in> set (happened w)" for g i n
    using assms(1,2) that unfolding listeners_ok_def by (blast intro: less_le_trans)
  then show ?thesis using d assms(4) unfolding listeners_ok_def def_listeners_def by blast
qed

lemma def_listeners_nth: "listeners_ok w \<Longrightarrow> i < length (defs w) \<Longrightarrow> def_listeners w (defs w ! i)"
  by (simp add: listeners_ok_def def_listeners_def)

lemma listeners_update:
  assumes "listeners_ok w" "def_listeners w (f (defs w ! i))"
  shows "listeners_ok (update_def i f w)"
proof (rule listeners_frame [OF assms(1)])
  have "def_listeners (update_def i f w) (f (defs w ! i))" using assms(2) by (rule def_listeners_mono) simp
  then show "\<forall>d \<in> set (defs (update_def i f w)). d \<in> set (defs w) \<or> def_listeners (update_def i f w) d"
    by simp (rule ball_update, simp_all)
qed auto

lemma listeners_settle:
  assumes "listeners_ok w" "i < length (defs w)"
  shows "listeners_ok (settle good i vs w)"
proof (cases "settled (defs w ! i) = Pending")
  case True
  let ?f = "\<lambda>d. d\<lparr>settled := outcome_of good vs, ringing := map (\<lambda>f. (f, vs)) (if good then dones d else fails d), dones := [], fails := [], thens := []\<rparr>"
  have "listeners_ok (update_def i ?f w)"
    using def_listeners_nth [OF assms] by (intro listeners_update [OF assms(1)]) (simp add: def_listeners_def comp_def)
  then show ?thesis by (rule listeners_frame) (use True in \<open>auto simp: settle_def Let_def\<close>)
qed (use assms(1) in \<open>simp add: settle_def Let_def\<close>)

lemma listeners_listen:
  assumes "listeners_ok w" "i < length (defs w)" "listener_ok w l"
  shows "listeners_ok (add_done l i w)" "listeners_ok (add_fail l i w)"
  using assms(1,3) def_listeners_nth [OF assms(1,2)]
  by (auto simp: add_done_def add_fail_def def_listeners_def split: outcome.split intro!: listeners_update)

lemma listeners_chain:
  assumes "listeners_ok w" "i < length (defs w)"
  shows "listeners_ok (promise_then i h k w)"
proof (rule listeners_frame [OF assms(1)])
  let ?u = "promise_then i h k w"
  have f: "def_listeners ?u fresh_deferred" by (simp add: def_listeners_def)
  have "def_listeners ?u ((defs w ! i)\<lparr>thens := cs\<rparr>)" for cs
    using def_listeners_mono [OF def_listeners_nth [OF assms], where u = ?u] by (simp add: def_listeners_def)
  then show "\<forall>d \<in> set (defs ?u). d \<in> set (defs w) \<or> def_listeners ?u d"
    unfolding promise_then_defs(1) [OF assms(2)] set_append by (auto simp: f dest!: set_update_subset_insert [THEN subsetD])
qed auto

lemma listeners_laws:
  assumes "listeners_ok w"
  shows "listeners_ok (new_deferred w)" "listeners_ok (deepen c w)" "listeners_ok (w\<lparr>awaiting := cs\<rparr>)" "listeners_ok (w\<lparr>timers := ts\<rparr>)"
    "\<forall>g i n. When_called g i n \<in> set es \<longrightarrow> g < length (gathers w) \<Longrightarrow> listeners_ok (emit_all es w)"
    "i < length (defs w) \<Longrightarrow> ringing (defs w ! i) = r # rs \<Longrightarrow> listeners_ok (update_def i (\<lambda>d. d\<lparr>ringing := rs\<rparr>) w)"
    "listeners_ok ((new_deferred w)\<lparr>gathers := gathers w @ [q]\<rparr>)" "listeners_ok (w\<lparr>gathers := (gathers w)[g := q]\<rparr>)"
proof -
  show "listeners_ok (new_deferred w)" by (rule listeners_frame [OF assms]) (auto simp: def_listeners_def)
  show "listeners_ok (deepen c w)" by (rule listeners_frame [OF assms]) auto
  show "listeners_ok (w\<lparr>awaiting := cs\<rparr>)" by (rule listeners_frame [OF assms]) auto
  show "listeners_ok (w\<lparr>timers := ts\<rparr>)" by (rule listeners_frame [OF assms]) auto
  show "listeners_ok (emit_all es w)" if "\<forall>g i n. When_called g i n \<in> set es \<longrightarrow> g < length (gathers w)"
    by (rule listeners_frame [OF assms]) (use that in auto)
  show "listeners_ok (update_def i (\<lambda>d. d\<lparr>ringing := rs\<rparr>) w)" if "i < length (defs w)" "ringing (defs w ! i) = r # rs"
    using listeners_update [OF assms, of "\<lambda>d. d\<lparr>ringing := rs\<rparr>" i] def_listeners_nth [OF assms that(1)] that(2)
    by (simp add: def_listeners_def)
  show "listeners_ok ((new_deferred w)\<lparr>gathers := gathers w @ [q]\<rparr>)" by (rule listeners_frame [OF assms]) (auto simp: def_listeners_def)
  show "listeners_ok (w\<lparr>gathers := (gathers w)[g := q]\<rparr>)" by (rule listeners_frame [OF assms]) auto
qed

text \<open>Calls of \<open>then\<close>.\<close>

lemma resolving_mono:
  "resolving w c \<Longrightarrow> length (chains w) \<le> length (chains u) \<Longrightarrow> set (begun w) \<subseteq> set (begun u) \<Longrightarrow>
     (c \<in> set (awaiting u) \<longrightarrow> c \<in> set (awaiting w)) \<Longrightarrow> resolving u c"
  by (auto simp: resolving_def)

definition same_links :: "chain \<Rightarrow> chain \<Rightarrow> bool" where
  "same_links k l \<longleftrightarrow>
     source l = source k \<and> target l = target k \<and> on_done l = on_done k \<and> on_fail l = on_fail k \<and> max_depth k \<le> max_depth l"

lemma chains_frame:
  assumes "chains_ok w" "length (defs w) \<le> length (defs u)"
    and "length (chains u) = length (chains w)" "\<And>c. c < length (chains w) \<Longrightarrow> same_links (chains w ! c) (chains u ! c)"
    and "set (begun w) \<subseteq> set (begun u)" "\<And>c. 0 < max_depth (chains w ! c) \<Longrightarrow> c \<in> set (awaiting u) \<Longrightarrow> c \<in> set (awaiting w)"
    and "\<And>c m n. Then_called c m n \<in> set (happened u) \<Longrightarrow> Then_called c m n \<in> set (happened w) \<or>
      (resolving u c \<and> 0 < m \<and> m \<le> max_depth (chains u ! c))"
    and "\<And>i c. i < length (defs u) \<Longrightarrow> c \<in> set (thens (defs u ! i)) \<Longrightarrow> i < length (defs w) \<and> c \<in> set (thens (defs w ! i))"
    and "\<And>c. c \<in> set (map fst (timers u)) \<Longrightarrow> c \<in> set (map fst (timers w)) \<or> (\<exists>i < length (defs w). c \<in> set (thens (defs w ! i)))"
  shows "chains_ok u"
proof -
  have r: "resolving u c \<and> 0 < m \<and> m \<le> max_depth (chains u ! c)" if "resolving w c" "0 < m" "m \<le> max_depth (chains w ! c)" for c m
    using that assms(3,5) assms(6) [of c] resolving_mono [of w c u] assms(4) [of c] by (auto simp: resolving_def same_links_def)
  have h: "handler_ok u x" if "handler_ok w x" for x using that r by (auto simp: handler_ok_def split: handler.splits)
  have "source k < length (defs u) \<and> target k < length (defs u) \<and> handler_ok u (on_done k) \<and> handler_ok u (on_fail k)"
    if "k \<in> set (chains u)" for k
  proof -
    obtain c where c: "c < length (chains w)" "k = chains u ! c" using \<open>k \<in> set (chains u)\<close> assms(3) by (auto simp: in_set_conv_nth)
    then have "chains w ! c \<in> set (chains w)" by simp
    then show ?thesis using assms(1,2) assms(4) [OF c(1)] h unfolding c(2) chains_ok_def same_links_def by (metis less_le_trans)
  qed
  moreover have "resolving u c \<and> 0 < m \<and> m \<le> max_depth (chains u ! c)" if "Then_called c m n \<in> set (happened u)" for c m n
    using assms(1) assms(7) [OF that] r unfolding chains_ok_def by blast
  moreover have "c < length (chains u) \<and> source (chains u ! c) = i" if "i < length (defs u)" "c \<in> set (thens (defs u ! i))" for i c
    using assms(8) [OF that] assms(1,3) assms(4) [of c] unfolding chains_ok_def same_links_def by metis
  moreover have "c < length (chains u)" if "(c, ok, vs) \<in> set (timers u)" for c ok vs
  proof -
    have "c \<in> set (map fst (timers u))" using that by force
    from assms(9) [OF this] show ?thesis using assms(1,3) unfolding chains_ok_def by auto
  qed
  ultimately show ?thesis unfolding chains_ok_def by blast
qed

lemma same_links_refl [simp]: "same_links k k"
  by (simp add: same_links_def)

lemma begun_simps [simp]:
  "begun (settle ok i vs w) = begun w" "begun (update_def i f w) = begun w" "begun (new_deferred w) = begun w"
  "begun (promise_then i h k w) = begun w" "begun (deepen c w) = begun w" "begun (w\<lparr>awaiting := cs\<rparr>) = begun w"
  "begun (w\<lparr>timers := ts\<rparr>) = begun w" "begun (w\<lparr>gathers := qs\<rparr>) = begun w" "begun (w\<lparr>chains := ks\<rparr>) = begun w"
  "begun (emit_all es w) = begun w @ concat (map started_of es)"
  by (simp_all add: begun_def)

lemma chains_same:
  assumes "chains_ok w" "length (defs w) \<le> length (defs u)" "chains u = chains w" "happened u = happened w" "set (awaiting u) \<subseteq> set (awaiting w)"
    and "\<And>i c. i < length (defs u) \<Longrightarrow> c \<in> set (thens (defs u ! i)) \<Longrightarrow> i < length (defs w) \<and> c \<in> set (thens (defs w ! i))"
    and "\<And>c. c \<in> set (map fst (timers u)) \<Longrightarrow> c \<in> set (map fst (timers w)) \<or> (\<exists>i < length (defs w). c \<in> set (thens (defs w ! i)))"
  shows "chains_ok u"
  by (rule chains_frame [OF assms(1,2)]) (use assms(3-7) in \<open>auto simp: begun_def\<close>)

lemma chains_update:
  assumes "chains_ok w" "set (thens (f (defs w ! i))) \<subseteq> set (thens (defs w ! i))"
  shows "chains_ok (update_def i f w)"
proof (cases "i < length (defs w)")
  case True
  then show ?thesis by (intro chains_same [OF assms(1)]) (use assms(2) in \<open>auto simp: nth_list_update split: if_splits\<close>)
next
  case False
  then have "update_def i f w = w" by (simp add: update_def_def list_update_beyond)
  then show ?thesis using assms(1) by simp
qed

lemma chains_settle:
  assumes "chains_ok w" "i < length (defs w)"
  shows "chains_ok (settle good i vs w)"
proof (cases "settled (defs w ! i) = Pending")
  case True
  then show ?thesis
    by (intro chains_same [OF assms(1)]) (use assms(2) in \<open>auto simp: settle_def Let_def nth_list_update split: if_splits\<close>)
qed (use assms(1) in \<open>simp add: settle_def Let_def\<close>)

lemma chains_laws:
  assumes "chains_ok w"
  shows "chains_ok (new_deferred w)" "chains_ok (w\<lparr>gathers := qs\<rparr>)" "chains_ok (add_done l i w)" "chains_ok (add_fail l i w)"
    "chains_ok (update_def i (\<lambda>d. d\<lparr>ringing := rs\<rparr>) w)" "chains_ok (w\<lparr>awaiting := remove1 c (awaiting w)\<rparr>)"
proof -
  show "chains_ok (new_deferred w)" by (rule chains_same [OF assms]) (auto simp: nth_append less_Suc_eq split: if_splits)
  show "chains_ok (w\<lparr>gathers := qs\<rparr>)" by (rule chains_same [OF assms]) auto
  show "chains_ok (add_done l i w)" "chains_ok (add_fail l i w)"
    using assms by (auto simp: add_done_def add_fail_def split: outcome.split intro!: chains_update)
  show "chains_ok (update_def i (\<lambda>d. d\<lparr>ringing := rs\<rparr>) w)" using assms by (rule chains_update) simp
  show "chains_ok (w\<lparr>awaiting := remove1 c (awaiting w)\<rparr>)"
    by (rule chains_same [OF assms]) (auto dest: set_remove1_subset [THEN subsetD])
qed

lemma chains_deepen:
  assumes "chains_ok w"
  shows "chains_ok (deepen c w)"
  by (rule chains_frame [OF assms]) (auto simp: deepen_nth same_links_def)

lemma chains_emit:
  assumes "chains_ok w" "\<And>c m n. Then_called c m n \<in> set es \<Longrightarrow> resolving w c \<and> 0 < m \<and> m \<le> max_depth (chains w ! c)"
  shows "chains_ok (emit_all es w)"
proof (rule chains_frame [OF assms(1)])
  fix c m n assume "Then_called c m n \<in> set (happened (emit_all es w))"
  then show "Then_called c m n \<in> set (happened w) \<or> (resolving (emit_all es w) c \<and> 0 < m \<and> m \<le> max_depth (chains (emit_all es w) ! c))"
    using assms(2) resolving_mono [of w c "emit_all es w"] by auto
qed auto

lemma chains_expire:
  assumes "chains_ok w" "timers w = (c, good, vs) # ts"
  shows "chains_ok (emit_all [Started c good vs] (w\<lparr>timers := ts\<rparr>))"
  by (rule chains_emit, rule chains_same [OF assms(1)]) (use assms(2) in auto)

lemma chains_handler:
  assumes "chains_ok w" "max_depth (chains w ! c) = 0"
  shows "chains_ok (emit_all [Handler_called c f vs] (w\<lparr>awaiting := awaiting w @ [c]\<rparr>))"
  by (rule chains_emit, rule chains_frame [OF assms(1)]) (use assms(2) in auto)

lemma resolving_then [simp]: "resolving w c \<Longrightarrow> resolving (promise_then i h k w) c"
  by (erule resolving_mono) auto

lemma handler_then:
  assumes "handler_ok w x"
  shows "handler_ok (promise_then i h k w) x"
  using assms by (auto simp: handler_ok_def nth_append resolving_def split: handler.splits)

lemma chains_chain:
  assumes "chains_ok w" "i < length (defs w)" "handler_ok w h" "handler_ok w k"
  shows "chains_ok (promise_then i h k w)"
proof -
  let ?u = "promise_then i h k w"
  have "source x < length (defs ?u) \<and> target x < length (defs ?u) \<and> handler_ok ?u (on_done x) \<and> handler_ok ?u (on_fail x)"
    if "x \<in> set (chains ?u)" for x
    using that assms handler_then unfolding chains_ok_def by (auto simp: less_Suc_eq)
  moreover have "resolving ?u c \<and> 0 < m \<and> m \<le> max_depth (chains ?u ! c)" if "Then_called c m n \<in> set (happened ?u)" for c m n
    using that assms(1) unfolding chains_ok_def by (auto simp: nth_append resolving_def)
  moreover have "c < length (chains ?u) \<and> source (chains ?u ! c) = j" if "j < length (defs ?u)" "c \<in> set (thens (defs ?u ! j))" for j c
  proof (cases "c \<in> set (thens (defs w ! j)) \<and> j < length (defs w)")
    case True
    then show ?thesis using assms(1) unfolding chains_ok_def by (auto simp: nth_append)
  next
    case False
    then have "c = length (chains w) \<and> j = i"
      using that assms(2) unfolding promise_then_defs(1) [OF assms(2)]
      by (auto simp: nth_append nth_list_update split: if_splits)
    then show ?thesis by simp
  qed
  moreover have "c < length (chains ?u)" if "(c, ok, vs) \<in> set (timers ?u)" for c ok vs
    using that assms(1) unfolding promise_then_defs(2) [OF assms(2)] chains_ok_def by (auto split: outcome.splits)
  ultimately show ?thesis unfolding chains_ok_def by blast
qed

text \<open>Masters and targets are different deferreds.\<close>

lemma masters_frame:
  assumes "masters_ok w" "length (defs w) \<le> length (defs u)" "map target (chains u) = map target (chains w)"
    and "map master (gathers u) = map master (gathers w)"
  shows "masters_ok u"
proof -
  have a: "(\<forall>q \<in> set qs. master q < n) \<longleftrightarrow> (\<forall>m \<in> set (map master qs). m < n)" for qs :: "gathering list" and n by simp
  show ?thesis using assms(1,2) unfolding masters_ok_def a assms(3,4) by (auto intro: less_le_trans)
qed

lemma masters_settle: "masters_ok w \<Longrightarrow> masters_ok (settle good i vs w)"
  by (erule masters_frame) simp_all

lemma map_target_deepen [simp]: "map target (chains (deepen c w)) = map target (chains w)"
  by (rule nth_equalityI) simp_all

lemma masters_laws:
  assumes "masters_ok w"
  shows "masters_ok (new_deferred w)" "masters_ok (add_done l i w)" "masters_ok (add_fail l i w)" "masters_ok (deepen c w)"
    "masters_ok (emit_all es w)" "masters_ok (w\<lparr>awaiting := cs\<rparr>)" "masters_ok (w\<lparr>timers := ts\<rparr>)" "masters_ok (update_def i f w)"
    "g < length (gathers w) \<Longrightarrow> master q = master (gathers w ! g) \<Longrightarrow> masters_ok (w\<lparr>gathers := (gathers w)[g := q]\<rparr>)"
proof -
  show "masters_ok (w\<lparr>gathers := (gathers w)[g := q]\<rparr>)" if "g < length (gathers w)" "master q = master (gathers w ! g)"
    by (rule masters_frame [OF assms]) (use that in \<open>simp_all add: map_update list_update_id\<close>, metis length_map list_update_id nth_map)
qed (rule masters_frame [OF assms]; simp add: add_done_def add_fail_def split: outcome.split)+

lemma masters_chain:
  assumes "masters_ok w" "chains_ok w"
  shows "masters_ok (promise_then i h k w)"
proof -
  have "length (defs w) \<notin> set (map target (chains w))" using assms(2) unfolding chains_ok_def by auto
  then show ?thesis using assms(1) by (auto simp: masters_ok_def)
qed

lemma masters_gather:
  assumes "masters_ok w" "chains_ok w" "master q = length (defs w)"
  shows "masters_ok ((new_deferred w)\<lparr>gathers := gathers w @ [q]\<rparr>)"
proof -
  have "length (defs w) \<notin> set (map target (chains w))" using assms(2) unfolding chains_ok_def by auto
  then show ?thesis using assms(1,3) by (auto simp: masters_ok_def)
qed

text \<open>The calls of \<open>then\<close> on one deferred are processed in their order.\<close>

lemma begun_short: "lines_ok w \<Longrightarrow> c \<in> set (begun w) \<Longrightarrow> c < length (chains w)"
  by (simp add: lines_ok_def)

lemma lines_frame:
  assumes "lines_ok w" "chains_ok w" "length (chains u) = length (chains w)"
    and "\<And>c. c < length (chains w) \<Longrightarrow> source (chains u ! c) = source (chains w ! c)"
    and "timers u = timers w" "happened u = happened w @ es" "concat (map started_of es) = []"
    and "length (defs w) \<le> length (defs u)"
    and "\<And>i. i < length (defs w) \<Longrightarrow> thens (defs u ! i) = thens (defs w ! i) \<and> settled (defs u ! i) = settled (defs w ! i)"
    and "\<And>i. length (defs w) \<le> i \<Longrightarrow> i < length (defs u) \<Longrightarrow> thens (defs u ! i) = []"
  shows "lines_ok u"
proof -
  have b: "begun u = begun w" using assms(6,7) by (simp add: begun_def)
  have n: "c < length (chains w)" if "c \<in> set (begun w @ map fst (timers w))" for c
    using that assms(1,2) begun_short by (auto simp: chains_ok_def)
  then have f: "filter (\<lambda>c. source (chains u ! c) = i) (begun w @ map fst (timers w)) = filter (\<lambda>c. source (chains w ! c) = i) (begun w @ map fst (timers w))"
    for i using assms(4) by (intro filter_cong) auto
  have g: "filter (\<lambda>c. source (chains u ! c) = i) [0..<length (chains w)] = filter (\<lambda>c. source (chains w ! c) = i) [0..<length (chains w)]"
    for i using assms(4) by (intro filter_cong) auto
  have s: "source (chains w ! c) < length (defs w)" if "c < length (chains w)" for c
    using assms(2) that unfolding chains_ok_def by auto
  have "line u i = filter (\<lambda>c. source (chains u ! c) = i) [0..<length (chains u)]" if "i < length (defs u)" for i
  proof (cases "i < length (defs w)")
    case True
    then show ?thesis using assms(1,3,5,9) b f g by (simp add: line_def lines_ok_def)
  next
    case False
    then have "filter (\<lambda>c. source (chains w ! c) = i) (begun w @ map fst (timers w)) = []"
      "filter (\<lambda>c. source (chains w ! c) = i) [0..<length (chains w)] = []"
      using s n by (auto simp: filter_empty_conv)
    then show ?thesis using False that assms(3,5,10) b f g by (simp add: line_def)
  qed
  moreover have "settled (defs u ! source (chains u ! c)) = outcome_of good vs"
    if "Started c good vs \<in> set (happened u) \<or> (c, good, vs) \<in> set (timers u)" for c good vs
  proof -
    have "Started c good vs \<notin> set es" using assms(7) by (force simp: concat_eq_Nil_conv)
    then have "Started c good vs \<in> set (happened w) \<or> (c, good, vs) \<in> set (timers w)" using that assms(5,6) by auto
    moreover from this have "c < length (chains w)" using n by (fastforce simp: begun_def)
    ultimately show ?thesis using assms(1) s assms(4,9) unfolding lines_ok_def by metis
  qed
  moreover have "thens d = []" if "d \<in> set (defs u)" "settled d \<noteq> Pending" for d
  proof -
    obtain i where "i < length (defs u)" "d = defs u ! i" using \<open>d \<in> set (defs u)\<close> by (auto simp: in_set_conv_nth)
    then show ?thesis using that(2) assms(1,9,10) by (cases "i < length (defs w)") (auto simp: lines_ok_def)
  qed
  ultimately show ?thesis using assms(1,3) b unfolding lines_ok_def by auto
qed

lemma lines_expire:
  assumes "lines_ok w" "chains_ok w" "timers w = (c, good, vs) # ts"
  shows "lines_ok (emit_all [Started c good vs] (w\<lparr>timers := ts\<rparr>))"
proof -
  let ?u = "emit_all [Started c good vs] (w\<lparr>timers := ts\<rparr>)"
  have "line ?u i = line w i" for i using assms(3) by (simp add: line_def)
  moreover have "c < length (chains w)" using assms(2,3) by (auto simp: chains_ok_def)
  ultimately show ?thesis using assms(1,3) unfolding lines_ok_def by auto
qed

lemma lines_settle:
  assumes "lines_ok w" "chains_ok w" "i < length (defs w)"
  shows "lines_ok (settle good i vs w)"
proof (cases "settled (defs w ! i) = Pending")
  case True
  let ?u = "settle good i vs w"
  have t: "timers ?u = timers w @ map (\<lambda>c. (c, good, vs)) (thens (defs w ! i))" using True by (simp add: settle_def Let_def)
  have d: "defs ?u ! j = (if j = i then (defs w ! i)\<lparr>settled := outcome_of good vs,
      ringing := map (\<lambda>f. (f, vs)) (if good then dones (defs w ! i) else fails (defs w ! i)), dones := [], fails := [], thens := []\<rparr> else defs w ! j)" for j
    using True assms(3) by (simp add: settle_def Let_def)
  have s: "source (chains w ! c) = i" if "c \<in> set (thens (defs w ! i))" for c
    using assms(2,3) that by (auto simp: chains_ok_def)
  have "line ?u j = line w j" if "j < length (defs w)" for j
  proof (cases "j = i")
    case True
    then show ?thesis using s by (simp add: line_def t d comp_def filter_id_conv)
  next
    case False
    then have "filter (\<lambda>c. source (chains w ! c) = j) (thens (defs w ! i)) = []" using s by (auto simp: filter_empty_conv)
    then show ?thesis using False by (simp add: line_def t d comp_def)
  qed
  moreover have "settled (defs ?u ! source (chains w ! c)) = outcome_of ok us"
    if "Started c ok us \<in> set (happened w) \<or> (c, ok, us) \<in> set (timers ?u)" for c ok us
  proof (cases "(c, ok, us) \<in> set (map (\<lambda>c. (c, good, vs)) (thens (defs w ! i)))")
    case True
    then show ?thesis using s by (auto simp: d)
  next
    case False
    then have "settled (defs w ! source (chains w ! c)) = outcome_of ok us" using that t assms(1) unfolding lines_ok_def by auto
    then show ?thesis using True by (auto simp: d)
  qed
  moreover have "thens e = []" if "e \<in> set (defs ?u)" "settled e \<noteq> Pending" for e
  proof -
    obtain j where "j < length (defs w)" "e = defs ?u ! j" using \<open>e \<in> set (defs ?u)\<close> by (auto simp: in_set_conv_nth)
    then show ?thesis using that(2) assms(1) by (auto simp: d lines_ok_def split: if_splits)
  qed
  ultimately show ?thesis using assms(1) unfolding lines_ok_def by auto
qed (use assms(1) in \<open>simp add: settle_def Let_def\<close>)

lemma lines_chain:
  assumes "lines_ok w" "chains_ok w" "i < length (defs w)"
  shows "lines_ok (promise_then i h k w)"
proof -
  let ?u = "promise_then i h k w" and ?c = "length (chains w)"
  have n: "c < ?c" if "c \<in> set (begun w @ map fst (timers w))" for c
    using that assms(1,2) begun_short by (auto simp: chains_ok_def)
  have src: "source (chains ?u ! c) = source (chains w ! c)" if "c < ?c" for c using that by (simp add: nth_append)
  have new: "source (chains ?u ! ?c) = i" by simp
  have f: "filter (\<lambda>c. source (chains ?u ! c) = j) cs = filter (\<lambda>c. source (chains w ! c) = j) cs"
    if "\<And>c. c \<in> set cs \<Longrightarrow> c < ?c" for j cs using that src by (intro filter_cong) auto
  have s: "source (chains w ! c) < length (defs w)" if "c < ?c" for c
    using assms(2) that unfolding chains_ok_def by auto
  have d: "thens (defs ?u ! j) = thens (defs w ! j) @ (if j = i \<and> settled (defs w ! i) = Pending then [?c] else [])"
    "settled (defs ?u ! j) = settled (defs w ! j)" if "j < length (defs w)" for j
    using that assms(3) by (simp_all add: promise_then_defs(1) [OF assms(3)] nth_append nth_list_update)
  have t: "map fst (timers ?u) = map fst (timers w) @ (if settled (defs w ! i) = Pending then [] else [?c])"
    by (simp add: promise_then_defs(2) [OF assms(3)] split: outcome.split)
  have e: "thens (defs w ! i) = []" if "settled (defs w ! i) \<noteq> Pending" using assms(1,3) that by (simp add: lines_ok_def)
  have "line ?u j = filter (\<lambda>c. source (chains ?u ! c) = j) [0..<Suc ?c]" if "j < length (defs ?u)" for j
  proof (cases "j < length (defs w)")
    case True
    have fb: "filter (\<lambda>c. source (chains ?u ! c) = j) (begun w) = filter (\<lambda>c. source (chains w ! c) = j) (begun w)"
      "filter (\<lambda>c. source (chains ?u ! c) = j) (map fst (timers w)) = filter (\<lambda>c. source (chains w ! c) = j) (map fst (timers w))"
      by (rule f, use n in simp)+
    have "line ?u j = line w j @ (if j = i then [?c] else [])"
    proof (cases "settled (defs w ! i) = Pending")
      case True
      then show ?thesis using d [OF \<open>j < length (defs w)\<close>] t fb by (simp add: line_def del: promise_then_simps(1))
    next
      case False
      have "line ?u j = filter (\<lambda>c. source (chains w ! c) = j) (begun w @ map fst (timers w)) @ (if j = i then [?c] else []) @ thens (defs w ! j)"
        using False d [OF \<open>j < length (defs w)\<close>] t fb new by (simp add: line_def del: promise_then_simps(1))
      then show ?thesis using e [OF False] by (auto simp: line_def)
    qed
    moreover have "filter (\<lambda>c. source (chains ?u ! c) = j) [0..<?c] = filter (\<lambda>c. source (chains w ! c) = j) [0..<?c]"
      by (rule f) simp
    ultimately show ?thesis using True assms(1) new by (simp add: lines_ok_def)
  next
    case False
    then have j: "j = length (defs w)" using that by simp
    have "thens (defs ?u ! j) = []" by (simp add: j promise_then_defs(1) [OF assms(3)] nth_append)
    moreover have x: "source (chains ?u ! c) \<noteq> j" if "c < Suc ?c" for c
      using that s [of c] src [of c] new assms(3) j by (cases "c = ?c") auto
    have "c < Suc ?c" if "c \<in> set (begun w @ map fst (timers ?u))" for c
      using that n [of c] t by (fastforce split: if_splits)
    then have "filter (\<lambda>c. source (chains ?u ! c) = j) (begun w @ map fst (timers ?u)) = []"
      using x by (intro filter_False ballI) blast
    moreover have "filter (\<lambda>c. source (chains ?u ! c) = j) [0..<Suc ?c] = []"
      by (intro filter_False ballI x) auto
    ultimately show ?thesis unfolding line_def begun_simps by (simp del: promise_then_simps(1) filter_append upt_Suc)
  qed
  moreover have "settled (defs ?u ! source (chains ?u ! c)) = outcome_of good vs"
    if st: "Started c good vs \<in> set (happened ?u) \<or> (c, good, vs) \<in> set (timers ?u)" for c good vs
  proof (cases "c < ?c")
    case True
    then have "Started c good vs \<in> set (happened w) \<or> (c, good, vs) \<in> set (timers w)"
      using st by (auto simp: promise_then_defs(2) [OF assms(3)] split: outcome.splits)
    then have "settled (defs w ! source (chains w ! c)) = outcome_of good vs" using assms(1) unfolding lines_ok_def by blast
    then show ?thesis using d(2) [OF s [OF True]] src [OF True] by simp
  next
    case False
    then have "Started c good vs \<notin> set (happened w)" using n by (fastforce simp: begun_def)
    moreover have "(c, good, vs) \<notin> set (timers w)" using False n by fastforce
    ultimately have "(c = ?c) \<and> settled (defs w ! i) = outcome_of good vs"
      using st by (auto simp: promise_then_defs(2) [OF assms(3)] split: outcome.splits)
    then show ?thesis using d(2) [OF assms(3)] new by simp
  qed
  moreover have "thens e = []" if "e \<in> set (defs ?u)" "settled e \<noteq> Pending" for e
  proof -
    obtain j where j: "j < length (defs ?u)" "e = defs ?u ! j" using \<open>e \<in> set (defs ?u)\<close> by (auto simp: in_set_conv_nth)
    then show ?thesis
      using that(2) assms(1) d [of j] by (cases "j < length (defs w)")
        (auto simp: lines_ok_def promise_then_defs(1) [OF assms(3)] nth_append less_Suc_eq split: if_splits)
  qed
  moreover have "c < length (chains ?u)" if "c \<in> set (begun ?u)" for c using that n [of c] by simp
  ultimately show ?thesis unfolding lines_ok_def by simp
qed

lemma settled_update:
  "(\<And>d. settled (f d) = settled d) \<Longrightarrow> settled (defs (update_def i f w) ! j) = settled (defs w ! j)"
  by (cases "i < length (defs w)"; cases "i = j") (simp_all add: list_update_beyond)

lemma thens_update:
  "(\<And>d. thens (f d) = thens d) \<Longrightarrow> thens (defs (update_def i f w) ! j) = thens (defs w ! j)"
  by (cases "i < length (defs w)"; cases "i = j") (simp_all add: list_update_beyond)

lemma length_update: "length (defs (update_def i f w)) = length (defs w)"
  by simp

lemma add_done_facts:
  "length (defs (add_done l i w)) = length (defs w)" "settled (defs (add_done l i w) ! j) = settled (defs w ! j)"
  "thens (defs (add_done l i w) ! j) = thens (defs w ! j)" "chains (add_done l i w) = chains w" "gathers (add_done l i w) = gathers w"
  "timers (add_done l i w) = timers w" "awaiting (add_done l i w) = awaiting w" "happened (add_done l i w) = happened w"
  unfolding add_done_def by (simp_all add: settled_update thens_update length_update del: update_def_simps(1) split: outcome.split)

lemma add_fail_facts:
  "length (defs (add_fail l i w)) = length (defs w)" "settled (defs (add_fail l i w) ! j) = settled (defs w ! j)"
  "thens (defs (add_fail l i w) ! j) = thens (defs w ! j)" "chains (add_fail l i w) = chains w" "gathers (add_fail l i w) = gathers w"
  "timers (add_fail l i w) = timers w" "awaiting (add_fail l i w) = awaiting w" "happened (add_fail l i w) = happened w"
  unfolding add_fail_def by (simp_all add: settled_update thens_update length_update del: update_def_simps(1) split: outcome.split)

lemmas update_facts = settled_update thens_update length_update add_done_facts add_fail_facts

lemma lines_laws:
  assumes "lines_ok w" "chains_ok w"
  shows "lines_ok (new_deferred w)" "lines_ok (add_done l i w)" "lines_ok (add_fail l i w)" "lines_ok (deepen c w)"
    "concat (map started_of es) = [] \<Longrightarrow> lines_ok (emit_all es w)" "lines_ok (w\<lparr>awaiting := cs\<rparr>)" "lines_ok (w\<lparr>gathers := qs\<rparr>)"
    "lines_ok (update_def i (\<lambda>d. d\<lparr>ringing := rs\<rparr>) w)"
proof -
  show "lines_ok (new_deferred w)" by (rule lines_frame [OF assms, where es = "[]"]) (auto simp: nth_append less_Suc_eq)
  show "lines_ok (add_done l i w)"
    by (rule lines_frame [OF assms, where es = "[]"]) (simp_all add: update_facts)
  show "lines_ok (add_fail l i w)"
    by (rule lines_frame [OF assms, where es = "[]"]) (simp_all add: update_facts)
  show "lines_ok (deepen c w)" by (rule lines_frame [OF assms, where es = "[]"]) auto
  show "lines_ok (emit_all es w)" if "concat (map started_of es) = []" by (rule lines_frame [OF assms, where es = es]) (use that in auto)
  show "lines_ok (w\<lparr>awaiting := cs\<rparr>)" "lines_ok (w\<lparr>gathers := qs\<rparr>)" by (rule lines_frame [OF assms, where es = "[]"]; simp)+
  show "lines_ok (update_def i (\<lambda>d. d\<lparr>ringing := rs\<rparr>) w)"
    by (rule lines_frame [OF assms, where es = "[]"]) (simp_all add: update_facts del: update_def_simps(1))
qed

text \<open>Only the process of a call of \<open>then\<close> settles its deferred.\<close>

lemma targets_frame:
  assumes "targets_ok w" "length (chains u) = length (chains w)" "begun u = begun w @ bs" "awaiting u = awaiting w"
    and "\<And>c. c < length (chains w) \<Longrightarrow> target (chains u ! c) = target (chains w ! c)"
    and "\<And>c. c < length (chains w) \<Longrightarrow> resolving w c \<or> (max_depth (chains u ! c) = max_depth (chains w ! c) \<and>
      settled (defs u ! target (chains w ! c)) = settled (defs w ! target (chains w ! c)))"
  shows "targets_ok u"
proof -
  have r: "resolving u c" if "resolving w c" for c using that assms(2-4) by (auto simp: resolving_def)
  have "resolving u c" if "c < length (chains u)" "settled (defs u ! target (chains u ! c)) \<noteq> Pending \<or> 0 < max_depth (chains u ! c)" for c
    using that assms(1,2) assms(5) [of c] assms(6) [of c] r [of c] by (auto simp: targets_ok_def)
  then show ?thesis using assms(1,3,4) unfolding targets_ok_def by auto
qed

lemma settle_other: "j \<noteq> i \<Longrightarrow> settled (defs (settle good i vs w) ! j) = settled (defs w ! j)"
  by (simp add: settle_def Let_def)

lemma targets_settle:
  assumes "targets_ok w" "\<And>c. c < length (chains w) \<Longrightarrow> resolving w c \<or> target (chains w ! c) \<noteq> i"
  shows "targets_ok (settle good i vs w)"
proof (rule targets_frame [OF assms(1)])
  fix c assume "c < length (chains w)"
  then show "resolving w c \<or> (max_depth (chains (settle good i vs w) ! c) = max_depth (chains w ! c) \<and>
      settled (defs (settle good i vs w) ! target (chains w ! c)) = settled (defs w ! target (chains w ! c)))"
    using assms(2) settle_other [of "target (chains w ! c)" i good vs w] by auto
qed simp_all

lemma masters_targets:
  assumes "masters_ok w"
  shows "c < length (chains w) \<Longrightarrow> b < length (chains w) \<Longrightarrow> target (chains w ! c) = target (chains w ! b) \<Longrightarrow> c = b"
    "c < length (chains w) \<Longrightarrow> g < length (gathers w) \<Longrightarrow> target (chains w ! c) \<noteq> master (gathers w ! g)"
proof -
  have "distinct (map target (chains w))" "set (map target (chains w)) \<inter> set (map master (gathers w)) = {}"
    using assms by (simp_all add: masters_ok_def)
  then show "c < length (chains w) \<Longrightarrow> b < length (chains w) \<Longrightarrow> target (chains w ! c) = target (chains w ! b) \<Longrightarrow> c = b"
    "c < length (chains w) \<Longrightarrow> g < length (gathers w) \<Longrightarrow> target (chains w ! c) \<noteq> master (gathers w ! g)"
    by (auto simp: distinct_conv_nth, (metis disjoint_iff image_eqI nth_mem)?)
qed

lemma targets_page_settle:
  "targets_ok w \<Longrightarrow> \<not> internal w i \<Longrightarrow> targets_ok (settle good i vs w)"
  by (erule targets_settle) (auto simp: internal_def)

lemma targets_target_settle:
  "targets_ok w \<Longrightarrow> masters_ok w \<Longrightarrow> resolving w c \<Longrightarrow> targets_ok (settle good (target (chains w ! c)) vs w)"
  by (erule targets_settle) (use masters_targets(1) in \<open>auto simp: resolving_def\<close>)

lemma targets_master_settle:
  "targets_ok w \<Longrightarrow> masters_ok w \<Longrightarrow> g < length (gathers w) \<Longrightarrow> targets_ok (settle good (master (gathers w ! g)) vs w)"
  by (erule targets_settle) (use masters_targets(2) in blast)

lemma targets_laws:
  assumes "targets_ok w" "chains_ok w"
  shows "targets_ok (new_deferred w)" "targets_ok (add_done l i w)" "targets_ok (add_fail l i w)"
    "resolving w c \<Longrightarrow> targets_ok (deepen c w)" "targets_ok (emit_all es w)" "targets_ok (w\<lparr>timers := ts\<rparr>)" "targets_ok (w\<lparr>gathers := qs\<rparr>)"
    "targets_ok (update_def i (\<lambda>d. d\<lparr>ringing := rs\<rparr>) w)"
proof -
  have t: "target (chains w ! c) < length (defs w)" if "c < length (chains w)" for c
    using assms(2) that unfolding chains_ok_def by auto
  show "targets_ok (new_deferred w)" by (rule targets_frame [OF assms(1), where bs = "[]"]) (auto simp: nth_append t)
  show "targets_ok (add_done l i w)"
    by (rule targets_frame [OF assms(1), where bs = "[]"]) (simp_all add: update_facts begun_def)
  show "targets_ok (add_fail l i w)"
    by (rule targets_frame [OF assms(1), where bs = "[]"]) (simp_all add: update_facts begun_def)
  show "targets_ok (deepen c w)" if "resolving w c"
    by (rule targets_frame [OF assms(1), where bs = "[]"]) (use that in \<open>auto simp: deepen_nth\<close>)
  show "targets_ok (emit_all es w)" by (rule targets_frame [OF assms(1), where bs = "concat (map started_of es)"]) auto
  show "targets_ok (w\<lparr>timers := ts\<rparr>)" "targets_ok (w\<lparr>gathers := qs\<rparr>)"
    by (rule targets_frame [OF assms(1), where bs = "[]"]; simp)+
  show "targets_ok (update_def i (\<lambda>d. d\<lparr>ringing := rs\<rparr>) w)"
    by (rule targets_frame [OF assms(1), where bs = "[]"]) (simp_all add: update_facts del: update_def_simps(1))
qed

lemma targets_chain:
  assumes "targets_ok w" "chains_ok w" "i < length (defs w)"
  shows "targets_ok (promise_then i h k w)"
proof -
  let ?u = "promise_then i h k w"
  have t: "target (chains w ! c) < length (defs w)" if "c < length (chains w)" for c
    using assms(2) that unfolding chains_ok_def by auto
  have s: "settled (defs ?u ! j) = (if j < length (defs w) then settled (defs w ! j) else Pending)" if "j \<le> length (defs w)" for j
    using that assms(3) by (auto simp: promise_then_defs(1) [OF assms(3)] nth_append nth_list_update)
  have "resolving ?u c" if "c < length (chains ?u)" "settled (defs ?u ! target (chains ?u ! c)) \<noteq> Pending \<or> 0 < max_depth (chains ?u ! c)" for c
  proof (cases "c < length (chains w)")
    case True
    then have "resolving w c" using that(2) assms(1) t [OF True] s [of "target (chains w ! c)"] by (auto simp: targets_ok_def nth_append)
    then show ?thesis by simp
  next
    case False
    then have "c = length (chains w)" using that(1) by simp
    then show ?thesis using that(2) s [of "length (defs w)"] by simp
  qed
  then show ?thesis using assms(1) unfolding targets_ok_def by simp
qed

lemma targets_handler:
  assumes "targets_ok w" "resolving w c" "max_depth (chains w ! c) = 0" "settled (defs w ! target (chains w ! c)) = Pending"
  shows "targets_ok (emit_all [Handler_called c f vs] (w\<lparr>awaiting := awaiting w @ [c]\<rparr>))"
  using assms by (auto simp: targets_ok_def resolving_def)

lemma targets_ended:
  assumes "targets_ok w"
  shows "targets_ok (w\<lparr>awaiting := remove1 c (awaiting w)\<rparr>)"
  using assms by (auto simp: targets_ok_def resolving_def dest: set_remove1_subset [THEN subsetD] notin_set_remove1)

lemma link_bounds:
  assumes "promises_ok w"
  shows "resolving w c \<Longrightarrow> target (chains w ! c) < length (defs w)" "g < length (gathers w) \<Longrightarrow> master (gathers w ! g) < length (defs w)"
  using assms by (auto simp: promises_ok_def chains_ok_def masters_ok_def resolving_def)

lemma promises_parts:
  assumes "promises_ok w"
  shows "values_ok w" "listeners_ok w" "chains_ok w" "masters_ok w" "lines_ok w" "targets_ok w"
  using assms by (simp_all add: promises_ok_def)

lemma promises_okI:
  "values_ok w \<Longrightarrow> listeners_ok w \<Longrightarrow> chains_ok w \<Longrightarrow> masters_ok w \<Longrightarrow> lines_ok w \<Longrightarrow> targets_ok w \<Longrightarrow> promises_ok w"
  by (simp add: promises_ok_def)

lemma promises_settle:
  assumes "promises_ok w" "i < length (defs w)" "list_all (known w) vs" "targets_ok (settle good i vs w)"
  shows "promises_ok (settle good i vs w)"
  using assms promises_parts [OF assms(1)]
  by (intro promises_okI values_settle listeners_settle chains_settle masters_settle lines_settle)

lemma promises_emit:
  assumes "promises_ok w" "\<forall>g i n. When_called g i n \<in> set es \<longrightarrow> g < length (gathers w)" "concat (map started_of es) = []"
    and "\<And>c m n. Then_called c m n \<in> set es \<Longrightarrow> resolving w c \<and> 0 < m \<and> m \<le> max_depth (chains w ! c)"
  shows "promises_ok (emit_all es w)"
  using assms promises_parts [OF assms(1)]
  by (intro promises_okI values_laws listeners_laws chains_emit masters_laws lines_laws targets_laws)

interpretation resolution: deferred_laws promises_ok
proof unfold_locales
  show "promises_ok no_promises"
    by (simp add: promises_ok_def no_promises_def values_ok_def listeners_ok_def chains_ok_def masters_ok_def lines_ok_def targets_ok_def begun_def)
next
  fix w assume p: "promises_ok w"
  note parts = promises_parts [OF p] and b = link_bounds [OF p]
  show "promises_ok w" by (rule p)
  show "promises_ok (new_deferred w)"
    by (intro promises_okI values_laws listeners_laws chains_laws masters_laws lines_laws targets_laws parts)
  show "promises_ok (settle good i vs w)" if "i < length (defs w)" "\<not> internal w i" "list_all (known w) vs" for i good vs
    using that by (intro promises_settle p targets_page_settle parts)
  show "promises_ok (settle good (target (chains w ! c)) vs w)" if "resolving w c" "list_all (known w) vs" for c good vs
    using that b by (intro promises_settle p targets_target_settle parts)
  show "promises_ok (settle good (master (gathers w ! g)) vs w)" if "g < length (gathers w)" "list_all (known w) vs" for g good vs
    using that b by (intro promises_settle p targets_master_settle parts)
  show "promises_ok (add_done l i w)" if "i < length (defs w)" "listener_ok w l" for l i
    using that by (intro promises_okI values_listen listeners_listen chains_laws masters_laws lines_laws targets_laws parts)
  show "promises_ok (add_fail l i w)" if "i < length (defs w)" "listener_ok w l" for l i
    using that by (intro promises_okI values_listen listeners_listen chains_laws masters_laws lines_laws targets_laws parts)
  show "promises_ok (promise_then i h k w)" if "i < length (defs w)" "handler_ok w h" "handler_ok w k" for i h k
    using that by (intro promises_okI values_chain listeners_chain chains_chain masters_chain lines_chain targets_chain parts)
  show "promises_ok (deepen c w)" if "resolving w c" for c
    using that by (intro promises_okI values_laws listeners_laws chains_deepen masters_laws lines_laws targets_laws parts)
  show "promises_ok (emit_all [Then_called c (max_depth (chains w ! c)) n] w)" if "resolving w c" "0 < max_depth (chains w ! c)" for c n
    using that by (intro promises_emit p) auto
  show "promises_ok (emit_all [When_called g i n] w)" if "g < length (gathers w)" for g i n
    using that by (intro promises_emit p) auto
  show "promises_ok (emit_all [Listener_called i f vs] w)" for i f vs
    by (intro promises_emit p) auto
  show "promises_ok (emit_all [Started c good vs] (w\<lparr>timers := ts\<rparr>))" if "timers w = (c, good, vs) # ts" for c good vs ts
  proof (intro promises_okI)
    show "values_ok (emit_all [Started c good vs] (w\<lparr>timers := ts\<rparr>))" using parts(1) that by (intro values_laws(3) values_laws(5))
    show "chains_ok (emit_all [Started c good vs] (w\<lparr>timers := ts\<rparr>))" using parts(3) that by (rule chains_expire)
    show "lines_ok (emit_all [Started c good vs] (w\<lparr>timers := ts\<rparr>))" using parts(5,3) that by (rule lines_expire)
    have "chains_ok (w\<lparr>timers := ts\<rparr>)" by (rule chains_same [OF parts(3)]) (use that in auto)
    then show "targets_ok (emit_all [Started c good vs] (w\<lparr>timers := ts\<rparr>))"
      using parts(6,3) by (intro targets_laws(5) targets_laws(6))
    show "masters_ok (emit_all [Started c good vs] (w\<lparr>timers := ts\<rparr>))" using parts(4) by (intro masters_laws(5) masters_laws(7))
    show "listeners_ok (emit_all [Started c good vs] (w\<lparr>timers := ts\<rparr>))"
      by (rule listeners_laws(5) [OF listeners_laws(4) [OF parts(2)]]) simp
  qed
  show "promises_ok (emit_all [Handler_called c f vs] (w\<lparr>awaiting := awaiting w @ [c]\<rparr>))"
    if "resolving w c" "max_depth (chains w ! c) = 0" "settled (defs w ! target (chains w ! c)) = Pending" for c f vs
  proof (intro promises_okI)
    have "chains_ok (w\<lparr>awaiting := awaiting w @ [c]\<rparr>)" by (rule chains_frame [OF parts(3)]) (use that in auto)
    then show "lines_ok (emit_all [Handler_called c f vs] (w\<lparr>awaiting := awaiting w @ [c]\<rparr>))"
      using lines_laws(6) [OF parts(5,3)] by (intro lines_laws(5)) simp_all
    show "targets_ok (emit_all [Handler_called c f vs] (w\<lparr>awaiting := awaiting w @ [c]\<rparr>))"
      using parts(6) that by (rule targets_handler)
    show "chains_ok (emit_all [Handler_called c f vs] (w\<lparr>awaiting := awaiting w @ [c]\<rparr>))" using parts(3) that(2) by (rule chains_handler)
    show "values_ok (emit_all [Handler_called c f vs] (w\<lparr>awaiting := awaiting w @ [c]\<rparr>))" using parts(1) by (intro values_laws(3) values_laws(4))
    show "masters_ok (emit_all [Handler_called c f vs] (w\<lparr>awaiting := awaiting w @ [c]\<rparr>))" using parts(4) by (intro masters_laws(5) masters_laws(6))
    show "listeners_ok (emit_all [Handler_called c f vs] (w\<lparr>awaiting := awaiting w @ [c]\<rparr>))"
      by (rule listeners_laws(5) [OF listeners_laws(3) [OF parts(2)]]) simp
  qed
  show "promises_ok (w\<lparr>awaiting := remove1 c (awaiting w)\<rparr>)" if "c \<in> set (awaiting w)" for c
    by (intro promises_okI values_laws listeners_laws chains_laws masters_laws lines_laws targets_ended parts)
  show "promises_ok (update_def i (\<lambda>d. d\<lparr>ringing := rs\<rparr>) w)" if "i < length (defs w)" "ringing (defs w ! i) = r # rs" for i r rs
  proof (intro promises_okI)
    show "values_ok (update_def i (\<lambda>d. d\<lparr>ringing := rs\<rparr>) w)" using parts(1) that by (rule values_laws(6))
    show "listeners_ok (update_def i (\<lambda>d. d\<lparr>ringing := rs\<rparr>) w)" using parts(2) that by (rule listeners_laws(6))
  qed (intro chains_laws masters_laws lines_laws targets_laws parts)+
  show "promises_ok ((new_deferred w)\<lparr>gathers := gathers w @ [\<lparr>master = length (defs w), parts = vs, remaining = int (length vs), slots = vs\<rparr>]\<rparr>)"
    if "list_all (known w) vs" for vs
  proof (intro promises_okI)
    let ?q = "\<lparr>master = length (defs w), parts = vs, remaining = int (length vs), slots = vs\<rparr>"
    have n: "chains_ok (new_deferred w)" using parts(3) by (rule chains_laws)
    then show "chains_ok ((new_deferred w)\<lparr>gathers := gathers w @ [?q]\<rparr>)" by (rule chains_laws)
    show "values_ok ((new_deferred w)\<lparr>gathers := gathers w @ [?q]\<rparr>)" using parts(1) that by (rule values_laws(7)) simp
    show "masters_ok ((new_deferred w)\<lparr>gathers := gathers w @ [?q]\<rparr>)" using parts(4,3) by (rule masters_gather) simp
    show "lines_ok ((new_deferred w)\<lparr>gathers := gathers w @ [?q]\<rparr>)" using lines_laws(1) [OF parts(5,3)] n by (rule lines_laws)
    show "targets_ok ((new_deferred w)\<lparr>gathers := gathers w @ [?q]\<rparr>)" using targets_laws(1) [OF parts(6,3)] n by (rule targets_laws)
  qed (rule listeners_laws [OF parts(2)])
  show "promises_ok (w\<lparr>gathers := (gathers w)[g := (gathers w ! g)\<lparr>slots := (slots (gathers w ! g))[i := v], remaining := remaining (gathers w ! g) - 1\<rparr>]\<rparr>)"
    if "g < length (gathers w)" "known w v" for g i v
  proof (intro promises_okI)
    let ?q = "(gathers w ! g)\<lparr>slots := (slots (gathers w ! g))[i := v], remaining := remaining (gathers w ! g) - 1\<rparr>"
    show "values_ok (w\<lparr>gathers := (gathers w)[g := ?q]\<rparr>)" using parts(1) that by (rule values_laws(8)) simp
    show "masters_ok (w\<lparr>gathers := (gathers w)[g := ?q]\<rparr>)" using parts(4) that(1) by (rule masters_laws(9)) simp
  qed (intro listeners_laws chains_laws lines_laws targets_laws parts)+
qed

section \<open>Calls of \<open>then\<close>\<close>

text \<open>C20: Whatever the page and foreign thenables do, the calls of \<open>then\<close> on one deferred are, in the order in which they
  were made, those that have been processed, those whose timer is set, and those that wait for the deferred: each is
  processed once at most, in order, from a timer (never while \<open>then\<close> or \<open>resolve\<close> runs), none is forgotten, and the
  handler that is chosen and its arguments are those of the outcome of the deferred.\<close>

theorem then_in_order:
  assumes "deferred_reach w" "i < length (defs w)"
  shows "filter (\<lambda>c. source (chains w ! c) = i) [0..<length (chains w)] =
      filter (\<lambda>c. source (chains w ! c) = i) (begun w @ map fst (timers w)) @ thens (defs w ! i) \<and>
    (\<forall>c good vs. Started c good vs \<in> set (happened w) \<longrightarrow> settled (defs w ! source (chains w ! c)) = outcome_of good vs)"
  using resolution.steps.reachable [OF assms(1)] assms(2) by (auto simp: promises_ok_def lines_ok_def line_def)

text \<open>Values that are no promises or thenables.\<close>

definition settled_value :: "val \<Rightarrow> bool" where
  "settled_value v = (case v of Promise j \<Rightarrow> False | Thenable n \<Rightarrow> False | _ \<Rightarrow> True)"

lemma deliver_value: "settled_value v \<Longrightarrow> deliver c m v vs w = settle True (target (chains w ! c)) vs w"
  by (cases v) (simp_all add: settled_value_def deliver_def Let_def)

lemma deliver_self: "deliver c m (Promise (target (chains w ! c))) vs w = thrown c m [Self_resolution] w"
  by (simp add: deliver_def)

lemma settle_pending:
  "i < length (defs w) \<Longrightarrow> settled (defs w ! i) = Pending \<Longrightarrow> settled (defs (settle good i vs w) ! i) = outcome_of good vs"
  by (simp add: settle_def Let_def)

lemma awaiting_facts:
  assumes "deferred_reach w" "c \<in> set (awaiting w)"
  shows "c < length (chains w)" "max_depth (chains w ! c) = 0" "settled (defs w ! target (chains w ! c)) = Pending"
    "target (chains w ! c) < length (defs w)"
proof -
  note p = resolution.steps.reachable [OF assms(1)]
  show l: "c < length (chains w)" using p assms(2) by (auto simp: promises_ok_def targets_ok_def lines_ok_def)
  have "\<not> resolving w c" using assms(2) by (simp add: resolving_def)
  then show "max_depth (chains w ! c) = 0" "settled (defs w ! target (chains w ! c)) = Pending"
    using p l by (auto simp: promises_ok_def targets_ok_def)
  show "target (chains w ! c) < length (defs w)" using p l by (auto simp: promises_ok_def chains_ok_def)
qed

text \<open>C21: While a handler of the page runs, the promise that its \<open>then\<close> gave is pending. If it returns a value that is
  no thenable, the promise is resolved with this value; if it throws, the promise is rejected with the exception; if
  it returns the promise itself, the promise is rejected with a \<open>TypeError\<close>.\<close>

theorem handler_outcome:
  assumes "deferred_reach w" "c \<in> set (awaiting w)"
  shows "settled (defs w ! target (chains w ! c)) = Pending \<and>
    (settled_value v \<longrightarrow>
      settled (defs (deliver c 0 v [v] (w\<lparr>awaiting := remove1 c (awaiting w)\<rparr>)) ! target (chains w ! c)) = Resolved [v]) \<and>
    settled (defs (deliver c 0 (Promise (target (chains w ! c))) us (w\<lparr>awaiting := remove1 c (awaiting w)\<rparr>)) ! target (chains w ! c)) =
      Rejected [Self_resolution] \<and>
    settled (defs (thrown c 0 [e] (w\<lparr>awaiting := remove1 c (awaiting w)\<rparr>)) ! target (chains w ! c)) = Rejected [e]"
proof -
  let ?w = "w\<lparr>awaiting := remove1 c (awaiting w)\<rparr>"
  have "deliver c 0 (Promise (target (chains w ! c))) us ?w = thrown c 0 [Self_resolution] ?w"
    using deliver_self [of c 0 ?w us] by simp
  then show ?thesis
    using awaiting_facts [OF assms] by (simp add: deliver_value thrown_def settle_pending outcome_of_def)
qed

lemma processed_facts:
  assumes "deferred_reach w" "timers w = (c, good, vs) # ts"
  shows "c < length (chains w)" "max_depth (chains w ! c) = 0" "settled (defs w ! target (chains w ! c)) = Pending"
    "target (chains w ! c) < length (defs w)"
proof -
  note p = resolution.steps.reachable [OF assms(1)]
  note t = timer_not_begun [OF p assms(2)]
  show "c < length (chains w)" by (rule t)
  have "\<not> resolving w c" using t(2) by (simp add: resolving_def)
  then show "max_depth (chains w ! c) = 0" "settled (defs w ! target (chains w ! c)) = Pending"
    using p t(1) by (auto simp: promises_ok_def targets_ok_def)
  show "target (chains w ! c) < length (defs w)" using p t(1) by (auto simp: promises_ok_def chains_ok_def)
qed

text \<open>A call of \<open>then\<close> without a handler for the outcome passes the outcome on: when it is processed its promise is
  resolved or rejected with the same arguments (unless the first of them is a thenable, which is followed).\<close>

theorem then_passes_on:
  assumes "deferred_reach w" "timers w = (c, good, vs) # ts" "good \<longrightarrow> settled_value (first_arg vs)"
    and "if good then on_done (chains w ! c) = Identity else on_fail (chains w ! c) = Thrower"
  shows "settled (defs (process c good vs (w\<lparr>timers := ts\<rparr>)) ! target (chains w ! c)) = settled (defs w ! source (chains w ! c))"
proof -
  note f = processed_facts [OF assms(1,2)]
  have "settled (defs w ! source (chains w ! c)) = outcome_of good vs"
    using resolution.steps.reachable [OF assms(1)] assms(2) by (auto simp: promises_ok_def lines_ok_def)
  then show ?thesis
    using assms(3,4) f by (cases good) (simp_all add: process_def Let_def process_default_def deliver_value thrown_def settle_pending)
qed

lemma settled_then:
  "i < length (defs w) \<Longrightarrow> j < length (defs w) \<Longrightarrow> settled (defs (promise_then i h k w) ! j) = settled (defs w ! j)"
  by (simp add: promise_then_defs(1) nth_append nth_list_update)

text \<open>What a function that \<open>resolve\<close> made does to the promise of its call of \<open>then\<close>.\<close>

lemma settled_default:
  assumes "c < length (chains w)" "target (chains w ! c) < length (defs w)" "settled (defs w ! target (chains w ! c)) = Pending"
    and "m \<le> max_depth (chains w ! c)" "list_all (known w) vs"
  shows "settled (defs (process_default c m good vs w) ! target (chains w ! c)) =
    (if m < max_depth (chains w ! c) then Pending
     else if good \<and> first_arg vs = Promise (target (chains w ! c)) then Rejected [Self_resolution]
     else if good \<and> \<not> settled_value (first_arg vs) then Pending
     else outcome_of good vs)"
proof (cases "good \<and> \<not> settled_value (first_arg vs) \<and> \<not> m < max_depth (chains w ! c)")
  case True
  show ?thesis
  proof (cases "first_arg vs")
    case (Promise j)
    then have "j < length (defs w)" using known_first [OF assms(5)] by (simp add: known_def)
    then show ?thesis
      using True assms(2-4) Promise settled_then [of j "deepen c w" "target (chains w ! c)"]
      by (simp add: process_default_def deliver_def Let_def thrown_def settle_pending outcome_of_def)
  next
    case (Thenable n)
    then show ?thesis using True assms by (simp add: process_default_def deliver_def Let_def)
  qed (use True in \<open>simp_all add: settled_value_def\<close>)
next
  case False
  have "first_arg vs \<noteq> Promise j" if "settled_value (first_arg vs)" for j using that by (auto simp: settled_value_def)
  then show ?thesis
    using False assms(2-4) by (cases good) (auto simp: process_default_def deliver_value thrown_def settle_pending)
qed

lemma default_links:
  "b < length (chains w) \<Longrightarrow> target (chains (process_default c m good vs w) ! b) = target (chains w ! b)"
  by (simp add: process_default_def deliver_def thrown_def Let_def nth_append split: val.split)

text \<open>C22: A call of \<open>then\<close> that was made to follow a promise which a handler returned settles the promise of that
  handler with the outcome of the followed promise, when it is processed. But when the functions it carries were
  superseded (because a thenable was returned later), it leaves it alone; and when the followed promise was itself
  resolved with a thenable (as its first value), that one is followed in turn: the promise of the handler stays pending,
  and, for a promise of jQuery, the next call of \<open>then\<close> is made on it, one depth further; only if it is the promise of the
  handler itself, this is rejected with a \<open>TypeError\<close>.\<close>

theorem followed_promise:
  assumes "deferred_reach w" "timers w = (b, good, vs) # ts"
    and "(if good then on_done (chains w ! b) else on_fail (chains w ! b)) = Resolver c m good"
    and "settled (defs w ! target (chains w ! c)) = Pending"
  shows "settled (defs (process b good vs (w\<lparr>timers := ts\<rparr>)) ! target (chains w ! c)) =
    (if m < max_depth (chains w ! c) then Pending
     else if good \<and> first_arg vs = Promise (target (chains w ! c)) then Rejected [Self_resolution]
     else if good \<and> \<not> settled_value (first_arg vs) then Pending
     else settled (defs w ! source (chains w ! b))) \<and>
    (good \<and> \<not> m < max_depth (chains w ! c) \<and> first_arg vs = Promise j \<and> j \<noteq> target (chains w ! c) \<longrightarrow>
      chains (process b good vs (w\<lparr>timers := ts\<rparr>)) ! length (chains w) =
        \<lparr>source = j, target = length (defs w), on_done = Resolver c (Suc m) True, on_fail = Resolver c (Suc m) False, max_depth = 0\<rparr>)"
proof -
  note f = processed_facts [OF assms(1,2)] and p = resolution.steps.reachable [OF assms(1)]
  have o: "settled (defs w ! source (chains w ! b)) = outcome_of good vs"
    using p assms(2) by (auto simp: promises_ok_def lines_ok_def)
  have "handler_ok w (on_done (chains w ! b)) \<and> handler_ok w (on_fail (chains w ! b))"
    using promises_parts(3) [OF p] f(1) by (simp add: chains_ok_def)
  then have h: "handler_ok w (Resolver c m good)" using assms(3) by (cases good) auto
  then have c: "resolving w c" "m \<le> max_depth (chains w ! c)" by (simp_all add: handler_ok_def)
  then have l: "c < length (chains w)" by (simp add: resolving_def)
  have n: "c \<noteq> b" using c(1) timer_not_begun [OF p assms(2)] by (auto simp: resolving_def)
  have t: "target (chains w ! c) \<noteq> target (chains w ! b)" using masters_targets(1) [OF promises_parts(4) [OF p] l f(1)] n by blast
  have v: "list_all (known w) vs" using p assms(2) by (simp add: promises_ok_def values_ok_def)
  let ?u = "emit_all [Started b good vs] (w\<lparr>timers := ts\<rparr>)"
  have k: "list_all (known ?u) vs" using v by (simp add: known_def [abs_def])
  have q: "process b good vs (w\<lparr>timers := ts\<rparr>) = settle True (target (chains w ! b)) [Plain JUndef] (process_default c m good vs ?u)"
    using assms(3) f(1,2) default_links [of b ?u c m good vs] by (cases good) (simp_all add: process_def Let_def deliver_value settled_value_def)
  have s: "settled (defs (process_default c m good vs ?u) ! target (chains w ! c)) =
    (if m < max_depth (chains w ! c) then Pending
     else if good \<and> first_arg vs = Promise (target (chains w ! c)) then Rejected [Self_resolution]
     else if good \<and> \<not> settled_value (first_arg vs) then Pending
     else outcome_of good vs)"
    using settled_default [of c ?u m vs good] l c(2) link_bounds(1) [OF p c(1)] assms(4) k by simp
  have g: "chains (process_default c m good vs ?u) ! length (chains w) =
        \<lparr>source = j, target = length (defs w), on_done = Resolver c (Suc m) True, on_fail = Resolver c (Suc m) False, max_depth = 0\<rparr>"
    if "good \<and> \<not> m < max_depth (chains w ! c) \<and> first_arg vs = Promise j \<and> j \<noteq> target (chains w ! c)"
  proof -
    have "m = max_depth (chains w ! c)" using that c(2) by simp
    then show ?thesis using that by (simp add: process_default_def deliver_def Let_def nth_append)
  qed
  have "settled (defs (settle True (target (chains w ! b)) us x) ! target (chains w ! c)) = settled (defs x ! target (chains w ! c))" for us x
    using t by (rule settle_other)
  then show ?thesis using s g unfolding q o settle_simps(1) by (intro conjI impI) (metis, blast)
qed

section \<open>A run\<close>

text \<open>Two deferreds; a handler of the first returns the promise of the second, and the promise of the handler has a
  call of \<open>then\<close> itself.\<close>

definition run_made :: promises where
  "run_made = promise_then 2 Identity (Page 8) (promise_then 0 (Page 7) Thrower (new_deferred (new_deferred no_promises)))"

definition run_called :: promises where
  "run_called = process 0 True [Plain JNull] ((settle True 0 [Plain JNull] run_made)\<lparr>timers := []\<rparr>)"

definition run_followed :: promises where
  "run_followed = settle True 1 [Plain (JBool True)] (deliver 0 0 (Promise 1) [Promise 1] (run_called\<lparr>awaiting := []\<rparr>))"

definition run_passed :: promises where
  "run_passed = process 2 True [Plain (JBool True)] (run_followed\<lparr>timers := []\<rparr>)"

lemma run_called_reachable: "deferred_reach run_called"
proof -
  have "deferred_reach (new_deferred (new_deferred no_promises))"
    by (intro deferred_reach.further [OF _ deferred_step.made] deferred_reach.nothing)
  then have "deferred_reach (promise_then 0 (Page 7) Thrower (new_deferred (new_deferred no_promises)))"
    by (rule deferred_reach.further) (rule deferred_step.chained; simp)
  then have "deferred_reach run_made" unfolding run_made_def
    by (rule deferred_reach.further) (rule deferred_step.chained; simp)
  then have s: "deferred_reach (settle True 0 [Plain JNull] run_made)"
    by (rule deferred_reach.further) (rule deferred_step.settles; code_simp)
  have "timers (settle True 0 [Plain JNull] run_made) = [(0, True, [Plain JNull])]" by code_simp
  then show ?thesis unfolding run_called_def by (rule deferred_reach.further [OF s deferred_step.timer])
qed

lemma run_followed_reachable: "deferred_reach run_followed"
proof -
  have a: "awaiting run_called = [0]" by code_simp
  then have "deferred_step run_called (deliver 0 0 (Promise 1) [Promise 1] (run_called\<lparr>awaiting := remove1 0 (awaiting run_called)\<rparr>))"
    by (intro deferred_step.returned) (simp, code_simp)
  then have "deferred_reach (deliver 0 0 (Promise 1) [Promise 1] (run_called\<lparr>awaiting := []\<rparr>))"
    using deferred_reach.further [OF run_called_reachable] a by simp
  then show ?thesis unfolding run_followed_def
    by (rule deferred_reach.further) (rule deferred_step.settles; code_simp)
qed

lemma run_passed_reachable: "deferred_reach run_passed"
proof -
  have "timers run_followed = [(2, True, [Plain (JBool True)])]" by code_simp
  then show ?thesis unfolding run_passed_def by (rule deferred_reach.further [OF run_followed_reachable deferred_step.timer])
qed

theorem then_in_order_witness:
  "filter (\<lambda>c. source (chains run_passed ! c) = 1) [0..<length (chains run_passed)] =
     filter (\<lambda>c. source (chains run_passed ! c) = 1) (begun run_passed @ map fst (timers run_passed)) @ thens (defs run_passed ! 1)"
proof -
  have "1 < length (defs run_passed)" by code_simp
  then show ?thesis using then_in_order [OF run_passed_reachable] by blast
qed

theorem handler_outcome_witness:
  "settled (defs (deliver 0 0 (Plain JNull) [Plain JNull] (run_called\<lparr>awaiting := remove1 0 (awaiting run_called)\<rparr>)) ! 2) = Resolved [Plain JNull]"
proof -
  have a: "0 \<in> set (awaiting run_called)" "target (chains run_called ! 0) = 2" "settled_value (Plain JNull)" by code_simp+
  then show ?thesis using handler_outcome [OF run_called_reachable a(1)] by metis
qed

theorem followed_promise_witness: "settled (defs run_passed ! 2) = Resolved [Plain (JBool True)]"
proof -
  have t: "timers run_followed = (2, True, [Plain (JBool True)]) # []" by code_simp
  have h: "(if True then on_done (chains run_followed ! 2) else on_fail (chains run_followed ! 2)) = Resolver 0 1 True" by code_simp
  have v: "True \<longrightarrow> settled_value (first_arg [Plain (JBool True)])" by code_simp
  have o: "settled (defs run_followed ! target (chains run_followed ! 0)) = Pending" by code_simp
  have c: "target (chains run_followed ! 0) = 2" "\<not> 1 < max_depth (chains run_followed ! 0)"
    "settled (defs run_followed ! source (chains run_followed ! 2)) = Resolved [Plain (JBool True)]" by code_simp+
  have a: "first_arg [Plain (JBool True)] = Plain (JBool True)" by (simp add: first_arg_def)
  show ?thesis using followed_promise [OF run_followed_reachable t h o] c v a unfolding run_passed_def by simp
qed

theorem then_passes_on_witness:
  "settled (defs (process 1 True [Plain (JBool True)] (run_passed\<lparr>timers := []\<rparr>)) ! 3) = Resolved [Plain (JBool True)]"
proof -
  have t: "timers run_passed = (1, True, [Plain (JBool True)]) # []" by code_simp
  have v: "True \<longrightarrow> settled_value (first_arg [Plain (JBool True)])" by code_simp
  have h: "if True then on_done (chains run_passed ! 1) = Identity else on_fail (chains run_passed ! 1) = Thrower" by code_simp
  have c: "target (chains run_passed ! 1) = 3" "settled (defs run_passed ! source (chains run_passed ! 1)) = Resolved [Plain (JBool True)]"
    by code_simp+
  show ?thesis using then_passes_on [OF run_passed_reachable t v h] c by simp
qed

end
