(* ===== verification/Gatherings.thy ===== *)
theory Gatherings
  imports DeferredProps
begin

text \<open>
  What \<open>when\<close> collects. The invariant of one call of \<open>when\<close> looks at the world through \<open>view\<close>: the outcome of each
  deferred and the functions of this call among its listeners. Its parameter \<open>k\<close> is the number of arguments that
  are not adopted yet.
\<close>

section \<open>The view of one call\<close>

type_synonym view = "outcome \<times> listener list \<times> listener list \<times> (listener \<times> val list) list"

fun concerns :: "nat \<Rightarrow> listener \<Rightarrow> bool" where
  "concerns g (Slot h i) \<longleftrightarrow> h = g"
| "concerns g (Reject_master h) \<longleftrightarrow> h = g"
| "concerns g (Listener f) \<longleftrightarrow> False"

definition view_of :: "nat \<Rightarrow> deferred \<Rightarrow> view" where
  "view_of g d =
     (settled d, filter (concerns g) (dones d), filter (concerns g) (fails d), filter (\<lambda>r. concerns g (fst r)) (ringing d))"

definition view :: "promises \<Rightarrow> nat \<Rightarrow> nat \<Rightarrow> view" where
  "view w g j = view_of g (defs w ! j)"

abbreviation st :: "view \<Rightarrow> outcome" where "st v \<equiv> fst v"
abbreviation ds :: "view \<Rightarrow> listener list" where "ds v \<equiv> fst (snd v)"
abbreviation fs :: "view \<Rightarrow> listener list" where "fs v \<equiv> fst (snd (snd v))"
abbreviation rs :: "view \<Rightarrow> (listener \<times> val list) list" where "rs v \<equiv> snd (snd (snd v))"

text \<open>An argument counts once its deferred is resolved and the function of \<open>when\<close> has been called.\<close>

definition counted_part :: "(nat \<Rightarrow> view) \<Rightarrow> nat \<Rightarrow> nat \<Rightarrow> val \<Rightarrow> bool" where
  "counted_part V g i v =
     (case v of Promise j \<Rightarrow> (case st (V j) of Resolved us \<Rightarrow> Slot g i \<notin> fst ` set (rs (V j)) | _ \<Rightarrow> False)
      | Thenable n \<Rightarrow> False | _ \<Rightarrow> True)"

definition part_value :: "(nat \<Rightarrow> view) \<Rightarrow> val \<Rightarrow> val" where
  "part_value V v = (case v of Promise j \<Rightarrow> (case st (V j) of Resolved us \<Rightarrow> call_value us | _ \<Rightarrow> v) | _ \<Rightarrow> v)"

definition open_parts :: "nat \<Rightarrow> nat \<Rightarrow> gathering \<Rightarrow> (nat \<Rightarrow> view) \<Rightarrow> nat set" where
  "open_parts g k q V = {i. i < length (parts q) \<and> (i < k \<or> \<not> counted_part V g i (parts q ! i))}"

definition adopts :: "nat \<Rightarrow> gathering \<Rightarrow> nat \<Rightarrow> nat \<Rightarrow> bool" where
  "adopts k q i j \<longleftrightarrow> k \<le> i \<and> i < length (parts q) \<and> parts q ! i = Promise j"

definition shape_ok :: "nat \<Rightarrow> nat \<Rightarrow> gathering \<Rightarrow> bool" where
  "shape_ok k n q \<longleftrightarrow>
     length (slots q) = length (parts q) \<and> k \<le> length (parts q) \<and> master q < n \<and>
     (\<forall>v \<in> set (parts q). case v of Promise j \<Rightarrow> j < n \<and> j \<noteq> master q | Thenable m \<Rightarrow> False | _ \<Rightarrow> True)"

definition view_ok :: "nat \<Rightarrow> nat \<Rightarrow> gathering \<Rightarrow> nat \<Rightarrow> view \<Rightarrow> bool" where
  "view_ok g k q j v \<longleftrightarrow>
     (\<forall>i. adopts k q i j \<longrightarrow> st v = Pending \<longrightarrow> Slot g i \<in> set (ds v)) \<and>
     distinct (ds v) \<and> (\<forall>l \<in> set (ds v). \<exists>i. l = Slot g i \<and> adopts k q i j) \<and>
     (\<forall>l \<in> set (fs v). l = Reject_master g \<and> Promise j \<in> set (parts q)) \<and>
     (\<forall>i. count_list (map fst (rs v)) (Slot g i) \<le> 1) \<and>
     (\<forall>(l, us) \<in> set (rs v). (st v = Resolved us \<and> (\<exists>i. l = Slot g i \<and> adopts k q i j)) \<or>
        (st v = Rejected us \<and> l = Reject_master g \<and> Promise j \<in> set (parts q))) \<and>
     (if st v = Pending then rs v = [] else ds v = [] \<and> fs v = [])"

definition result_ok :: "nat \<Rightarrow> nat \<Rightarrow> gathering \<Rightarrow> (nat \<Rightarrow> view) \<Rightarrow> bool" where
  "result_ok g k q V \<longleftrightarrow>
     (\<forall>us. st (V (master q)) = Resolved us \<longrightarrow> us = slots q \<and> open_parts g k q V = {}) \<and>
     (\<forall>us. st (V (master q)) = Rejected us \<longrightarrow> (\<exists>j. Promise j \<in> set (parts q) \<and> st (V j) = Rejected us))"

definition gather_ok :: "nat \<Rightarrow> nat \<Rightarrow> nat \<Rightarrow> gathering \<Rightarrow> (nat \<Rightarrow> view) \<Rightarrow> bool" where
  "gather_ok g k n q V \<longleftrightarrow>
     shape_ok k n q \<and>
     (\<forall>i < length (parts q). k \<le> i \<longrightarrow> counted_part V g i (parts q ! i) \<longrightarrow> slots q ! i = part_value V (parts q ! i)) \<and>
     remaining q = int (card (open_parts g k q V)) \<and>
     (\<forall>j < n. view_ok g k q j (V j)) \<and> result_ok g k q V"

lemma part_bound: "shape_ok k n q \<Longrightarrow> Promise j \<in> set (parts q) \<Longrightarrow> j < n \<and> j \<noteq> master q"
  by (auto simp: shape_ok_def)

text \<open>Deferreds that are neither the master nor a part do not matter, and new ones do not.\<close>

lemma gather_cong:
  assumes "gather_ok g k n q V" "n \<le> m" "\<And>j. j < n \<Longrightarrow> V' j = V j" "\<And>j. n \<le> j \<Longrightarrow> j < m \<Longrightarrow> V' j = (Pending, [], [], [])"
  shows "gather_ok g k m q V'"
proof -
  have s: "shape_ok k n q" using assms(1) by (simp add: gather_ok_def)
  then have s': "shape_ok k m q" using assms(2) by (fastforce simp: shape_ok_def split: val.splits)
  have p: "V' j = V j" if "Promise j \<in> set (parts q)" for j using part_bound [OF s that] assms(3) by blast
  have m: "V' (master q) = V (master q)" using s assms(3) by (simp add: shape_ok_def)
  have c: "counted_part V' g i v = counted_part V g i v" "part_value V' v = part_value V v" if "v \<in> set (parts q)" for i v
    using that p by (auto simp: counted_part_def part_value_def split: val.split outcome.split)
  have o: "open_parts g k q V' = open_parts g k q V" using c by (auto simp: open_parts_def)
  have v: "view_ok g k q j (V' j)" if "j < m" for j
  proof (cases "j < n")
    case True
    then show ?thesis using assms(1,3) by (simp add: gather_ok_def)
  next
    case False
    have "\<not> adopts k q i j" for i using part_bound [OF s, of j] False unfolding adopts_def by (metis nth_mem)
    then show ?thesis using False that assms(4) by (simp add: view_ok_def)
  qed
  have r: "result_ok g k q V'" using assms(1) p m o unfolding gather_ok_def result_ok_def by metis
  show ?thesis using assms(1) s' c o v r unfolding gather_ok_def by (metis nth_mem)
qed

section \<open>What the updates do to it\<close>

text \<open>A deferred \<open>i\<close> that is not the master is settled.\<close>

definition settled_view :: "bool \<Rightarrow> val list \<Rightarrow> view \<Rightarrow> view" where
  "settled_view good us v = (outcome_of good us, [], [], map (\<lambda>l. (l, us)) (if good then ds v else fs v))"

lemma counted_settled:
  assumes "view_ok g k q i (V i)" "st (V i) = Pending" "k \<le> x" "x < length (parts q)"
  shows "counted_part (V(i := settled_view good us (V i))) g x (parts q ! x) = counted_part V g x (parts q ! x)"
proof (cases "parts q ! x = Promise i")
  case True
  then have "Slot g x \<in> set (ds (V i))" using assms by (auto simp: view_ok_def adopts_def)
  then show ?thesis
    using True assms(2) by (cases good) (auto simp: counted_part_def settled_view_def outcome_of_def image_image)
next
  case False
  then show ?thesis by (auto simp: counted_part_def split: val.split outcome.split)
qed

lemma open_settled:
  assumes "view_ok g k q i (V i)" "st (V i) = Pending"
  shows "open_parts g k q (V(i := settled_view good us (V i))) = open_parts g k q V"
  using counted_settled [where V = V and i = i, OF assms, of _ good us] unfolding open_parts_def by (auto simp: not_less) 

lemma count_distinct: "distinct xs \<Longrightarrow> count_list xs x \<le> 1"
  by (induction xs) (auto simp: count_list_0_iff)

lemma view_settled:
  assumes "view_ok g k q i v" "st v = Pending"
  shows "view_ok g k q i (settled_view good us v)"
proof -
  have d: "distinct (ds v)" "\<forall>l \<in> set (ds v). \<exists>x. l = Slot g x \<and> adopts k q x i"
    "\<forall>l \<in> set (fs v). l = Reject_master g \<and> Promise i \<in> set (parts q)" using assms by (simp_all add: view_ok_def)
  have f: "Slot g x \<notin> set (fs v)" for x using d(3) by auto
  have "count_list (ds v) l \<le> 1" for l using d(1) by (rule count_distinct)
  then show ?thesis
    using d f by (cases good) (auto simp: view_ok_def settled_view_def outcome_of_def comp_def count_list_0_iff)
qed

lemma value_settled:
  assumes "st (V i) = Pending" "counted_part V g x v"
  shows "part_value (V(i := u)) v = part_value V v"
  using assms by (auto simp: counted_part_def part_value_def split: val.splits outcome.splits)

lemma gather_settle_other:
  assumes "gather_ok g k n q V" "i < n" "i \<noteq> master q" "st (V i) = Pending"
  shows "gather_ok g k n q (V(i := settled_view good us (V i)))"
proof -
  let ?V = "V(i := settled_view good us (V i))"
  have v: "view_ok g k q i (V i)" using assms(1,2) by (simp add: gather_ok_def)
  have "view_ok g k q j (?V j)" if "j < n" for j
    using assms(1) that view_settled [OF v assms(4)] by (cases "j = i") (simp_all add: gather_ok_def)
  moreover have "slots q ! x = part_value ?V (parts q ! x)"
    if "x < length (parts q)" "k \<le> x" "counted_part ?V g x (parts q ! x)" for x
  proof -
    have "counted_part V g x (parts q ! x)" using that counted_settled [where V = V and i = i, OF v assms(4)] by simp
    then show ?thesis using assms(1) that value_settled [where V = V and i = i, OF assms(4)] unfolding gather_ok_def by metis
  qed
  moreover have "result_ok g k q ?V"
    unfolding result_ok_def
  proof (intro conjI allI impI)
    fix us' assume "st (?V (master q)) = Resolved us'"
    then show "us' = slots q" "open_parts g k q ?V = {}"
      using assms(1,3) open_settled [where V = V and i = i, OF v assms(4)] by (simp_all add: gather_ok_def result_ok_def)
  next
    fix us' assume "st (?V (master q)) = Rejected us'"
    then obtain j where j: "Promise j \<in> set (parts q)" "st (V j) = Rejected us'"
      using assms(1,3) by (auto simp: gather_ok_def result_ok_def)
    then have "j \<noteq> i" using assms(4) by auto
    then show "\<exists>j. Promise j \<in> set (parts q) \<and> st (?V j) = Rejected us'" using j by (intro exI [of _ j]) simp
  qed
  ultimately show ?thesis using assms(1) open_settled [where V = V and i = i, OF v assms(4)] by (simp add: gather_ok_def)
qed

text \<open>The master is settled.\<close>

lemma gather_settle_master:
  assumes "gather_ok g k n q V" "st (V (master q)) = Pending"
    and "if good then us = slots q \<and> open_parts g k q V = {} else \<exists>j. Promise j \<in> set (parts q) \<and> st (V j) = Rejected us"
  shows "gather_ok g k n q (V(master q := settled_view good us (V (master q))))"
proof -
  let ?V = "V(master q := settled_view good us (V (master q)))"
  have m: "master q < n" and s: "shape_ok k n q" using assms(1) by (simp_all add: gather_ok_def shape_ok_def)
  have v: "view_ok g k q (master q) (V (master q))" using assms(1) m by (simp add: gather_ok_def)
  have "view_ok g k q j (?V j)" if "j < n" for j
    using assms(1) that view_settled [OF v assms(2)] by (cases "j = master q") (simp_all add: gather_ok_def)
  moreover have "slots q ! x = part_value ?V (parts q ! x)"
    if "x < length (parts q)" "k \<le> x" "counted_part ?V g x (parts q ! x)" for x
  proof -
    have "counted_part V g x (parts q ! x)" using that counted_settled [where V = V and i = "master q", OF v assms(2)] by simp
    then show ?thesis using assms(1) that value_settled [where V = V and i = "master q", OF assms(2)] unfolding gather_ok_def by metis
  qed
  moreover have "result_ok g k q ?V"
    unfolding result_ok_def
  proof (intro conjI allI impI)
    fix us' assume "st (?V (master q)) = Resolved us'"
    then have "good \<and> us' = us" by (simp add: settled_view_def)
    then show "us' = slots q" "open_parts g k q ?V = {}"
      using assms(3) open_settled [where V = V and i = "master q", OF v assms(2)] by simp_all
  next
    fix us' assume "st (?V (master q)) = Rejected us'"
    then have "\<not> good \<and> us' = us" by (simp add: settled_view_def)
    then obtain j where j: "Promise j \<in> set (parts q)" "st (V j) = Rejected us'" using assms(3) by auto
    then have "j \<noteq> master q" using part_bound [OF s] by blast
    then show "\<exists>j. Promise j \<in> set (parts q) \<and> st (?V j) = Rejected us'" using j by (intro exI [of _ j]) simp
  qed
  ultimately show ?thesis using assms(1) open_settled [where V = V and i = "master q", OF v assms(2)] by (simp add: gather_ok_def)
qed

text \<open>A function of the call is taken from the listeners of \<open>j\<close>.\<close>

definition popped :: "view \<Rightarrow> view" where
  "popped v = (st v, ds v, fs v, tl (rs v))"

lemma popped_simps [simp]: "st (popped v) = st v" "ds (popped v) = ds v" "fs (popped v) = fs v" "rs (popped v) = tl (rs v)"
  by (simp_all add: popped_def)

lemma set_tl: "x \<in> set (tl xs) \<Longrightarrow> x \<in> set xs"
  by (cases xs) simp_all

lemma view_popped:
  assumes "view_ok g k q j v"
  shows "view_ok g k q j (popped v)"
proof -
  have "count_list (map fst (tl (rs v))) l \<le> count_list (map fst (rs v)) l" for l by (cases "rs v") simp_all
  then have "count_list (map fst (tl (rs v))) (Slot g i) \<le> 1" for i using assms unfolding view_ok_def by (meson le_trans)
  moreover have "tl (rs v) = []" if "rs v = []" using that by simp
  ultimately show ?thesis using assms unfolding view_ok_def popped_simps by (auto dest: set_tl)
qed

definition filled_with :: "nat \<Rightarrow> val \<Rightarrow> gathering \<Rightarrow> gathering" where
  "filled_with x v q = q\<lparr>slots := (slots q)[x := v], remaining := remaining q - 1\<rparr>"

lemma filled_simps [simp]:
  "master (filled_with x v q) = master q" "parts (filled_with x v q) = parts q" "slots (filled_with x v q) = (slots q)[x := v]"
  "remaining (filled_with x v q) = remaining q - 1"
  by (simp_all add: filled_with_def)

lemma filled_same [simp]:
  "open_parts g k (filled_with x v q) V = open_parts g k q V" "adopts k (filled_with x v q) = adopts k q"
  "view_ok g k (filled_with x v q) = view_ok g k q" "shape_ok k n (filled_with x v q) = shape_ok k n q"
proof -
  show "open_parts g k (filled_with x v q) V = open_parts g k q V" by (simp add: open_parts_def)
  show a: "adopts k (filled_with x v q) = adopts k q" by (simp add: adopts_def fun_eq_iff)
  show "view_ok g k (filled_with x v q) = view_ok g k q" by (simp add: view_ok_def fun_eq_iff a)
  show "shape_ok k n (filled_with x v q) = shape_ok k n q" by (simp only: shape_ok_def filled_simps length_list_update)
qed

lemma gather_fill:
  assumes "gather_ok g k n q V" "x \<in> open_parts g k q V"
    and "k' \<le> k" "open_parts g k' q V' = open_parts g k q V - {x}"
    and "\<And>j. j < n \<Longrightarrow> view_ok g k' q j (V' j)" "\<And>j. st (V' j) = st (V j)" "v = part_value V (parts q ! x)"
  shows "gather_ok g k' n (filled_with x v q) V'"
proof -
  have x: "x < length (parts q)" using assms(2) by (simp add: open_parts_def)
  have pv: "part_value V' p = part_value V p" for p using assms(6) by (simp add: part_value_def split: val.split)
  have s: "shape_ok k n q" using assms(1) by (simp add: gather_ok_def)
  then have "shape_ok k' n q" using assms(3) by (simp add: shape_ok_def)
  moreover have "(slots q)[x := v] ! y = part_value V' (parts q ! y)"
    if "y < length (parts q)" "k' \<le> y" "counted_part V' g y (parts q ! y)" for y
  proof (cases "y = x")
    case True
    then show ?thesis using x s assms(7) pv by (simp add: shape_ok_def)
  next
    case False
    have "y \<notin> open_parts g k' q V'" using that by (simp add: open_parts_def)
    then have "y \<notin> open_parts g k q V" using False assms(4) by blast
    then have "k \<le> y" "counted_part V g y (parts q ! y)" using that(1) by (auto simp: open_parts_def)
    then have "slots q ! y = part_value V (parts q ! y)" using that(1) assms(1) unfolding gather_ok_def by blast
    then show ?thesis using False pv by simp
  qed
  moreover have "remaining q - 1 = int (card (open_parts g k' q V'))"
  proof -
    have "finite (open_parts g k q V)" by (simp add: open_parts_def)
    then have "card (open_parts g k q V) = Suc (card (open_parts g k q V - {x}))" using assms(2) by (rule card.remove)
    moreover have "remaining q = int (card (open_parts g k q V))" using assms(1) unfolding gather_ok_def by blast
    ultimately show ?thesis unfolding assms(4) by linarith
  qed
  moreover have "result_ok g k' (filled_with x v q) V'"
    using assms(1,2,6) unfolding gather_ok_def result_ok_def by auto
  ultimately show ?thesis using assms(5) by (simp add: gather_ok_def)
qed

text \<open>The function of argument \<open>x\<close> is called.\<close>

lemma gather_ring_slot:
  assumes "gather_ok g k n q V" "j < n" "rs (V j) = (Slot g x, us) # r"
  shows "gather_ok g k n (filled_with x (call_value us) q) (V(j := popped (V j)))" "x \<in> open_parts g k q V" "j \<noteq> master q"
proof -
  have v: "view_ok g k q j (V j)" using assms(1,2) by (simp add: gather_ok_def)
  then have "count_list (map fst (rs (V j))) (Slot g x) \<le> 1" unfolding view_ok_def by blast
  moreover have "st (V j) = Resolved us \<and> adopts k q x j" using v assms(3) by (auto simp: view_ok_def)
  ultimately have a: "st (V j) = Resolved us" "adopts k q x j" "count_list (map fst r) (Slot g x) = 0"
    using assms(3) by auto
  have n: "(Slot g x) \<notin> fst ` set r" using a(3) by (simp add: count_list_0_iff)
  have p: "parts q ! x = Promise j" "x < length (parts q)" "k \<le> x" using a(2) by (simp_all add: adopts_def)
  show o: "x \<in> open_parts g k q V" using p a(1) assms(3) by (simp add: open_parts_def counted_part_def)
  have "shape_ok k n q" using assms(1) by (simp add: gather_ok_def)
  then show "j \<noteq> master q" using part_bound p(1,2) by (metis nth_mem)
  have c: "counted_part (V(j := popped (V j))) g y (parts q ! y) = (y = x \<or> counted_part V g y (parts q ! y))" if "y < length (parts q)" for y
  proof (cases "parts q ! y = Promise j")
    case True
    have e: "Slot g y \<in> fst ` set (tl (rs (V j))) \<longleftrightarrow> y \<noteq> x \<and> Slot g y \<in> fst ` set (rs (V j))" using n assms(3) by auto
    show ?thesis unfolding counted_part_def True by (simp add: a(1) e)
  next
    case False
    then have "y \<noteq> x" using p(1) by auto
    then show ?thesis using False by (auto simp: counted_part_def split: val.split outcome.split)
  qed
  show "gather_ok g k n (filled_with x (call_value us) q) (V(j := popped (V j)))"
  proof (rule gather_fill [OF assms(1) o order.refl])
    show "open_parts g k q (V(j := popped (V j))) = open_parts g k q V - {x}"
      using c p(3) by (auto simp: open_parts_def)
    show "view_ok g k q i ((V(j := popped (V j))) i)" if "i < n" for i
      using assms(1) that view_popped [OF v] by (simp add: gather_ok_def)
    show "call_value us = part_value V (parts q ! x)" using p(1) a(1) by (simp add: part_value_def)
  qed simp
qed

text \<open>The function of a rejected argument is called.\<close>

lemma gather_ring_reject:
  assumes "gather_ok g k n q V" "j < n" "rs (V j) = (Reject_master g, us) # r"
  shows "gather_ok g k n q (V(j := popped (V j)))" "Promise j \<in> set (parts q)" "st (V j) = Rejected us" "j \<noteq> master q"
proof -
  have v: "view_ok g k q j (V j)" using assms(1,2) by (simp add: gather_ok_def)
  then show a: "Promise j \<in> set (parts q)" "st (V j) = Rejected us" using assms(3) by (auto simp: view_ok_def)
  have s: "shape_ok k n q" using assms(1) by (simp add: gather_ok_def)
  show m: "j \<noteq> master q" using part_bound [OF s a(1)] by simp
  have c: "counted_part (V(j := popped (V j))) g y p = counted_part V g y p" "part_value (V(j := popped (V j))) p = part_value V p" for y p
    using a(2) by (auto simp: counted_part_def part_value_def split: val.split outcome.split)
  have o: "open_parts g k q (V(j := popped (V j))) = open_parts g k q V" using c by (simp add: open_parts_def)
  have st: "st ((V(j := popped (V j))) i) = st (V i)" for i by simp
  have "result_ok g k q (V(j := popped (V j)))" using assms(1) o unfolding gather_ok_def result_ok_def st by simp
  then show "gather_ok g k n q (V(j := popped (V j)))"
    using assms(1) view_popped [OF v] c o unfolding gather_ok_def by auto
qed

text \<open>Argument \<open>x\<close> is adopted.\<close>

lemma adopts_Suc:
  "x < length (parts q) \<Longrightarrow> adopts x q y j \<longleftrightarrow> adopts (Suc x) q y j \<or> (y = x \<and> parts q ! x = Promise j)"
  by (auto simp: adopts_def Suc_le_eq le_less)

lemma view_next:
  assumes "view_ok g (Suc x) q j v" "x < length (parts q)" "parts q ! x \<noteq> Promise j"
  shows "view_ok g x q j v"
proof -
  have "adopts x q y j \<longleftrightarrow> adopts (Suc x) q y j" for y using adopts_Suc [OF assms(2)] assms(3) by blast
  then show ?thesis using assms(1) unfolding view_ok_def by simp
qed

lemma gather_adopt_plain:
  assumes "gather_ok g (Suc x) n q V" "x < length (parts q)" "case parts q ! x of Promise j \<Rightarrow> False | Thenable m \<Rightarrow> False | _ \<Rightarrow> True"
  shows "gather_ok g x n (filled_with x (parts q ! x) q) V" "x \<in> open_parts g (Suc x) q V"
proof -
  have c: "counted_part V g x (parts q ! x)" using assms(3) by (auto simp: counted_part_def split: val.splits)
  show o: "x \<in> open_parts g (Suc x) q V" using assms(2) by (simp add: open_parts_def)
  show "gather_ok g x n (filled_with x (parts q ! x) q) V"
  proof (rule gather_fill [OF assms(1) o])
    have "y < x \<or> \<not> counted_part V g y (parts q ! y) \<longleftrightarrow> (y < Suc x \<or> \<not> counted_part V g y (parts q ! y)) \<and> y \<noteq> x" for y
      using c by (auto simp: less_Suc_eq)
    then show "open_parts g x q V = open_parts g (Suc x) q V - {x}" unfolding open_parts_def by blast
    have "parts q ! x \<noteq> Promise j" for j using assms(3) by auto
    then show "view_ok g x q j (V j)" if "j < n" for j
      using assms(1) that view_next [OF _ assms(2)] unfolding gather_ok_def by blast
    show "parts q ! x = part_value V (parts q ! x)" using assms(3) by (simp add: part_value_def split: val.splits)
  qed simp_all
qed

definition adopted :: "nat \<Rightarrow> nat \<Rightarrow> view \<Rightarrow> view" where
  "adopted g x v =
     (case st v of
        Pending \<Rightarrow> (Pending, ds v @ [Slot g x], fs v @ [Reject_master g], rs v)
      | Resolved us \<Rightarrow> (st v, ds v, fs v, rs v @ [(Slot g x, us)])
      | Rejected us \<Rightarrow> (st v, ds v, fs v, rs v @ [(Reject_master g, us)]))"

lemma st_adopted [simp]: "st (adopted g x v) = st v"
  by (simp add: adopted_def split: outcome.split)

lemma view_adopted:
  assumes "view_ok g (Suc x) q j v" "x < length (parts q)" "parts q ! x = Promise j"
  shows "view_ok g x q j (adopted g x v)"
proof -
  have a: "adopts x q y j \<longleftrightarrow> adopts (Suc x) q y j \<or> y = x" for y using adopts_Suc [OF assms(2)] assms(3) by blast
  have p: "Promise j \<in> set (parts q)" using assms(2,3) by (metis nth_mem)
  have n: "\<not> adopts (Suc x) q x j" by (simp add: adopts_def)
  show ?thesis
  proof (cases "st v")
    case Pending
    have "Slot g x \<notin> set (ds v)" using assms(1) n by (auto simp: view_ok_def)
    then show ?thesis using assms(1) p by (auto simp: view_ok_def adopted_def Pending a)
  next
    case (Resolved us)
    have r: "\<forall>(l, us') \<in> set (rs v). us' = us \<and> (\<exists>i. l = Slot g i \<and> adopts (Suc x) q i j)"
      using assms(1) Resolved by (auto simp: view_ok_def)
    then have "count_list (map fst (rs v)) (Slot g x) = 0" using n by (auto simp: count_list_0_iff)
    moreover have "count_list (map fst (rs v)) (Slot g i) \<le> 1" for i using assms(1) unfolding view_ok_def by blast
    ultimately have "count_list (map fst (rs v @ [(Slot g x, us)])) (Slot g i) \<le> 1" for i by (cases "i = x") simp_all
    moreover have "ds v = [] \<and> fs v = []" using assms(1) Resolved by (simp add: view_ok_def)
    ultimately show ?thesis using r by (auto simp: view_ok_def adopted_def Resolved a)
  next
    case (Rejected us)
    have r: "\<forall>(l, us') \<in> set (rs v). us' = us \<and> l = Reject_master g" using assms(1) Rejected by (auto simp: view_ok_def)
    then have "count_list (map fst (rs v @ [(Reject_master g, us)])) (Slot g i) = 0" for i by (auto simp: count_list_0_iff)
    moreover have "ds v = [] \<and> fs v = []" using assms(1) Rejected by (simp add: view_ok_def)
    ultimately show ?thesis using r p by (auto simp: view_ok_def adopted_def Rejected a)
  qed
qed

lemma gather_adopt:
  assumes "gather_ok g (Suc x) n q V" "x < length (parts q)" "parts q ! x = Promise j"
  shows "gather_ok g x n q (V(j := adopted g x (V j)))"
proof -
  let ?V = "V(j := adopted g x (V j))"
  have s: "shape_ok (Suc x) n q" using assms(1) by (simp add: gather_ok_def)
  have j: "j < n" "j \<noteq> master q" using part_bound [OF s] assms(2,3) by (metis nth_mem)+
  have v: "view_ok g (Suc x) q j (V j)" using assms(1) j(1) by (simp add: gather_ok_def)
  have r: "Slot g y \<in> fst ` set (rs (adopted g x (V j))) \<longleftrightarrow> Slot g y \<in> fst ` set (rs (V j)) \<or> y = x" if "st (V j) = Resolved us" for y us
    using that by (auto simp: adopted_def)
  have c: "counted_part ?V g y (parts q ! y) = (counted_part V g y (parts q ! y) \<and> y \<noteq> x)" if "y < length (parts q)" for y
  proof (cases "parts q ! y = Promise j")
    case True
    then show ?thesis using r by (simp add: counted_part_def split: outcome.split)
  next
    case False
    then have "y \<noteq> x" using assms(3) by auto
    then show ?thesis using False by (auto simp: counted_part_def split: val.split outcome.split)
  qed
  have pv: "part_value ?V p = part_value V p" for p by (auto simp: part_value_def split: val.split)
  have "y < x \<or> \<not> counted_part ?V g y (parts q ! y) \<longleftrightarrow> y < Suc x \<or> \<not> counted_part V g y (parts q ! y)"
    if "y < length (parts q)" for y
    using c [OF that] by (auto simp: less_Suc_eq)
  then have o: "open_parts g x q ?V = open_parts g (Suc x) q V" unfolding open_parts_def by blast
  have "view_ok g x q i (?V i)" if "i < n" for i
  proof (cases "i = j")
    case True
    then show ?thesis using view_adopted [OF v assms(2,3)] by simp
  next
    case False
    have "view_ok g (Suc x) q i (V i)" using assms(1) that unfolding gather_ok_def by blast
    then show ?thesis using False view_next [OF _ assms(2)] assms(3) by simp
  qed
  moreover have "slots q ! y = part_value ?V (parts q ! y)"
    if "y < length (parts q)" "x \<le> y" "counted_part ?V g y (parts q ! y)" for y
  proof -
    have "counted_part V g y (parts q ! y)" "Suc x \<le> y" using c [OF that(1)] that(2,3) by auto
    then show ?thesis unfolding pv using assms(1) that(1) unfolding gather_ok_def by blast
  qed
  moreover have "shape_ok x n q" using s by (simp add: shape_ok_def)
  moreover have "result_ok g x q ?V"
  proof -
    have "st (?V i) = st (V i)" for i by simp
    then show ?thesis using assms(1) o unfolding gather_ok_def result_ok_def by simp
  qed
  moreover have "remaining q = int (card (open_parts g x q ?V))" unfolding o using assms(1) unfolding gather_ok_def by blast
  ultimately show ?thesis unfolding gather_ok_def by blast
qed

section \<open>The steps\<close>

definition plain_parts :: "gathering \<Rightarrow> bool" where
  "plain_parts q \<longleftrightarrow> list_all (\<lambda>v. case v of Thenable m \<Rightarrow> False | _ \<Rightarrow> True) (parts q)"

definition this_ok :: "nat \<Rightarrow> nat \<Rightarrow> promises \<Rightarrow> bool" where
  "this_ok g k w \<longleftrightarrow> gather_ok g k (length (defs w)) (gathers w ! g) (view w g)"

definition whens_ok :: "promises \<Rightarrow> bool" where
  "whens_ok w \<longleftrightarrow>
     (\<forall>g < length (gathers w). plain_parts (gathers w ! g) \<longrightarrow> this_ok g 0 w) \<and>
     (\<forall>g i n. When_called g i n \<in> set (happened w) \<longrightarrow> \<not> plain_parts (gathers w ! g))"

lemma this_frame:
  assumes "this_ok g k w" "gathers u ! g = gathers w ! g" "length (defs w) \<le> length (defs u)"
    and "\<And>j. j < length (defs w) \<Longrightarrow> view u g j = view w g j"
    and "\<And>j. length (defs w) \<le> j \<Longrightarrow> j < length (defs u) \<Longrightarrow> view u g j = (Pending, [], [], [])"
  shows "this_ok g k u"
  using gather_cong [of g k _ _ "view w g" _ "view u g"] assms unfolding this_ok_def by metis

lemma view_update:
  "view (update_def i f w) g = (if i < length (defs w) then (view w g)(i := view_of g (f (defs w ! i))) else view w g)"
  by (rule ext) (auto simp: view_def nth_list_update list_update_beyond)

lemma view_fresh: "view_of g fresh_deferred = (Pending, [], [], [])"
  by (simp add: view_of_def)

lemma view_settle:
  assumes "i < length (defs w)" "settled (defs w ! i) = Pending"
  shows "view (settle good i us w) g = (view w g)(i := settled_view good us (view w g i))"
  using assms by (auto simp: fun_eq_iff settle_def Let_def view_def view_of_def settled_view_def filter_map comp_def nth_list_update)

lemma settle_settled: "settled (defs w ! i) \<noteq> Pending \<Longrightarrow> settle good i us w = w"
  by (simp add: settle_def Let_def)

lemma st_view: "st (view w g i) = settled (defs w ! i)"
  by (simp add: view_def view_of_def)

lemma this_settle_other:
  assumes "this_ok g k w" "i < length (defs w)" "i \<noteq> master (gathers w ! g)"
  shows "this_ok g k (settle good i us w)"
proof (cases "settled (defs w ! i) = Pending")
  case True
  then show ?thesis
    using gather_settle_other [OF assms(1) [unfolded this_ok_def] assms(2,3)] by (simp add: this_ok_def view_settle [OF assms(2)] st_view)
qed (simp add: settle_settled assms(1))

lemma this_settle_master:
  assumes "this_ok g k w" "g < length (gathers w)"
    and "if good then us = slots (gathers w ! g) \<and> open_parts g k (gathers w ! g) (view w g) = {}
      else \<exists>j. Promise j \<in> set (parts (gathers w ! g)) \<and> settled (defs w ! j) = Rejected us"
  shows "this_ok g k (settle good (master (gathers w ! g)) us w)"
proof (cases "settled (defs w ! master (gathers w ! g)) = Pending")
  case True
  have "master (gathers w ! g) < length (defs w)" using assms(1) by (simp add: this_ok_def gather_ok_def shape_ok_def)
  then show ?thesis
    using gather_settle_master [OF assms(1) [unfolded this_ok_def]] assms(3) True by (simp add: this_ok_def view_settle st_view)
qed (simp add: settle_settled assms(1))

lemma view_add:
  assumes "i < length (defs w)" "\<not> concerns g l"
  shows "view (add_done l i w) g = view w g" "view (add_fail l i w) g = view w g"
  using assms by (auto simp: fun_eq_iff add_done_def add_fail_def view_def view_of_def nth_list_update split: outcome.split)

lemma view_then:
  assumes "i < length (defs w)"
  shows "j < length (defs w) \<Longrightarrow> view (promise_then i h k w) g j = view w g j"
    "j = length (defs w) \<Longrightarrow> view (promise_then i h k w) g j = (Pending, [], [], [])"
  by (cases "j = i", simp_all add: promise_then_defs(1) [OF assms] view_def view_of_def nth_append)

lemma view_pop:
  assumes "i < length (defs w)" "ringing (defs w ! i) = (l, us) # r"
  shows "view (update_def i (\<lambda>d. d\<lparr>ringing := r\<rparr>) w) g = (if concerns g l then (view w g)(i := popped (view w g i)) else view w g)"
  using assms by (auto simp: fun_eq_iff view_update view_def view_of_def popped_def)

lemma fill_slot_eq:
  "fill_slot h x us w =
     (let q' = filled_with x (call_value us) (gathers w ! h); u = w\<lparr>gathers := (gathers w)[h := q']\<rparr>
      in if remaining q' = 0 then settle True (master q') (slots q') u else u)"
  by (simp add: fill_slot_def filled_with_def Let_def)

lemma this_fill_other:
  assumes "this_ok g k w" "g \<noteq> h" "master (gathers w ! h) < length (defs w)" "master (gathers w ! h) \<noteq> master (gathers w ! g)"
  shows "this_ok g k (fill_slot h x us w)"
proof -
  let ?u = "w\<lparr>gathers := (gathers w)[h := filled_with x (call_value us) (gathers w ! h)]\<rparr>"
  have u: "this_ok g k ?u" by (rule this_frame [OF assms(1)]) (use assms(2) in \<open>simp_all add: view_def\<close>)
  have "this_ok g k (settle True (master (gathers w ! h)) vs ?u)" for vs
    by (rule this_settle_other [OF u]) (use assms in simp_all)
  then show ?thesis using u by (simp add: fill_slot_eq Let_def)
qed

lemma this_filled:
  assumes "gather_ok h k (length (defs w)) (filled_with x (call_value us) (gathers w ! h)) (view w h)" "h < length (gathers w)"
  shows "this_ok h k (fill_slot h x us w)"
proof -
  let ?q = "filled_with x (call_value us) (gathers w ! h)"
  let ?u = "w\<lparr>gathers := (gathers w)[h := ?q]\<rparr>"
  have v: "view ?u h = view w h" by (simp add: view_def fun_eq_iff)
  have u: "this_ok h k ?u" using assms by (simp add: this_ok_def v)
  have g: "gathers ?u ! h = ?q" "h < length (gathers ?u)" using assms(2) by simp_all
  show ?thesis
  proof (cases "remaining ?q = 0")
    case True
    have "remaining ?q = int (card (open_parts h k ?q (view ?u h)))" using assms(1) unfolding gather_ok_def v by blast
    then have "open_parts h k ?q (view ?u h) = {}" using True by (simp add: open_parts_def card_eq_0_iff)
    then have "this_ok h k (settle True (master (gathers ?u ! h)) (slots (gathers ?u ! h)) ?u)"
      unfolding g(1) by (intro this_settle_master [OF u g(2), unfolded g(1)]) simp
    then show ?thesis using True unfolding fill_slot_eq Let_def g(1) by simp
  next
    case False
    then show ?thesis using u unfolding fill_slot_eq Let_def by simp
  qed
qed

lemma view_adopt:
  assumes "j < length (defs w)"
  shows "view (add_fail (Reject_master h) j (add_done (Slot h x) j w)) h = (view w h)(j := adopted h x (view w h j))"
  using assms
  by (auto simp: fun_eq_iff add_done_def add_fail_def view_def view_of_def adopted_def nth_list_update split: outcome.split)

lemma adopt_same_gathers:
  "gathers (add_fail l i w) = gathers w" "gathers (add_done l i w) = gathers w" "gathers (settle b i us w) = gathers w"
  by (simp_all add: add_fail_facts add_done_facts)

lemma fill_keeps:
  "length (gathers (fill_slot h x us w)) = length (gathers w)" "length (defs (fill_slot h x us w)) = length (defs w)"
  "parts (gathers (fill_slot h x us w) ! g) = parts (gathers w ! g)" "master (gathers (fill_slot h x us w) ! g) = master (gathers w ! g)"
  "happened (fill_slot h x us w) = happened w"
  by (cases "h < length (gathers w)"; cases "g = h"; simp add: fill_slot_eq Let_def list_update_beyond)+

lemma adopt_keeps:
  "length (gathers (adopt_value h x v w)) = length (gathers w)" "length (defs (adopt_value h x v w)) = length (defs w)"
  "parts (gathers (adopt_value h x v w) ! g) = parts (gathers w ! g)" "master (gathers (adopt_value h x v w) ! g) = master (gathers w ! g)"
  by (simp_all add: adopt_value_def fill_keeps add_done_facts add_fail_facts split: val.split)

text \<open>Adopting an argument, for the call itself and for the others.\<close>

lemma this_adopt:
  assumes "this_ok h (Suc x) w" "h < length (gathers w)" "x < length (parts (gathers w ! h))" "parts (gathers w ! h) ! x = v"
    and "case v of Thenable m \<Rightarrow> False | _ \<Rightarrow> True"
  shows "this_ok h x (adopt_value h x v w)"
proof -
  note g = assms(1) [unfolded this_ok_def]
  have plain: "this_ok h x (fill_slot h x [v] w)" if "case v of Promise j \<Rightarrow> False | Thenable m \<Rightarrow> False | _ \<Rightarrow> True"
  proof (rule this_filled)
    have "call_value [v] = v" by (simp add: call_value_def first_arg_def)
    then show "gather_ok h x (length (defs w)) (filled_with x (call_value [v]) (gathers w ! h)) (view w h)"
      using gather_adopt_plain(1) [OF g assms(3)] that assms(4) by simp
  qed (rule assms(2))
  show ?thesis
  proof (cases v)
    case (Promise j)
    have "shape_ok (Suc x) (length (defs w)) (gathers w ! h)" using g by (simp add: gather_ok_def)
    then have j: "j < length (defs w)" using part_bound assms(3,4) Promise by (metis nth_mem)
    then show ?thesis
      using gather_adopt [OF g assms(3)] assms(4) Promise
      by (simp add: adopt_value_def this_ok_def adopt_same_gathers view_adopt add_fail_facts add_done_facts)
  qed (use plain assms(5) in \<open>simp_all add: adopt_value_def\<close>)
qed

lemma this_adopt_other:
  assumes "this_ok g k w" "g \<noteq> h" "master (gathers w ! h) < length (defs w)" "master (gathers w ! h) \<noteq> master (gathers w ! g)" "known w v"
  shows "this_ok g k (adopt_value h x v w)"
proof (cases v)
  case (Promise j)
  then have j: "j < length (defs w)" using assms(5) by (simp add: known_def)
  have "this_ok g k (add_done (Slot h x) j w)"
    by (rule this_frame [OF assms(1)]) (use assms(2) j in \<open>simp_all add: view_add add_done_facts\<close>)
  then have "this_ok g k (add_fail (Reject_master h) j (add_done (Slot h x) j w))"
    by (rule this_frame) (use assms(2) j in \<open>simp_all add: view_add add_done_facts add_fail_facts\<close>)
  then show ?thesis by (simp add: adopt_value_def Promise)
next
  case (Thenable n)
  then show ?thesis using this_frame [OF assms(1), of "emit_all [When_called h x n] w"] by (simp add: adopt_value_def view_def)
qed (use this_fill_other [OF assms(1-4)] in \<open>simp_all add: adopt_value_def\<close>)

end
