(* ===== verification/GatherProps.thy ===== *)
theory GatherProps
  imports Gatherings
begin

text \<open>
  Every step keeps the invariant of every call of \<open>when\<close> whose arguments are data and deferreds of jQuery, whatever happens
  to the other calls, and no call is forgotten (\<open>lives_ok\<close>); so these and \<open>promises_ok\<close> together obey the laws of
  \<open>chaining_laws\<close>. From them: what the promise of \<open>when\<close> holds when it is settled, and when it is settled.
\<close>

section \<open>All calls of \<open>when\<close>\<close>

lemma plain_parts_cong: "parts q = parts p \<Longrightarrow> plain_parts q = plain_parts p"
  by (simp add: plain_parts_def)

lemma whens_this: "whens_ok w \<Longrightarrow> g < length (gathers w) \<Longrightarrow> plain_parts (gathers w ! g) \<Longrightarrow> this_ok g 0 w"
  by (simp add: whens_ok_def)

lemma masters_distinct:
  assumes "masters_ok w" "g < length (gathers w)" "h < length (gathers w)" "g \<noteq> h"
  shows "master (gathers w ! h) \<noteq> master (gathers w ! g)" "master (gathers w ! h) < length (defs w)"
proof -
  have "distinct (map master (gathers w))" using assms(1) by (simp add: masters_ok_def)
  then show "master (gathers w ! h) \<noteq> master (gathers w ! g)" using assms(2-4) by (simp add: distinct_conv_nth)
  show "master (gathers w ! h) < length (defs w)" using assms(1,3) by (simp add: masters_ok_def)
qed

text \<open>A step that is about no call, and one that is about call \<open>h\<close>.\<close>

lemma whens_frame:
  assumes "whens_ok w" "gathers u = gathers w" "length (defs w) \<le> length (defs u)"
    and "\<And>g i n. When_called g i n \<in> set (happened u) \<Longrightarrow> When_called g i n \<in> set (happened w)"
    and "\<And>g j. g < length (gathers w) \<Longrightarrow> j < length (defs w) \<Longrightarrow> view u g j = view w g j"
    and "\<And>g j. length (defs w) \<le> j \<Longrightarrow> j < length (defs u) \<Longrightarrow> view u g j = (Pending, [], [], [])"
  shows "whens_ok u"
  unfolding whens_ok_def
proof (intro conjI allI impI)
  fix g assume "g < length (gathers u)" "plain_parts (gathers u ! g)"
  then have g: "g < length (gathers w)" "this_ok g 0 w" using assms(1,2) by (simp_all add: whens_ok_def)
  show "this_ok g 0 u" using this_frame [OF g(2) _ assms(3) assms(5) [OF g(1)] assms(6)] assms(2) by simp
next
  fix g i n assume "When_called g i n \<in> set (happened u)"
  then show "\<not> plain_parts (gathers u ! g)" using assms(1,2,4) unfolding whens_ok_def by metis
qed

lemma whens_call:
  assumes "whens_ok w" "length (gathers u) = length (gathers w)" "\<And>g. parts (gathers u ! g) = parts (gathers w ! g)"
    and "happened u = happened w"
    and "\<And>g. g < length (gathers w) \<Longrightarrow> g \<noteq> h \<Longrightarrow> this_ok g 0 w \<Longrightarrow> this_ok g 0 u"
    and "plain_parts (gathers w ! h) \<Longrightarrow> h < length (gathers w) \<Longrightarrow> this_ok h 0 w \<Longrightarrow> this_ok h 0 u"
  shows "whens_ok u"
  unfolding whens_ok_def
proof (intro conjI allI impI)
  fix g assume g: "g < length (gathers u)" "plain_parts (gathers u ! g)"
  then have w: "g < length (gathers w)" "plain_parts (gathers w ! g)"
    using assms(2) plain_parts_cong [OF assms(3) [of g]] by simp_all
  then have "this_ok g 0 w" using assms(1) by (simp add: whens_ok_def)
  then show "this_ok g 0 u" using assms(5) [OF w(1)] assms(6) w by (cases "g = h") simp_all
next
  fix g i n assume "When_called g i n \<in> set (happened u)"
  then have "\<not> plain_parts (gathers w ! g)" using assms(1,4) unfolding whens_ok_def by metis
  then show "\<not> plain_parts (gathers u ! g)" unfolding plain_parts_cong [OF assms(3) [of g]] .
qed

lemma whens_settle:
  assumes "whens_ok w" "i < length (defs w)" "\<And>g. g < length (gathers w) \<Longrightarrow> i \<noteq> master (gathers w ! g)"
  shows "whens_ok (settle good i us w)"
  by (rule whens_call [OF assms(1), where h = "length (gathers w)"]) (use assms(2,3) this_settle_other in simp_all)

lemma whens_settle_master:
  assumes "whens_ok w" "masters_ok w" "h < length (gathers w)"
    and "plain_parts (gathers w ! h) \<Longrightarrow> this_ok h 0 (settle good (master (gathers w ! h)) us w)"
  shows "whens_ok (settle good (master (gathers w ! h)) us w)"
proof (rule whens_call [OF assms(1), where h = h])
  fix g assume g: "g < length (gathers w)" "g \<noteq> h" "this_ok g 0 w"
  show "this_ok g 0 (settle good (master (gathers w ! h)) us w)"
    by (rule this_settle_other [OF g(3)]) (use masters_distinct [OF assms(2) g(1) assms(3) g(2)] in simp_all)
qed (use assms(4) in simp_all)

lemma whens_fill:
  assumes "whens_ok w" "masters_ok w" "h < length (gathers w)"
    and "plain_parts (gathers w ! h) \<Longrightarrow> this_ok h 0 (fill_slot h x us w)"
  shows "whens_ok (fill_slot h x us w)"
proof (rule whens_call [OF assms(1), where h = h])
  fix g assume g: "g < length (gathers w)" "g \<noteq> h" "this_ok g 0 w"
  show "this_ok g 0 (fill_slot h x us w)"
    by (rule this_fill_other [OF g(3,2)]) (use masters_distinct [OF assms(2) g(1) assms(3) g(2)] in simp_all)
qed (use assms(4) in \<open>simp_all add: fill_keeps\<close>)

section \<open>A new call\<close>

definition plain_part :: "val \<Rightarrow> bool" where
  "plain_part v = (case v of Thenable m \<Rightarrow> False | _ \<Rightarrow> True)"

lemma plain_parts_all: "plain_parts q \<longleftrightarrow> list_all plain_part (parts q)"
  by (simp add: plain_parts_def plain_part_def [abs_def])

lemma adopts_keep:
  "length (gathers (adopt_values h i vs w)) = length (gathers w)" "length (defs (adopt_values h i vs w)) = length (defs w)"
  "parts (gathers (adopt_values h i vs w) ! g) = parts (gathers w ! g)"
  "master (gathers (adopt_values h i vs w) ! g) = master (gathers w ! g)"
  by (induction vs arbitrary: i) (simp_all add: adopt_keeps)

lemma adopts_happened:
  "When_called g y n \<in> set (happened (adopt_values h i vs w)) \<Longrightarrow>
     When_called g y n \<in> set (happened w) \<or> (g = h \<and> Thenable n \<in> set vs)"
proof (induction vs arbitrary: i)
  case (Cons v vs)
  then have "When_called g y n \<in> set (happened (adopt_values h (Suc i) vs w)) \<or> (g = h \<and> v = Thenable n)"
    by (auto simp: adopt_value_def add_done_facts add_fail_facts fill_keeps split: val.splits)
  then show ?case using Cons.IH by auto
qed simp

lemma this_adopts:
  assumes "this_ok h (i + length vs) w" "h < length (gathers w)" "drop i (parts (gathers w ! h)) = vs" "list_all plain_part vs"
    "i + length vs = length (parts (gathers w ! h))"
  shows "this_ok h i (adopt_values h i vs w)"
  using assms
proof (induction vs arbitrary: i)
  case (Cons v vs)
  have v: "parts (gathers w ! h) ! i = v" "drop (Suc i) (parts (gathers w ! h)) = vs" "i < length (parts (gathers w ! h))"
    using Cons.prems(3,5) by (auto simp: drop_Suc nth_via_drop tl_drop [symmetric])
  have "this_ok h (Suc i) (adopt_values h (Suc i) vs w)"
    using Cons.IH [of "Suc i"] Cons.prems v(2) by simp
  then show ?case
    using this_adopt [of h i "adopt_values h (Suc i) vs w" v] Cons.prems(2,4) v(1,3) by (simp add: adopts_keep plain_part_def)
qed simp

lemma this_adopts_other:
  assumes "this_ok g 0 w" "g \<noteq> h" "master (gathers w ! h) < length (defs w)" "master (gathers w ! h) \<noteq> master (gathers w ! g)"
    and "list_all (known w) vs"
  shows "this_ok g 0 (adopt_values h i vs w)"
  using assms(5)
proof (induction vs arbitrary: i)
  case (Cons v vs)
  have "known (adopt_values h (Suc i) vs w) v" using Cons.prems by (cases v) (simp_all add: known_def adopts_keep)
  then show ?case using this_adopt_other [OF _ assms(2)] Cons assms(3,4) by (simp add: adopts_keep)
qed (simp add: assms(1))

definition begun_gathering :: "val list \<Rightarrow> promises \<Rightarrow> promises" where
  "begun_gathering vs w = (new_deferred w)\<lparr>gathers := gathers w @
     [\<lparr>master = length (defs w), parts = vs, remaining = int (length vs), slots = vs\<rparr>]\<rparr>"

lemma when_all_alt: "when_all vs w = adopt_values (length (gathers w)) 0 vs (begun_gathering vs w)"
  by (simp add: when_all_def begun_gathering_def)

lemma begun_gathering_simps [simp]:
  "length (defs (begun_gathering vs w)) = Suc (length (defs w))" "length (gathers (begun_gathering vs w)) = Suc (length (gathers w))"
  "gathers (begun_gathering vs w) ! length (gathers w) =
     \<lparr>master = length (defs w), parts = vs, remaining = int (length vs), slots = vs\<rparr>"
  "g < length (gathers w) \<Longrightarrow> gathers (begun_gathering vs w) ! g = gathers w ! g"
  "happened (begun_gathering vs w) = happened w"
  by (simp_all add: begun_gathering_def nth_append)

lemma view_begun:
  "j < length (defs w) \<Longrightarrow> view (begun_gathering vs w) g j = view w g j"
  "view (begun_gathering vs w) g (length (defs w)) = (Pending, [], [], [])"
  by (simp_all add: view_def begun_gathering_def new_deferred_def nth_append view_fresh)

lemma view_unborn:
  assumes "listeners_ok w" "j < length (defs w)"
  shows "view w (length (gathers w)) j = (settled (defs w ! j), [], [], [])"
proof -
  have d: "defs w ! j \<in> set (defs w)" using assms(2) by simp
  have n: "\<not> concerns (length (gathers w)) l" if "listener_ok w l" for l using that by (cases l) (simp_all add: listener_ok_def)
  have "list_all (listener_ok w) (dones (defs w ! j)) \<and> list_all (listener_ok w) (fails (defs w ! j)) \<and>
      list_all (listener_ok w) (map fst (ringing (defs w ! j)))"
    using assms(1) d unfolding listeners_ok_def by blast
  then show ?thesis using n by (auto simp: view_def view_of_def filter_empty_conv list_all_iff)
qed

lemma this_begun:
  assumes "listeners_ok w" "list_all plain_part vs" "list_all (known w) vs"
  shows "this_ok (length (gathers w)) (length vs) (begun_gathering vs w)"
proof -
  let ?h = "length (gathers w)" and ?n = "length (defs w)" and ?V = "view (begun_gathering vs w) (length (gathers w))"
  let ?q = "\<lparr>master = length (defs w), parts = vs, remaining = int (length vs), slots = vs\<rparr>"
  have a: "\<not> adopts (length vs) ?q y j" for y j by (simp add: adopts_def)
  have v: "view_ok ?h (length vs) ?q j (?V j)" if j: "j < Suc ?n" for j
  proof -
    obtain o' where "?V j = (o', [], [], [])"
      using j view_unborn [OF assms(1), of j] view_begun(1) [of j w vs ?h] view_begun(2) [of vs w ?h] by (cases "j = ?n") auto
    then show ?thesis by (simp add: view_ok_def a)
  qed
  have s: "shape_ok (length vs) (Suc ?n) ?q"
    using assms(2,3) by (auto simp: shape_ok_def list_all_iff plain_part_def known_def split: val.splits)
  have "open_parts ?h (length vs) ?q ?V = {i. i < length vs}" by (auto simp: open_parts_def)
  moreover have "result_ok ?h (length vs) ?q ?V" by (simp add: result_ok_def view_begun)
  ultimately show ?thesis using s v by (simp add: this_ok_def gather_ok_def)
qed

lemma whens_all:
  assumes "whens_ok w" "promises_ok w" "list_all (known w) vs"
  shows "whens_ok (when_all vs w)"
  unfolding whens_ok_def
proof (intro conjI allI impI)
  let ?h = "length (gathers w)" and ?u = "begun_gathering vs w"
  have p: "parts (gathers (when_all vs w) ! g) = parts (gathers ?u ! g)" for g by (simp add: when_all_alt adopts_keep)
  fix g assume g: "g < length (gathers (when_all vs w))" "plain_parts (gathers (when_all vs w) ! g)"
  then have l: "g < Suc ?h" "plain_parts (gathers ?u ! g)" using plain_parts_cong [OF p] by (simp_all add: when_all_alt adopts_keep)
  show "this_ok g 0 (when_all vs w)"
  proof (cases "g = ?h")
    case True
    then have "list_all plain_part vs" using l(2) by (simp add: plain_parts_all)
    then show ?thesis
      using this_adopts [of ?h 0 vs ?u] this_begun [OF promises_parts(2) [OF assms(2)] _ assms(3)] True by (simp add: when_all_alt)
  next
    case False
    then have old: "g < ?h" "this_ok g 0 w" using l assms(1) by (simp_all add: whens_ok_def)
    have new: "view ?u g j = (Pending, [], [], [])" if "length (defs w) \<le> j" "j < length (defs ?u)" for j
    proof -
      have "j = length (defs w)" using that by simp
      then show ?thesis by (simp add: view_begun(2))
    qed
    have u: "this_ok g 0 ?u" using this_frame [OF old(2) _ _ view_begun(1) new] old(1) by simp
    have k: "list_all (known ?u) vs" using knowns_mono [OF assms(3)] by simp
    have "master (gathers w ! g) < length (defs w)" using promises_parts(4) [OF assms(2)] old(1) by (simp add: masters_ok_def)
    then show ?thesis using this_adopts_other [OF u False _ _ k, of 0] old(1) by (simp add: when_all_alt)
  qed
next
  fix g i n assume "When_called g i n \<in> set (happened (when_all vs w))"
  then consider "When_called g i n \<in> set (happened w)" | "g = length (gathers w)" "Thenable n \<in> set vs"
    using adopts_happened [of g i n "length (gathers w)" 0 vs "begun_gathering vs w"] by (auto simp: when_all_alt)
  then show "\<not> plain_parts (gathers (when_all vs w) ! g)"
  proof cases
    case 1
    then have "g < length (gathers w)" "\<not> plain_parts (gathers w ! g)"
      using promises_parts(2) [OF assms(2)] assms(1) unfolding listeners_ok_def whens_ok_def by blast+
    then show ?thesis by (simp add: plain_parts_all when_all_alt adopts_keep)
  next
    case 2
    then show ?thesis
      by (simp add: plain_parts_all when_all_alt adopts_keep list_all_iff) (rule bexI [of _ "Thenable n"]; simp add: plain_part_def)
  qed
qed

section \<open>A function is called\<close>

abbreviation taken :: "nat \<Rightarrow> (listener \<times> val list) list \<Rightarrow> promises \<Rightarrow> promises" where
  "taken i r w \<equiv> update_def i (\<lambda>d. d\<lparr>ringing := r\<rparr>) w"

lemma this_taken:
  assumes "this_ok g 0 w" "i < length (defs w)" "ringing (defs w ! i) = (l, us) # r" "\<not> concerns g l"
  shows "this_ok g 0 (taken i r w)"
  by (rule this_frame [OF assms(1)]) (use view_pop [OF assms(2,3), of g] assms(4) in simp_all)

lemma taken_slot:
  assumes "this_ok h 0 w" "h < length (gathers w)" "i < length (defs w)" "ringing (defs w ! i) = (Slot h x, us) # r"
  shows "this_ok h 0 (fill_slot h x us (taken i r w))"
proof (rule this_filled)
  have rs: "rs (view w h i) = (Slot h x, us) # filter (\<lambda>r. concerns h (fst r)) r" using assms(4) by (simp add: view_def view_of_def)
  show "gather_ok h 0 (length (defs (taken i r w))) (filled_with x (call_value us) (gathers (taken i r w) ! h)) (view (taken i r w) h)"
    using gather_ring_slot(1) [OF assms(1) [unfolded this_ok_def] assms(3) rs] view_pop [OF assms(3,4), of h] by simp
qed (simp add: assms(2))

lemma taken_reject:
  assumes "this_ok h 0 w" "h < length (gathers w)" "i < length (defs w)" "ringing (defs w ! i) = (Reject_master h, us) # r"
  shows "this_ok h 0 (settle False (master (gathers w ! h)) us (taken i r w))"
proof -
  have rs: "rs (view w h i) = (Reject_master h, us) # filter (\<lambda>r. concerns h (fst r)) r" using assms(4) by (simp add: view_def view_of_def)
  note g = gather_ring_reject [OF assms(1) [unfolded this_ok_def] assms(3) rs]
  have u: "this_ok h 0 (taken i r w)" using g(1) view_pop [OF assms(3,4), of h] by (simp add: this_ok_def)
  have "settled (defs (taken i r w) ! i) = Rejected us" using g(3) assms(3) by (simp add: st_view)
  then show ?thesis using this_settle_master [OF u, of False us] g(2) assms(2) by auto
qed

lemma whens_ring:
  assumes "whens_ok w" "promises_ok w" "i < length (defs w)"
  shows "whens_ok (ring i w)"
proof (cases "ringing (defs w ! i)")
  case (Cons e r)
  obtain l us where e: "e = (l, us)" by (cases e)
  note c = Cons [unfolded e]
  note m = promises_parts(4) [OF assms(2)]
  have d: "defs w ! i \<in> set (defs w)" using assms(3) by simp
  have l: "listener_ok w l" using promises_parts(2) [OF assms(2)] d c by (fastforce simp: listeners_ok_def)
  have t: "this_ok g 0 (taken i r w)" if "this_ok g 0 w" "\<not> concerns g l" for g using this_taken [OF that(1) assms(3) c that(2)] .
  show ?thesis
  proof (cases l)
    case (Listener f)
    have u: "ring i w = emit_all [Listener_called i f us] (taken i r w)" using c Listener by (simp add: ring_def)
    have v: "view (emit_all [Listener_called i f us] (taken i r w)) g = view w g" for g
      using view_pop [OF assms(3) c, of g] Listener by (simp add: view_def fun_eq_iff)
    show ?thesis unfolding u by (rule whens_frame [OF assms(1)]) (simp_all add: v)
  next
    case (Slot h x)
    have u: "ring i w = fill_slot h x us (taken i r w)" using c Slot by (simp add: ring_def)
    have h: "h < length (gathers w)" using l Slot by (simp add: listener_ok_def)
    show ?thesis
      unfolding u
    proof (rule whens_call [OF assms(1), where h = h])
      fix g assume g: "g < length (gathers w)" "g \<noteq> h" "this_ok g 0 w"
      show "this_ok g 0 (fill_slot h x us (taken i r w))"
        by (rule this_fill_other [OF t [OF g(3)] g(2)]) (use g Slot masters_distinct [OF m g(1) h g(2)] in simp_all)
    next
      show "this_ok h 0 (fill_slot h x us (taken i r w))" if "this_ok h 0 w"
        using taken_slot [OF that h assms(3)] c Slot by simp
    qed (simp_all add: fill_keeps)
  next
    case (Reject_master h)
    have u: "ring i w = settle False (master (gathers w ! h)) us (taken i r w)" using c Reject_master by (simp add: ring_def)
    have h: "h < length (gathers w)" using l Reject_master by (simp add: listener_ok_def)
    show ?thesis
      unfolding u
    proof (rule whens_call [OF assms(1), where h = h])
      fix g assume g: "g < length (gathers w)" "g \<noteq> h" "this_ok g 0 w"
      show "this_ok g 0 (settle False (master (gathers w ! h)) us (taken i r w))"
        by (rule this_settle_other [OF t [OF g(3)]]) (use g Reject_master masters_distinct [OF m g(1) h g(2)] in simp_all)
    next
      show "this_ok h 0 (settle False (master (gathers w ! h)) us (taken i r w))" if "this_ok h 0 w"
        using taken_reject [OF that h assms(3)] c Reject_master by simp
    qed simp_all
  qed
qed (simp add: ring_def assms(1))

section \<open>No call is forgotten\<close>

text \<open>While the promise of a call is pending, an argument is missing, and each rejected argument will be reported. Unlike
  \<open>gather_ok\<close> this holds for all calls, those with foreign thenables included.\<close>

definition owed :: "nat \<Rightarrow> view \<Rightarrow> bool" where
  "owed g v =
     (case st v of Pending \<Rightarrow> Reject_master g \<in> set (fs v) | Resolved us \<Rightarrow> True | Rejected us \<Rightarrow> Reject_master g \<in> fst ` set (rs v))"

definition live_ok :: "nat \<Rightarrow> nat \<Rightarrow> promises \<Rightarrow> bool" where
  "live_ok g k w \<longleftrightarrow>
     (let q = gathers w ! g
      in 2 \<le> length (parts q) \<and> master q < length (defs w) \<and> (\<forall>j. Promise j \<in> set (parts q) \<longrightarrow> j < length (defs w)) \<and>
         (settled (defs w ! master q) = Pending \<longrightarrow>
            remaining q \<noteq> 0 \<and> (\<forall>i j. adopts k q i j \<longrightarrow> owed g (view w g j))))"

definition lives_ok :: "promises \<Rightarrow> bool" where
  "lives_ok w \<longleftrightarrow> (\<forall>g < length (gathers w). live_ok g 0 w)"

lemma live_step:
  assumes "live_ok g k w" "parts (gathers u ! g) = parts (gathers w ! g)" "master (gathers u ! g) = master (gathers w ! g)"
    and "length (defs w) \<le> length (defs u)"
    and "settled (defs u ! master (gathers w ! g)) = Pending \<Longrightarrow> settled (defs w ! master (gathers w ! g)) = Pending \<and>
      (remaining (gathers u ! g) = 0 \<longrightarrow> remaining (gathers w ! g) = 0) \<and>
      (\<forall>j < length (defs w). owed g (view w g j) \<longrightarrow> owed g (view u g j))"
  shows "live_ok g k u"
proof -
  have "adopts k (gathers u ! g) = adopts k (gathers w ! g)" using assms(2) by (simp add: adopts_def fun_eq_iff)
  moreover have "j < length (defs w)" if "adopts k (gathers w ! g) i j" for i j
    using assms(1) that nth_mem by (fastforce simp: live_ok_def adopts_def Let_def)
  ultimately show ?thesis using assms(1,3-5) unfolding live_ok_def Let_def assms(2) by (auto intro: less_le_trans)
qed

lemma live_same:
  assumes "live_ok g k w" "gathers u ! g = gathers w ! g" "length (defs w) \<le> length (defs u)"
    and "\<And>j. j < length (defs w) \<Longrightarrow> view u g j = view w g j"
  shows "live_ok g k u"
proof (rule live_step [OF assms(1)])
  have "master (gathers w ! g) < length (defs w)" using assms(1) by (simp add: live_ok_def Let_def)
  then have "settled (defs u ! master (gathers w ! g)) = settled (defs w ! master (gathers w ! g))"
    using assms(4) [of "master (gathers w ! g)"] st_view by metis
  then show "settled (defs w ! master (gathers w ! g)) = Pending \<and>
      (remaining (gathers u ! g) = 0 \<longrightarrow> remaining (gathers w ! g) = 0) \<and>
      (\<forall>j < length (defs w). owed g (view w g j) \<longrightarrow> owed g (view u g j))"
    if "settled (defs u ! master (gathers w ! g)) = Pending" using that assms(2,4) by simp
qed (use assms(2,3) in simp_all)

lemma live_done:
  assumes "live_ok g k w" "parts (gathers u ! g) = parts (gathers w ! g)" "master (gathers u ! g) = master (gathers w ! g)"
    and "length (defs w) \<le> length (defs u)" "settled (defs u ! master (gathers w ! g)) \<noteq> Pending"
  shows "live_ok g k u"
  by (rule live_step [OF assms(1-4)]) (use assms(5) in simp)

lemma settle_settles: "i < length (defs w) \<Longrightarrow> settled (defs (settle good i us w) ! i) \<noteq> Pending"
  by (cases "settled (defs w ! i) = Pending") (simp_all add: settle_settled settle_pending)

lemma live_settle:
  assumes "live_ok g k w" "i < length (defs w)"
  shows "live_ok g k (settle good i us w)"
proof (cases "settled (defs w ! i) = Pending")
  case True
  show ?thesis
  proof (rule live_step [OF assms(1)])
    assume p: "settled (defs (settle good i us w) ! master (gathers w ! g)) = Pending"
    then have "i \<noteq> master (gathers w ! g)" using settle_settles [OF assms(2)] by blast
    then have "settled (defs w ! master (gathers w ! g)) = Pending" using p settle_other [of "master (gathers w ! g)" i good us w] by simp
    moreover have "owed g (view w g i) \<longrightarrow> owed g (settled_view good us (view w g i))"
      using True by (auto simp: owed_def settled_view_def outcome_of_def st_view image_image)
    ultimately show "settled (defs w ! master (gathers w ! g)) = Pending \<and>
      (remaining (gathers (settle good i us w) ! g) = 0 \<longrightarrow> remaining (gathers w ! g) = 0) \<and>
      (\<forall>j < length (defs w). owed g (view w g j) \<longrightarrow> owed g (view (settle good i us w) g j))"
      by (simp add: view_settle [OF assms(2) True])
  qed simp_all
qed (simp add: settle_settled assms(1))

lemma live_fill:
  assumes "live_ok g k w" "h < length (gathers w)" "master (gathers w ! h) < length (defs w)"
  shows "live_ok g k (fill_slot h x us w)"
proof -
  let ?q = "filled_with x (call_value us) (gathers w ! h)"
  let ?u = "w\<lparr>gathers := (gathers w)[h := ?q]\<rparr>"
  have v: "view ?u g = view w g" by (simp add: view_def fun_eq_iff)
  show ?thesis
  proof (cases "g = h \<and> remaining ?q = 0")
    case True
    then have "settled (defs (fill_slot h x us w) ! master (gathers w ! g)) \<noteq> Pending"
      using settle_settles [of "master (gathers w ! h)" ?u] assms(3) by (simp add: fill_slot_eq)
    then show ?thesis by (intro live_done [OF assms(1)]) (simp_all add: fill_keeps)
  next
    case False
    then have "remaining (gathers ?u ! g) = 0 \<longrightarrow> remaining (gathers w ! g) = 0" using assms(2) by (cases "g = h") simp_all
    moreover have "parts (gathers ?u ! g) = parts (gathers w ! g) \<and> master (gathers ?u ! g) = master (gathers w ! g)"
      using assms(2) by (cases "g = h") simp_all
    ultimately have "live_ok g k ?u" by (intro live_step [OF assms(1)]) (simp_all add: v)
    then have "live_ok g k (settle True (master (gathers w ! h)) vs ?u)" for vs using live_settle assms(3) by simp
    then show ?thesis using \<open>live_ok g k ?u\<close> unfolding fill_slot_eq Let_def by (simp only: filled_simps split: if_split) simp
  qed
qed

lemma live_adopt:
  assumes "live_ok h (Suc x) w" "h < length (gathers w)" "parts (gathers w ! h) ! x = v" "x < length (parts (gathers w ! h))"
  shows "live_ok h x (adopt_value h x v w)"
proof -
  have a: "adopts x q y j \<longleftrightarrow> adopts (Suc x) q y j \<or> (y = x \<and> v = Promise j)" if "parts q = parts (gathers w ! h)" for q y j
    using adopts_Suc [of x q y j] assms(3,4) that by simp
  have m: "master (gathers w ! h) < length (defs w)" using assms(1) by (simp add: live_ok_def Let_def)
  have plain: "live_ok h x u" if "live_ok h (Suc x) u" "parts (gathers u ! h) = parts (gathers w ! h)" "\<And>j. v \<noteq> Promise j" for u
    using that a [OF that(2)] by (simp add: live_ok_def Let_def)
  show ?thesis
  proof (cases v)
    case (Promise j)
    let ?u = "add_fail (Reject_master h) j (add_done (Slot h x) j w)"
    have j: "j < length (defs w)" using assms(1,3,4) Promise nth_mem by (fastforce simp: live_ok_def Let_def)
    have o: "owed h (adopted h x (view w h j))" by (simp add: owed_def adopted_def split: outcome.split)
    have "owed h (view ?u h i)" if "adopts x (gathers w ! h) y i" "adopts (Suc x) (gathers w ! h) y i \<Longrightarrow> owed h (view w h i)" for y i
      using that a [of "gathers w ! h" y i] Promise o by (auto simp: view_adopt [OF j])
    moreover have "gathers ?u = gathers w" "length (defs ?u) = length (defs w)" by (simp_all add: add_done_facts add_fail_facts)
    moreover have "settled (defs ?u ! d) = settled (defs w ! d)" for d by (simp add: add_done_facts add_fail_facts)
    ultimately have "live_ok h x ?u" using assms(1) unfolding live_ok_def Let_def by presburger
    then show ?thesis by (simp add: adopt_value_def Promise)
  next
    case (Thenable n)
    have "live_ok h (Suc x) (emit_all [When_called h x n] w)" by (rule live_same [OF assms(1)]) (simp_all add: view_def)
    then show ?thesis using plain Thenable by (simp add: adopt_value_def)
  qed (use plain live_fill [OF assms(1,2) m] in \<open>simp_all add: adopt_value_def fill_keeps\<close>)
qed

lemma live_adopt_other:
  assumes "live_ok g k w" "g \<noteq> h" "h < length (gathers w)" "master (gathers w ! h) < length (defs w)" "known w v"
  shows "live_ok g k (adopt_value h x v w)"
proof (cases v)
  case (Promise j)
  then have j: "j < length (defs w)" using assms(5) by (simp add: known_def)
  show ?thesis
    by (rule live_same [OF assms(1)]) (use assms(2) j in \<open>simp_all add: Promise adopt_value_def view_add add_done_facts add_fail_facts\<close>)
next
  case (Thenable n)
  show ?thesis by (rule live_same [OF assms(1)]) (simp_all add: Thenable adopt_value_def view_def)
qed (use live_fill [OF assms(1,3,4)] in \<open>simp_all add: adopt_value_def\<close>)

lemma live_adopts:
  assumes "live_ok h (i + length vs) w" "h < length (gathers w)" "drop i (parts (gathers w ! h)) = vs"
    "i + length vs = length (parts (gathers w ! h))"
  shows "live_ok h i (adopt_values h i vs w)"
  using assms
proof (induction vs arbitrary: i)
  case (Cons v vs)
  have v: "parts (gathers w ! h) ! i = v" "drop (Suc i) (parts (gathers w ! h)) = vs" "i < length (parts (gathers w ! h))"
    using Cons.prems(3,4) by (auto simp: drop_Suc nth_via_drop tl_drop [symmetric])
  have "live_ok h (Suc i) (adopt_values h (Suc i) vs w)" using Cons.IH [of "Suc i"] Cons.prems v(2) by simp
  then show ?case
    using live_adopt [of h i "adopt_values h (Suc i) vs w" v] Cons.prems(2) v(1,3) by (simp add: adopts_keep)
qed simp

lemma live_adopts_other:
  assumes "live_ok g k w" "g \<noteq> h" "h < length (gathers w)" "master (gathers w ! h) < length (defs w)" "list_all (known w) vs"
  shows "live_ok g k (adopt_values h i vs w)"
  using assms(5)
proof (induction vs arbitrary: i)
  case (Cons v vs)
  have "known (adopt_values h (Suc i) vs w) v" using Cons.prems by (cases v) (simp_all add: known_def adopts_keep)
  then show ?case using live_adopt_other [OF _ assms(2)] Cons assms(3,4) by (simp add: adopts_keep)
qed (simp add: assms(1))

lemma lives_all:
  assumes "lives_ok w" "list_all (known w) vs" "2 \<le> length vs"
  shows "lives_ok (when_all vs w)"
  unfolding lives_ok_def
proof (intro allI impI)
  let ?h = "length (gathers w)" and ?u = "begun_gathering vs w"
  have k: "list_all (known ?u) vs" using knowns_mono [OF assms(2)] by simp
  fix g assume g: "g < length (gathers (when_all vs w))"
  show "live_ok g 0 (when_all vs w)"
  proof (cases "g = ?h")
    case True
    have "j < Suc (length (defs w))" if "Promise j \<in> set vs" for j using assms(2) that by (auto simp: list_all_iff known_def)
    then have "live_ok ?h (length vs) ?u" using assms(3) by (auto simp: live_ok_def Let_def adopts_def)
    then show ?thesis using live_adopts [of ?h 0 vs ?u] True by (simp add: when_all_alt)
  next
    case False
    then have old: "g < ?h" "live_ok g 0 w" using g assms(1) by (simp_all add: lives_ok_def when_all_alt adopts_keep)
    have "live_ok g 0 ?u" by (rule live_same [OF old(2)]) (use old(1) in \<open>simp_all add: view_begun(1)\<close>)
    then show ?thesis using live_adopts_other [OF _ False _ _ k, of 0] by (simp add: when_all_alt)
  qed
qed

lemma lives_frame:
  assumes "lives_ok w" "gathers u = gathers w" "length (defs w) \<le> length (defs u)"
    and "\<And>g j. j < length (defs w) \<Longrightarrow> view u g j = view w g j"
  shows "lives_ok u"
  using assms live_same unfolding lives_ok_def by metis

lemma lives_settle: "lives_ok w \<Longrightarrow> i < length (defs w) \<Longrightarrow> lives_ok (settle good i us w)"
  by (simp add: lives_ok_def live_settle)

lemma lives_fill:
  "lives_ok w \<Longrightarrow> h < length (gathers w) \<Longrightarrow> master (gathers w ! h) < length (defs w) \<Longrightarrow> lives_ok (fill_slot h x us w)"
  by (simp add: lives_ok_def live_fill fill_keeps)

lemma live_taken:
  assumes "live_ok g k w" "i < length (defs w)" "ringing (defs w ! i) = (l, us) # r" "l \<noteq> Reject_master g"
  shows "live_ok g k (taken i r w)"
proof (rule live_step [OF assms(1)])
  have s: "settled (defs (taken i r w) ! j) = settled (defs w ! j)" for j using assms(2) by (simp add: nth_list_update)
  have "rs (view w g i) = (l, us) # tl (rs (view w g i))" if "concerns g l" using assms(3) that by (simp add: view_def view_of_def)
  then have "owed g (view w g i) \<longrightarrow> owed g (popped (view w g i))" if "concerns g l"
    using assms(4) that by (cases "rs (view w g i)") (auto simp: owed_def split: outcome.splits)
  then show "settled (defs w ! master (gathers w ! g)) = Pending \<and>
      (remaining (gathers (taken i r w) ! g) = 0 \<longrightarrow> remaining (gathers w ! g) = 0) \<and>
      (\<forall>j < length (defs w). owed g (view w g j) \<longrightarrow> owed g (view (taken i r w) g j))"
    if "settled (defs (taken i r w) ! master (gathers w ! g)) = Pending"
    using that unfolding s view_pop [OF assms(2,3)] by simp
qed simp_all

lemma lives_ring:
  assumes "lives_ok w" "promises_ok w" "i < length (defs w)"
  shows "lives_ok (ring i w)"
proof (cases "ringing (defs w ! i)")
  case (Cons e r)
  obtain l us where e: "e = (l, us)" by (cases e)
  note c = Cons [unfolded e]
  have "defs w ! i \<in> set (defs w)" using assms(3) by simp
  then have l: "listener_ok w l" using promises_parts(2) [OF assms(2)] c by (fastforce simp: listeners_ok_def)
  have t: "live_ok g 0 (taken i r w)" if "g < length (gathers w)" "l \<noteq> Reject_master g" for g
    using live_taken [OF _ assms(3) c that(2)] assms(1) that(1) by (simp add: lives_ok_def)
  have b: "h < length (gathers w) \<Longrightarrow> master (gathers w ! h) < length (defs w)" for h using link_bounds(2) [OF assms(2)] .
  show ?thesis
  proof (cases l)
    case (Listener f)
    then have "lives_ok (taken i r w)" using t by (simp add: lives_ok_def)
    then have "lives_ok (emit_all [Listener_called i f us] (taken i r w))" by (rule lives_frame) (simp_all add: view_def)
    then show ?thesis using c Listener by (simp add: ring_def)
  next
    case (Slot h x)
    then have "lives_ok (taken i r w)" using t by (simp add: lives_ok_def)
    then show ?thesis using lives_fill [of "taken i r w" h x us] l b c Slot by (simp add: ring_def listener_ok_def)
  next
    case (Reject_master h)
    have h: "h < length (gathers w)" "master (gathers w ! h) < length (defs w)" using l b Reject_master by (simp_all add: listener_ok_def)
    let ?u = "settle False (master (gathers w ! h)) us (taken i r w)"
    have "live_ok g 0 ?u" if "g < length (gathers w)" for g
    proof (cases "g = h")
      case True
      have "live_ok h 0 w" using assms(1) h(1) by (simp add: lives_ok_def)
      then show ?thesis
        unfolding True by (rule live_done) (use settle_settles [of "master (gathers w ! h)" "taken i r w"] h in simp_all)
    next
      case False
      then show ?thesis using live_settle t [OF that] Reject_master h(2) by simp
    qed
    then show ?thesis using c Reject_master by (simp add: ring_def lives_ok_def)
  qed
qed (simp add: ring_def assms(1))

section \<open>The laws hold\<close>

lemma whens_then:
  assumes "whens_ok w" "i < length (defs w)"
  shows "whens_ok (promise_then i h k w)"
proof (rule whens_frame [OF assms(1)])
  have "length (defs (promise_then i h k w)) = Suc (length (defs w))" by simp
  then show "view (promise_then i h k w) g j = (Pending, [], [], [])"
    if "length (defs w) \<le> j" "j < length (defs (promise_then i h k w))" for g j
    using that view_then(2) [OF assms(2), of j h k g] by simp
qed (use view_then(1) [OF assms(2)] in simp_all)

lemma whens_new: "whens_ok w \<Longrightarrow> whens_ok (new_deferred w)"
  by (erule whens_frame) (auto simp: view_def nth_append view_fresh less_Suc_eq)

lemma whens_listen:
  assumes "whens_ok w" "i < length (defs w)"
  shows "whens_ok (add_done (Listener f) i w)" "whens_ok (add_fail (Listener f) i w)"
  by (rule whens_frame [OF assms(1)]; simp add: add_done_facts add_fail_facts view_add [OF assms(2)])+

lemma whens_same:
  assumes "whens_ok w" "gathers u = gathers w" "defs u = defs w"
    and "\<And>g i n. When_called g i n \<in> set (happened u) \<Longrightarrow> When_called g i n \<in> set (happened w)"
  shows "whens_ok u"
  by (rule whens_frame [OF assms(1,2) _ assms(4)]) (simp_all add: assms(3) view_def)

lemma lives_then:
  assumes "lives_ok w" "i < length (defs w)"
  shows "lives_ok (promise_then i h k w)"
  by (rule lives_frame [OF assms(1)]) (use view_then(1) [OF assms(2)] in simp_all)

lemma lives_new: "lives_ok w \<Longrightarrow> lives_ok (new_deferred w)"
  by (erule lives_frame) (auto simp: view_def nth_append)

lemma lives_listen:
  assumes "lives_ok w" "i < length (defs w)"
  shows "lives_ok (add_done (Listener f) i w)" "lives_ok (add_fail (Listener f) i w)"
  by (rule lives_frame [OF assms(1)]; simp add: add_done_facts add_fail_facts view_add [OF assms(2)])+

lemma lives_same: "lives_ok w \<Longrightarrow> gathers u = gathers w \<Longrightarrow> defs u = defs w \<Longrightarrow> lives_ok u"
  by (erule lives_frame) (simp_all add: view_def)

definition gathers_ok :: "promises \<Rightarrow> bool" where
  "gathers_ok w \<longleftrightarrow> promises_ok w \<and> whens_ok w \<and> lives_ok w"

interpretation gathering_of: chaining_laws gathers_ok
proof unfold_locales
  show "gathers_ok no_promises"
    using resolution.start by (simp add: gathers_ok_def whens_ok_def lives_ok_def no_promises_def)
next
  fix w assume "gathers_ok w"
  then have p: "promises_ok w" and g: "whens_ok w" and l: "lives_ok w" by (simp_all add: gathers_ok_def)
  note m = promises_parts(4) [OF p]
  show "promises_ok w" by (rule p)
  show "gathers_ok (new_deferred w)" using resolution.new [OF p] whens_new [OF g] lives_new [OF l] by (simp add: gathers_ok_def)
  show "gathers_ok (settle good i vs w)" if "i < length (defs w)" "\<not> internal w i" "list_all (known w) vs" for i good vs
  proof -
    have "i \<noteq> master (gathers w ! h)" if "h < length (gathers w)" for h using \<open>\<not> internal w i\<close> that by (auto simp: internal_def)
    then show ?thesis using resolution.page_settle [OF p that] whens_settle [OF g that(1)] lives_settle [OF l that(1)] by (simp add: gathers_ok_def)
  qed
  show "gathers_ok (settle good (target (chains w ! c)) vs w)" if "resolving w c" "list_all (known w) vs" for c good vs
    using resolution.target_settle [OF p that] whens_settle [OF g link_bounds(1) [OF p that(1)]] lives_settle [OF l link_bounds(1) [OF p that(1)]] that(1) masters_targets(2) [OF m]
    by (auto simp: gathers_ok_def resolving_def)
  show "gathers_ok (promise_then i h k w)" if "i < length (defs w)" "handler_ok w h" "handler_ok w k" for i h k
    using resolution.chain [OF p that] whens_then [OF g that(1)] lives_then [OF l that(1)] by (simp add: gathers_ok_def)
  show "gathers_ok (deepen c w)" if "resolving w c" for c
    using resolution.deeper [OF p that] whens_same [OF g, of "deepen c w"] lives_same [OF l, of "deepen c w"] by (simp add: gathers_ok_def)
  show "gathers_ok (emit_all [Then_called c (max_depth (chains w ! c)) n] w)" if "resolving w c" "0 < max_depth (chains w ! c)" for c n
    using resolution.call_then [OF p that] whens_same [OF g, of "emit_all [Then_called c (max_depth (chains w ! c)) n] w"] lives_same [OF l, of "emit_all [Then_called c (max_depth (chains w ! c)) n] w"] by (simp add: gathers_ok_def)
  show "gathers_ok (emit_all [Started c good vs] (w\<lparr>timers := ts\<rparr>))" if "timers w = (c, good, vs) # ts" for c good vs ts
    using resolution.expire [OF p that] whens_same [OF g, of "emit_all [Started c good vs] (w\<lparr>timers := ts\<rparr>)"] lives_same [OF l, of "emit_all [Started c good vs] (w\<lparr>timers := ts\<rparr>)"] by (simp add: gathers_ok_def)
  show "gathers_ok (emit_all [Handler_called c f vs] (w\<lparr>awaiting := awaiting w @ [c]\<rparr>))"
    if "resolving w c" "max_depth (chains w ! c) = 0" "settled (defs w ! target (chains w ! c)) = Pending" for c f vs
    using resolution.call_handler [OF p that] whens_same [OF g, of "emit_all [Handler_called c f vs] (w\<lparr>awaiting := awaiting w @ [c]\<rparr>)"] lives_same [OF l, of "emit_all [Handler_called c f vs] (w\<lparr>awaiting := awaiting w @ [c]\<rparr>)"] by (simp add: gathers_ok_def)
  show "gathers_ok (w\<lparr>awaiting := remove1 c (awaiting w)\<rparr>)" if "c \<in> set (awaiting w)" for c
    using resolution.handler_ends [OF p that] whens_same [OF g, of "w\<lparr>awaiting := remove1 c (awaiting w)\<rparr>"] lives_same [OF l, of "w\<lparr>awaiting := remove1 c (awaiting w)\<rparr>"] by (simp add: gathers_ok_def)
  show "gathers_ok (add_done (Listener f) i w) \<and> gathers_ok (add_fail (Listener f) i w)" if "i < length (defs w)" for i f
    using resolution.steps.listen [OF p that] whens_listen [OF g that] lives_listen [OF l that] by (simp add: gathers_ok_def)
  show "gathers_ok (ring i w)" if "i < length (defs w)" for i
    using resolution.run_ring [OF p that] whens_ring [OF g p that] lives_ring [OF l p that] by (simp add: gathers_ok_def)
  show "gathers_ok (when_all vs w)" if "2 \<le> length vs" "list_all (known w) vs" for vs
    using resolution.run_when [OF p that(2)] whens_all [OF g p that(2)] lives_all [OF l that(2,1)] by (simp add: gathers_ok_def)
  fix h i n us assume h: "When_called h i n \<in> set (happened w)" and us: "list_all (known w) us"
  have q: "h < length (gathers w)" "\<not> plain_parts (gathers w ! h)"
    using h g promises_parts(2) [OF p] unfolding whens_ok_def listeners_ok_def by blast+
  show "gathers_ok (fill_slot h i us w)"
    using resolution.run_fill [OF p q(1) us] whens_fill [OF g m q(1)] lives_fill [OF l q(1) link_bounds(2) [OF p q(1)]] q(2) by (simp add: gathers_ok_def)
  show "gathers_ok (settle False (master (gathers w ! h)) us w)"
    using resolution.master_settle [OF p q(1) us] whens_settle_master [OF g m q(1)] lives_settle [OF l link_bounds(2) [OF p q(1)]] q(2) by (simp add: gathers_ok_def)
qed

text \<open>What the promise of \<open>when\<close> must hold for an argument.\<close>

definition collected :: "promises \<Rightarrow> val \<Rightarrow> val \<Rightarrow> bool" where
  "collected w v u =
     (case v of Promise j \<Rightarrow> (case settled (defs w ! j) of Resolved us \<Rightarrow> u = call_value us | _ \<Rightarrow> False) | _ \<Rightarrow> u = v)"

text \<open>An argument that is resolved, or rejected, and whose listeners have all been called.\<close>

definition answered :: "promises \<Rightarrow> val \<Rightarrow> bool" where
  "answered w v =
     (case v of Promise j \<Rightarrow> (case settled (defs w ! j) of Resolved us \<Rightarrow> ringing (defs w ! j) = [] | _ \<Rightarrow> False) | _ \<Rightarrow> True)"

definition declined :: "promises \<Rightarrow> val \<Rightarrow> bool" where
  "declined w v =
     (case v of Promise j \<Rightarrow> (case settled (defs w ! j) of Rejected us \<Rightarrow> ringing (defs w ! j) = [] | _ \<Rightarrow> False) | _ \<Rightarrow> False)"

lemma promise_settled:
  assumes "deferred_reach w" "g < length (gathers w)" "plain_parts (gathers w ! g)"
    and "list_all (answered w) (parts (gathers w ! g)) \<or> list_ex (declined w) (parts (gathers w ! g))"
  shows "settled (defs w ! master (gathers w ! g)) \<noteq> Pending"
proof
  let ?q = "gathers w ! g"
  assume "settled (defs w ! master ?q) = Pending"
  moreover have ok: "whens_ok w" "live_ok g 0 w"
    using gathering_of.reachable [OF assms(1)] assms(2) by (simp_all add: gathers_ok_def lives_ok_def)
  ultimately have l: "remaining ?q \<noteq> 0" "\<And>i j. adopts 0 ?q i j \<Longrightarrow> owed g (view w g j)"
    by (simp_all add: live_ok_def Let_def)
  have t: "gather_ok g 0 (length (defs w)) ?q (view w g)" using whens_this [OF ok(1)] assms(2,3) this_ok_def by blast
  have r: "rs (view w g j) = []" if "ringing (defs w ! j) = []" for j using that by (simp add: view_def view_of_def)
  show False
    using assms(4)
  proof
    assume a: "list_all (answered w) (parts ?q)"
    have "counted_part (view w g) g i (parts ?q ! i)" if "i < length (parts ?q)" for i
    proof -
      have "answered w (parts ?q ! i)" using a that by (simp add: list_all_length)
      moreover have "\<not> (case parts ?q ! i of Thenable n \<Rightarrow> True | _ \<Rightarrow> False)"
        using t nth_mem [OF that] by (fastforce simp: gather_ok_def shape_ok_def split: val.splits)
      ultimately show ?thesis using r by (auto simp: answered_def counted_part_def st_view split: val.splits outcome.splits)
    qed
    then have "open_parts g 0 ?q (view w g) = {}" by (auto simp: open_parts_def)
    then show False using t l(1) by (simp add: gather_ok_def)
  next
    assume "list_ex (declined w) (parts ?q)"
    then obtain i where i: "i < length (parts ?q)" "declined w (parts ?q ! i)" by (auto simp: list_ex_length)
    then obtain j us where j: "parts ?q ! i = Promise j" "settled (defs w ! j) = Rejected us" "ringing (defs w ! j) = []"
      by (auto simp: declined_def split: val.splits outcome.splits)
    then have "owed g (view w g j)" using l(2) [of i j] i(1) by (simp add: adopts_def)
    then show False using j r by (simp add: owed_def st_view)
  qed
qed

text \<open>C33: Whatever the page, the handlers and other calls do, and in whichever order the deferreds are settled: when the
  promise of a call of \<open>when\<close> (with two or more arguments, which are data or promises of jQuery) is resolved, all arguments
  are resolved and it has, at the place of each, its value (an array for several values); when it is rejected, one of the
  arguments is rejected, with the same values. It does not stay pending once all arguments are resolved, or one is
  rejected, and the listeners of these have been called.\<close>

theorem when_collects:
  assumes "deferred_reach w" "g < length (gathers w)" "plain_parts (gathers w ! g)"
  shows "(\<forall>us. settled (defs w ! master (gathers w ! g)) = Resolved us \<longrightarrow> list_all2 (collected w) (parts (gathers w ! g)) us) \<and>
    (\<forall>us. settled (defs w ! master (gathers w ! g)) = Rejected us \<longrightarrow>
      (\<exists>j. Promise j \<in> set (parts (gathers w ! g)) \<and> settled (defs w ! j) = Rejected us)) \<and>
    (list_all (answered w) (parts (gathers w ! g)) \<or> list_ex (declined w) (parts (gathers w ! g)) \<longrightarrow>
      settled (defs w ! master (gathers w ! g)) \<noteq> Pending)"
proof -
  let ?q = "gathers w ! g"
  have "whens_ok w" using gathering_of.reachable [OF assms(1)] by (simp add: gathers_ok_def)
  then have t: "gather_ok g 0 (length (defs w)) ?q (view w g)" using whens_this assms(2,3) this_ok_def by blast
  have r: "result_ok g 0 ?q (view w g)" and s: "length (slots ?q) = length (parts ?q)"
    and v: "\<forall>i < length (parts ?q). counted_part (view w g) g i (parts ?q ! i) \<longrightarrow> slots ?q ! i = part_value (view w g) (parts ?q ! i)"
    using t by (simp_all add: gather_ok_def shape_ok_def)
  have "list_all2 (collected w) (parts ?q) us" if "settled (defs w ! master ?q) = Resolved us" for us
  proof -
    have u: "us = slots ?q" "open_parts g 0 ?q (view w g) = {}" using r that by (simp_all add: result_ok_def st_view)
    have "collected w (parts ?q ! i) (us ! i)" if "i < length (parts ?q)" for i
    proof -
      have "counted_part (view w g) g i (parts ?q ! i)" using u(2) that by (auto simp: open_parts_def)
      then show ?thesis
        using v that u(1) by (auto simp: collected_def counted_part_def part_value_def st_view split: val.splits outcome.splits)
    qed
    then show ?thesis using s u(1) by (simp add: list_all2_conv_all_nth)
  qed
  moreover have "\<exists>j. Promise j \<in> set (parts ?q) \<and> settled (defs w ! j) = Rejected us" if "settled (defs w ! master ?q) = Rejected us" for us
    using r that by (simp add: result_ok_def st_view)
  ultimately show ?thesis using promise_settled [OF assms] by blast
qed

text \<open>Two deferreds, a call with both and a datum between them; the second is resolved first, with two values.\<close>

definition run_gathered :: promises where
  "run_gathered =
     ring 0 (settle True 0 [Plain (JBool True)] (ring 1 (settle True 1 [Plain JNull, Plain JUndef]
       (when_all [Promise 0, Plain (JStr ''x''), Promise 1] (new_deferred (new_deferred no_promises))))))"

lemma run_gathered_reachable: "deferred_reach run_gathered"
proof -
  let ?a = "new_deferred (new_deferred no_promises)"
  let ?b = "when_all [Promise 0, Plain (JStr ''x''), Promise 1] ?a"
  let ?c = "settle True 1 [Plain JNull, Plain JUndef] ?b" and ?d = "ring 1 (settle True 1 [Plain JNull, Plain JUndef] ?b)"
  let ?e = "settle True 0 [Plain (JBool True)] ?d"
  have a: "deferred_reach ?a" by (rule deferred_reach.further [OF deferred_reach.further [OF deferred_reach.nothing deferred_step.made] deferred_step.made])
  have "list_all (known ?a) [Promise 0, Plain (JStr ''x''), Promise 1]" by (simp add: known_def new_deferred_def no_promises_def)
  then have b: "deferred_reach ?b" using a deferred_step.gathered by (intro deferred_reach.further [OF a]) simp
  have "1 < length (defs ?b)" "\<not> internal ?b 1" "list_all (known ?b) [Plain JNull, Plain JUndef]" by code_simp+
  then have c: "deferred_reach ?c" by (intro deferred_reach.further [OF b] deferred_step.settles)
  have "1 < length (defs ?c)" "ringing (defs ?c ! 1) \<noteq> []" by code_simp+
  then have d: "deferred_reach ?d" by (intro deferred_reach.further [OF c] deferred_step.rings)
  have "0 < length (defs ?d)" "\<not> internal ?d 0" "list_all (known ?d) [Plain (JBool True)]" by code_simp+
  then have e: "deferred_reach ?e" by (intro deferred_reach.further [OF d] deferred_step.settles)
  have "0 < length (defs ?e)" "ringing (defs ?e ! 0) \<noteq> []" by code_simp+
  then show ?thesis unfolding run_gathered_def by (intro deferred_reach.further [OF e] deferred_step.rings)
qed

theorem when_collects_witness:
  "\<exists>us. settled (defs run_gathered ! 2) = Resolved us \<and>
     list_all2 (collected run_gathered) [Promise 0, Plain (JStr ''x''), Promise 1] us"
proof -
  have q: "0 < length (gathers run_gathered)" "plain_parts (gathers run_gathered ! 0)" "master (gathers run_gathered ! 0) = 2"
    "parts (gathers run_gathered ! 0) = [Promise 0, Plain (JStr ''x''), Promise 1]" by code_simp+
  have "case settled (defs run_gathered ! 2) of Resolved us \<Rightarrow> True | _ \<Rightarrow> False" by code_simp
  then obtain us where "settled (defs run_gathered ! 2) = Resolved us" by (auto split: outcome.splits)
  then show ?thesis using when_collects [OF run_gathered_reachable q(1,2), unfolded q(3,4)] by blast
qed

end
