(* ===== verification/UriTexts.thy ===== *)
theory UriTexts
  imports Params "HOL-Library.Word"
begin

text \<open>
  \<open>encodeURIComponent\<close> and the pairs that \<open>jQuery.param\<close> joins, for texts of all code units of 16 bits: a code
  unit of the surrogates that has no partner is the one case in which encoding throws. The query strings
  themselves are ASCII. The reference is a server that reads the bytes as UTF-8.
\<close>

section \<open>Code units\<close>

type_synonym units = "16 word list"

definition high_unit :: "16 word \<Rightarrow> bool" where
  "high_unit u \<longleftrightarrow> 0xD800 \<le> unat u \<and> unat u < 0xDC00"

definition low_unit :: "16 word \<Rightarrow> bool" where
  "low_unit u \<longleftrightarrow> 0xDC00 \<le> unat u \<and> unat u < 0xE000"

definition pair_point :: "16 word \<Rightarrow> 16 word \<Rightarrow> nat" where
  "pair_point u w = 0x10000 + (unat u - 0xD800) * 0x400 + (unat w - 0xDC00)"

section \<open>encodeURIComponent\<close>

definition utf8_bytes :: "nat \<Rightarrow> nat list" where
  "utf8_bytes n =
     (if n < 0x80 then [n]
      else if n < 0x800 then [192 + n div 64, 128 + n mod 64]
      else if n < 0x10000 then [224 + n div 4096, 128 + n div 64 mod 64, 128 + n mod 64]
      else [240 + n div 262144, 128 + n div 4096 mod 64, 128 + n div 64 mod 64, 128 + n mod 64])"

definition encode_point :: "nat \<Rightarrow> string" where
  "encode_point n =
     (if n < 128 \<and> unreserved (char_of n) then [char_of n] else concat (map percent_byte (utf8_bytes n)))"

fun encode_units :: "units \<Rightarrow> string result" where
  "encode_units [] = Inr []"
| "encode_units (u # us) =
     (if low_unit u then Inl URIError
      else if high_unit u
      then (case us of
              [] \<Rightarrow> Inl URIError
            | w # ws \<Rightarrow>
                if low_unit w then bind_res (encode_units ws) (\<lambda>q. Inr (encode_point (pair_point u w) @ q))
                else Inl URIError)
      else bind_res (encode_units us) (\<lambda>q. Inr (encode_point (unat u) @ q)))"

section \<open>The query string\<close>

text \<open>\<open>add\<close> encodes the name and then the value. The members of an object, or the items of a list with
  their names and values, come one after another.\<close>

definition add_text :: "units \<times> units \<Rightarrow> string result" where
  "add_text kv =
     bind_res (encode_units (fst kv)) (\<lambda>k. bind_res (encode_units (snd kv)) (\<lambda>v. Inr (k @ ''='' @ v)))"

definition param_texts :: "(units \<times> units) list \<Rightarrow> string result" where
  "param_texts kvs = bind_res (collect_results (map add_text kvs)) (\<lambda>ws. Inr (join ''&'' ws))"

text \<open>A text of the other theories as code units.\<close>

definition units_of :: "string \<Rightarrow> units" where
  "units_of s = map (\<lambda>c. of_nat (of_char c)) s"

section \<open>Reading a query string\<close>

fun percent_bytes :: "string \<Rightarrow> nat list" where
  "percent_bytes [] = []"
| "percent_bytes (c # s) =
     (if c = CHR ''%'' then (case s of a # b # t \<Rightarrow> byte_of a b # percent_bytes t | _ \<Rightarrow> [])
      else of_char c # percent_bytes s)"

fun utf8_points :: "nat list \<Rightarrow> nat list" where
  "utf8_points [] = []"
| "utf8_points (a # s) =
     (if a < 128 then a # utf8_points s
      else if a < 224
      then (case s of b # t \<Rightarrow> ((a - 192) * 64 + (b - 128)) # utf8_points t | _ \<Rightarrow> [])
      else if a < 240
      then (case s of b # c # t \<Rightarrow> ((a - 224) * 4096 + (b - 128) * 64 + (c - 128)) # utf8_points t | _ \<Rightarrow> [])
      else (case s of
              b # c # d # t \<Rightarrow>
                ((a - 240) * 262144 + (b - 128) * 4096 + (c - 128) * 64 + (d - 128)) # utf8_points t
            | _ \<Rightarrow> []))"

definition point_units :: "nat \<Rightarrow> units" where
  "point_units n =
     (if n < 0x10000 then [of_nat n]
      else [of_nat (0xD800 + (n - 0x10000) div 0x400), of_nat (0xDC00 + (n - 0x10000) mod 0x400)])"

definition read_units :: "string \<Rightarrow> units" where
  "read_units s = concat (map point_units (utf8_points (percent_bytes s)))"

definition read_text_entry :: "string \<Rightarrow> units \<times> units" where
  "read_text_entry s =
     (case split_on (CHR ''='') s of
        k # v # _ \<Rightarrow> (read_units k, read_units v)
      | _ \<Rightarrow> (read_units s, []))"

definition read_texts :: "string \<Rightarrow> (units \<times> units) list" where
  "read_texts s = (if s = [] then [] else map read_text_entry (split_on (CHR ''&'') s))"

section \<open>Lone surrogates\<close>

definition lone :: "units \<Rightarrow> nat \<Rightarrow> bool" where
  "lone us i \<longleftrightarrow>
     high_unit (us ! i) \<and> \<not> (Suc i < length us \<and> low_unit (us ! Suc i)) \<or>
     low_unit (us ! i) \<and> \<not> (0 < i \<and> high_unit (us ! (i - 1)))"

definition well_formed :: "units \<Rightarrow> bool" where
  "well_formed us \<longleftrightarrow> list_all (\<lambda>i. \<not> lone us i) [0..<length us]"

lemma not_high_low: "high_unit u \<Longrightarrow> \<not> low_unit u"
  by (simp add: high_unit_def low_unit_def)

lemma well_formed_all: "well_formed us \<longleftrightarrow> (\<forall>i < length us. \<not> lone us i)"
  by (auto simp: well_formed_def list_all_iff)

lemma well_formed_Nil: "well_formed []"
  by (simp add: well_formed_def)

lemma well_formed_single:
  assumes "\<not> high_unit u"
  shows "well_formed (u # us) \<longleftrightarrow> \<not> low_unit u \<and> well_formed us"
proof -
  have "lone (u # us) (Suc i) \<longleftrightarrow> lone us i" if "i < length us" for i
    using that assms by (cases i) (auto simp: lone_def)
  moreover have "lone (u # us) 0 \<longleftrightarrow> low_unit u" using assms by (auto simp: lone_def)
  ultimately show ?thesis unfolding well_formed_all by (simp add: All_less_Suc2)
qed

lemma well_formed_pair:
  assumes "high_unit u"
  shows "well_formed (u # us) \<longleftrightarrow> (case us of [] \<Rightarrow> False | w # ws \<Rightarrow> low_unit w \<and> well_formed ws)"
proof (cases us)
  case (Cons w ws)
  show ?thesis
  proof (cases "low_unit w")
    case True
    then have w: "\<not> high_unit w" using not_high_low by blast
    have "lone (u # w # ws) (Suc (Suc i)) \<longleftrightarrow> lone ws i" if "i < length ws" for i
      using that w by (cases i) (auto simp: lone_def)
    moreover have "\<not> lone (u # w # ws) 0" "\<not> lone (u # w # ws) (Suc 0)"
      using True w assms not_high_low by (auto simp: lone_def)
    ultimately show ?thesis using True unfolding well_formed_all Cons by (simp add: All_less_Suc2)
  next
    case False
    then have "lone (u # w # ws) 0" using assms by (simp add: lone_def)
    then show ?thesis using False unfolding well_formed_all Cons by auto
  qed
next
  case Nil
  then show ?thesis using assms by (auto simp: well_formed_all lone_def)
qed

section \<open>What is encoded\<close>

lemma pair_point_bounds:
  assumes "high_unit u" "low_unit w"
  shows "0x10000 \<le> pair_point u w" "pair_point u w < 0x110000" "point_units (pair_point u w) = [u, w]"
proof -
  define a b where ab: "a = unat u - 0xD800" "b = unat w - 0xDC00"
  have a: "a < 0x400" "unat u = 0xD800 + a" and b: "b < 0x400" "unat w = 0xDC00 + b"
    using assms by (auto simp: ab high_unit_def low_unit_def)
  have p: "pair_point u w = 0x10000 + (a * 0x400 + b)" by (simp add: pair_point_def ab)
  then show "0x10000 \<le> pair_point u w" "pair_point u w < 0x110000" using a(1) b(1) by simp_all
  have "(a * 0x400 + b) div 0x400 = a" "(a * 0x400 + b) mod 0x400 = b" using b(1) by simp_all
  then show "point_units (pair_point u w) = [u, w]"
    using a(2) b(2) by (simp add: point_units_def p flip: a(2) b(2))
qed

text \<open>The code points of a text without lone surrogates.\<close>

definition points_of :: "units \<Rightarrow> nat list \<Rightarrow> bool" where
  "points_of us ps \<longleftrightarrow>
     encode_units us = Inr (concat (map encode_point ps)) \<and> list_all (\<lambda>p. p < 0x110000) ps \<and> concat (map point_units ps) = us"

lemma points_pair:
  assumes "high_unit u" "low_unit w" "points_of ws ps"
  shows "points_of (u # w # ws) (pair_point u w # ps)"
  using assms pair_point_bounds [OF assms(1,2)] not_high_low [OF assms(1)] by (simp add: points_of_def)

lemma points_single:
  assumes "\<not> high_unit u" "\<not> low_unit u" "points_of us ps"
  shows "points_of (u # us) (unat u # ps)"
proof -
  have "unat u < 0x10000" using unsigned_less [of u, where ?'a = nat] by simp
  then have "point_units (unat u) = [u]" "unat u < 0x110000" by (simp_all add: point_units_def)
  then show ?thesis using assms by (simp add: points_of_def)
qed

lemma encode_units_points: "if well_formed us then \<exists>ps. points_of us ps else encode_units us = Inl URIError"
proof (induction us rule: encode_units.induct)
  case 1
  have "points_of [] []" by (simp add: points_of_def)
  then show ?case using well_formed_Nil by auto
next
  case (2 u us)
  show ?case
  proof (cases "high_unit u")
    case high: True
    note n = not_high_low [OF high]
    show ?thesis
    proof (cases us)
      case (Cons w ws)
      show ?thesis
      proof (cases "low_unit w")
        case True
        note IH = 2(1) [OF n high Cons True]
        show ?thesis
        proof (cases "well_formed ws")
          case wf: True
          then have "\<exists>ps. points_of (u # us) ps" using IH points_pair [OF high True] Cons by auto
          then show ?thesis using wf True by (simp add: well_formed_pair [OF high] Cons)
        qed (use IH True n high in \<open>simp add: well_formed_pair [OF high] Cons\<close>)
      qed (use n high in \<open>simp add: well_formed_pair [OF high] Cons\<close>)
    qed (use n high in \<open>simp add: well_formed_pair [OF high]\<close>)
  next
    case high: False
    show ?thesis
    proof (cases "low_unit u")
      case low: False
      note IH = 2(2) [OF low high]
      show ?thesis
      proof (cases "well_formed us")
        case True
        then have "\<exists>ps. points_of (u # us) ps" using IH points_single [OF high low] by auto
        then show ?thesis using True low by (simp add: well_formed_single [OF high])
      qed (use IH high low in \<open>simp add: well_formed_single [OF high]\<close>)
    qed (simp add: well_formed_single [OF high])
  qed
qed

section \<open>Reading back\<close>

lemma utf8_back:
  assumes "n < 0x110000"
  shows "utf8_points (utf8_bytes n @ r) = n # utf8_points r" and "list_all (\<lambda>b. b < 256) (utf8_bytes n)"
proof -
  define a b c d where abcd: "a = n div 262144" "b = n div 4096 mod 64" "c = n div 64 mod 64" "d = n mod 64"
  have e: "n div 4096 = 64 * a + b" "n div 64 = 4096 * a + 64 * b + c"
    using div_mult_mod_eq [of "n div 4096" 64] div_mult_mod_eq [of "n div 64" 64] by (simp_all add: abcd div_mult2_eq [symmetric])
  have n: "n = 262144 * a + 4096 * b + 64 * c + d" using div_mult_mod_eq [of n 64] e(2) by (simp add: abcd(4))
  have "b < 64" "c < 64" "d < 64" by (simp_all add: abcd)
  moreover have "a < 5" using assms n by linarith
  ultimately have l: "a < 5" "b < 64" "c < 64" "d < 64" by blast+
  have q: "n div 4096 mod 64 = b" "n div 64 mod 64 = c" "n mod 64 = d" "n div 262144 = a" by (simp_all add: abcd)
  have bytes: "utf8_bytes n =
     (if n < 0x80 then [n] else if n < 0x800 then [192 + (4096 * a + 64 * b + c), 128 + d]
      else if n < 0x10000 then [224 + (64 * a + b), 128 + c, 128 + d] else [240 + a, 128 + b, 128 + c, 128 + d])"
    unfolding utf8_bytes_def q unfolding e by (rule refl)
  consider "n < 0x80" | "0x80 \<le> n" "n < 0x800" "a = 0" "b = 0" "c < 32" | "0x800 \<le> n" "n < 0x10000" "a = 0" "b < 16" | "0x10000 \<le> n"
    using n by linarith
  then have "utf8_points (utf8_bytes n @ r) = n # utf8_points r \<and> list_all (\<lambda>b. b < 256) (utf8_bytes n)"
  proof cases
    case 2
    then show ?thesis unfolding bytes using n l by simp
  next
    case 3
    then show ?thesis unfolding bytes using n l by simp
  next
    case 4
    then show ?thesis unfolding bytes using n l by simp
  qed (simp add: bytes)
  then show "utf8_points (utf8_bytes n @ r) = n # utf8_points r" "list_all (\<lambda>b. b < 256) (utf8_bytes n)" by blast+
qed

lemma percent_byte_back: "b < 256 \<Longrightarrow> percent_bytes (percent_byte b @ r) = b # percent_bytes r"
  by (simp add: percent_byte_def byte_of_percent)

lemma percent_bytes_back: "list_all (\<lambda>b. b < 256) bs \<Longrightarrow> percent_bytes (concat (map percent_byte bs) @ r) = bs @ percent_bytes r"
  by (induction bs) (simp_all add: percent_byte_back)

lemma encode_point_back:
  assumes "n < 0x110000"
  shows "percent_bytes (encode_point n @ r) = utf8_bytes n @ percent_bytes r"
proof (cases "n < 128 \<and> unreserved (char_of n)")
  case True
  then have "char_of n \<noteq> CHR ''%''" using reserved(1) by metis
  then show ?thesis using True by (simp add: encode_point_def utf8_bytes_def)
next
  case False
  then show ?thesis unfolding encode_point_def using percent_bytes_back [OF utf8_back(2) [OF assms]] by (simp only: if_False)
qed

lemma encode_points_back:
  "list_all (\<lambda>p. p < 0x110000) ps \<Longrightarrow> utf8_points (percent_bytes (concat (map encode_point ps))) = ps"
  by (induction ps) (simp_all add: encode_point_back utf8_back)

lemma percent_separator: "list_all (\<lambda>b. b < 256) bs \<Longrightarrow> set (concat (map percent_byte bs)) \<inter> set ''&='' = {}"
proof (induction bs)
  case (Cons b bs)
  then have "set (percent_byte b) \<inter> set ''&='' = {}" using percent_no_separator [of b] by (auto simp: percent_byte_def)
  then show ?case using Cons by auto
qed simp

lemma encode_point_separator:
  assumes "n < 0x110000"
  shows "set (encode_point n) \<inter> set ''&='' = {}"
proof (cases "n < 128 \<and> unreserved (char_of n)")
  case True
  then have "char_of n \<noteq> CHR ''&''" "char_of n \<noteq> CHR ''=''" using reserved(2,3) by metis+
  then show ?thesis using True by (simp add: encode_point_def)
next
  case False
  then show ?thesis unfolding encode_point_def using percent_separator [OF utf8_back(2) [OF assms]] by (simp only: if_False)
qed

lemma encoded_text:
  assumes "well_formed us"
  obtains q where "encode_units us = Inr q" "read_units q = us" "set q \<inter> set ''&='' = {}"
proof -
  obtain ps where ps: "encode_units us = Inr (concat (map encode_point ps))" "list_all (\<lambda>p. p < 0x110000) ps"
    "concat (map point_units ps) = us" using encode_units_points [of us] assms by (auto simp: points_of_def)
  have "set (concat (map encode_point ps)) \<inter> set ''&='' = {}"
    using ps(2) encode_point_separator by (auto simp: list_all_iff)
  then show thesis using that ps by (simp add: read_units_def encode_points_back)
qed

lemma ill_formed_text: "\<not> well_formed us \<Longrightarrow> encode_units us = Inl URIError"
  using encode_units_points [of us] by simp

text \<open>The names and values that are read back, and the only error.\<close>

lemma added_text:
  "if well_formed (fst kv) \<and> well_formed (snd kv)
   then \<exists>w. add_text kv = Inr w \<and> read_text_entry w = kv \<and> CHR ''&'' \<notin> set w \<and> w \<noteq> []
   else add_text kv = Inl URIError"
proof (cases "well_formed (fst kv) \<and> well_formed (snd kv)")
  case True
  obtain q where q: "encode_units (fst kv) = Inr q" "read_units q = fst kv" "set q \<inter> set ''&='' = {}"
    using encoded_text [of "fst kv"] True by blast
  obtain r where r: "encode_units (snd kv) = Inr r" "read_units r = snd kv" "set r \<inter> set ''&='' = {}"
    using encoded_text [of "snd kv"] True by blast
  have "CHR ''='' \<notin> set q" "CHR ''='' \<notin> set r" "CHR ''&'' \<notin> set (q @ ''='' @ r)" using q(3) r(3) by auto
  then have "read_text_entry (q @ ''='' @ r) = kv" using q(2) r(2)
    by (simp add: read_text_entry_def split_on_append split_on_absent)
  then show ?thesis using True q(1) r(1) \<open>CHR ''&'' \<notin> set (q @ ''='' @ r)\<close> by (simp add: add_text_def)
next
  case False
  show ?thesis
  proof (cases "well_formed (fst kv)")
    case True
    then obtain q where "encode_units (fst kv) = Inr q" using encoded_text by blast
    then show ?thesis using ill_formed_text [of "snd kv"] True False by (simp add: add_text_def)
  qed (use ill_formed_text [of "fst kv"] in \<open>simp add: add_text_def\<close>)
qed

lemma added_texts:
  "if list_all (\<lambda>kv. well_formed (fst kv) \<and> well_formed (snd kv)) kvs
   then \<exists>ws. collect_results (map add_text kvs) = Inr ws \<and> map read_text_entry ws = kvs \<and>
     list_all (\<lambda>w. CHR ''&'' \<notin> set w \<and> w \<noteq> []) ws
   else collect_results (map add_text kvs) = Inl URIError"
proof (induction kvs)
  case (Cons kv kvs)
  show ?case
  proof (cases "well_formed (fst kv) \<and> well_formed (snd kv)")
    case True
    then obtain w where w: "add_text kv = Inr w" "read_text_entry w = kv" "CHR ''&'' \<notin> set w \<and> w \<noteq> []"
      using added_text [of kv] by auto
    show ?thesis
    proof (cases "list_all (\<lambda>kv. well_formed (fst kv) \<and> well_formed (snd kv)) kvs")
      case wf: True
      then obtain ws where "collect_results (map add_text kvs) = Inr ws" "map read_text_entry ws = kvs"
        "list_all (\<lambda>w. CHR ''&'' \<notin> set w \<and> w \<noteq> []) ws" using Cons by auto
      then show ?thesis using w True wf by (simp add: split_beta)
    qed (use Cons w in \<open>simp add: split_beta\<close>)
  qed (use added_text [of kv] in \<open>auto simp: split_beta\<close>)
qed simp

lemma query_read:
  assumes "list_all (\<lambda>w. CHR ''&'' \<notin> set w \<and> w \<noteq> []) ws"
  shows "read_texts (join ''&'' ws) = map read_text_entry ws"
proof (cases ws)
  case (Cons w vs)
  have s: "split_on (CHR ''&'') (join ''&'' ws) = ws" using assms Cons by (intro split_on_join) (auto simp: list_all_iff)
  have "join ''&'' ws \<noteq> []" using assms Cons by (cases vs) simp_all
  then show ?thesis unfolding read_texts_def s by simp
qed (simp add: read_texts_def)

section \<open>Texts of code units below 256\<close>

lemma units_of_plain:
  "unat (of_nat (of_char c) :: 16 word) = of_char c" "\<not> high_unit (of_nat (of_char c))" "\<not> low_unit (of_nat (of_char c))"
proof -
  obtain n where n: "(of_char c :: nat) = n" "n < 256" by simp
  show u: "unat (of_nat (of_char c) :: 16 word) = of_char c" using n(2) unfolding n(1) by (simp add: unsigned_of_nat take_bit_nat_def)
  show "\<not> high_unit (of_nat (of_char c))" "\<not> low_unit (of_nat (of_char c))"
    unfolding high_unit_def low_unit_def u unfolding n(1) using n(2) by simp_all
qed

lemma unreserved_ascii: "unreserved c \<Longrightarrow> (of_char c :: nat) < 128"
  by (auto simp: unreserved_def is_digit_of_char less_eq_char_def)

lemma encode_point_char: "encode_point (of_char c) = encode_char c"
proof (cases "(of_char c :: nat) < 128")
  case True
  then show ?thesis by (simp add: encode_point_def encode_char_def Let_def utf8_bytes_def)
next
  case False
  obtain n where n: "(of_char c :: nat) = n" "n < 256" by simp
  have "\<not> unreserved c" "\<not> n < 128" using False unreserved_ascii [of c] n(1) by auto
  then show ?thesis using n(2) unfolding encode_point_def encode_char_def Let_def n(1) by (simp add: utf8_bytes_def)
qed

lemma encode_units_of: "encode_units (units_of s) = Inr (encode_component s)"
  by (induction s) (simp_all add: units_of_def encode_component_def units_of_plain encode_point_char)

lemma add_text_of: "add_text (units_of k, units_of v) = Inr (add_entry call (k, JStr v))"
  by (simp add: add_text_def encode_units_of add_entry_def is_function_def)

lemma param_texts_of:
  "param_texts (map (\<lambda>(k, v). (units_of k, units_of v)) kvs) = Inr (query_of call (map (\<lambda>(k, v). (k, JStr v)) kvs))"
proof -
  have "collect_results (map add_text (map (\<lambda>(k, v). (units_of k, units_of v)) kvs)) =
      Inr (map (add_entry call) (map (\<lambda>(k, v). (k, JStr v)) kvs))"
    by (induction kvs) (simp_all add: case_prod_beta add_text_of [of _ _ call])
  then show ?thesis by (simp add: param_texts_def query_of_def)
qed

section \<open>Round trip\<close>

text \<open>C40: \<open>jQuery.param\<close> makes a query string of any object whose members are texts, or of a list of items with names
  and values that are texts, unless a name or a value has a lone surrogate: then \<open>encodeURIComponent\<close> throws a
  \<open>URIError\<close>. Reading the string back gives all names and values again in their order. On texts of code units below
  256 this is, for an object as for a list, what the model of \<open>jQuery.param\<close> for all values makes.\<close>

theorem param_roundtrip:
  "(if list_all (\<lambda>kv. well_formed (fst kv) \<and> well_formed (snd kv)) kvs
    then \<exists>q. param_texts kvs = Inr q \<and> read_texts q = kvs
    else param_texts kvs = Inl URIError) \<and>
   param_texts (map (\<lambda>(k, v). (units_of k, units_of v)) ms) = jquery_param call traditional (JObj (map (\<lambda>(k, v). (k, JStr v)) ms)) \<and>
   param_texts (map (\<lambda>(k, v). (units_of k, units_of v)) ms) =
     jquery_param call traditional (JArr (map (\<lambda>(k, v). JObj [(''name'', JStr k), (''value'', JStr v)]) ms))"
proof (intro conjI)
  show "if list_all (\<lambda>kv. well_formed (fst kv) \<and> well_formed (snd kv)) kvs
    then \<exists>q. param_texts kvs = Inr q \<and> read_texts q = kvs else param_texts kvs = Inl URIError"
    using added_texts [of kvs] query_read by (auto simp: param_texts_def split: if_splits)
  have "concat (map (\<lambda>(k, v). build_params traditional k v) (map (\<lambda>(k, s). (k, JStr s)) ms)) = map (\<lambda>(k, s). (k, JStr s)) ms"
    by (induction ms) auto
  then show "param_texts (map (\<lambda>(k, v). (units_of k, units_of v)) ms) = jquery_param call traditional (JObj (map (\<lambda>(k, v). (k, JStr v)) ms))"
    by (simp add: param_texts_of [of _ call] jquery_param_def param_members_def own_members_def)
  have "collect_results (map name_value (map (\<lambda>(k, v). JObj [(''name'', JStr k), (''value'', JStr v)]) ms)) = Inr (map (\<lambda>(k, v). (k, JStr v)) ms)"
    by (induction ms) (auto simp: name_value_def jget_def)
  then show "param_texts (map (\<lambda>(k, v). (units_of k, units_of v)) ms) =
     jquery_param call traditional (JArr (map (\<lambda>(k, v). JObj [(''name'', JStr k), (''value'', JStr v)]) ms))"
    by (simp add: param_texts_of [of _ call] jquery_param_def)
qed

end
