(* ===== verification/Spec2Isabelle.thy ===== *)
theory Spec2Isabelle
  imports Upload TokenServer CheckDigitProps IdentifierProps PatternProps
    SessionProps CheckingProps RulesProps UnobtrusiveProps CallbackProps TaskQueueProps
    ElementDataProps EventHandlerProps AjaxResponseProps AjaxRequestProps AjaxOptionProps
    DeferredProps GatherProps UriTexts
begin

text \<open>
  Verification of the JavaScript programs of this repository.

  The repository is a collection of samples. Two of them have program logic in JavaScript: the
  sample that uploads a large file in chunks (\<open>src/Samples/LargeFileUploadSample\<close>), with the form validation scripts
  that its pages load, and the token server \<open>src/Nodejs/Azure-AAD-MI/app.js\<close>. Paths below are
  relative to \<open>LargeFileUploadSample/wwwroot\<close> unless they say otherwise.

  1. Parts and how they interact

  \<^item> Chunked upload (\<open>js/upload.js\<close>): \<open>uploadFileInChunks\<close> cuts a file and starts one reader and one
    request per chunk; the action \<open>Upload\<close> of \<open>Controllers/HomeController.cs\<close> stores a chunk.
  \<^item> Token server (\<open>app.js\<close>): fetches a token at start and for every request, and shows the shared
    one.
  \<^item> Validator (\<open>lib/jquery-validation/dist/jquery.validate.js\<close>): a form has one validator. Events of the
    page call \<open>element\<close> or \<open>form\<close>; these collect the rules of each field, call the methods in the
    order of the rules, keep the lists of errors and show labels. The method \<open>remote\<close> sends a request
    and the answer calls back into the validator, which may resume a submission that waits.
  \<^item> Methods (\<open>additional-methods.js\<close> beside it): functions of the value of a field.
  \<^item> Unobtrusive adapters (\<open>lib/jquery-validation-unobtrusive\<close>): turn \<open>data-val\<close> attributes into the
    validator's options and put its labels into the page's message containers.

  2. Theories

  Shared. \<open>Prelude\<close>: objects as property lists in insertion order (locale \<open>js_object\<close>, interpreted on
  them), exceptions as sums. \<open>JsString\<close>, \<open>JsNumber\<close>, \<open>JsDate\<close>: string operations, numbers, dates of the
  language. \<open>Regex\<close>: patterns and the backtracking matcher; \<open>RegexLang\<close>: the language of a pattern, and
  that an anchored or plain test is membership in it; \<open>RegexParse\<close>: \<open>new RegExp\<close>.

  Upload and server. \<open>Upload\<close>: \<open>chunks_of\<close> and the step relation of the asynchronous part; an
  invariant by rule induction, a measure for termination, what arrives at the server.
  \<open>TokenServer\<close>: the states of \<open>app.js\<close> and the steps of its callbacks.

  Methods. \<open>MethodBase\<close>: results of methods and arithmetic of check digits. \<open>CheckDigits\<close>,
  \<open>Identifiers\<close>, \<open>PatternMethods\<close>: one definition for each method of \<open>additional-methods.js\<close> with the
  name of the method; \<open>CheckDigitProps\<close>, \<open>IdentifierProps\<close>, \<open>PatternProps\<close>: the published rule each one
  implements, which errors it detects, and where it departs from its documentation.

  jQuery (\<open>lib/jquery/dist/jquery.js\<close>), the parts with logic of their own: \<open>Callbacks\<close> models callback
  lists (what a called function does is a parameter, firing is a partial function), \<open>CallbackProps\<close> shows what their flags
  guarantee; \<open>Params\<close> models \<open>param\<close> with a reference reader of query strings, and \<open>UriTexts\<close>
  its encoding of texts of all 16-bit code units, which fails for lone surrogates; \<open>TaskQueue\<close> models \<open>queue\<close> and
  \<open>dequeue\<close>, and \<open>TaskQueueProps\<close> that they refine a first-in first-out queue; \<open>ElementData\<close> models \<open>camelCase\<close>, the
  cache \<open>Data\<close> and data attributes, from which \<open>ElementDataProps\<close> derives the attribute a rule is read from.
  \<open>EventHandlers\<close> models \<open>on\<close>, \<open>one\<close>, \<open>off\<close>, the listeners of the element (and those of the document that
  replace \<open>focusin\<close> and \<open>focusout\<close> where the browser lacks them) and the dispatch of browser events, \<open>EventNamespaces\<close> what the pattern of
  namespaces matches, and \<open>EventHandlerProps\<close> shows which handlers are kept, taken off and called.
  \<open>AjaxResponses\<close> models prefilters and transports, the choice of a data type for a response and its conversion, and
  \<open>AjaxResponseProps\<close> shows that a conversion ends and fits the types.
  \<open>AjaxRequests\<close> is the step relation of requests (with the prefilter of the validator that aborts the previous request of
  a port); \<open>AjaxRequestProps\<close> reduces its steps to moves of one request, and interprets the locale \<open>ajax_invariant\<close> for
  what is told of a request (callbacks that a request without \<open>beforeSend\<close> gets after it was aborted included), the counter
  of active requests and the ports. \<open>AjaxOptions\<close> models the URL and the headers up to what the transport hands the
  browser, and \<open>AjaxOptionProps\<close> compares them with what the options ask for.
  \<open>Deferreds\<close> is the step relation of \<open>Deferred\<close>, \<open>then\<close> and \<open>when\<close>; in \<open>DeferredProps\<close> the locale \<open>chaining_laws\<close> carries an
  invariant of the operations to every reachable state, and the locale \<open>deferred_laws\<close>, a sublocale of it, gives those laws from laws of
  elementary updates; its interpretation yields the order and the outcomes of calls of \<open>then\<close>. \<open>Gatherings\<close> has the
  invariant of one call of \<open>when\<close>, and \<open>GatherProps\<close> interprets \<open>chaining_laws\<close> on that of all calls: which values
  the promise of \<open>when\<close> gets, and that it does not stay pending.

  Validator. The theories follow the file:
  \<^item> \<open>Dom\<close>: values (\<open>jsv\<close>), fields (\<open>elem\<close>, the properties and attributes the scripts read), labels and
    containers (\<open>node\<close>), and the parameters of the model in the record \<open>env\<close>.
  \<^item> \<open>FormFields\<close>: \<open>elementValue\<close>, \<open>validationTargetFor\<close>, \<open>getLength\<close>, \<open>optional\<close> and the built-in methods.
  \<^item> \<open>Settings\<close>: \<open>defaults\<close>, the tables of methods, messages and class rules, highlighting;
    \<open>core_of\<close> is what validation must not change of a field.
  \<^item> \<open>Rules\<close>: \<open>classRules\<close>, \<open>attributeRules\<close>, \<open>dataRules\<close>, \<open>staticRules\<close>, \<open>normalizeRules\<close>, \<open>rules()\<close>.
  \<^item> \<open>Messages\<close>: \<open>format\<close>, \<open>defaultMessage\<close>.
  \<^item> \<open>Validator\<close>: the state \<open>vst\<close> (the fields of the validator object, the page, the settings that change, and the
    effects in their order) and steps \<open>vm\<close> that return a value or throw and always give the next state;
    \<open>keeps I m\<close> says that a step keeps \<open>I\<close> also when it throws, with one rule for each combinator.
  \<^item> \<open>Labels\<close>: \<open>errorsFor\<close>, \<open>showLabel\<close>, \<open>showErrors\<close>; locale \<open>presentation\<close>.
  \<^item> \<open>Checking\<close>: \<open>elements\<close>, \<open>check\<close>, \<open>element\<close>, \<open>form\<close>, \<open>resetForm\<close>; locales \<open>ledger\<close> and \<open>validation\<close>.
  \<^item> \<open>Events\<close>: the delegated handlers, \<open>valid()\<close>, the submit listener, \<open>focusInvalid\<close>.
  \<^item> \<open>Requests\<close>: \<open>startRequest\<close>, \<open>stopRequest\<close>, \<open>previousValue\<close>, \<open>remote\<close> with its callback, \<open>destroy\<close>.
  \<^item> \<open>Plugin\<close>: the table of methods, \<open>init\<close>, \<open>validate()\<close>, the pseudo selectors; locales \<open>asking\<close>,
    \<open>answering\<close> and \<open>session\<close>.
  \<^item> \<open>Unobtrusive\<close>: the adapters script, in its order.
  \<^item> \<open>Sessions\<close>: everything that can happen to a form as a datatype of events, their effect
    (\<open>happen\<close>), the reachable states, and the interpretations of the locales on the model.
  \<^item> \<open>Sample\<close>: the pages on which properties are instantiated.

  3. The interfaces

  A locale fixes a predicate on the state and assumes that the primitive updates of one level keep it;
  inside, every operation of that level is shown to keep it. \<open>presentation\<close> covers what shows errors,
  \<open>ledger\<close> and \<open>validation\<close> checking, \<open>asking\<close> and \<open>answering\<close> requests, \<open>session\<close> all of it, and \<open>submitting\<close>
  adds the submission. They are interpreted on the fields that validation must not change
  (\<open>fields\<close>), the submissions sent so far (\<open>subm\<close>), the count of requests (\<open>requests\<close>), the requests that are
  pending (\<open>frz\<close>), the lists of errors (\<open>lists\<close>, \<open>ledgers\<close>) and the name that is waited for (\<open>await\<close>); the
  properties rest on the facts these interpretations give.

  4. What the lemmas show

  \<^item> \<open>SessionProps\<close>: validation changes no field; a form is only sent after a passed validation with no
    request under way (or when validation is off, cancelled or broken off by an exception); the
    count of pending requests is the size of the set of pending names, and the events refine the
    operations on this set; a waiting submission is sent by the last accepted answer; a lost request
    blocks it.
  \<^item> \<open>CheckingProps\<close>: which fields are validated, which rule decides, and the agreement of the books
    (result, list and map of errors, table of invalid fields) after a validation.
  \<^item> \<open>RulesProps\<close>: order and form of the rules of a field, the attribute \<open>maxlength\<close>, when \<open>remote\<close> asks the
    server, and the message it borrows.
  \<^item> \<open>UnobtrusiveProps\<close>: what \<open>parse\<close> collects, and attribute names that are ignored.
  \<^item> The properties of the upload, the server and the methods stand in the theories named above.

  5. Abstractions and bounds

  \<^item> Code units are below 256 (\<^typ>\<open>char\<close>), but in \<open>UriTexts\<close>, where they have 16 bits; numbers are NaN, infinities and exact rationals: rounding of
    doubles and the exponent form of numbers from \<open>10 ^ 21\<close> on are not modelled.
  \<^item> Every loop is a structural recursion or a function with a termination proof, but firing a callback
    list and the conversion of a response, which may not end and are partial functions; there is no fuel. \<open>decimals\<close> writes at most seventeen decimals.
  \<^item> The order of properties is that of insertion; keys that are array indices are not moved to the front.
  \<^item> Class lists are lists of names; the settings \<open>errorClass\<close> and \<open>validClass\<close> name classes separated by
    single spaces. A label's wrapper is a flag of the label, and labels have at most one container each.
  \<^item> Parameters of the model (record \<open>env\<close>): the selector engine, the functions that the page's author
    passes as options or as data of a request, the text of an object, \<open>new Date( text )\<close>; \<open>$.parseJSON\<close> for the
    adapters, and the tokens that \<open>getToken\<close> of the credential gives. Text that \<open>$.parseJSON\<close> cannot read ends the
    callback without effect.
  \<^item> The \<open>name\<close> of an element that has no such property is the empty text instead of \<open>undefined\<close>. Exceptions of
    converters are true values (\<open>ajaxConvert\<close> takes a falsy one for none).
  \<^item> \<open>default_hooks\<close> (a hypothesis of several properties) says that the author's functions for highlighting and showing are the
    defaults; \<open>settled\<close> says that editable elements already carry the form and name that the first validation gives them.

  6. Not modelled

  \<^item> Of \<open>additional-methods.js\<close>: \<open>require_from_group\<close> and \<open>skip_or_fill_minimum\<close>, which validate with a copy of the
    validator that shares its tables.
  \<^item> jQuery but for \<open>Callbacks\<close>, \<open>param\<close>, element data, task queues, event handlers (without \<open>trigger\<close>), requests and responses of \<open>ajax\<close> (the built-in transports are not modelled), \<open>Deferred\<close> (without progress), shallow \<open>extend\<close>, \<open>addClass\<close> and \<open>removeClass\<close>, and the Bootstrap scripts: third-party libraries
    that the scripts only call; \<open>site.js\<close> is empty.
  \<^item> The event \<open>focusin\<close> that the browser fires when \<open>focusInvalid\<close> moves the focus; the warnings written to
    the console.
  \<^item> The samples in other languages, deployment files and slides.
\<close>

end
